(* ===== verification/Prelude.thy ===== *)
theory Prelude
  imports Main "HOL-Library.Word"
begin

section \<open>Results, faults and generic lemmas\<close>

text \<open>
  What every component of the development shares: the fault type and the result type of
  the modelled C and C++ code, sequencing of fallible steps, and lemmas on lists that the
  buffer and queue proofs use.

  A C function that can leave the defined behaviour of the language, or stop the process,
  is a function into \<open>'a res\<close>. \<open>Inl f\<close> says how it went wrong:
  \<^item> \<open>OutOfBounds\<close>: a read or a write outside the array (or before its start);
  \<^item> \<open>NullDeref\<close>: a library call or an access through a null pointer;
  \<^item> \<open>Unrepresentable\<close>: a conversion whose value does not fit the result type;
  \<^item> \<open>Blocked\<close>: the call waits for ever;
  \<^item> \<open>NotLocked\<close>: a mutex that is not held is unlocked;
  \<^item> \<open>Die msg\<close>: the process reports \<open>msg\<close> and exits.
\<close>

datatype fault = OutOfBounds | NullDeref | Unrepresentable | Blocked | NotLocked | Die string

type_synonym 'a res = "fault + 'a"

named_theorems res_simps \<open>rewriting of sequenced fallible steps\<close>
named_theorems cstr_simps \<open>rewriting of C buffer operations\<close>

subsection \<open>Sequencing\<close>

definition bindr :: "'a res \<Rightarrow> ('a \<Rightarrow> 'b res) \<Rightarrow> 'b res" where
  "bindr m f = (case m of Inl e \<Rightarrow> Inl e | Inr x \<Rightarrow> f x)"

lemma bindr_Inl [simp, res_simps]: "bindr (Inl e) f = Inl e"
  by (simp add: bindr_def)

lemma bindr_Inr [simp, res_simps]: "bindr (Inr x) f = f x"
  by (simp add: bindr_def)

lemma bindr_eq_Inr: "bindr m f = Inr y \<longleftrightarrow> (\<exists>x. m = Inr x \<and> f x = Inr y)"
  by (cases m) auto

lemma bindr_eq_Inl: "bindr m f = Inl e \<longleftrightarrow> m = Inl e \<or> (\<exists>x. m = Inr x \<and> f x = Inl e)"
  by (cases m) auto

lemma bindr_InrE:
  assumes "bindr m f = Inr y"
  obtains x where "m = Inr x" "f x = Inr y"
  using assms by (auto simp: bindr_eq_Inr)

lemma bindr_assoc: "bindr (bindr m f) g = bindr m (\<lambda>x. bindr (f x) g)"
  by (cases m) auto

lemma bindr_cong [fundef_cong]:
  assumes "m = m'" and "\<And>x. m' = Inr x \<Longrightarrow> f x = g x"
  shows "bindr m f = bindr m' g"
  using assms by (cases m') auto

lemma bindr_if: "bindr (if b then m else m') f = (if b then bindr m f else bindr m' f)"
  by simp

subsection \<open>What holds of every result\<close>

text \<open>\<open>post m P\<close>: when \<open>m\<close> gives a result, \<open>P\<close> holds of it. The rules go through a body step by step.\<close>

definition post :: "'a res \<Rightarrow> ('a \<Rightarrow> bool) \<Rightarrow> bool" where
  "post m P = (case m of Inl _ \<Rightarrow> True | Inr x \<Rightarrow> P x)"

lemma post_simps [simp]: "post (Inl e) P" "post (Inr x) P = P x"
  by (simp_all add: post_def)

lemma postD: "post m P \<Longrightarrow> m = Inr x \<Longrightarrow> P x"
  by simp

lemma postI: "(\<And>x. m = Inr x \<Longrightarrow> P x) \<Longrightarrow> post m P"
  by (cases m) auto

lemma post_bindr: "(\<And>x. m = Inr x \<Longrightarrow> post (f x) P) \<Longrightarrow> post (bindr m f) P"
  by (cases m) auto

lemma post_mono: "post m P \<Longrightarrow> (\<And>x. P x \<Longrightarrow> Q x) \<Longrightarrow> post m Q"
  by (cases m) auto

lemma post_if: "(b \<Longrightarrow> post m P) \<Longrightarrow> (\<not> b \<Longrightarrow> post n P) \<Longrightarrow> post (if b then m else n) P"
  by simp

lemma post_let: "(\<And>y. y = x \<Longrightarrow> post (f y) P) \<Longrightarrow> post (let y = x in f y) P"
  by simp

lemma post_option:
  "(z = None \<Longrightarrow> post m P) \<Longrightarrow> (\<And>y. z = Some y \<Longrightarrow> post (f y) P)
    \<Longrightarrow> post (case z of None \<Rightarrow> m | Some y \<Rightarrow> f y) P"
  by (cases z) auto

lemma post_prod: "(\<And>a b. z = (a, b) \<Longrightarrow> post (f a b) P) \<Longrightarrow> post (case z of (a, b) \<Rightarrow> f a b) P"
  by (cases z) auto

lemmas post_rules = post_bindr post_if post_let post_option post_prod

subsection \<open>Lists\<close>

lemma takeWhile_append_hit:
  assumes "\<forall>x\<in>set xs. P x" and "\<not> P y"
  shows "takeWhile P (xs @ y # ys) = xs"
  using assms by (induction xs) auto

lemma list_update_append_mid: "(xs @ y # ys)[length xs := z] = xs @ z # ys"
  by (induction xs) auto

lemma nth_append_mid: "(xs @ y # ys) ! length xs = y"
  by simp

lemma drop_update_lt: "i < k \<Longrightarrow> drop k (xs[i := y]) = drop k xs"
  by (simp add: drop_update_cancel)

lemma take_update_ge: "k \<le> i \<Longrightarrow> take k (xs[i := y]) = take k xs"
  by (simp add: take_update_cancel)

lemma take_Suc_update:
  "i < length xs \<Longrightarrow> take (Suc i) (xs[i := y]) = take i xs @ [y]"
  by (simp add: take_Suc_conv_app_nth)

lemma list_split_at:
  assumes "i < length xs"
  shows "xs = take i xs @ xs ! i # drop (Suc i) xs"
  using assms by (rule id_take_nth_drop)

end
