(* ===== verification/Cstring.thy ===== *)
theory Cstring
  imports Prelude
begin

section \<open>Character arrays and the string library\<close>

text \<open>
  A C character array is a list of characters whose length is the array's size; an index
  is an \<open>int\<close>, so an index below zero is a fault like one past the end. A C string
  held in an array is what stands before the first NUL; a routine that looks for the NUL
  of an array that has none reads past its end, which is a fault here. The routines are
  those the sources call: \<open>strlen\<close>, \<open>strcpy\<close>, \<open>strcat\<close>, \<open>sprintf\<close> with the formatted
  text as argument, \<open>isspace\<close>, \<open>tolower\<close>, \<open>strcasecmp\<close>, \<open>strncasecmp\<close>, \<open>strcasestr\<close>,
  \<open>atoi\<close>, and the printing of decimal integers.
\<close>

abbreviation NUL :: char where "NUL \<equiv> CHR 0x00"
abbreviation LF :: char where "LF \<equiv> CHR 0x0A"
abbreviation CR :: char where "CR \<equiv> CHR 0x0D"
abbreviation TAB :: char where "TAB \<equiv> CHR 0x09"
abbreviation crlf :: string where "crlf \<equiv> [CR, LF]"

subsection \<open>Array access\<close>

definition rd :: "'a list \<Rightarrow> int \<Rightarrow> 'a res" where
  "rd b i = (if 0 \<le> i \<and> i < int (length b) then Inr (b ! nat i) else Inl OutOfBounds)"

definition wr :: "'a list \<Rightarrow> int \<Rightarrow> 'a \<Rightarrow> 'a list res" where
  "wr b i c = (if 0 \<le> i \<and> i < int (length b) then Inr (b[nat i := c]) else Inl OutOfBounds)"

definition wrs :: "char list \<Rightarrow> nat \<Rightarrow> string \<Rightarrow> char list res" where
  "wrs b i s =
     (if i + length s \<le> length b then Inr (take i b @ s @ drop (i + length s) b)
      else Inl OutOfBounds)"

text \<open>
  The contents of a local array before its first write are whatever the stack holds:
  \<open>junk v k\<close> is the byte found at index \<open>k\<close> of the local variable \<open>v\<close>.
\<close>

type_synonym stack = "string \<Rightarrow> nat \<Rightarrow> char"

definition local_buf :: "stack \<Rightarrow> string \<Rightarrow> nat \<Rightarrow> char list" where
  "local_buf junk v n = map (junk v) [0..<n]"

lemma length_local_buf [simp]: "length (local_buf junk v n) = n"
  by (simp add: local_buf_def)

lemma rd_nat [cstr_simps]:
  "rd b (int i) = (if i < length b then Inr (b ! i) else Inl OutOfBounds)"
  by (simp add: rd_def)

lemma wr_nat [cstr_simps]:
  "wr b (int i) c = (if i < length b then Inr (b[i := c]) else Inl OutOfBounds)"
  by (simp add: wr_def)

lemma rd_neg [simp, cstr_simps]: "i < 0 \<Longrightarrow> rd b i = Inl OutOfBounds"
  by (simp add: rd_def)

lemma wr_length: "wr b i c = Inr b' \<Longrightarrow> length b' = length b"
  by (auto simp: wr_def split: if_splits)

lemma wrs_length: "wrs b i s = Inr b' \<Longrightarrow> length b' = length b"
  by (auto simp: wrs_def split: if_splits)

lemma rd_append_mid [simp]: "rd (xs @ y # ys) (int (length xs)) = Inr y"
  by (simp add: rd_nat)

lemma wr_append_mid [simp]: "wr (xs @ y # ys) (int (length xs)) z = Inr (xs @ z # ys)"
  by (simp add: wr_nat)

subsection \<open>Strings in arrays\<close>

definition cstr :: "char list \<Rightarrow> nat \<Rightarrow> string res" where
  "cstr b i =
     (if NUL \<in> set (drop i b) then Inr (takeWhile (\<lambda>c. c \<noteq> NUL) (drop i b))
      else Inl OutOfBounds)"

definition strlen :: "char list \<Rightarrow> nat res" where
  "strlen b = bindr (cstr b 0) (\<lambda>s. Inr (length s))"

definition strcpy :: "char list \<Rightarrow> string \<Rightarrow> char list res" where
  "strcpy b s = wrs b 0 (s @ [NUL])"

definition strcat :: "char list \<Rightarrow> string \<Rightarrow> char list res" where
  "strcat b s = bindr (cstr b 0) (\<lambda>t. wrs b (length t) (s @ [NUL]))"

definition nul_free :: "string \<Rightarrow> bool" where
  "nul_free s = (NUL \<notin> set s)"

lemma nul_free_simps [simp]:
  "nul_free []"
  "nul_free (c # s) \<longleftrightarrow> c \<noteq> NUL \<and> nul_free s"
  "nul_free (s @ t) \<longleftrightarrow> nul_free s \<and> nul_free t"
  by (auto simp: nul_free_def)

lemma nul_free_take_drop: "nul_free s \<Longrightarrow> nul_free (take i s) \<and> nul_free (drop i s)"
  unfolding nul_free_def by (meson in_set_dropD in_set_takeD)

lemma cstr_held [simp]: "nul_free s \<Longrightarrow> cstr (s @ NUL # r) 0 = Inr s"
  by (auto simp: cstr_def nul_free_def intro: takeWhile_append_hit)

lemma cstr_held_at: "nul_free s \<Longrightarrow> cstr (p @ s @ NUL # r) (length p) = Inr s"
  by (auto simp: cstr_def nul_free_def intro: takeWhile_append_hit)

lemma cstr_split:
  assumes "cstr b i = Inr s"
  shows "nul_free s" and "\<exists>r. drop i b = s @ NUL # r" and "i + length s < length b"
proof -
  from assms have n: "NUL \<in> set (drop i b)" and s: "s = takeWhile (\<lambda>c. c \<noteq> NUL) (drop i b)"
    by (auto simp: cstr_def split: if_splits)
  from s show "nul_free s"
    by (auto simp: nul_free_def dest: set_takeWhileD)
  from n have d: "dropWhile (\<lambda>c. c \<noteq> NUL) (drop i b) \<noteq> []"
    by (auto simp: dropWhile_eq_Nil_conv)
  from hd_dropWhile [OF d] d obtain r where
    "dropWhile (\<lambda>c. c \<noteq> NUL) (drop i b) = NUL # r"
    by (cases "dropWhile (\<lambda>c. c \<noteq> NUL) (drop i b)") auto
  with s have e: "drop i b = s @ NUL # r"
    by (metis takeWhile_dropWhile_id)
  then show "\<exists>r. drop i b = s @ NUL # r" by blast
  from e have "length (drop i b) > length s" by simp
  then show "i + length s < length b" by simp
qed

lemma strcpy_fits [cstr_simps]:
  "length s < length b \<Longrightarrow> strcpy b s = Inr (s @ NUL # drop (Suc (length s)) b)"
  by (simp add: strcpy_def wrs_def)

lemma strcpy_overflow [cstr_simps]:
  "length b \<le> length s \<Longrightarrow> strcpy b s = Inl OutOfBounds"
  by (simp add: strcpy_def wrs_def)

lemma strcat_held:
  assumes "nul_free t"
  shows "strcat (t @ NUL # r) s =
    (if length s \<le> length r then Inr (t @ s @ NUL # drop (length s) r) else Inl OutOfBounds)"
  using assms by (auto simp: strcat_def wrs_def)

subsection \<open>Character classes and comparisons\<close>

definition isspace :: "char \<Rightarrow> bool" where
  "isspace c = (c \<in> {CHR 0x20, TAB, LF, CHR 0x0B, CHR 0x0C, CR})"

definition isdigit :: "char \<Rightarrow> bool" where
  "isdigit c = (48 \<le> (of_char c :: nat) \<and> (of_char c :: nat) \<le> 57)"

definition tolower :: "char \<Rightarrow> char" where
  "tolower c = (if 65 \<le> (of_char c :: nat) \<and> (of_char c :: nat) \<le> 90
                then char_of ((of_char c :: nat) + 32) else c)"

text \<open>The comparisons the sources make are all tests against zero, so a truth value is enough.\<close>

definition strcasecmp_eq :: "string \<Rightarrow> string \<Rightarrow> bool" where
  "strcasecmp_eq s t = (map tolower s = map tolower t)"

definition strncasecmp_eq :: "string \<Rightarrow> string \<Rightarrow> nat \<Rightarrow> bool" where
  "strncasecmp_eq s t n = (map tolower (take n s) = map tolower (take n t))"

fun has_prefix_ci :: "string \<Rightarrow> string \<Rightarrow> bool" where
  "has_prefix_ci [] _ = True"
| "has_prefix_ci (_ # _) [] = False"
| "has_prefix_ci (p # ps) (c # cs) = (tolower p = tolower c \<and> has_prefix_ci ps cs)"

fun strcasestr_hit :: "string \<Rightarrow> string \<Rightarrow> bool" where
  "strcasestr_hit [] needle = (needle = [])"
| "strcasestr_hit (c # cs) needle =
     (has_prefix_ci needle (c # cs) \<or> strcasestr_hit cs needle)"

lemma isspace_simps [simp]:
  "isspace LF" "isspace CR" "isspace TAB" "isspace CHR 0x20" "\<not> isspace NUL"
  by (simp_all add: isspace_def)

lemma strcasecmp_eq_refl [simp]: "strcasecmp_eq s s"
  by (simp add: strcasecmp_eq_def)

lemma strcasecmp_eq_length: "strcasecmp_eq s t \<Longrightarrow> length s = length t"
  unfolding strcasecmp_eq_def by (rule map_eq_imp_length_eq)

lemma has_prefix_ci_self [simp]: "has_prefix_ci s (s @ t)"
  by (induction s) auto

lemma strcasestr_here: "has_prefix_ci n (h @ r) \<Longrightarrow> strcasestr_hit (h @ r) n"
  by (cases "h @ r"; cases n) auto

lemma strcasestr_append: "strcasestr_hit t n \<Longrightarrow> strcasestr_hit (s @ t) n"
  by (induction s) auto

lemma strcasestr_middle [simp]: "strcasestr_hit (p @ n @ r) n"
  by (rule strcasestr_append, rule strcasestr_here, simp)

subsection \<open>Decimal numbers\<close>

definition digit_val :: "char \<Rightarrow> nat" where
  "digit_val c = (of_char c :: nat) - 48"

definition digit_char :: "nat \<Rightarrow> char" where
  "digit_char d = char_of (48 + d)"

fun dec_acc :: "nat \<Rightarrow> string \<Rightarrow> nat" where
  "dec_acc a [] = a"
| "dec_acc a (c # cs) = (if isdigit c then dec_acc (10 * a + digit_val c) cs else a)"

definition strtol_value :: "string \<Rightarrow> int" where
  "strtol_value s =
     (case dropWhile isspace s of
        [] \<Rightarrow> 0
      | c # r \<Rightarrow>
          (if c = CHR ''-'' then - int (dec_acc 0 r)
           else if c = CHR ''+'' then int (dec_acc 0 r)
           else int (dec_acc 0 (c # r))))"

definition atoi :: "string \<Rightarrow> int res" where
  "atoi s = (let v = strtol_value s in
     if - (2 ^ 31) \<le> v \<and> v < 2 ^ 31 then Inr v else Inl Unrepresentable)"

fun dec_nat :: "nat \<Rightarrow> string" where
  "dec_nat n =
     (if n < 10 then [digit_char n] else dec_nat (n div 10) @ [digit_char (n mod 10)])"

declare dec_nat.simps [simp del]

definition dec_int :: "int \<Rightarrow> string" where
  "dec_int i = (if i < 0 then CHR ''-'' # dec_nat (nat (- i)) else dec_nat (nat i))"

lemma digit_char_facts:
  assumes "d < 10"
  shows "isdigit (digit_char d)" and "digit_val (digit_char d) = d"
    and "\<not> isspace (digit_char d)" and "digit_char d \<noteq> NUL"
    and "digit_char d \<noteq> CHR ''-''" and "digit_char d \<noteq> CHR ''+''"
proof -
  have o: "(of_char (digit_char d) :: nat) = 48 + d"
    using assms by (simp add: digit_char_def)
  show "isdigit (digit_char d)" "digit_val (digit_char d) = d"
    using o assms by (simp_all add: isdigit_def digit_val_def)
  have "(of_char (digit_char d) :: nat) \<noteq> of_char c"
    if "(of_char c :: nat) < 48" for c
    using o that by simp
  from this [of NUL] this [of "CHR ''-''"] this [of "CHR ''+''"] this [of LF] this [of CR]
    this [of TAB] this [of "CHR 0x20"] this [of "CHR 0x0B"] this [of "CHR 0x0C"]
  show "\<not> isspace (digit_char d)" "digit_char d \<noteq> NUL"
    "digit_char d \<noteq> CHR ''-''" "digit_char d \<noteq> CHR ''+''"
    unfolding isspace_def by (auto simp: of_char_def)
qed

lemma dec_nat_digits: "c \<in> set (dec_nat n) \<Longrightarrow> \<exists>d<10. c = digit_char d"
proof (induction n rule: dec_nat.induct)
  case (1 n)
  have m: "n mod 10 < 10" by simp
  show ?case
  proof (cases "n < 10")
    case True
    with "1.prems" have "c = digit_char n" by (simp add: dec_nat.simps [of n])
    with True show ?thesis by blast
  next
    case False
    with "1.prems" have "c \<in> set (dec_nat (n div 10)) \<or> c = digit_char (n mod 10)"
      by (auto simp: dec_nat.simps [of n])
    with False m "1.IH" show ?thesis by blast
  qed
qed

lemma dec_nat_not_Nil [simp]: "dec_nat n \<noteq> []"
  by (subst dec_nat.simps) simp

lemma dec_nat_chars:
  assumes "c \<in> set (dec_nat n)"
  shows "isdigit c" "\<not> isspace c" "c \<noteq> NUL" "c \<noteq> CHR ''-''" "c \<noteq> CHR ''+''"
proof -
  from dec_nat_digits [OF assms] obtain d where "d < 10" "c = digit_char d" by blast
  then show "isdigit c" "\<not> isspace c" "c \<noteq> NUL" "c \<noteq> CHR ''-''" "c \<noteq> CHR ''+''"
    by (simp_all add: digit_char_facts)
qed

lemma dec_acc_append:
  "\<forall>c\<in>set s. isdigit c \<Longrightarrow> dec_acc a (s @ t) = dec_acc (dec_acc a s) t"
  by (induction s arbitrary: a) auto

lemma dec_acc_dec_nat: "dec_acc 0 (dec_nat n) = n"
proof (induction n rule: dec_nat.induct)
  case (1 n)
  show ?case
  proof (cases "n < 10")
    case True
    then show ?thesis
      by (subst dec_nat.simps) (simp add: digit_char_facts)
  next
    case False
    with 1 have "dec_acc 0 (dec_nat (n div 10)) = n div 10" by simp
    with False show ?thesis
      by (subst dec_nat.simps)
        (simp add: dec_acc_append dec_nat_chars digit_char_facts)
  qed
qed

lemma dec_acc_stop:
  assumes "r = [] \<or> \<not> isdigit (hd r)"
  shows "dec_acc 0 (dec_nat n @ r) = n"
  using assms by (cases r) (auto simp: dec_acc_append dec_nat_chars dec_acc_dec_nat)

lemma strtol_value_dec_int:
  assumes "r = [] \<or> \<not> isdigit (hd r)"
  shows "strtol_value (dec_int i @ r) = i"
proof (cases "i < 0")
  case True
  then show ?thesis
    using assms by (simp add: strtol_value_def dec_int_def dec_acc_stop isspace_def)
next
  case False
  obtain c s where c: "dec_nat (nat i) = c # s"
    by (cases "dec_nat (nat i)") auto
  then have "\<not> isspace c" "c \<noteq> CHR ''-''" "c \<noteq> CHR ''+''"
    using dec_nat_chars [of c "nat i"] by auto
  moreover have "dec_acc 0 (c # s @ r) = nat i"
    using dec_acc_stop [OF assms, of "nat i"] c by simp
  ultimately show ?thesis
    using False c by (simp add: strtol_value_def dec_int_def)
qed

lemma strtol_value_skip: "isspace c \<Longrightarrow> strtol_value (c # s) = strtol_value s"
  by (simp add: strtol_value_def)

lemma atoi_dec_int:
  assumes "- (2 ^ 31) \<le> i" "i < 2 ^ 31" "r = [] \<or> \<not> isdigit (hd r)"
  shows "atoi (dec_int i @ r) = Inr i"
  using assms by (simp add: atoi_def strtol_value_dec_int Let_def)

lemma nul_free_dec_nat [simp]: "nul_free (dec_nat n)"
  unfolding nul_free_def using dec_nat_chars(3) by blast

lemma nul_free_dec_int [simp]: "nul_free (dec_int i)"
  by (simp add: dec_int_def)

lemma length_dec_nat: "n < 10 ^ k \<Longrightarrow> 0 < k \<Longrightarrow> length (dec_nat n) \<le> k"
proof (induction n arbitrary: k rule: dec_nat.induct)
  case (1 n)
  show ?case
  proof (cases "n < 10")
    case True
    with "1.prems" show ?thesis by (subst dec_nat.simps) simp
  next
    case False
    with "1.prems" obtain j where j: "k = Suc j" "0 < j"
      by (cases k; cases "k - 1") auto
    with "1.prems" have "n div 10 < 10 ^ j" by (simp add: less_mult_imp_div_less mult.commute)
    with "1.IH" [OF False] j have "length (dec_nat (n div 10)) \<le> j" by blast
    with False j show ?thesis by (subst dec_nat.simps) simp
  qed
qed

lemma length_dec_int: "- (2 ^ 31) \<le> i \<Longrightarrow> i < 2 ^ 31 \<Longrightarrow> length (dec_int i) \<le> 11"
  using length_dec_nat [of "nat i" 10] length_dec_nat [of "nat (- i)" 10]
  by (auto simp: dec_int_def nat_less_iff)

subsection \<open>Searching, bounded copying and bounded formatting\<close>

text \<open>
  \<open>strchr\<close> and \<open>strrchr\<close> give the place of a character, \<open>strpbrk\<close> that of the first
  character of a set. \<open>strncpy\<close> copies at most \<open>n\<close> characters and fills up to \<open>n\<close> with
  NULs, so a source of \<open>n\<close> or more characters leaves no NUL. \<open>vsnprintf\<close> takes the
  formatted text, stores at most \<open>n - 1\<close> characters of it and a NUL, and returns the length
  of the whole text.
\<close>

fun strchr :: "char \<Rightarrow> string \<Rightarrow> nat option" where
  "strchr c [] = None"
| "strchr c (x # xs) = (if x = c then Some 0 else map_option Suc (strchr c xs))"

fun strrchr :: "char \<Rightarrow> string \<Rightarrow> nat option" where
  "strrchr c [] = None"
| "strrchr c (x # xs) =
     (case strrchr c xs of Some i \<Rightarrow> Some (Suc i) | None \<Rightarrow> if x = c then Some 0 else None)"

fun strpbrk :: "char set \<Rightarrow> string \<Rightarrow> nat option" where
  "strpbrk cs [] = None"
| "strpbrk cs (x # xs) = (if x \<in> cs then Some 0 else map_option Suc (strpbrk cs xs))"

definition strspn :: "char set \<Rightarrow> string \<Rightarrow> nat" where
  "strspn cs s = length (takeWhile (\<lambda>c. c \<in> cs) s)"

definition strncpy :: "char list \<Rightarrow> nat \<Rightarrow> string \<Rightarrow> nat \<Rightarrow> char list res" where
  "strncpy b i s n = wrs b i (take n s @ replicate (n - length s) NUL)"

definition vsnprintf :: "char list \<Rightarrow> nat \<Rightarrow> nat \<Rightarrow> string \<Rightarrow> (char list \<times> nat) res" where
  "vsnprintf b i n s =
     (if n = 0 then Inr (b, length s)
      else bindr (wrs b i (take (n - 1) s @ [NUL])) (\<lambda>b. Inr (b, length s)))"

definition pad0 :: "nat \<Rightarrow> int \<Rightarrow> string" where
  "pad0 w i =
     (if i < 0 then CHR ''-'' # replicate (w - 1 - length (dec_int (- i))) CHR ''0'' @ dec_int (- i)
      else replicate (w - length (dec_int i)) CHR ''0'' @ dec_int i)"

lemma strchr_None: "strchr c s = None \<longleftrightarrow> c \<notin> set s"
  by (induction s) auto

lemma strchr_append: "c \<notin> set s \<Longrightarrow> strchr c (s @ c # t) = Some (length s)"
  by (induction s) auto

lemma strrchr_None: "strrchr c s = None \<longleftrightarrow> c \<notin> set s"
  by (induction s) (auto split: option.splits)

lemma strrchr_append: "c \<notin> set t \<Longrightarrow> strrchr c (s @ c # t) = Some (length s)"
  by (induction s) (simp_all add: iffD2 [OF strrchr_None])

lemma strrchr_Some:
  "strrchr c s = Some i \<Longrightarrow> \<exists>u v. s = u @ c # v \<and> length u = i \<and> c \<notin> set v"
proof (induction s arbitrary: i)
  case (Cons x s)
  show ?case
  proof (cases "strrchr c s")
    case None
    with Cons.prems show ?thesis by (auto simp: strrchr_None split: if_splits intro: exI [of _ "[]"])
  next
    case (Some j)
    with Cons obtain u v where "s = u @ c # v" "length u = j" "c \<notin> set v" by blast
    with Some Cons.prems show ?thesis by - (rule exI [of _ "x # u"], rule exI [of _ v], auto)
  qed
qed simp

lemma strpbrk_None: "strpbrk cs s = None \<longleftrightarrow> (\<forall>c\<in>set s. c \<notin> cs)"
  by (induction s) auto

lemma strpbrk_append: "\<forall>c\<in>set s. c \<notin> cs \<Longrightarrow> x \<in> cs \<Longrightarrow> strpbrk cs (s @ x # t) = Some (length s)"
  by (induction s) auto

lemma strpbrk_Some:
  "strpbrk cs s = Some i \<Longrightarrow> \<exists>u x v. s = u @ x # v \<and> length u = i \<and> x \<in> cs \<and> (\<forall>c\<in>set u. c \<notin> cs)"
proof (induction s arbitrary: i)
  case (Cons x s)
  show ?case
  proof (cases "x \<in> cs")
    case True
    with Cons.prems show ?thesis by (auto intro!: exI [of _ "[]"])
  next
    case False
    with Cons.prems obtain j where "strpbrk cs s = Some j" "i = Suc j" by auto
    with Cons.IH obtain u y v where "s = u @ y # v" "length u = j" "y \<in> cs" "\<forall>c\<in>set u. c \<notin> cs" by blast
    with False \<open>i = Suc j\<close> show ?thesis by (intro exI [of _ "x # u"]) auto
  qed
qed simp

lemma strspn_append:
  "\<forall>c\<in>set s. c \<in> cs \<Longrightarrow> t = [] \<or> hd t \<notin> cs \<Longrightarrow> strspn cs (s @ t) = length s"
  unfolding strspn_def by (induction s) (cases t; auto)+

lemma strspn_le: "strspn cs s \<le> length s"
  by (simp add: strspn_def length_takeWhile_le)

lemma vsnprintf_fits:
  "length s < n \<Longrightarrow> i + length s < length b \<Longrightarrow>
    vsnprintf b i n s = Inr (take i b @ s @ NUL # drop (i + length s + 1) b, length s)"
  by (simp add: vsnprintf_def wrs_def)

lemma vsnprintf_length: "vsnprintf b i n s = Inr (b', k) \<Longrightarrow> length b' = length b \<and> k = length s"
  by (auto simp: vsnprintf_def bindr_eq_Inr dest: wrs_length split: if_splits)

lemma strncpy_length: "strncpy b i s n = Inr b' \<Longrightarrow> length b' = length b"
  by (auto simp: strncpy_def dest: wrs_length)

lemma nul_free_replicate [simp]: "nul_free (replicate n c) \<longleftrightarrow> n = 0 \<or> c \<noteq> NUL"
  by (auto simp: nul_free_def)

lemma nul_free_pad0 [simp]: "nul_free (pad0 w i)"
  by (simp add: pad0_def)

subsection \<open>Reading lines of a file\<close>

text \<open>
  \<open>fgets(buf, n, file)\<close> on a stream with \<open>rest\<close> still to be read: up to \<open>n - 1\<close> bytes,
  up to and including the first newline. The third component says whether the end of the
  file was met. If nothing at all could be read the buffer keeps its contents.
\<close>

fun fgets_take :: "nat \<Rightarrow> string \<Rightarrow> string \<times> string \<times> bool" where
  "fgets_take 0 rest = ([], rest, False)"
| "fgets_take (Suc k) [] = ([], [], True)"
| "fgets_take (Suc k) (x # rest) =
     (if x = LF then ([LF], rest, False)
      else case fgets_take k rest of (s, rest', eof) \<Rightarrow> (x # s, rest', eof))"

definition fgets :: "nat \<Rightarrow> char list \<Rightarrow> string \<Rightarrow> (char list \<times> string \<times> bool) res" where
  "fgets n buf rest =
     (case fgets_take (n - 1) rest of (s, rest', eof) \<Rightarrow>
        if s = [] then Inr (buf, rest', eof)
        else bindr (strcpy buf s) (\<lambda>buf. Inr (buf, rest', eof)))"

lemma fgets_take_shorter:
  "fgets_take k rest = (s, rest', False) \<Longrightarrow> 0 < k \<Longrightarrow> length rest' < length rest"
proof (induction k rest arbitrary: s rest' rule: fgets_take.induct)
  case (3 k x rest)
  then show ?case by (cases k) (auto split: if_splits prod.splits intro: less_SucI)
qed auto

lemma fgets_take_le: "fgets_take k rest = (s, rest', e) \<Longrightarrow> length rest' \<le> length rest"
  by (induction k rest arbitrary: s rest' e rule: fgets_take.induct)
    (auto split: if_splits prod.splits intro: le_SucI)

lemma fgets_le: "fgets n buf rest = Inr (buf', rest', e) \<Longrightarrow> length rest' \<le> length rest"
  by (auto simp: fgets_def bindr_eq_Inr split: prod.splits if_splits
      intro: fgets_take_le [of "n - 1"])

lemma fgets_shorter:
  assumes "fgets n buf rest = Inr (buf', rest', False)" and "1 < n"
  shows "length rest' < length rest"
proof -
  from assms(1) obtain s where "fgets_take (n - 1) rest = (s, rest', False)"
    by (auto simp: fgets_def bindr_eq_Inr split: prod.splits if_splits)
  with assms(2) show ?thesis by (auto intro: fgets_take_shorter)
qed

lemma fgets_take_short:
  assumes "LF \<notin> set r" and "length r < k"
  shows "fgets_take k r = (r, [], True)"
  using assms
proof (induction r arbitrary: k)
  case Nil
  then show ?case by (cases k) auto
next
  case (Cons x r)
  then show ?case by (cases k) auto
qed

lemma fgets_take_progress:
  assumes "f \<noteq> []" and "last f = LF" and "0 < k"
  obtains s f' where "fgets_take k (f @ r) = (s, f' @ r, False)" and "f = s @ f'" and "s \<noteq> []"
    and "length s \<le> k" and "f' = [] \<or> last f' = LF"
  using assms
proof (induction k f arbitrary: thesis rule: fgets_take.induct)
  case (3 k x f)
  show ?case
  proof (cases "x = LF")
    case True
    then show ?thesis using 3 by (intro "3.prems"(1) [of "[LF]" f]) (auto split: if_splits)
  next
    case False
    with "3.prems" have f: "f \<noteq> []" "last f = LF" by (auto split: if_splits)
    show ?thesis
    proof (cases "0 < k")
      case True
      from "3.IH" [OF False _ f True] obtain s f' where
        "fgets_take k (f @ r) = (s, f' @ r, False)" "f = s @ f'" "s \<noteq> []" "length s \<le> k"
        "f' = [] \<or> last f' = LF" by blast
      with False show ?thesis by (intro "3.prems"(1) [of "x # s" f']) auto
    next
      case False
      with \<open>x \<noteq> LF\<close> f show ?thesis by (intro "3.prems"(1) [of "[x]" f]) auto
    qed
  qed
qed auto

end
