(* ===== verification/V1_Line.thy ===== *)
theory V1_Line
  imports Cstring
begin

section \<open>version\_01: reading request lines\<close>

text \<open>
  \<open>get_line\<close> of version\_01/httpd.c and the loops that read and drop the rest of a
  request. The bytes a client has sent and the server has not read yet are the list
  \<open>rx\<close>; \<open>recv\<close> of one byte takes its head, and returns 0 when the list is empty (the
  client has closed its end). The line buffer is a character array whose contents before
  the call are arbitrary.
\<close>

subsection \<open>The code\<close>

text \<open>The loop: \<open>i\<close> counts the stored bytes, \<open>c\<close> is the byte read last.\<close>

function gl_loop :: "int \<Rightarrow> char list \<Rightarrow> int \<Rightarrow> char \<Rightarrow> string \<Rightarrow> (char list \<times> int \<times> string) res"
where
  "gl_loop sz buf i c rx =
     (if i < sz - 1 \<and> c \<noteq> LF then
        (case rx of
           [] \<Rightarrow> gl_loop sz buf i LF []
         | x # rx' \<Rightarrow> bindr (wr buf i x) (\<lambda>buf'. gl_loop sz buf' (i + 1) x rx'))
      else Inr (buf, i, rx))"
  by pat_completeness auto
termination
  by (relation "measure (\<lambda>(sz, buf, i, c, rx).
        2 * nat (sz - 1 - i) + (if c = LF then 0 else 1))") auto

declare gl_loop.simps [simp del]

text \<open>After the loop the end of line CR LF becomes LF, and the line is terminated by NUL.\<close>

definition get_line :: "string \<Rightarrow> char list \<Rightarrow> int \<Rightarrow> (char list \<times> int \<times> string) res" where
  "get_line rx buf sz =
     bindr (gl_loop sz buf 0 NUL rx) (\<lambda>(buf, i, rx).
     bindr (rd buf (i - 1)) (\<lambda>last.
     bindr (if last = LF then bindr (rd buf (i - 2)) (\<lambda>prev. Inr (prev = CR)) else Inr False) (\<lambda>crlf_end.
     bindr (if crlf_end then bindr (wr buf (i - 2) LF) (\<lambda>buf. Inr (buf, i - 1))
            else Inr (buf, i)) (\<lambda>(buf, i).
     bindr (wr buf i NUL) (\<lambda>buf. Inr (buf, i, rx))))))"

subsection \<open>What one call takes from the stream\<close>

text \<open>At most \<open>k\<close> bytes, up to and including the first LF.\<close>

fun raw_line :: "nat \<Rightarrow> string \<Rightarrow> string" where
  "raw_line 0 rx = []"
| "raw_line (Suc k) [] = []"
| "raw_line (Suc k) (x # rx) = (if x = LF then [LF] else x # raw_line k rx)"

text \<open>The line handed to the caller: CR LF at the end is replaced by LF.\<close>

definition cook_line :: "string \<Rightarrow> string" where
  "cook_line raw =
     (if 2 \<le> length raw \<and> raw ! (length raw - 1) = LF \<and> raw ! (length raw - 2) = CR
      then take (length raw - 2) raw @ [LF] else raw)"

lemma raw_line_length: "length (raw_line k rx) \<le> k"
  by (induction k rx rule: raw_line.induct) auto

lemma raw_line_prefix: "raw_line k rx @ drop (length (raw_line k rx)) rx = rx"
  by (induction k rx rule: raw_line.induct) auto

lemma raw_line_le_stream: "length (raw_line k rx) \<le> length rx"
  by (induction k rx rule: raw_line.induct) auto

lemma raw_line_Nil [simp]: "raw_line k [] = []"
  by (cases k) auto

lemma raw_line_whole:
  "LF \<notin> set s \<Longrightarrow> length s < k \<Longrightarrow> raw_line k (s @ LF # r) = s @ [LF]"
proof (induction s arbitrary: k)
  case Nil
  then show ?case by (cases k) auto
next
  case (Cons x s)
  then show ?case by (cases k) auto
qed

lemma raw_line_cut:
  "LF \<notin> set s \<Longrightarrow> length s = k \<Longrightarrow> raw_line k (s @ r) = s"
  by (induction s arbitrary: k) auto

lemma cook_line_crlf: "cook_line (s @ [CR, LF]) = s @ [LF]"
  by (simp add: cook_line_def nth_append)

lemma cook_line_length: "length (cook_line raw) \<le> length raw"
  by (auto simp: cook_line_def)

lemma set_cook_line: "set (cook_line raw) \<subseteq> insert LF (set raw)"
  by (auto simp: cook_line_def dest: in_set_takeD)

lemma cook_line_no_LF: "LF \<notin> set raw \<Longrightarrow> cook_line raw = raw"
proof -
  assume no: "LF \<notin> set raw"
  have "raw ! (length raw - 1) \<noteq> LF" if "2 \<le> length raw"
  proof -
    from that have "length raw - 1 < length raw" by simp
    from nth_mem [OF this] no show ?thesis by metis
  qed
  then show ?thesis by (auto simp: cook_line_def)
qed

lemma gl_loop_raw:
  assumes "length p + k = n" and "length buf = Suc n" and "take (length p) buf = p"
    and "c \<noteq> LF"
  shows "gl_loop (int (Suc n)) buf (int (length p)) c rx =
    Inr (p @ raw_line k rx @ drop (length p + length (raw_line k rx)) buf,
         int (length p + length (raw_line k rx)), drop (length (raw_line k rx)) rx)"
  using assms
proof (induction k rx arbitrary: p buf c rule: raw_line.induct)
  case (1 rx)
  then have "p @ drop (length p) buf = buf" by (metis append_take_drop_id)
  with 1 show ?case by (subst gl_loop.simps) simp
next
  case (2 k)
  have "gl_loop (int (Suc n)) buf (int (length p)) LF [] = Inr (buf, int (length p), [])"
    by (subst gl_loop.simps) simp
  with 2 show ?case
    by (subst gl_loop.simps) (simp, metis append_take_drop_id)
next
  case (3 k x rx)
  let ?buf = "buf[length p := x]"
  have len: "length p < length buf" using 3 by simp
  have b: "wr buf (int (length p)) x = Inr ?buf" using len by (simp add: wr_nat)
  have t: "take (length (p @ [x])) ?buf = p @ [x]"
    using 3 len by (simp add: take_Suc_update take_update_ge)
  have d: "drop (Suc (length p) + m) ?buf = drop (Suc (length p) + m) buf" for m
    by (simp add: drop_update_lt)
  show ?case
  proof (cases "x = LF")
    case True
    have "gl_loop (int (Suc n)) ?buf (int (length p) + 1) LF rx
        = Inr (?buf, int (length p) + 1, rx)"
      by (subst gl_loop.simps) simp
    moreover have "?buf = (p @ [x]) @ drop (Suc (length p)) buf"
      using t d [of 0] by (metis append_take_drop_id length_append_singleton add_0_right)
    ultimately show ?thesis
      using 3 b True by (subst gl_loop.simps) simp
  next
    case False
    have "gl_loop (int (Suc n)) ?buf (int (length (p @ [x]))) x rx =
      Inr ((p @ [x]) @ raw_line k rx @ drop (length (p @ [x]) + length (raw_line k rx)) ?buf,
         int (length (p @ [x]) + length (raw_line k rx)), drop (length (raw_line k rx)) rx)"
      using 3 False t len by (intro "3.IH") simp_all
    then show ?thesis
      using 3 b False d [of "length (raw_line k rx)"]
      by (subst gl_loop.simps) (simp add: algebra_simps)
  qed
qed

lemma gl_loop_from_start:
  assumes "length buf = Suc n"
  shows "gl_loop (int (Suc n)) buf 0 NUL rx =
    Inr (raw_line n rx @ drop (length (raw_line n rx)) buf,
         int (length (raw_line n rx)), drop (length (raw_line n rx)) rx)"
  using gl_loop_raw [of "[]" n n buf NUL rx] assms by simp

subsection \<open>The result of a call\<close>

text \<open>The four shapes a taken line can have, as the tests after the loop see them.\<close>

lemma raw_line_shape:
  obtains (empty) "raw = []"
    | (bare) "raw = [LF]"
    | (crlf) p where "raw = p @ [CR, LF]"
    | (plain) p x y where "raw = p @ [x, y]" "\<not> (x = CR \<and> y = LF)"
    | (single) x where "raw = [x]" "x \<noteq> LF"
proof (cases raw rule: rev_cases)
  case Nil
  then show ?thesis by (rule empty)
next
  case (snoc q y)
  show ?thesis
  proof (cases q rule: rev_cases)
    case Nil
    with snoc show ?thesis by (cases "y = LF") (auto intro: bare single)
  next
    case (snoc p x)
    with \<open>raw = q @ [y]\<close> show ?thesis
      by (cases "x = CR \<and> y = LF") (auto intro: crlf plain)
  qed
qed

lemma get_line_after_loop:
  assumes loop: "gl_loop sz buf 0 NUL rx = Inr (raw @ t # ts, int (length raw), rx')"
  shows "get_line rx buf sz =
    (if raw = [] \<or> raw = [LF] then Inl OutOfBounds
     else Inr (cook_line raw @ NUL # (if cook_line raw = raw then ts else t # ts),
               int (length (cook_line raw)), rx'))"
proof (cases raw rule: raw_line_shape)
  case empty
  then show ?thesis by (simp add: get_line_def loop)
next
  case bare
  then show ?thesis by (simp add: get_line_def loop rd_def)
next
  case (crlf p)
  then show ?thesis
    by (simp add: get_line_def loop cook_line_crlf rd_def wr_def nat_add_distrib
        nth_append list_update_append)
next
  case (plain p x y)
  then have "cook_line raw = raw" by (auto simp: cook_line_def nth_append)
  with plain show ?thesis
    by (simp add: get_line_def loop rd_def wr_def nat_add_distrib nth_append list_update_append)
next
  case (single x)
  then have "cook_line raw = raw" by (simp add: cook_line_def)
  with single show ?thesis
    by (simp add: get_line_def loop rd_def wr_def)
qed

lemma cook_line_eq_iff:
  "cook_line raw = raw \<longleftrightarrow> length (cook_line raw) = length raw"
  by (rule iffI, simp, auto simp: cook_line_def split: if_splits)

lemma cook_line_shorter:
  "cook_line raw \<noteq> raw \<Longrightarrow> Suc (length (cook_line raw)) = length raw"
  by (auto simp: cook_line_def split: if_splits)

lemma get_line_eq:
  assumes "length buf = Suc n"
  shows "get_line rx buf (int (Suc n)) =
    (let raw = raw_line n rx; line = cook_line raw in
     if raw = [] \<or> raw = [LF] then Inl OutOfBounds
     else Inr (line @ NUL # drop (Suc (length line)) buf, int (length line),
               drop (length raw) rx))"
proof -
  define raw where "raw = raw_line n rx"
  have le: "length raw < length buf"
    using raw_line_length [of n rx] assms by (simp add: raw_def)
  then obtain t ts where t: "drop (length raw) buf = t # ts"
    by (cases "drop (length raw) buf") auto
  then have ts: "ts = drop (Suc (length raw)) buf"
    by (metis drop_Suc drop_tl list.sel(3))
  have "gl_loop (int (Suc n)) buf 0 NUL rx =
      Inr (raw @ t # ts, int (length raw), drop (length raw) rx)"
    using gl_loop_from_start [OF assms, of rx] t by (simp add: raw_def)
  note get_line_after_loop [OF this]
  moreover have "(if cook_line raw = raw then ts else t # ts) = drop (Suc (length (cook_line raw))) buf"
    using t ts cook_line_shorter [of raw] by (simp add: cook_line_eq_iff)
  ultimately show ?thesis by (simp add: raw_def Let_def)
qed

lemma get_line_progress:
  assumes "get_line rx buf (int (Suc n)) = Inr (buf', k, rx')" and "length buf = Suc n"
  shows "length rx' < length rx" and "length buf' = Suc n" and "0 < k"
proof -
  define raw where "raw = raw_line n rx"
  from assms get_line_eq [of buf n rx] have r: "raw \<noteq> []" "raw \<noteq> [LF]"
    and b: "buf' = cook_line raw @ NUL # drop (Suc (length (cook_line raw))) buf"
    and k: "k = int (length (cook_line raw))" and x: "rx' = drop (length raw) rx"
    by (auto simp: raw_def Let_def split: if_splits)
  have "length raw \<le> length rx" by (simp add: raw_def raw_line_le_stream)
  with r x show "length rx' < length rx" by (cases raw) auto
  have c: "length (cook_line raw) \<le> n"
    using cook_line_length [of raw] raw_line_length [of n rx] by (simp add: raw_def)
  with b assms show "length buf' = Suc n" by simp
  from r have "cook_line raw \<noteq> []" by (auto simp: cook_line_def)
  with k show "0 < k" by simp
qed

text \<open>The line a browser sends: text without LF, then CR LF, all of it short enough.\<close>

lemma get_line_crlf:
  assumes "length buf = Suc n" and "LF \<notin> set s" and "Suc (length s) < n"
  shows "get_line (s @ CR # LF # r) buf (int (Suc n)) =
    Inr ((s @ [LF]) @ NUL # drop (Suc (Suc (length s))) buf, int (Suc (length s)), r)"
proof -
  have "raw_line n ((s @ [CR]) @ LF # r) = (s @ [CR]) @ [LF]"
    using assms by (intro raw_line_whole) auto
  then show ?thesis
    using get_line_eq [OF assms(1), of "s @ CR # LF # r"] cook_line_crlf [of s]
    by (simp add: Let_def)
qed

text \<open>
  A line that fills the buffer is cut: the CR LF of a line with \<open>n\<close> characters is left
  in the stream and looks like a line of its own.
\<close>

lemma get_line_full:
  assumes "length buf = Suc n" and "LF \<notin> set s" and "length s = n" and "s \<noteq> []"
  shows "get_line (s @ r) buf (int (Suc n)) = Inr (s @ [NUL], int n, r)"
proof -
  have r: "raw_line n (s @ r) = s"
    using assms by (intro raw_line_cut) auto
  have "cook_line s = s" using assms by (simp add: cook_line_no_LF)
  moreover have "s \<noteq> [LF]" using assms by auto
  ultimately show ?thesis
    using get_line_eq [OF assms(1), of "s @ r"] r assms by (simp add: Let_def)
qed

lemma get_line_eof: "length buf = Suc n \<Longrightarrow> get_line [] buf (int (Suc n)) = Inl OutOfBounds"
  using get_line_eq [of buf n "[]"] by (simp add: Let_def)

subsection \<open>Dropping the rest of a request\<close>

text \<open>
  The loop \<open>while (numchars > 0 && strcmp("\n", buf)) numchars = get_line(sock, buf,
  sizeof(buf))\<close>, which httpd.c has three times. Every buffer it runs on has 1024 bytes.
\<close>

abbreviation LINE_MAX :: nat where "LINE_MAX \<equiv> 1024"

lemma get_line_progress_1024:
  assumes "get_line rx buf 1024 = Inr (buf', k, rx')" and "length buf = LINE_MAX"
  shows "length buf' = LINE_MAX" and "0 < k"
  using get_line_progress [of rx buf 1023 buf' k rx'] assms by simp_all

lemma gl_loop_counts:
  "gl_loop sz buf i c rx = Inr (b, j, rx') \<Longrightarrow> int (length rx) + i = int (length rx') + j"
proof (induction sz buf i c rx rule: gl_loop.induct)
  case (1 sz buf i c rx)
  show ?case
  proof (cases "i < sz - 1 \<and> c \<noteq> LF")
    case False
    with "1.prems" show ?thesis by (subst (asm) gl_loop.simps) auto
  next
    case go: True
    show ?thesis
    proof (cases rx)
      case Nil
      with "1.prems" go "1.IH"(1) [OF go Nil] show ?thesis
        by (subst (asm) gl_loop.simps) simp
    next
      case (Cons x rx2)
      with "1.prems" go obtain buf2 where
        "wr buf i x = Inr buf2" "gl_loop sz buf2 (i + 1) x rx2 = Inr (b, j, rx')"
        by (subst (asm) gl_loop.simps) (auto simp: bindr_eq_Inr)
      with "1.IH"(2) [OF go Cons] Cons show ?thesis by simp
    qed
  qed
qed

lemma get_line_consumes:
  assumes "get_line rx buf sz = Inr (buf', k, rx')"
  shows "length rx' < length rx"
proof -
  from assms obtain b j x where loop: "gl_loop sz buf 0 NUL rx = Inr (b, j, rx')"
    and last: "rd b (j - 1) = Inr x"
    by (auto simp: get_line_def bindr_eq_Inr split: if_splits)
  from last have "0 < j" by (auto simp: rd_def split: if_splits)
  with gl_loop_counts [OF loop] show ?thesis by simp
qed

function discard_headers :: "int \<Rightarrow> char list \<Rightarrow> string \<Rightarrow> (char list \<times> int \<times> string) res" where
  "discard_headers numchars buf rx =
     (if numchars > 0 then
        bindr (cstr buf 0) (\<lambda>s.
          if s \<noteq> [LF] then
            bindr (get_line rx buf 1024) (\<lambda>(buf, numchars, rx). discard_headers numchars buf rx)
          else Inr (buf, numchars, rx))
      else Inr (buf, numchars, rx))"
  by pat_completeness auto
termination
  by (relation "measure (\<lambda>(numchars, buf, rx). length rx)") (auto dest: get_line_consumes)

declare discard_headers.simps [simp del]

text \<open>A block of header lines as a client sends it.\<close>

definition wire :: "string list \<Rightarrow> string" where
  "wire hs = concat (map (\<lambda>h. h @ crlf) hs)"

definition header_ok :: "string \<Rightarrow> bool" where
  "header_ok h = (h \<noteq> [] \<and> LF \<notin> set h \<and> length h \<le> 1021)"

lemma wire_simps [simp]: "wire [] = []" "wire (h # hs) = h @ CR # LF # wire hs"
  by (simp_all add: wire_def)

lemma get_line_1024:
  assumes "length buf = LINE_MAX" and "LF \<notin> set s" and "length s \<le> 1021"
  shows "get_line (s @ CR # LF # r) buf 1024 =
    Inr (s @ LF # NUL # drop (Suc (Suc (length s))) buf, int (Suc (length s)), r)"
  using get_line_crlf [of buf 1023 s r] assms by simp

lemma cstr_not_blank:
  assumes "h \<noteq> []" and "hd h \<noteq> LF"
  shows "\<exists>s. cstr (h @ LF # NUL # r) 0 = Inr s \<and> s \<noteq> [LF]"
  using assms by (cases h) (auto simp: cstr_def)

lemma cstr_blank [simp]: "cstr (LF # NUL # r) 0 = Inr [LF]"
  using cstr_held [of "[LF]"] by simp

lemma header_ok_hd: "header_ok h \<Longrightarrow> h \<noteq> [] \<and> hd h \<noteq> LF"
  by (cases h) (auto simp: header_ok_def)

text \<open>One turn of the loop on a line that is not the blank one, and the last turn.\<close>

lemma discard_headers_line:
  assumes "0 < k" and "cstr buf 0 = Inr s" and "s \<noteq> [LF]" and "length buf = LINE_MAX"
    and "LF \<notin> set h" and "length h \<le> 1021"
  shows "discard_headers k buf (h @ CR # LF # r) =
    discard_headers (int (Suc (length h))) (h @ LF # NUL # drop (Suc (Suc (length h))) buf) r"
  using assms by (subst discard_headers.simps) (simp add: get_line_1024)

lemma discard_headers_blank:
  "discard_headers 1 (LF # NUL # r) rx = Inr (LF # NUL # r, 1, rx)"
  by (subst discard_headers.simps) simp

lemma discard_headers_wire:
  assumes "0 < k" and "cstr buf 0 = Inr s" and "s \<noteq> [LF]" and "length buf = LINE_MAX"
    and "\<forall>h\<in>set hs. header_ok h"
  shows "\<exists>r. discard_headers k buf (wire hs @ crlf @ body) = Inr (LF # NUL # r, 1, body)"
  using assms
proof (induction hs arbitrary: k buf s)
  case Nil
  then show ?case
    using discard_headers_line [of k buf s "[]" body] by (simp add: discard_headers_blank)
next
  case (Cons h hs)
  then have h: "LF \<notin> set h" "length h \<le> 1021" "h \<noteq> []" "hd h \<noteq> LF"
    using header_ok_hd [of h] by (auto simp: header_ok_def)
  obtain s' where s': "cstr (h @ LF # NUL # drop (Suc (Suc (length h))) buf) 0 = Inr s'" "s' \<noteq> [LF]"
    using cstr_not_blank [OF h(3,4)] by blast
  show ?case
    using discard_headers_line [OF Cons.prems(1-4) h(1,2), of "wire hs @ crlf @ body"]
      Cons.IH [of "int (Suc (length h))", OF _ s'] Cons.prems h
    by simp
qed

text \<open>
  If the client closes before the blank line, the loop runs into the fault of
  \<open>get_line\<close> at the end of the stream; it never gets to see a line of length 0.
\<close>

lemma discard_headers_eof:
  assumes "0 < k" and "cstr buf 0 = Inr s" and "s \<noteq> [LF]" and "length buf = LINE_MAX"
    and "\<forall>h\<in>set hs. header_ok h"
  shows "discard_headers k buf (wire hs) = Inl OutOfBounds"
  using assms
proof (induction hs arbitrary: k buf s)
  case Nil
  then show ?case
    using get_line_eof [of buf 1023] by (subst discard_headers.simps) simp
next
  case (Cons h hs)
  then have h: "LF \<notin> set h" "length h \<le> 1021" "h \<noteq> []" "hd h \<noteq> LF"
    using header_ok_hd [of h] by (auto simp: header_ok_def)
  obtain s' where s': "cstr (h @ LF # NUL # drop (Suc (Suc (length h))) buf) 0 = Inr s'" "s' \<noteq> [LF]"
    using cstr_not_blank [OF h(3,4)] by blast
  show ?case
    using discard_headers_line [OF Cons.prems(1-4) h(1,2), of "wire hs"]
      Cons.IH [of "int (Suc (length h))", OF _ s'] Cons.prems h
    by simp
qed

text \<open>
  A header line of exactly 1023 characters fills the buffer; its own CR LF is then read
  as the blank line, and what follows is taken for the body.
\<close>

lemma discard_headers_long_line:
  assumes "0 < k" and "cstr buf 0 = Inr s" and "s \<noteq> [LF]" and "length buf = LINE_MAX"
    and "LF \<notin> set h" and "NUL \<notin> set h" and "length h = 1023"
  shows "\<exists>r. discard_headers k buf (h @ crlf @ rest) = Inr (LF # NUL # r, 1, rest)"
proof -
  have "h \<noteq> []" using assms by auto
  then have g: "get_line (h @ crlf @ rest) buf 1024 = Inr (h @ [NUL], 1023, crlf @ rest)"
    using get_line_full [of buf 1023 h "crlf @ rest"] assms by auto
  have "cstr (h @ [NUL]) 0 = Inr h"
    using assms by (intro cstr_held) (simp add: nul_free_def)
  moreover have "h \<noteq> [LF]" using assms by auto
  ultimately have "discard_headers 1023 (h @ [NUL]) (crlf @ rest) =
      discard_headers 1 (LF # NUL # drop (Suc (Suc 0)) (h @ [NUL])) rest"
    using discard_headers_line [of 1023 "h @ [NUL]" h "[]" rest] assms by simp
  with g assms show ?thesis
    by (subst discard_headers.simps) (simp add: discard_headers_blank)
qed

subsection \<open>Properties\<close>

text \<open>
  C19. One call of \<open>get_line\<close>, for every stream, every previous buffer contents and every
  buffer size above zero: it takes at most one line and at most size - 1 bytes from the
  stream, stores the line with its CR LF turned into LF and a NUL behind it, leaves the
  rest of the buffer alone and returns the line's length. The one exception is a call
  that finds the end of the stream at once or a bare LF: the test for CR LF then looks
  before the start of the buffer.
\<close>

theorem get_line_spec:
  assumes "length buf = Suc n"
  shows "get_line rx buf (int (Suc n)) =
    (let raw = raw_line n rx; line = cook_line raw in
     if raw = [] \<or> raw = [LF] then Inl OutOfBounds
     else Inr (line @ NUL # drop (Suc (length line)) buf, int (length line),
               drop (length raw) rx))"
  using assms by (rule get_line_eq)

theorem get_line_spec_witness:
  "length (replicate 8 NUL) = Suc 7 \<and>
   get_line (''GET'' @ crlf @ ''x'') (replicate 8 NUL) (int (Suc 7)) =
     Inr (''GET'' @ [LF, NUL, NUL, NUL, NUL], 4, ''x'')"
  using get_line_spec [of "replicate 8 NUL" 7 "''GET'' @ crlf @ ''x''"]
  by (simp add: cook_line_def numeral_eq_Suc Let_def)

text \<open>
  The loop that throws the rest of a request away stops exactly behind the blank line:
  whatever the headers are (within the buffer's size) and whatever line is in the buffer
  when it starts, the bytes left unread are the body. If the client closes before the
  blank line, the loop ends in the out-of-bounds read of \<open>get_line\<close>.
\<close>

theorem discard_headers_spec:
  assumes "0 < k" and "cstr buf 0 = Inr s" and "s \<noteq> [LF]" and "length buf = LINE_MAX"
    and "\<forall>h\<in>set hs. header_ok h"
  shows "(\<exists>r. discard_headers k buf (wire hs @ crlf @ body) = Inr (LF # NUL # r, 1, body))
    \<and> discard_headers k buf (wire hs) = Inl OutOfBounds"
  using discard_headers_wire [OF assms] discard_headers_eof [OF assms] by blast

theorem discard_headers_spec_witness:
  "(\<exists>r. discard_headers 1 (''A'' @ NUL # replicate 1022 NUL) (wire [''Host: a'', ''X: y''] @ crlf @ ''name=1'') =
      Inr (LF # NUL # r, 1, ''name=1''))
    \<and> discard_headers 1 (''A'' @ NUL # replicate 1022 NUL) (wire [''Host: a'', ''X: y'']) = Inl OutOfBounds"
proof -
  have "cstr (''A'' @ NUL # replicate 1022 NUL) 0 = Inr ''A''" by (rule cstr_held) simp
  from discard_headers_spec [OF _ this, of 1 "[''Host: a'', ''X: y'']" "''name=1''"]
  show ?thesis by (simp add: header_ok_def)
qed

text \<open>
  A header line of exactly 1023 characters ends the header block: it fills the line
  buffer, its own CR LF is read as the blank line, and the headers that follow it are
  left in the stream as if they were the body.
\<close>

theorem long_header_ends_headers:
  assumes "0 < k" and "cstr buf 0 = Inr s" and "s \<noteq> [LF]" and "length buf = LINE_MAX"
    and "LF \<notin> set h" and "NUL \<notin> set h" and "length h = 1023"
  shows "\<exists>r. discard_headers k buf (wire [h, g] @ crlf @ body)
    = Inr (LF # NUL # r, 1, wire [g] @ crlf @ body)"
  using discard_headers_long_line [OF assms, of "wire [g] @ crlf @ body"] by simp

theorem long_header_ends_headers_witness:
  "\<exists>r. discard_headers 1 (''A'' @ NUL # replicate 1022 NUL)
      (wire [replicate 1023 CHR ''a'', ''Host: b''] @ crlf @ ''x'')
    = Inr (LF # NUL # r, 1, wire [''Host: b''] @ crlf @ ''x'')"
proof -
  have "cstr (''A'' @ NUL # replicate 1022 NUL) 0 = Inr ''A''" by (rule cstr_held) simp
  from long_header_ends_headers [OF _ this, of 1 "replicate 1023 CHR ''a''" "''Host: b''" "''x''"]
  show ?thesis by simp
qed

end
