(* ===== verification/V1_Pages.thy ===== *)
theory V1_Pages
  imports V1_Line
begin

section \<open>version\_01: sending pages\<close>

text \<open>
  The functions of version\_01/httpd.c that only write to the client: the fixed pages
  \<open>unimplemented\<close>, \<open>not_found\<close>, \<open>bad_request\<close>, \<open>cannot_execute\<close>, the header block
  \<open>headers\<close> and the file body \<open>cat\<close>. A connection is the bytes still to be read from
  it, the bytes sent on it so far, and whether the server still holds the descriptor.
  \<open>send\<close> appends to the second; the sources never look at what it returns.
\<close>

record sock =
  sk_in :: string
  sk_out :: string
  sk_open :: bool

subsection \<open>Formatted lines\<close>

text \<open>\<open>sprintf(buf, s); send(sock, buf, strlen(buf), 0)\<close>\<close>

definition send_str :: "char list \<Rightarrow> string \<Rightarrow> sock \<Rightarrow> (char list \<times> sock) res" where
  "send_str buf s sk =
     bindr (strcpy buf s) (\<lambda>buf.
     bindr (cstr buf 0) (\<lambda>t. Inr (buf, sk\<lparr>sk_out := sk_out sk @ t\<rparr>)))"

fun send_strs :: "char list \<Rightarrow> string list \<Rightarrow> sock \<Rightarrow> sock res" where
  "send_strs buf [] sk = Inr sk"
| "send_strs buf (s # ss) sk = bindr (send_str buf s sk) (\<lambda>(buf, sk). send_strs buf ss sk)"

definition SERVER_STRING :: string where
  "SERVER_STRING = ''Server: tinyhttpd/1.0.0'' @ crlf"

definition unimplemented :: "stack \<Rightarrow> sock \<Rightarrow> sock res" where
  "unimplemented junk client_sock = send_strs (local_buf junk ''unimplemented.buf'' 1024)
     [''HTTP/1.1 501 Method Not Implemented'' @ crlf,
      SERVER_STRING,
      ''Content-Type: text/html'' @ crlf,
      crlf,
      ''<HTML><HEAD><TITLE>Method Not Implemented'' @ crlf,
      ''</TITLE></HEAD>'' @ crlf,
      ''<BODY><P>HTTP request method not supported.'' @ crlf,
      ''</BODY></HTML>'' @ crlf] client_sock"

definition not_found :: "stack \<Rightarrow> sock \<Rightarrow> sock res" where
  "not_found junk client_sock = send_strs (local_buf junk ''not_found.buf'' 1024)
     [''HTTP/1.1 404 NOT FOUND'' @ crlf,
      SERVER_STRING,
      ''Content-Type: text/html'' @ crlf,
      crlf,
      ''<HTML><TITLE>Not Found</TITLE>'' @ crlf,
      ''<BODY><P>The server could not fulfill'' @ crlf,
      ''your request because the resource specified'' @ crlf,
      ''is unavailable or nonexistent.'' @ crlf,
      ''</BODY></HTML>'' @ crlf] client_sock"

definition headers :: "stack \<Rightarrow> sock \<Rightarrow> sock res" where
  "headers junk sk = send_strs (local_buf junk ''headers.buf'' 1024)
     [''HTTP/1.1 200 OK'' @ crlf,
      SERVER_STRING,
      ''Content-Type: text/html'' @ crlf,
      crlf] sk"

definition bad_request :: "stack \<Rightarrow> sock \<Rightarrow> sock res" where
  "bad_request junk sk = send_strs (local_buf junk ''bad_request.buf'' 1024)
     [''HTTP/1.1 400 BAD REQUEST'' @ crlf,
      ''Content-type: text/html'' @ crlf,
      crlf,
      ''<P>Your browser sent a bad request, '',
      ''such as a POST without a Content-Length.'' @ crlf] sk"

definition cannot_execute :: "stack \<Rightarrow> sock \<Rightarrow> sock res" where
  "cannot_execute junk sk = send_strs (local_buf junk ''cannot_execute.buf'' 1024)
     [''HTTP/1.1 500 Internal Server Error'' @ crlf,
      ''Content-type: text/html'' @ crlf,
      crlf,
      ''<P>Error prohibited CGI execution.'' @ crlf] sk"

subsection \<open>What is sent\<close>

lemma send_str_fits:
  assumes "nul_free s" and "length s < length buf"
  shows "send_str buf s sk =
    Inr (s @ NUL # drop (Suc (length s)) buf, sk\<lparr>sk_out := sk_out sk @ s\<rparr>)"
  using assms by (simp add: send_str_def strcpy_fits)

lemma send_strs_fit:
  assumes "\<forall>s\<in>set ss. nul_free s \<and> length s < length buf"
  shows "send_strs buf ss sk = Inr (sk\<lparr>sk_out := sk_out sk @ concat ss\<rparr>)"
  using assms
proof (induction ss arbitrary: buf sk)
  case Nil
  then show ?case by simp
next
  case (Cons s ss)
  then have "length (s @ NUL # drop (Suc (length s)) buf) = length buf" by auto
  with Cons show ?case by (simp add: send_str_fits)
qed

definition page_501 :: string where
  "page_501 = ''HTTP/1.1 501 Method Not Implemented'' @ crlf @ ''Server: tinyhttpd/1.0.0'' @ crlf
     @ ''Content-Type: text/html'' @ crlf @ crlf
     @ ''<HTML><HEAD><TITLE>Method Not Implemented'' @ crlf @ ''</TITLE></HEAD>'' @ crlf
     @ ''<BODY><P>HTTP request method not supported.'' @ crlf @ ''</BODY></HTML>'' @ crlf"

definition page_404 :: string where
  "page_404 = ''HTTP/1.1 404 NOT FOUND'' @ crlf @ ''Server: tinyhttpd/1.0.0'' @ crlf
     @ ''Content-Type: text/html'' @ crlf @ crlf
     @ ''<HTML><TITLE>Not Found</TITLE>'' @ crlf @ ''<BODY><P>The server could not fulfill'' @ crlf
     @ ''your request because the resource specified'' @ crlf
     @ ''is unavailable or nonexistent.'' @ crlf @ ''</BODY></HTML>'' @ crlf"

definition head_200 :: string where
  "head_200 = ''HTTP/1.1 200 OK'' @ crlf @ ''Server: tinyhttpd/1.0.0'' @ crlf
     @ ''Content-Type: text/html'' @ crlf @ crlf"

definition page_400 :: string where
  "page_400 = ''HTTP/1.1 400 BAD REQUEST'' @ crlf @ ''Content-type: text/html'' @ crlf @ crlf
     @ ''<P>Your browser sent a bad request, such as a POST without a Content-Length.'' @ crlf"

definition page_500 :: string where
  "page_500 = ''HTTP/1.1 500 Internal Server Error'' @ crlf @ ''Content-type: text/html'' @ crlf
     @ crlf @ ''<P>Error prohibited CGI execution.'' @ crlf"

lemma unimplemented_sends:
  "unimplemented junk sk = Inr (sk\<lparr>sk_out := sk_out sk @ page_501\<rparr>)"
  unfolding unimplemented_def by (subst send_strs_fit) (simp_all add: SERVER_STRING_def page_501_def)

lemma not_found_sends:
  "not_found junk sk = Inr (sk\<lparr>sk_out := sk_out sk @ page_404\<rparr>)"
  unfolding not_found_def by (subst send_strs_fit) (simp_all add: SERVER_STRING_def page_404_def)

lemma headers_sends:
  "headers junk sk = Inr (sk\<lparr>sk_out := sk_out sk @ head_200\<rparr>)"
  unfolding headers_def by (subst send_strs_fit) (simp_all add: SERVER_STRING_def head_200_def)

lemma bad_request_sends:
  "bad_request junk sk = Inr (sk\<lparr>sk_out := sk_out sk @ page_400\<rparr>)"
  unfolding bad_request_def by (subst send_strs_fit) (simp_all add: page_400_def)

lemma cannot_execute_sends:
  "cannot_execute junk sk = Inr (sk\<lparr>sk_out := sk_out sk @ page_500\<rparr>)"
  unfolding cannot_execute_def by (subst send_strs_fit) (simp_all add: page_500_def)

lemmas page_sends =
  unimplemented_sends not_found_sends headers_sends bad_request_sends cannot_execute_sends

subsection \<open>The body of a file\<close>

function cat_loop :: "char list \<Rightarrow> string \<Rightarrow> bool \<Rightarrow> sock \<Rightarrow> sock res" where
  "cat_loop buf rest eof sk =
     (if eof then Inr sk
      else
        bindr (cstr buf 0) (\<lambda>t.
        bindr (fgets 1024 buf rest) (\<lambda>(buf, rest, eof).
          cat_loop buf rest eof (sk\<lparr>sk_out := sk_out sk @ t\<rparr>))))"
  by pat_completeness auto
termination
  by (relation "measure (\<lambda>(buf, rest, eof, sk). length rest + (if eof then 0 else 1))")
    (auto intro: fgets_shorter dest: fgets_le simp: le_imp_less_Suc split: if_splits)

declare cat_loop.simps [simp del]

definition cat :: "stack \<Rightarrow> sock \<Rightarrow> string \<Rightarrow> sock res" where
  "cat junk client_sock file =
     bindr (fgets 1024 (local_buf junk ''cat.buf'' 1024) file) (\<lambda>(buf, rest, eof).
       cat_loop buf rest eof client_sock)"

text \<open>
  What \<open>cat\<close> sends of a file: the loop tests \<open>feof\<close> after each read and before the
  send, so the piece whose read met the end of the file is never sent.
\<close>

lemma cat_loop_sends:
  assumes "f = [] \<or> last f = LF" and "nul_free f" and "nul_free t" and "length t \<le> 1023"
    and "LF \<notin> set r" and "length r < 1023" and "length buf = 1024" and "cstr buf 0 = Inr t"
  shows "cat_loop buf (f @ r) False sk = Inr (sk\<lparr>sk_out := sk_out sk @ t @ f\<rparr>)"
  using assms
proof (induction "length f" arbitrary: f t buf sk rule: less_induct)
  case less
  show ?case
  proof (cases "f = []")
    case True
    have "\<exists>buf'. fgets 1024 buf r = Inr (buf', [], True)"
      using less.prems fgets_take_short [of r 1023] by (auto simp: fgets_def strcpy_fits)
    with True less.prems show ?thesis
      by (subst cat_loop.simps) (auto simp: cat_loop.simps [of _ _ True])
  next
    case False
    with less.prems have "last f = LF" by simp
    from fgets_take_progress [OF False this, of 1023 r]
    obtain s f' where s: "fgets_take 1023 (f @ r) = (s, f' @ r, False)"
      "f = s @ f'" "s \<noteq> []" "length s \<le> 1023" "f' = [] \<or> last f' = LF"
      by auto
    let ?buf = "s @ NUL # drop (Suc (length s)) buf"
    have g: "fgets 1024 buf (f @ r) = Inr (?buf, f' @ r, False)"
      using s less.prems by (simp add: fgets_def strcpy_fits)
    have "cat_loop ?buf (f' @ r) False (sk\<lparr>sk_out := sk_out sk @ t\<rparr>) =
        Inr (sk\<lparr>sk_out := (sk_out sk @ t) @ s @ f'\<rparr>)"
      using s less.prems by (subst less.hyps [of f' s]) auto
    with g s less.prems show ?thesis
      by (subst cat_loop.simps) simp
  qed
qed

lemma cat_sends:
  assumes "f = [] \<or> last f = LF" and "nul_free f" and "LF \<notin> set r" and "length r < 1023"
  shows "cat junk sk (f @ r) = Inr (sk\<lparr>sk_out := sk_out sk @ f\<rparr>)"
proof (cases "f = []")
  case True
  have "\<exists>buf. fgets 1024 (local_buf junk ''cat.buf'' 1024) r = Inr (buf, [], True)"
    using assms fgets_take_short [of r 1023] by (auto simp: fgets_def strcpy_fits)
  with True show ?thesis by (auto simp: cat_def cat_loop.simps [of _ _ True])
next
  case False
  with assms have "last f = LF" by simp
  from fgets_take_progress [OF False this, of 1023 r]
  obtain s f' where s: "fgets_take 1023 (f @ r) = (s, f' @ r, False)"
    "f = s @ f'" "s \<noteq> []" "length s \<le> 1023" "f' = [] \<or> last f' = LF"
    by auto
  let ?buf = "s @ NUL # drop (Suc (length s)) (local_buf junk ''cat.buf'' 1024)"
  have "fgets 1024 (local_buf junk ''cat.buf'' 1024) (f @ r) = Inr (?buf, f' @ r, False)"
    using s by (simp add: fgets_def strcpy_fits)
  moreover have "cat_loop ?buf (f' @ r) False sk = Inr (sk\<lparr>sk_out := sk_out sk @ s @ f'\<rparr>)"
    using s assms by (intro cat_loop_sends) auto
  ultimately show ?thesis using s by (simp add: cat_def)
qed

text \<open>
  The part of a file up to its last newline, and the files \<open>cat\<close> handles: no NUL byte,
  and a last line without newline only if it is shorter than the buffer.
\<close>

definition complete_lines :: "string \<Rightarrow> string" where
  "complete_lines f = rev (dropWhile (\<lambda>c. c \<noteq> LF) (rev f))"

definition last_fragment :: "string \<Rightarrow> string" where
  "last_fragment f = rev (takeWhile (\<lambda>c. c \<noteq> LF) (rev f))"

definition text_file :: "string \<Rightarrow> bool" where
  "text_file f = (nul_free f \<and> length (last_fragment f) < 1023)"

lemma complete_lines_split: "complete_lines f @ last_fragment f = f"
  unfolding complete_lines_def last_fragment_def
  by (metis rev_append rev_rev_ident takeWhile_dropWhile_id)

lemma last_fragment_no_LF: "LF \<notin> set (last_fragment f)"
  unfolding last_fragment_def using set_takeWhileD [of LF "\<lambda>c. c \<noteq> LF" "rev f"] by auto

lemma complete_lines_last: "complete_lines f = [] \<or> last (complete_lines f) = LF"
  using hd_dropWhile [of "\<lambda>c. c \<noteq> LF" "rev f"]
  by (auto simp: complete_lines_def last_rev)

lemma complete_lines_id: "f = [] \<or> last f = LF \<Longrightarrow> complete_lines f = f"
  unfolding complete_lines_def by (cases f rule: rev_cases) auto

lemma cat_text_file:
  assumes "text_file f"
  shows "cat junk sk f = Inr (sk\<lparr>sk_out := sk_out sk @ complete_lines f\<rparr>)"
proof -
  have "nul_free (complete_lines f @ last_fragment f)"
    using assms by (simp add: complete_lines_split text_file_def)
  then have "cat junk sk (complete_lines f @ last_fragment f) =
      Inr (sk\<lparr>sk_out := sk_out sk @ complete_lines f\<rparr>)"
    using assms complete_lines_last last_fragment_no_LF
    by (intro cat_sends) (simp_all add: text_file_def)
  then show ?thesis by (simp add: complete_lines_split)
qed

subsection \<open>Property\<close>

text \<open>
  What \<open>cat\<close> sends of a text file is the file up to its last newline: the test for
  the end of the file stands between the read and the send, so a last line without
  newline is read and then dropped. A file that ends in a newline is sent whole.
\<close>

theorem cat_sends_complete_lines:
  assumes "text_file f"
  shows "cat junk sk f = Inr (sk\<lparr>sk_out := sk_out sk @ complete_lines f\<rparr>)
    \<and> (last_fragment f = [] \<longleftrightarrow> complete_lines f = f)"
proof -
  have "last_fragment f = [] \<longleftrightarrow> complete_lines f = f"
    by (metis append_Nil2 append_self_conv complete_lines_split)
  with cat_text_file [OF assms] show ?thesis by blast
qed

theorem cat_sends_complete_lines_witness:
  "cat (\<lambda>_ _. NUL) \<lparr>sk_in = [], sk_out = [], sk_open = True\<rparr> (''<P>'' @ [LF] @ ''</P>'')
     = Inr \<lparr>sk_in = [], sk_out = ''<P>'' @ [LF], sk_open = True\<rparr>"
  using cat_sends_complete_lines [of "''<P>'' @ [LF] @ ''</P>''" "\<lambda>_ _. NUL"
      "\<lparr>sk_in = [], sk_out = [], sk_open = True\<rparr>"]
  by (simp add: text_file_def last_fragment_def complete_lines_def)

end
