(* ===== verification/V1_Cgi.thy ===== *)
theory V1_Cgi
  imports V1_Pages
begin

section \<open>version\_01: serving files and running CGI programs\<close>

text \<open>
  \<open>server_file\<close> and \<open>execute_cgi\<close> of version\_01/httpd.c. What the operating system
  answers is a record of functions, the parameter \<open>w\<close> of every definition below: the
  mode \<open>stat\<close> reports for a path (\<open>None\<close>: it returns -1), the contents \<open>fopen\<close> gives
  (\<open>None\<close>: NULL), the values of the two \<open>pipe\<close> calls and of \<open>fork\<close>, and what the program
  at a path prints for an environment and the bytes of its standard input (\<open>None\<close>: it
  does not end).
\<close>

record world1 =
  w_stat :: "string \<Rightarrow> 32 word option"
  w_fopen :: "string \<Rightarrow> string option"
  w_pipe_input :: int
  w_pipe_output :: int
  w_fork :: int
  w_cgi :: "string \<Rightarrow> string list \<Rightarrow> string \<Rightarrow> string option"

text \<open>The array \<open>char buf[1024] = "A"\<close> both functions start with.\<close>

definition buf_A :: "char list" where
  "buf_A = ''A'' @ replicate 1023 NUL"

lemma buf_A_facts: "length buf_A = LINE_MAX" "cstr buf_A 0 = Inr ''A''"
proof -
  show "length buf_A = LINE_MAX" by (simp add: buf_A_def)
  have "buf_A = ''A'' @ NUL # replicate 1022 NUL"
    by (simp add: buf_A_def numeral_eq_Suc)
  then show "cstr buf_A 0 = Inr ''A''"
    using cstr_held [of "''A''" "replicate 1022 NUL"] by simp
qed

subsection \<open>Files\<close>

definition server_file :: "world1 \<Rightarrow> stack \<Rightarrow> sock \<Rightarrow> string \<Rightarrow> sock res" where
  "server_file w junk sk path =
     bindr (discard_headers 1 buf_A (sk_in sk)) (\<lambda>(buf, numchars, rx).
       let sk = sk\<lparr>sk_in := rx\<rparr> in
       case w_fopen w path of
         None \<Rightarrow> bindr (not_found junk sk) (\<lambda>sk. Inl NullDeref)
       | Some resource \<Rightarrow> bindr (headers junk sk) (\<lambda>sk. cat junk sk resource))"

text \<open>With \<open>fopen\<close> failing, the 404 page is sent and \<open>fclose\<close> gets the null pointer.\<close>

lemma server_file_sends:
  assumes "sk_in sk = wire hs @ crlf @ body" and "\<forall>h\<in>set hs. header_ok h"
    and "w_fopen w path = Some f" and "text_file f"
  shows "server_file w junk sk path =
    Inr (sk\<lparr>sk_in := body, sk_out := sk_out sk @ head_200 @ complete_lines f\<rparr>)"
proof -
  obtain b where b: "discard_headers 1 buf_A (sk_in sk) = Inr (b, 1, body)"
    using discard_headers_wire [of 1 buf_A "''A''" hs body] assms(1,2) buf_A_facts by auto
  show ?thesis
    using assms(3,4) by (simp add: server_file_def b headers_sends cat_text_file)
qed

lemma server_file_unopened:
  assumes "sk_in sk = wire hs @ crlf @ body" and "\<forall>h\<in>set hs. header_ok h"
    and "w_fopen w path = None"
  shows "server_file w junk sk path = Inl NullDeref"
proof -
  obtain b where b: "discard_headers 1 buf_A (sk_in sk) = Inr (b, 1, body)"
    using discard_headers_wire [of 1 buf_A "''A''" hs body] assms(1,2) buf_A_facts by auto
  show ?thesis
    using assms(3) by (simp add: server_file_def b not_found_sends)
qed

subsection \<open>The header loop of a POST\<close>

text \<open>
  Each line is cut after 15 characters and compared; the number is read from index 16 of
  the line. The result is the content length and the stream behind the blank line.
\<close>

function post_headers :: "char list \<Rightarrow> int \<Rightarrow> int \<Rightarrow> string \<Rightarrow> (int \<times> string) res" where
  "post_headers buf numchars content_length rx =
     (if numchars > 0 then
        bindr (cstr buf 0) (\<lambda>s.
          if s \<noteq> [LF] then
            bindr (wr buf 15 NUL) (\<lambda>buf.
            bindr (cstr buf 0) (\<lambda>name.
            bindr (if name = ''Content-Length:'' then bindr (cstr buf 16) atoi
                   else Inr content_length) (\<lambda>content_length.
            bindr (get_line rx buf 1024) (\<lambda>(buf, numchars, rx).
              post_headers buf numchars content_length rx))))
          else Inr (content_length, rx))
      else Inr (content_length, rx))"
  by pat_completeness auto
termination
  by (relation "measure (\<lambda>(buf, numchars, content_length, rx). length rx)")
    (auto dest: get_line_consumes)

declare post_headers.simps [simp del]

subsection \<open>The two processes\<close>

text \<open>The child's environment: two of the three 255-byte arrays are filled.\<close>

definition cgi_child_env :: "stack \<Rightarrow> string \<Rightarrow> string option \<Rightarrow> int \<Rightarrow> string list res" where
  "cgi_child_env junk meth query_string content_length =
     bindr (strcpy (local_buf junk ''meth_env'' 255) (''REQUEST_METHOD='' @ meth)) (\<lambda>meth_env.
     bindr (cstr meth_env 0) (\<lambda>m.
       if meth = ''GET'' then
         (case query_string of
            None \<Rightarrow> Inl NullDeref
          | Some q \<Rightarrow>
              bindr (strcpy (local_buf junk ''query_env'' 255) (''QUERY_STRING='' @ q)) (\<lambda>query_env.
              bindr (cstr query_env 0) (\<lambda>e. Inr [m, e])))
       else
         bindr (strcpy (local_buf junk ''length_env'' 255)
           (''CONTENT_LENGTH='' @ dec_int content_length)) (\<lambda>length_env.
         bindr (cstr length_env 0) (\<lambda>e. Inr [m, e]))))"

text \<open>
  The parent's copy loop: \<open>recv\<close> at the end of the stream leaves \<open>c\<close> as it was, and the
  byte is written to the pipe all the same.
\<close>

fun copy_body :: "nat \<Rightarrow> char \<Rightarrow> string \<Rightarrow> string \<times> string" where
  "copy_body 0 c rx = ([], rx)"
| "copy_body (Suc n) c [] = (case copy_body n c [] of (out, rx) \<Rightarrow> (c # out, rx))"
| "copy_body (Suc n) c (x # rx) = (case copy_body n x rx of (out, rx') \<Rightarrow> (x # out, rx'))"

definition STATUS_200 :: string where
  "STATUS_200 = ''HTTP/1.1 200 OK'' @ crlf"

text \<open>
  After \<open>fork\<close> both processes run the line that sends the status, the child before it
  starts the program and the parent before it forwards the program's output; the two
  lines are equal, so every order of the two sends gives the same bytes.
\<close>

definition execute_cgi :: "world1 \<Rightarrow> stack \<Rightarrow> sock \<Rightarrow> string \<Rightarrow> string \<Rightarrow> string option \<Rightarrow> sock res" where
  "execute_cgi w junk client_sock path meth query_string =
     bindr
       (if meth = ''GET'' then
          bindr (discard_headers 1 buf_A (sk_in client_sock)) (\<lambda>(buf, numchars, rx). Inr (- 1, rx))
        else if meth = ''POST'' then
          bindr (get_line (sk_in client_sock) buf_A 1024) (\<lambda>(buf, numchars, rx).
            post_headers buf numchars (- 1) rx)
        else Inr (- 1, sk_in client_sock)) (\<lambda>(content_length, rx).
     let sk = client_sock\<lparr>sk_in := rx\<rparr> in
     if meth = ''POST'' \<and> content_length = - 1 then bad_request junk sk
     else if w_pipe_input w < 0 then cannot_execute junk sk
     else if w_pipe_output w < 0 then cannot_execute junk sk
     else if w_fork w < 0 then cannot_execute junk sk
     else
       bindr (send_str (local_buf junk ''child.buf'' 1024) STATUS_200 sk) (\<lambda>(_, sk).
       bindr (send_str (local_buf junk ''parent.buf'' 1024) STATUS_200 sk) (\<lambda>(_, sk).
       bindr (cgi_child_env junk meth query_string content_length) (\<lambda>env.
         let (inp, rx) =
           (if meth = ''POST'' then copy_body (nat content_length) (junk ''c'' 0) (sk_in sk)
            else ([], sk_in sk)) in
         case w_cgi w path env inp of
           None \<Rightarrow> Inl Blocked
         | Some out \<Rightarrow> Inr (sk\<lparr>sk_in := rx, sk_out := sk_out sk @ out\<rparr>)))))"

subsection \<open>The header loop on well-formed headers\<close>

text \<open>The value of the last \<open>Content-Length:\<close> line, with exactly this spelling.\<close>

fun post_length :: "int \<Rightarrow> string list \<Rightarrow> int res" where
  "post_length cl [] = Inr cl"
| "post_length cl (h # hs) =
     bindr (if take 15 h = ''Content-Length:'' then atoi (drop 16 h) else Inr cl)
       (\<lambda>cl. post_length cl hs)"

lemma dec_acc_LF: "dec_acc a (s @ [LF]) = dec_acc a s"
  by (induction s arbitrary: a) (auto simp: isdigit_def)

lemma strtol_value_LF: "strtol_value (s @ [LF]) = strtol_value s"
proof (cases "dropWhile isspace s")
  case Nil
  then have "dropWhile isspace (s @ [LF]) = []"
    by (simp add: dropWhile_append dropWhile_eq_Nil_conv)
  with Nil show ?thesis unfolding strtol_value_def by presburger
next
  case (Cons c r)
  then have "dropWhile isspace (s @ [LF]) = c # r @ [LF]"
    by (simp add: dropWhile_append dropWhile_eq_Nil_conv [symmetric] del: dropWhile_eq_Nil_conv)
  with Cons show ?thesis
    using dec_acc_LF [of 0 "c # r"] by (simp add: strtol_value_def dec_acc_LF)
qed

lemma atoi_LF: "atoi (s @ [LF]) = atoi s"
  by (simp add: atoi_def strtol_value_LF)

lemma content_length_name: "take 15 h = ''Content-Length:'' \<Longrightarrow> 15 \<le> length h"
  by (drule arg_cong [where f = length]) simp

lemma cut_at_15:
  assumes "nul_free h" and "b = h @ LF # NUL # r" and "length b = LINE_MAX"
  shows "\<exists>b' name. wr b 15 NUL = Inr b' \<and> length b' = LINE_MAX \<and> cstr b' 0 = Inr name
    \<and> (name = ''Content-Length:'' \<longleftrightarrow> take 15 h = ''Content-Length:'')
    \<and> (15 \<le> length h \<longrightarrow> bindr (cstr b' 16) atoi = atoi (drop 16 h))"
proof (cases "15 \<le> length h")
  case False
  let ?b' = "b[15 := NUL]"
  have "\<exists>r'. ?b' = (h @ [LF]) @ NUL # r'"
  proof (cases "length h = 14")
    case True
    with assms(2) show ?thesis by (simp add: list_update_append)
  next
    case ne: False
    define j where "j = 13 - length h"
    with False ne have "15 - length h = Suc (Suc j)" by simp
    with assms(2) False show ?thesis by (simp add: list_update_append)
  qed
  then obtain r' where r': "?b' = (h @ [LF]) @ NUL # r'" by blast
  have "h @ [LF] \<noteq> ''Content-Length:''"
    using arg_cong [of "h @ [LF]" "''Content-Length:''" last] by auto
  moreover have "take 15 h \<noteq> ''Content-Length:''"
    using False content_length_name by blast
  moreover have "cstr ?b' 0 = Inr (h @ [LF])"
    unfolding r' using assms(1) by (intro cstr_held) simp
  ultimately show ?thesis
    using assms(3) False by (auto simp: wr_def)
next
  case True
  let ?b' = "b[15 := NUL]"
  have b': "?b' = take 15 h @ NUL # drop 16 b"
    using True assms(2,3) by (simp add: upd_conv_take_nth_drop)
  have t: "nul_free (take 15 h)" "nul_free (drop 16 h)"
    using assms(1) by (auto simp: nul_free_def dest: in_set_takeD in_set_dropD)
  have "cstr ?b' 0 = Inr (take 15 h)"
    unfolding b' using t by (intro cstr_held) simp
  moreover have "bindr (cstr ?b' 16) atoi = atoi (drop 16 h)"
  proof -
    have d: "drop 16 ?b' = drop 16 b" by (simp add: drop_update_lt)
    show ?thesis
    proof (cases "length h = 15")
      case True
      with assms(2) have "drop 16 b = NUL # r" by simp
      with d True show ?thesis by (simp add: cstr_def)
    next
      case False
      with True assms(2) have "drop 16 b = (drop 16 h @ [LF]) @ NUL # r" by simp
      moreover have "nul_free (drop 16 h @ [LF])" using t by simp
      ultimately have "cstr ?b' 16 = Inr (drop 16 h @ [LF])"
        using d cstr_held [of "drop 16 h @ [LF]" r] by (simp add: cstr_def)
      then show ?thesis by (simp add: atoi_LF)
    qed
  qed
  ultimately show ?thesis using assms(3) by (auto simp: wr_def)
qed

lemma post_headers_line:
  assumes "header_ok h" and "nul_free h" and "buf = h @ LF # NUL # r"
    and "length buf = LINE_MAX" and "0 < k"
  obtains b' where "length b' = LINE_MAX"
    and "\<And>rx. post_headers buf k cl rx =
      bindr (if take 15 h = ''Content-Length:'' then atoi (drop 16 h) else Inr cl) (\<lambda>cl.
      bindr (get_line rx b' 1024) (\<lambda>(buf, k, rx). post_headers buf k cl rx))"
proof -
  from cut_at_15 [OF assms(2-4)] obtain b' name where
    c: "wr buf 15 NUL = Inr b'" "length b' = LINE_MAX" "cstr b' 0 = Inr name"
    "name = ''Content-Length:'' \<longleftrightarrow> take 15 h = ''Content-Length:''"
    "15 \<le> length h \<longrightarrow> bindr (cstr b' 16) atoi = atoi (drop 16 h)" by blast
  obtain s where s: "cstr buf 0 = Inr s" "s \<noteq> [LF]"
    using cstr_not_blank header_ok_hd assms(1,3) by blast
  have "post_headers buf k cl rx =
      bindr (if take 15 h = ''Content-Length:'' then atoi (drop 16 h) else Inr cl) (\<lambda>cl.
      bindr (get_line rx b' 1024) (\<lambda>(buf, k, rx). post_headers buf k cl rx))" for rx
    using c s content_length_name [of h] assms(5)
    by (subst post_headers.simps) (auto simp: bindr_assoc)
  with c(2) show ?thesis by (rule that)
qed

lemma post_headers_wire:
  assumes "header_ok h" and "nul_free h" and "\<forall>x\<in>set hs. header_ok x \<and> nul_free x"
    and "buf = h @ LF # NUL # r" and "length buf = LINE_MAX" and "0 < k"
  shows "post_headers buf k cl (wire hs @ crlf @ body) =
    bindr (post_length cl (h # hs)) (\<lambda>n. Inr (n, body))"
  using assms
proof (induction hs arbitrary: h buf r k cl)
  case Nil
  obtain b' where b': "length b' = LINE_MAX"
    "\<And>rx. post_headers buf k cl rx =
      bindr (if take 15 h = ''Content-Length:'' then atoi (drop 16 h) else Inr cl) (\<lambda>cl.
      bindr (get_line rx b' 1024) (\<lambda>(buf, k, rx). post_headers buf k cl rx))"
    using post_headers_line [OF Nil.prems(1,2,4-6)] by blast
  have "post_headers (LF # NUL # d) 1 n body = Inr (n, body)" for d n
    by (subst post_headers.simps) simp
  then show ?case
    using get_line_1024 [OF b'(1), of "[]" body] by (simp add: b'(2) bindr_assoc)
next
  case (Cons g hs)
  obtain b' where b': "length b' = LINE_MAX"
    "\<And>rx. post_headers buf k cl rx =
      bindr (if take 15 h = ''Content-Length:'' then atoi (drop 16 h) else Inr cl) (\<lambda>cl.
      bindr (get_line rx b' 1024) (\<lambda>(buf, k, rx). post_headers buf k cl rx))"
    using post_headers_line [OF Cons.prems(1,2,4-6)] by blast
  have g: "header_ok g" "nul_free g" "LF \<notin> set g" "length g \<le> 1021"
    using Cons.prems(3) by (auto simp: header_ok_def)
  let ?b = "g @ LF # NUL # drop (Suc (Suc (length g))) b'"
  have gl: "get_line (wire (g # hs) @ crlf @ body) b' 1024 =
      Inr (?b, int (Suc (length g)), wire hs @ crlf @ body)"
    using get_line_1024 [OF b'(1) g(3,4)] by simp
  have IH: "post_headers ?b (int (Suc (length g))) n (wire hs @ crlf @ body) =
      bindr (post_length n (g # hs)) (\<lambda>n. Inr (n, body))" for n
    using Cons.prems(3) g b'(1) by (intro Cons.IH) auto
  have "post_headers buf k cl (wire (g # hs) @ crlf @ body) =
      bindr (if take 15 h = ''Content-Length:'' then atoi (drop 16 h) else Inr cl) (\<lambda>cl.
        bindr (post_length cl (g # hs)) (\<lambda>n. Inr (n, body)))"
    unfolding b'(2) gl bindr_Inr prod.case IH by (rule refl)
  then show ?case by (simp only: post_length.simps bindr_assoc)
qed

text \<open>The two statements before the loop and the loop: the header block of a POST.\<close>

lemma post_block_read:
  assumes "\<forall>x\<in>set hs. header_ok x \<and> nul_free x"
  shows "bindr (get_line (wire hs @ crlf @ body) buf_A 1024) (\<lambda>(buf, k, rx). post_headers buf k cl rx) =
    bindr (post_length cl hs) (\<lambda>n. Inr (n, body))"
proof (cases hs)
  case Nil
  have "post_headers (LF # NUL # d) 1 cl body = Inr (cl, body)" for d
    by (subst post_headers.simps) simp
  with Nil show ?thesis
    using get_line_1024 [OF buf_A_facts(1), of "[]" body] by simp
next
  case (Cons h hs')
  then have h: "header_ok h" "nul_free h" "LF \<notin> set h" "length h \<le> 1021"
    using assms by (auto simp: header_ok_def)
  let ?b = "h @ LF # NUL # drop (Suc (Suc (length h))) buf_A"
  have gl: "get_line (wire hs @ crlf @ body) buf_A 1024 =
      Inr (?b, int (Suc (length h)), wire hs' @ crlf @ body)"
    using get_line_1024 [OF buf_A_facts(1) h(3,4)] Cons by simp
  have "post_headers ?b (int (Suc (length h))) cl (wire hs' @ crlf @ body) =
      bindr (post_length cl (h # hs')) (\<lambda>n. Inr (n, body))"
    using assms Cons h buf_A_facts(1) by (intro post_headers_wire) auto
  then show ?thesis unfolding Cons gl [unfolded Cons] bindr_Inr prod.case .
qed

subsection \<open>The copy loop and the environment\<close>

lemma copy_body_enough: "copy_body (length b) c (b @ rest) = (b, rest)"
  by (induction b arbitrary: c) auto

text \<open>A client that closes early: the last byte read is repeated.\<close>

lemma copy_body_short:
  "copy_body (length b + k) c b = (b @ replicate k (if b = [] then c else last b), [])"
proof (induction b arbitrary: c)
  case Nil
  show ?case by (induction k) auto
next
  case (Cons x b)
  then show ?case by simp
qed

lemma cgi_child_env_GET:
  assumes "nul_free q"
  shows "cgi_child_env junk ''GET'' (Some q) n =
    (if length q \<le> 241 then Inr [''REQUEST_METHOD=GET'', ''QUERY_STRING='' @ q]
     else Inl OutOfBounds)"
proof -
  show ?thesis
    using assms cstr_held [of "''REQUEST_METHOD=GET''"] cstr_held [of "''QUERY_STRING='' @ q"]
    by (simp add: cgi_child_env_def strcpy_fits strcpy_overflow)
qed

lemma cgi_child_env_POST:
  assumes "- (2 ^ 31) \<le> n" and "n < 2 ^ 31"
  shows "cgi_child_env junk ''POST'' query n =
    Inr [''REQUEST_METHOD=POST'', ''CONTENT_LENGTH='' @ dec_int n]"
proof -
  have "length (dec_int n) \<le> 11" using assms by (intro length_dec_int) auto
  then show ?thesis
    using cstr_held [of "''REQUEST_METHOD=POST''"] cstr_held [of "''CONTENT_LENGTH='' @ dec_int n"]
    by (simp add: cgi_child_env_def strcpy_fits)
qed

subsection \<open>Whole CGI runs\<close>

lemma send_status:
  "send_str (local_buf junk v 1024) STATUS_200 sk =
    Inr (STATUS_200 @ NUL # drop (Suc (length STATUS_200)) (local_buf junk v 1024),
         sk\<lparr>sk_out := sk_out sk @ STATUS_200\<rparr>)"
  by (rule send_str_fits) (simp_all add: STATUS_200_def)

definition can_fork :: "world1 \<Rightarrow> bool" where
  "can_fork w = (0 \<le> w_pipe_input w \<and> 0 \<le> w_pipe_output w \<and> 0 \<le> w_fork w)"

text \<open>
  What a run leaves: the two status lines and the program's output, or the page 500 if a
  pipe or the second process could not be made.
\<close>

definition run_cgi :: "world1 \<Rightarrow> string \<Rightarrow> string list \<Rightarrow> string \<Rightarrow> string res" where
  "run_cgi w path env inp =
     (case w_cgi w path env inp of None \<Rightarrow> Inl Blocked | Some out \<Rightarrow> Inr (STATUS_200 @ STATUS_200 @ out))"

lemma execute_cgi_GET:
  assumes "sk_in sk = wire hs @ crlf @ body" and "\<forall>h\<in>set hs. header_ok h" and "nul_free q"
  shows "execute_cgi w junk sk path ''GET'' (Some q) =
    bindr (if \<not> can_fork w then Inr page_500
           else if 241 < length q then Inl OutOfBounds
           else run_cgi w path [''REQUEST_METHOD=GET'', ''QUERY_STRING='' @ q] [])
      (\<lambda>out. Inr (sk\<lparr>sk_in := body, sk_out := sk_out sk @ out\<rparr>))"
proof -
  obtain b where b: "discard_headers 1 buf_A (sk_in sk) = Inr (b, 1, body)"
    using discard_headers_wire [of 1 buf_A "''A''" hs body] assms(1,2) buf_A_facts by auto
  show ?thesis
    using assms(3)
    by (simp add: execute_cgi_def b can_fork_def Let_def send_status cgi_child_env_GET
        cannot_execute_sends run_cgi_def split: option.split)
qed

lemma execute_cgi_POST:
  assumes "sk_in sk = wire hs @ crlf @ body" and "\<forall>h\<in>set hs. header_ok h \<and> nul_free h"
    and "post_length (- 1) hs = Inr n" and "- (2 ^ 31) \<le> n" and "n < 2 ^ 31"
  shows "execute_cgi w junk sk path ''POST'' query =
    (if n = - 1 then Inr (sk\<lparr>sk_in := body, sk_out := sk_out sk @ page_400\<rparr>)
     else if \<not> can_fork w then Inr (sk\<lparr>sk_in := body, sk_out := sk_out sk @ page_500\<rparr>)
     else case copy_body (nat n) (junk ''c'' 0) body of (inp, rest) \<Rightarrow>
       bindr (run_cgi w path [''REQUEST_METHOD=POST'', ''CONTENT_LENGTH='' @ dec_int n] inp)
         (\<lambda>out. Inr (sk\<lparr>sk_in := rest, sk_out := sk_out sk @ out\<rparr>)))"
proof -
  have "bindr (get_line (sk_in sk) buf_A 1024) (\<lambda>(buf, k, rx). post_headers buf k (- 1) rx) = Inr (n, body)"
    using post_block_read [OF assms(2), of body "- 1"] assms(1,3) by simp
  then show ?thesis
    using assms(4,5)
    by (simp add: execute_cgi_def can_fork_def Let_def send_status cgi_child_env_POST
        bad_request_sends cannot_execute_sends run_cgi_def split: option.split prod.split)
qed

lemma execute_cgi_POST_fault:
  assumes "sk_in sk = wire hs @ crlf @ body" and "\<forall>h\<in>set hs. header_ok h \<and> nul_free h"
    and "post_length (- 1) hs = Inl e"
  shows "execute_cgi w junk sk path ''POST'' query = Inl e"
proof -
  have "bindr (get_line (sk_in sk) buf_A 1024) (\<lambda>(buf, k, rx). post_headers buf k (- 1) rx) = Inl e"
    using post_block_read [OF assms(2), of body "- 1"] assms(1,3) by simp
  then show ?thesis by (simp add: execute_cgi_def)
qed

lemma post_length_range:
  "post_length cl hs = Inr n \<Longrightarrow> - (2 ^ 31) \<le> cl \<and> cl < 2 ^ 31 \<Longrightarrow> - (2 ^ 31) \<le> n \<and> n < 2 ^ 31"
proof (induction hs arbitrary: cl)
  case Nil
  then show ?case by simp
next
  case (Cons h hs)
  then obtain cl' where c: "(if take 15 h = ''Content-Length:'' then atoi (drop 16 h) else Inr cl) = Inr cl'"
    "post_length cl' hs = Inr n"
    by (auto simp: bindr_eq_Inr)
  from c(1) Cons.prems(2) have "- (2 ^ 31) \<le> cl' \<and> cl' < 2 ^ 31"
    by (auto simp: atoi_def Let_def split: if_splits)
  with c(2) show ?case by (rule Cons.IH)
qed

end
