(* ===== verification/V1_Request.thy ===== *)
theory V1_Request
  imports V1_Cgi
begin

section \<open>version\_01: handling one request\<close>

text \<open>
  \<open>accept_request\<close> of version\_01/httpd.c, the whole life of one connection: the request
  line is read into a 1024-byte array, method and URL are copied out of it, the URL is cut
  at its question mark, the path is built below the directory \<open>etc\<close>, and the file is
  sent or run.
\<close>

unbundle bit_operations_syntax

subsection \<open>Taking the request line apart\<close>

text \<open>\<open>while (!isspace(buf[i]) && j < sizeof(method) - 1) method[j++] = buf[i++];\<close>\<close>

function copy_method :: "char list \<Rightarrow> nat \<Rightarrow> nat \<Rightarrow> char list \<Rightarrow> (nat \<times> nat \<times> char list) res" where
  "copy_method buf i j meth =
     bindr (rd buf (int i)) (\<lambda>c.
       if \<not> isspace c \<and> j < 254 then
         bindr (wr meth (int j) c) (\<lambda>meth. copy_method buf (Suc i) (Suc j) meth)
       else Inr (i, j, meth))"
  by pat_completeness auto
termination
  by (relation "measure (\<lambda>(buf, i, j, meth). 254 - j)") auto

text \<open>\<open>while (isspace(buf[i])) i++;\<close>\<close>

function skip_space :: "char list \<Rightarrow> nat \<Rightarrow> nat res" where
  "skip_space buf i =
     bindr (rd buf (int i)) (\<lambda>c. if isspace c then skip_space buf (Suc i) else Inr i)"
  by pat_completeness auto
termination
  by (relation "measure (\<lambda>(buf, i). length buf - i)") (auto simp: rd_nat split: if_splits)

text \<open>\<open>while (!isspace(buf[i]) && j < sizeof(url) - 1 && i < numchars) url[j++] = buf[i++];\<close>\<close>

function copy_url :: "char list \<Rightarrow> nat \<Rightarrow> nat \<Rightarrow> int \<Rightarrow> char list \<Rightarrow> (nat \<times> nat \<times> char list) res" where
  "copy_url buf i j numchars url =
     bindr (rd buf (int i)) (\<lambda>c.
       if \<not> isspace c \<and> j < 254 \<and> int i < numchars then
         bindr (wr url (int j) c) (\<lambda>url. copy_url buf (Suc i) (Suc j) numchars url)
       else Inr (i, j, url))"
  by pat_completeness auto
termination
  by (relation "measure (\<lambda>(buf, i, j, numchars, url). 254 - j)") auto

text \<open>
  The scan for the question mark: the result says whether there is one, the URL cut
  there, and the index \<open>query_string\<close> points to.
\<close>

function scan_query :: "char list \<Rightarrow> nat \<Rightarrow> (bool \<times> char list \<times> nat) res" where
  "scan_query url q =
     bindr (rd url (int q)) (\<lambda>c.
       if c \<noteq> NUL then
         (if c = CHR ''?'' then bindr (wr url (int q) NUL) (\<lambda>url. Inr (True, url, Suc q))
          else scan_query url (Suc q))
       else Inr (False, url, q))"
  by pat_completeness auto
termination
  by (relation "measure (\<lambda>(url, q). length url - q)") (auto simp: rd_nat split: if_splits)

declare copy_method.simps [simp del] skip_space.simps [simp del]
  copy_url.simps [simp del] scan_query.simps [simp del]

subsection \<open>Finding and serving the resource\<close>

definition S_IXUSR :: "32 word" where "S_IXUSR = 0x40"
definition S_IXGRP :: "32 word" where "S_IXGRP = 0x08"
definition S_IXOTH :: "32 word" where "S_IXOTH = 0x01"

definition build_path :: "stack \<Rightarrow> char list \<Rightarrow> string res" where
  "build_path junk url =
     bindr (cstr url 0) (\<lambda>u.
     bindr (strcpy (local_buf junk ''path'' 512) (''etc'' @ u)) (\<lambda>path.
     bindr (strlen path) (\<lambda>n.
     bindr (rd path (int n - 1)) (\<lambda>c.
     bindr (if c = CHR ''/'' then strcat path ''index.html'' else Inr path) (\<lambda>path.
       cstr path 0)))))"

definition serve_request ::
  "world1 \<Rightarrow> stack \<Rightarrow> sock \<Rightarrow> string \<Rightarrow> char list \<Rightarrow> bool \<Rightarrow> string option \<Rightarrow> char list \<Rightarrow> int \<Rightarrow> sock res"
where
  "serve_request w junk client_sock meth url cgi query_string buf numchars =
     bindr (build_path junk url) (\<lambda>path.
     bindr
       (case w_stat w path of
          None \<Rightarrow>
            bindr (discard_headers numchars buf (sk_in client_sock)) (\<lambda>(buf, numchars, rx).
              not_found junk (client_sock\<lparr>sk_in := rx\<rparr>))
        | Some st_mode \<Rightarrow>
            let cgi = (cgi \<or> st_mode AND S_IXUSR \<noteq> 0 \<or> st_mode AND S_IXGRP \<noteq> 0
                       \<or> st_mode AND S_IXOTH \<noteq> 0) in
            if \<not> cgi then server_file w junk client_sock path
            else execute_cgi w junk client_sock path meth query_string) (\<lambda>client_sock.
     Inr (client_sock\<lparr>sk_open := False\<rparr>)))"

definition accept_request :: "world1 \<Rightarrow> stack \<Rightarrow> sock \<Rightarrow> sock res" where
  "accept_request w junk client_sock =
     bindr (get_line (sk_in client_sock) (local_buf junk ''buf'' 1024) 1024) (\<lambda>(buf, numchars, rx).
     let client_sock = client_sock\<lparr>sk_in := rx\<rparr> in
     bindr (copy_method buf 0 0 (local_buf junk ''method'' 255)) (\<lambda>(i, j, meth).
     bindr (wr meth (int j) NUL) (\<lambda>meth.
     bindr (cstr meth 0) (\<lambda>m.
     if m \<noteq> ''GET'' \<and> m \<noteq> ''POST'' then unimplemented junk client_sock
     else
       bindr (skip_space buf i) (\<lambda>i.
       bindr (copy_url buf i 0 numchars (local_buf junk ''url'' 255)) (\<lambda>(i, j, url).
       bindr (wr url (int j) NUL) (\<lambda>url.
       let cgi = (m = ''POST'') in
       if m = ''GET'' then
         bindr (scan_query url 0) (\<lambda>(found, url, q).
         bindr (cstr url q) (\<lambda>query_string.
           serve_request w junk client_sock m url (cgi \<or> found) (Some query_string) buf numchars))
       else serve_request w junk client_sock m url cgi None buf numchars))))))) "

subsection \<open>The copying loops\<close>

lemma copy_method_run:
  assumes "\<forall>c\<in>set s. \<not> isspace c" and "isspace x"
    and "length pre + length s \<le> 254" and "length s \<le> length rest"
  shows "copy_method (p @ s @ x # t) (length p) (length pre) (pre @ rest) =
    Inr (length p + length s, length pre + length s, pre @ s @ drop (length s) rest)"
  using assms
proof (induction s arbitrary: p pre rest)
  case Nil
  then show ?case by (subst copy_method.simps) simp
next
  case (Cons c s)
  then obtain r rest' where r: "rest = r # rest'" by (cases rest) auto
  have "copy_method ((p @ [c]) @ s @ x # t) (length (p @ [c])) (length (pre @ [c])) ((pre @ [c]) @ rest') =
    Inr (length (p @ [c]) + length s, length (pre @ [c]) + length s,
         (pre @ [c]) @ s @ drop (length s) rest')"
    using Cons r by (intro Cons.IH) auto
  with Cons.prems r show ?case by (subst copy_method.simps) simp
qed

lemma copy_url_run:
  assumes "\<forall>c\<in>set s. \<not> isspace c" and "isspace x"
    and "length pre + length s \<le> 254" and "length s \<le> length rest"
    and "int (length p + length s) \<le> numchars"
  shows "copy_url (p @ s @ x # t) (length p) (length pre) numchars (pre @ rest) =
    Inr (length p + length s, length pre + length s, pre @ s @ drop (length s) rest)"
  using assms
proof (induction s arbitrary: p pre rest)
  case Nil
  then show ?case by (subst copy_url.simps) simp
next
  case (Cons c s)
  then obtain r rest' where r: "rest = r # rest'" by (cases rest) auto
  have "copy_url ((p @ [c]) @ s @ x # t) (length (p @ [c])) (length (pre @ [c])) numchars
      ((pre @ [c]) @ rest') =
    Inr (length (p @ [c]) + length s, length (pre @ [c]) + length s,
         (pre @ [c]) @ s @ drop (length s) rest')"
    using Cons r by (intro Cons.IH) auto
  with Cons.prems r show ?case by (subst copy_url.simps) simp
qed

lemma skip_space_run:
  assumes "\<forall>c\<in>set s. isspace c" and "\<not> isspace x"
  shows "skip_space (p @ s @ x # t) (length p) = Inr (length p + length s)"
  using assms
proof (induction s arbitrary: p)
  case Nil
  then show ?case by (subst skip_space.simps) simp
next
  case (Cons c s)
  have "skip_space ((p @ [c]) @ s @ x # t) (length (p @ [c])) = Inr (length (p @ [c]) + length s)"
    using Cons by (intro Cons.IH) auto
  with Cons.prems show ?case by (subst skip_space.simps) simp
qed

lemma scan_query_hit:
  assumes "nul_free a" and "CHR ''?'' \<notin> set a"
  shows "scan_query (p @ a @ CHR ''?'' # b) (length p) =
    Inr (True, p @ a @ NUL # b, Suc (length p + length a))"
  using assms
proof (induction a arbitrary: p)
  case Nil
  then show ?case by (subst scan_query.simps) simp
next
  case (Cons c a)
  have "scan_query ((p @ [c]) @ a @ CHR ''?'' # b) (length (p @ [c])) =
    Inr (True, (p @ [c]) @ a @ NUL # b, Suc (length (p @ [c]) + length a))"
    using Cons by (intro Cons.IH) auto
  with Cons.prems show ?case by (subst scan_query.simps) auto
qed

lemma scan_query_miss:
  assumes "nul_free a" and "CHR ''?'' \<notin> set a"
  shows "scan_query (p @ a @ NUL # b) (length p) =
    Inr (False, p @ a @ NUL # b, length p + length a)"
  using assms
proof (induction a arbitrary: p)
  case Nil
  then show ?case by (subst scan_query.simps) simp
next
  case (Cons c a)
  have "scan_query ((p @ [c]) @ a @ NUL # b) (length (p @ [c])) =
    Inr (False, (p @ [c]) @ a @ NUL # b, length (p @ [c]) + length a)"
    using Cons by (intro Cons.IH) auto
  with Cons.prems show ?case by (subst scan_query.simps) auto
qed

subsection \<open>Paths\<close>

definition file_path :: "string \<Rightarrow> string" where
  "file_path u = (let p = ''etc'' @ u in if last p = CHR ''/'' then p @ ''index.html'' else p)"

lemma nul_free_cstr: "cstr b i = Inr s \<Longrightarrow> nul_free s"
  by (rule cstr_split)

lemma build_path_eq:
  assumes "cstr url 0 = Inr u" and "length u \<le> 254"
  shows "build_path junk url = Inr (file_path u)"
proof -
  define p where "p = ''etc'' @ u"
  let ?b = "local_buf junk ''path'' 512"
  have n: "nul_free p" "p \<noteq> []" using nul_free_cstr [OF assms(1)] by (simp_all add: p_def)
  have l: "length p \<le> 257" using assms(2) by (simp add: p_def)
  have s: "strcpy ?b p = Inr (p @ NUL # drop (Suc (length p)) ?b)"
    using l by (simp add: strcpy_fits)
  have "rd (p @ NUL # drop (Suc (length p)) ?b) (int (length p) - 1) = Inr (last p)"
    using n by (cases p rule: rev_cases) (simp_all add: rd_def nth_append nat_diff_distrib')
  moreover have "strcat (p @ NUL # drop (Suc (length p)) ?b) ''index.html'' =
      Inr (p @ ''index.html'' @ NUL # drop (length ''index.html'') (drop (Suc (length p)) ?b))"
    using n l by (subst strcat_held) simp_all
  moreover have "cstr (p @ ''index.html'' @ NUL # r) 0 = Inr (p @ ''index.html'')" for r
    using n cstr_held [of "p @ ''index.html''" r] by simp
  moreover have "bindr (strcpy ?b (''etc'' @ u)) f = bindr (strcpy ?b p) f" for f :: "char list \<Rightarrow> string res"
    by (simp add: p_def)
  ultimately show ?thesis
    using assms(1) n s by (simp add: build_path_def strlen_def file_path_def p_def [symmetric] Let_def del: append_Cons)
qed

subsection \<open>A request line as clients send it\<close>

definition token_ok :: "string \<Rightarrow> bool" where
  "token_ok u = (u \<noteq> [] \<and> (\<forall>c\<in>set u. \<not> isspace c \<and> c \<noteq> NUL))"

definition request_line :: "string \<Rightarrow> string \<Rightarrow> string \<Rightarrow> string" where
  "request_line m u v = m @ '' '' @ u @ '' '' @ v"

definition line_ok :: "string \<Rightarrow> string \<Rightarrow> string \<Rightarrow> bool" where
  "line_ok m u v = (token_ok m \<and> token_ok u \<and> length m \<le> 254 \<and> length u \<le> 254
     \<and> LF \<notin> set v \<and> length (request_line m u v) \<le> 1021)"

lemma token_ok_facts:
  assumes "token_ok u"
  shows "u \<noteq> []" "\<forall>c\<in>set u. \<not> isspace c" "nul_free u" "LF \<notin> set u"
proof -
  show "u \<noteq> []" "\<forall>c\<in>set u. \<not> isspace c" "nul_free u"
    using assms by (auto simp: token_ok_def nul_free_def)
  then show "LF \<notin> set u" using isspace_simps(1) by blast
qed

text \<open>The state of the line buffer when a well-formed request line has been read.\<close>

definition line_read :: "string \<Rightarrow> char list \<Rightarrow> int \<Rightarrow> bool" where
  "line_read line buf numchars =
     (length buf = LINE_MAX \<and> numchars = int (Suc (length line))
      \<and> (\<exists>r. buf = line @ LF # NUL # r))"

lemma line_read_not_blank:
  assumes "line_read line buf k" and "line \<noteq> []" and "hd line \<noteq> LF"
  shows "0 < k" and "length buf = LINE_MAX" and "\<exists>s. cstr buf 0 = Inr s \<and> s \<noteq> [LF]"
  using assms cstr_not_blank by (auto simp: line_read_def)

lemma read_request_line:
  assumes ok: "line_ok m u v"
  shows "\<exists>buf. line_read (request_line m u v) buf (int (Suc (length (request_line m u v))))
    \<and> get_line (request_line m u v @ crlf @ rest) (local_buf junk ''buf'' 1024) 1024
      = Inr (buf, int (Suc (length (request_line m u v))), rest)"
proof -
  have no: "LF \<notin> set (request_line m u v)"
    using ok token_ok_facts(4) by (auto simp: line_ok_def request_line_def)
  with ok show ?thesis
    using get_line_1024 [of "local_buf junk ''buf'' 1024" "request_line m u v" rest]
    by (auto simp: line_ok_def line_read_def)
qed

text \<open>The first word of the line, and the text between it and the protocol version.\<close>

lemma method_copied:
  assumes ok: "line_ok m u v" and b: "line_read (request_line m u v) buf k"
  shows "\<exists>meth. copy_method buf 0 0 (local_buf junk ''method'' 255) = Inr (length m, length m, meth)
    \<and> (\<exists>meth'. wr meth (int (length m)) NUL = Inr meth' \<and> cstr meth' 0 = Inr m)"
proof -
  let ?M = "local_buf junk ''method'' 255"
  obtain t where t: "buf = m @ CHR 0x20 # t"
    using b by (auto simp: line_read_def request_line_def)
  have m: "\<forall>c\<in>set m. \<not> isspace c" "nul_free m" "length m \<le> 254"
    using ok token_ok_facts(2,3) by (auto simp: line_ok_def)
  have "copy_method buf 0 0 ?M = Inr (length m, length m, m @ drop (length m) ?M)"
    using copy_method_run [of m "CHR 0x20" "[]" ?M "[]" t] m t by simp
  moreover obtain x r where x: "drop (length m) ?M = x # r"
    using m(3) by (cases "drop (length m) ?M") auto
  ultimately show ?thesis using m(2) by (auto simp: x)
qed

lemma url_copied:
  assumes ok: "line_ok m u v" and b: "line_read (request_line m u v) buf k"
  shows "skip_space buf (length m) = Inr (Suc (length m))"
    and "\<exists>i url r. copy_url buf (Suc (length m)) 0 k (local_buf junk ''url'' 255) = Inr (i, length u, url)
      \<and> wr url (int (length u)) NUL = Inr (u @ NUL # r)"
proof -
  let ?U = "local_buf junk ''url'' 255"
  obtain t where t: "buf = m @ CHR 0x20 # u @ CHR 0x20 # t"
    using b by (auto simp: line_read_def request_line_def)
  obtain u0 us where u0: "u = u0 # us" "\<not> isspace u0"
    using ok token_ok_facts(1,2) [of u] by (cases u) (auto simp: line_ok_def)
  show "skip_space buf (length m) = Inr (Suc (length m))"
    using skip_space_run [of "[CHR 0x20]" u0 m "us @ CHR 0x20 # t"] u0 t by simp
  have u: "\<forall>c\<in>set u. \<not> isspace c" "length u \<le> 254"
    using ok token_ok_facts(2) by (auto simp: line_ok_def)
  have k: "int (length (m @ [CHR 0x20]) + length u) \<le> k"
    using b by (simp add: line_read_def request_line_def)
  have "copy_url buf (Suc (length m)) 0 k ?U = Inr (Suc (length m) + length u, length u, u @ drop (length u) ?U)"
    using copy_url_run [of u "CHR 0x20" "[]" ?U "m @ [CHR 0x20]" k t] u k t by simp
  moreover obtain x r where x: "drop (length u) ?U = x # r"
    using u(2) by (cases "drop (length u) ?U") auto
  ultimately show "\<exists>i url r. copy_url buf (Suc (length m)) 0 k ?U = Inr (i, length u, url)
      \<and> wr url (int (length u)) NUL = Inr (u @ NUL # r)"
    by (auto simp: x)
qed

text \<open>
  What the parsing part hands to the serving part. A GET whose URL has no question mark
  has the empty query string and is not yet a CGI request; with one, the URL is cut
  there; a POST is always a CGI request.
\<close>

lemma accept_request_other:
  assumes "line_ok m u v" and "m \<noteq> ''GET''" and "m \<noteq> ''POST''"
    and "sk_in sk = request_line m u v @ crlf @ rest"
  shows "accept_request w junk sk = Inr (sk\<lparr>sk_in := rest, sk_out := sk_out sk @ page_501\<rparr>)"
proof -
  obtain buf where buf: "line_read (request_line m u v) buf (int (Suc (length (request_line m u v))))"
    "get_line (sk_in sk) (local_buf junk ''buf'' 1024) 1024
      = Inr (buf, int (Suc (length (request_line m u v))), rest)"
    using read_request_line [OF assms(1), of rest junk] assms(4) by auto
  obtain meth meth' where "copy_method buf 0 0 (local_buf junk ''method'' 255) = Inr (length m, length m, meth)"
    "wr meth (int (length m)) NUL = Inr meth'" "cstr meth' 0 = Inr m"
    using method_copied [OF assms(1) buf(1)] by blast
  with buf assms show ?thesis by (simp add: accept_request_def Let_def unimplemented_sends)
qed

lemma accept_request_POST:
  assumes "line_ok ''POST'' u v" and "sk_in sk = request_line ''POST'' u v @ crlf @ rest"
  shows "\<exists>buf r. line_read (request_line ''POST'' u v) buf (int (Suc (length (request_line ''POST'' u v))))
    \<and> accept_request w junk sk = serve_request w junk (sk\<lparr>sk_in := rest\<rparr>) ''POST'' (u @ NUL # r) True None
        buf (int (Suc (length (request_line ''POST'' u v))))"
proof -
  let ?l = "request_line ''POST'' u v"
  obtain buf where buf: "line_read ?l buf (int (Suc (length ?l)))"
    "get_line (sk_in sk) (local_buf junk ''buf'' 1024) 1024 = Inr (buf, int (Suc (length ?l)), rest)"
    using read_request_line [OF assms(1), of rest junk] assms(2) by auto
  obtain meth meth' where
    "copy_method buf 0 0 (local_buf junk ''method'' 255) = Inr (length ''POST'', length ''POST'', meth)"
    "wr meth (int (length ''POST'')) NUL = Inr meth'" "cstr meth' 0 = Inr ''POST''"
    using method_copied [OF assms(1) buf(1)] by blast
  moreover obtain i url r where "skip_space buf (length ''POST'') = Inr (Suc (length ''POST''))"
    "copy_url buf (Suc (length ''POST'')) 0 (int (Suc (length ?l))) (local_buf junk ''url'' 255) = Inr (i, length u, url)"
    "wr url (int (length u)) NUL = Inr (u @ NUL # r)"
    using url_copied(1) [OF assms(1) buf(1)] url_copied(2) [OF assms(1) buf(1), of junk] by blast
  ultimately show ?thesis
    using buf by (intro exI [of _ buf] exI [of _ r]) (simp add: accept_request_def Let_def)
qed

lemma accept_request_GET:
  assumes "line_ok ''GET'' u v" and "sk_in sk = request_line ''GET'' u v @ crlf @ rest"
    and "if found then u = a @ CHR ''?'' # q else u = a \<and> q = []" and "CHR ''?'' \<notin> set a"
  shows "\<exists>buf r. line_read (request_line ''GET'' u v) buf (int (Suc (length (request_line ''GET'' u v))))
    \<and> accept_request w junk sk = serve_request w junk (sk\<lparr>sk_in := rest\<rparr>) ''GET'' (a @ NUL # r) found
        (Some q) buf (int (Suc (length (request_line ''GET'' u v))))"
proof -
  let ?l = "request_line ''GET'' u v"
  have nf: "nul_free u" using assms(1) token_ok_facts(3) by (simp add: line_ok_def)
  obtain buf where buf: "line_read ?l buf (int (Suc (length ?l)))"
    "get_line (sk_in sk) (local_buf junk ''buf'' 1024) 1024 = Inr (buf, int (Suc (length ?l)), rest)"
    using read_request_line [OF assms(1), of rest junk] assms(2) by auto
  obtain meth meth' where
    "copy_method buf 0 0 (local_buf junk ''method'' 255) = Inr (length ''GET'', length ''GET'', meth)"
    "wr meth (int (length ''GET'')) NUL = Inr meth'" "cstr meth' 0 = Inr ''GET''"
    using method_copied [OF assms(1) buf(1)] by blast
  moreover obtain i url r where "skip_space buf (length ''GET'') = Inr (Suc (length ''GET''))"
    "copy_url buf (Suc (length ''GET'')) 0 (int (Suc (length ?l))) (local_buf junk ''url'' 255) = Inr (i, length u, url)"
    "wr url (int (length u)) NUL = Inr (u @ NUL # r)"
    using url_copied(1) [OF assms(1) buf(1)] url_copied(2) [OF assms(1) buf(1), of junk] by blast
  moreover obtain r' where "scan_query (u @ NUL # r) 0 = Inr (found, a @ NUL # r', if found then Suc (length a) else length a)"
    "cstr (a @ NUL # r') (if found then Suc (length a) else length a) = Inr q"
  proof (cases found)
    case True
    then have u: "u = a @ CHR ''?'' # q" using assms(3) by simp
    have "cstr ((a @ [NUL]) @ q @ NUL # r) (length (a @ [NUL])) = Inr q"
      using nf u by (intro cstr_held_at) simp
    then show ?thesis
      using that [of "q @ NUL # r"] scan_query_hit [of a "[]" "q @ NUL # r"] nf u True assms(4) by simp
  next
    case False
    then have u: "u = a" "q = []" using assms(3) by simp_all
    show ?thesis
      using that [of r] scan_query_miss [of a "[]" r] cstr_held_at [of "[]" a r] nf u False assms(4) by simp
  qed
  ultimately show ?thesis using buf by (auto simp: accept_request_def Let_def)
qed

end
