(* ===== verification/V1_Spec.thy ===== *)
theory V1_Spec
  imports V1_Request
begin

section \<open>version\_01: what a request means\<close>

text \<open>
  An abstract specification of the version\_01 server: requests are records of strings,
  a reply is the text sent, the bytes left unread and whether the descriptor is still
  open. Then the theorem that \<open>accept_request\<close>, with its buffers, indices and loops,
  implements it on every well-formed request, and the behaviours that follow.
\<close>

subsection \<open>Requests\<close>

record request1 =
  rq_method :: string
  rq_url :: string
  rq_version :: string
  rq_headers :: "string list"
  rq_body :: string

definition encode1 :: "request1 \<Rightarrow> string" where
  "encode1 r = request_line (rq_method r) (rq_url r) (rq_version r) @ crlf
     @ wire (rq_headers r) @ crlf @ rq_body r"

text \<open>
  Well-formed: method and URL are words of at most 254 bytes, the request line and every
  header fit the line buffer, and no header contains a NUL.
\<close>

definition request1_ok :: "request1 \<Rightarrow> bool" where
  "request1_ok r = (line_ok (rq_method r) (rq_url r) (rq_version r)
     \<and> (\<forall>h\<in>set (rq_headers r). header_ok h \<and> nul_free h))"

definition query_cut :: "string \<Rightarrow> string \<times> string option" where
  "query_cut u =
     (takeWhile (\<lambda>c. c \<noteq> CHR ''?'') u,
      if CHR ''?'' \<in> set u then Some (tl (dropWhile (\<lambda>c. c \<noteq> CHR ''?'') u)) else None)"

definition executable_mode :: "32 word \<Rightarrow> bool" where
  "executable_mode mode =
     (mode AND S_IXUSR \<noteq> 0 \<or> mode AND S_IXGRP \<noteq> 0 \<or> mode AND S_IXOTH \<noteq> 0)"

subsection \<open>Replies\<close>

definition get_spec :: "world1 \<Rightarrow> request1 \<Rightarrow> (string \<times> string) res" where
  "get_spec w r =
     (case query_cut (rq_url r) of (u, query) \<Rightarrow>
      let path = file_path u in
      bindr
        (case w_stat w path of
           None \<Rightarrow> Inr page_404
         | Some mode \<Rightarrow>
             if query = None \<and> \<not> executable_mode mode then
               (case w_fopen w path of
                  None \<Rightarrow> Inl NullDeref
                | Some f \<Rightarrow> Inr (head_200 @ complete_lines f))
             else if \<not> can_fork w then Inr page_500
             else
               let q = (case query of None \<Rightarrow> [] | Some q \<Rightarrow> q) in
               if 241 < length q then Inl OutOfBounds
               else run_cgi w path [''REQUEST_METHOD=GET'', ''QUERY_STRING='' @ q] [])
        (\<lambda>out. Inr (out, rq_body r)))"

definition post_spec :: "world1 \<Rightarrow> char \<Rightarrow> request1 \<Rightarrow> (string \<times> string) res" where
  "post_spec w c r =
     (let path = file_path (rq_url r) in
      case w_stat w path of
        None \<Rightarrow> Inr (page_404, rq_body r)
      | Some mode \<Rightarrow>
          bindr (post_length (- 1) (rq_headers r)) (\<lambda>n.
            if n = - 1 then Inr (page_400, rq_body r)
            else if \<not> can_fork w then Inr (page_500, rq_body r)
            else case copy_body (nat n) c (rq_body r) of (inp, rest) \<Rightarrow>
              bindr (run_cgi w path [''REQUEST_METHOD=POST'', ''CONTENT_LENGTH='' @ dec_int n] inp)
                (\<lambda>out. Inr (out, rest))))"

definition accept_spec :: "world1 \<Rightarrow> char \<Rightarrow> request1 \<Rightarrow> (string \<times> string \<times> bool) res" where
  "accept_spec w c r =
     (if rq_method r = ''GET'' then bindr (get_spec w r) (\<lambda>(out, rest). Inr (out, rest, False))
      else if rq_method r = ''POST'' then bindr (post_spec w c r) (\<lambda>(out, rest). Inr (out, rest, False))
      else Inr (page_501, wire (rq_headers r) @ crlf @ rq_body r, True))"

definition apply_reply :: "sock \<Rightarrow> string \<times> string \<times> bool \<Rightarrow> sock" where
  "apply_reply sk reply =
     (case reply of (out, rest, keep) \<Rightarrow>
        sk\<lparr>sk_in := rest, sk_out := sk_out sk @ out, sk_open := (keep \<and> sk_open sk)\<rparr>)"

subsection \<open>The code implements the specification\<close>

lemma query_cut_cases:
  obtains (plain) "CHR ''?'' \<notin> set u" "query_cut u = (u, None)"
    | (query) a q where "u = a @ CHR ''?'' # q" "CHR ''?'' \<notin> set a" "query_cut u = (a, Some q)"
proof (cases "CHR ''?'' \<in> set u")
  case False
  then have "takeWhile (\<lambda>c. c \<noteq> CHR ''?'') u = u" by (auto simp: takeWhile_eq_all_conv)
  with False show ?thesis by (intro plain) (auto simp: query_cut_def)
next
  case True
  then obtain a q where u: "u = a @ CHR ''?'' # q" "CHR ''?'' \<notin> set a"
    by (auto dest: split_list_first)
  then have "takeWhile (\<lambda>c. c \<noteq> CHR ''?'') u = a"
    by (auto intro: takeWhile_append_hit)
  moreover have "dropWhile (\<lambda>c. c \<noteq> CHR ''?'') u = CHR ''?'' # q"
    using u by (auto simp: dropWhile_append)
  ultimately have "query_cut u = (a, Some q)" using u by (simp add: query_cut_def)
  with u show ?thesis by (rule query)
qed

lemma serve_request_missing:
  assumes "cstr url 0 = Inr u" and "length u \<le> 254" and "w_stat w (file_path u) = None"
    and "line_read line buf k" and "line \<noteq> []" and "hd line \<noteq> LF"
    and "sk_in sk = wire hs @ crlf @ body" and "\<forall>h\<in>set hs. header_ok h"
  shows "serve_request w junk sk m url cgi query buf k =
    Inr (sk\<lparr>sk_in := body, sk_out := sk_out sk @ page_404, sk_open := False\<rparr>)"
proof -
  obtain s where s: "0 < k" "length buf = LINE_MAX" "cstr buf 0 = Inr s" "s \<noteq> [LF]"
    using line_read_not_blank [OF assms(4-6)] by blast
  obtain b where "discard_headers k buf (sk_in sk) = Inr (b, 1, body)"
    using discard_headers_wire [OF s(1,3,4,2) assms(8)] assms(7) by auto
  then show ?thesis
    using assms(1-3) by (simp add: serve_request_def build_path_eq not_found_sends)
qed

lemma request_line_hd:
  "line_ok m u v \<Longrightarrow> request_line m u v \<noteq> [] \<and> hd (request_line m u v) \<noteq> LF"
  using token_ok_facts(1,4) [of m] by (cases m) (auto simp: line_ok_def request_line_def)

lemma accept_GET_implements:
  assumes ok: "request1_ok r" and m: "rq_method r = ''GET''" and i: "sk_in sk = encode1 r"
    and files: "\<forall>p f. w_fopen w p = Some f \<longrightarrow> text_file f"
  shows "accept_request w junk sk =
    bindr (get_spec w r) (\<lambda>(out, rest). Inr (apply_reply sk (out, rest, False)))"
proof -
  obtain u q found where q: "query_cut (rq_url r) = (u, if found then Some q else None)"
    "if found then rq_url r = u @ CHR ''?'' # q else rq_url r = u \<and> q = []"
    "CHR ''?'' \<notin> set u"
    by (cases "rq_url r" rule: query_cut_cases) (metis, metis)
  let ?l = "request_line ''GET'' (rq_url r) (rq_version r)"
  let ?sk = "sk\<lparr>sk_in := wire (rq_headers r) @ crlf @ rq_body r\<rparr>"
  have l: "line_ok ''GET'' (rq_url r) (rq_version r)"
    and h: "\<forall>h\<in>set (rq_headers r). header_ok h"
    using ok m by (auto simp: request1_ok_def)
  have nf: "nul_free u" "nul_free q" "length u \<le> 254"
    using l q(2) token_ok_facts(3) [of "rq_url r"] by (auto simp: line_ok_def split: if_splits)
  obtain buf x where buf: "line_read ?l buf (int (Suc (length ?l)))"
    and acc: "accept_request w junk sk = serve_request w junk ?sk ''GET'' (u @ NUL # x) found
        (Some q) buf (int (Suc (length ?l)))"
    using accept_request_GET [OF l _ q(2,3), of sk "wire (rq_headers r) @ crlf @ rq_body r" w junk] i m
    by (auto simp: encode1_def)
  have c: "cstr (u @ NUL # x) 0 = Inr u" using nf by simp
  show ?thesis
  proof (cases "w_stat w (file_path u)")
    case None
    then show ?thesis
      using serve_request_missing [OF c nf(3) None buf _ _ _ h] request_line_hd [OF l] acc q
      by (simp add: get_spec_def apply_reply_def)
  next
    case (Some mode)
    show ?thesis
    proof (cases "found \<or> executable_mode mode")
      case True
      then have "\<not> (\<not> found \<and> \<not> executable_mode mode)" by blast
      with True Some acc q files show ?thesis
        using execute_cgi_GET [of ?sk "rq_headers r" "rq_body r" q w junk "file_path u"] h nf
        by (auto simp: serve_request_def build_path_eq [OF c nf(3)] get_spec_def Let_def
            executable_mode_def bindr_assoc apply_reply_def)
    next
      case False
      with Some acc q files show ?thesis
        using server_file_sends [of ?sk "rq_headers r" "rq_body r" w "file_path u"]
          server_file_unopened [of ?sk "rq_headers r" "rq_body r" w "file_path u"] h
        by (auto simp: serve_request_def build_path_eq [OF c nf(3)] get_spec_def Let_def
            executable_mode_def apply_reply_def split: option.split)
    qed
  qed
qed

lemma accept_POST_implements:
  assumes ok: "request1_ok r" and m: "rq_method r = ''POST''" and i: "sk_in sk = encode1 r"
  shows "accept_request w junk sk =
    bindr (post_spec w (junk ''c'' 0) r) (\<lambda>(out, rest). Inr (apply_reply sk (out, rest, False)))"
proof -
  let ?u = "rq_url r"
  let ?l = "request_line ''POST'' ?u (rq_version r)"
  let ?sk = "sk\<lparr>sk_in := wire (rq_headers r) @ crlf @ rq_body r\<rparr>"
  have l: "line_ok ''POST'' ?u (rq_version r)"
    and h: "\<forall>h\<in>set (rq_headers r). header_ok h \<and> nul_free h"
    using ok m by (auto simp: request1_ok_def)
  have nf: "nul_free ?u" "length ?u \<le> 254"
    using l token_ok_facts(3) by (auto simp: line_ok_def)
  obtain buf x where buf: "line_read ?l buf (int (Suc (length ?l)))"
    and acc: "accept_request w junk sk = serve_request w junk ?sk ''POST'' (?u @ NUL # x) True
        None buf (int (Suc (length ?l)))"
    using accept_request_POST [OF l, of sk "wire (rq_headers r) @ crlf @ rq_body r" w junk] i m
    by (auto simp: encode1_def)
  have c: "cstr (?u @ NUL # x) 0 = Inr ?u" using nf by simp
  show ?thesis
  proof (cases "w_stat w (file_path ?u)")
    case None
    then show ?thesis
      using serve_request_missing [OF c nf(2) None buf] request_line_hd [OF l] acc h
      by (simp add: post_spec_def apply_reply_def)
  next
    case (Some mode)
    show ?thesis
    proof (cases "post_length (- 1) (rq_headers r)")
      case (Inl e)
      with Some acc show ?thesis
        using execute_cgi_POST_fault [of ?sk "rq_headers r" "rq_body r" e w junk] h
        by (simp add: serve_request_def build_path_eq [OF c nf(2)] post_spec_def Let_def)
    next
      case (Inr n)
      have "- (2 ^ 31) \<le> n" "n < 2 ^ 31" using post_length_range [OF Inr] by simp_all
      with Inr Some acc show ?thesis
        using execute_cgi_POST [of ?sk "rq_headers r" "rq_body r" n w junk "file_path ?u" None] h
        by (auto simp: serve_request_def build_path_eq [OF c nf(2)] post_spec_def Let_def
            bindr_assoc apply_reply_def split: prod.split)
    qed
  qed
qed

lemma accept_request_implements:
  assumes "request1_ok r" and "sk_in sk = encode1 r"
    and "\<forall>p f. w_fopen w p = Some f \<longrightarrow> text_file f"
  shows "accept_request w junk sk =
    bindr (accept_spec w (junk ''c'' 0) r) (\<lambda>reply. Inr (apply_reply sk reply))"
proof (cases "rq_method r = ''GET'' \<or> rq_method r = ''POST''")
  case True
  then show ?thesis
    using accept_GET_implements [OF assms(1) _ assms(2,3)] accept_POST_implements [OF assms(1) _ assms(2)]
    by (auto simp: accept_spec_def bindr_assoc case_prod_unfold)
next
  case False
  then show ?thesis
    using accept_request_other [of "rq_method r" "rq_url r" "rq_version r" sk _ w junk] assms(1,2)
    by (simp add: request1_ok_def encode1_def accept_spec_def apply_reply_def)
qed

subsection \<open>A concrete site\<close>

text \<open>
  A small site for the concrete instances: a page with its last newline missing, a script
  that answers with its environment and input, and a directory above the document root.
\<close>

definition site :: world1 where
  "site = \<lparr>
     w_stat = (\<lambda>p. if p = ''etc/index.html'' \<or> p = ''etc/../httpd.c'' then Some 0x81A4
                   else if p = ''etc/color.cgi'' then Some 0x81ED else None),
     w_fopen = (\<lambda>p. if p = ''etc/index.html'' then Some (''<P>Hi'' @ [LF] @ ''</P>'')
                    else if p = ''etc/../httpd.c'' then Some (''int main;'' @ [LF]) else None),
     w_pipe_input = 0, w_pipe_output = 0, w_fork = 7,
     w_cgi = (\<lambda>p env inp. Some (concat env @ inp))\<rparr>"

abbreviation zeros :: stack where "zeros \<equiv> \<lambda>_ _. NUL"

lemma site_files: "\<forall>p f. w_fopen site p = Some f \<longrightarrow> text_file f"
  by (auto simp: site_def text_file_def last_fragment_def)

abbreviation get_req :: "string \<Rightarrow> request1" where
  "get_req u \<equiv> \<lparr>rq_method = ''GET'', rq_url = u, rq_version = ''HTTP/1.1'',
     rq_headers = [''Host: a''], rq_body = []\<rparr>"

abbreviation post_req :: "string list \<Rightarrow> string \<Rightarrow> request1" where
  "post_req hs b \<equiv> \<lparr>rq_method = ''POST'', rq_url = ''/color.cgi'', rq_version = ''HTTP/1.1'',
     rq_headers = hs, rq_body = b\<rparr>"

abbreviation conn :: "request1 \<Rightarrow> sock" where
  "conn r \<equiv> \<lparr>sk_in = encode1 r, sk_out = [], sk_open = True\<rparr>"

lemmas request_eval = request1_ok_def line_ok_def token_ok_def request_line_def header_ok_def
  isspace_def nul_free_def

subsection \<open>Properties\<close>

text \<open>
  C1. Refinement: on every well-formed request, \<open>accept_request\<close> (get\_line, the copying
  loops over 1024-, 255- and 512-byte arrays, the path construction, file service and CGI)
  behaves as the abstract server \<open>accept_spec\<close>, which maps a request record to the text
  sent, the bytes left unread and whether the descriptor stays open, faults included; in
  particular none of its arrays overflows but the child's \<open>query_env\<close>.
\<close>

theorem accept_request_refines:
  assumes "request1_ok r" and "sk_in sk = encode1 r"
    and "\<forall>p f. w_fopen w p = Some f \<longrightarrow> text_file f"
  shows "accept_request w junk sk =
    bindr (accept_spec w (junk ''c'' 0) r) (\<lambda>reply. Inr (apply_reply sk reply))"
  using assms by (rule accept_request_implements)

theorem accept_request_refines_witness:
  "accept_request site zeros (conn (get_req ''/'')) =
     Inr \<lparr>sk_in = [], sk_out = head_200 @ ''<P>Hi'' @ [LF], sk_open = False\<rparr>"
proof -
  have "request1_ok (get_req ''/'')" by (simp add: request_eval)
  from accept_request_refines [OF this, of "conn (get_req ''/'')" site zeros] site_files
  show ?thesis
    by (simp add: accept_spec_def get_spec_def query_cut_def file_path_def site_def
        executable_mode_def S_IXUSR_def S_IXGRP_def S_IXOTH_def complete_lines_def apply_reply_def)
qed

text \<open>
  A GET without question mark for a file that exists, is not executable and can be
  opened is answered with the 200 header and the file (all of it if it ends in a newline);
  the request is read up to its body and the descriptor is closed. The file is the one
  named by \<open>etc\<close> and the URL put together: the URL is not normalised, so \<open>/../x\<close> names
  the file \<open>x\<close> beside the document root.
\<close>

theorem static_get:
  assumes "request1_ok r" and "rq_method r = ''GET''" and "CHR ''?'' \<notin> set (rq_url r)"
    and "sk_in sk = encode1 r"
    and "w_stat w (file_path (rq_url r)) = Some mode" and "\<not> executable_mode mode"
    and "w_fopen w (file_path (rq_url r)) = Some f" and "f = [] \<or> last f = LF"
    and "\<forall>p f. w_fopen w p = Some f \<longrightarrow> text_file f"
  shows "accept_request w junk sk =
    Inr (sk\<lparr>sk_in := rq_body r, sk_out := sk_out sk @ head_200 @ f, sk_open := False\<rparr>)"
proof -
  have "query_cut (rq_url r) = (rq_url r, None)"
    using assms(3) by (cases "rq_url r" rule: query_cut_cases) auto
  then show ?thesis
    using assms accept_request_implements [OF assms(1,4,9), of junk]
    by (simp add: accept_spec_def get_spec_def complete_lines_id apply_reply_def)
qed

theorem static_get_witness:
  "accept_request site zeros (conn (get_req ''/../httpd.c'')) =
     Inr \<lparr>sk_in = [], sk_out = head_200 @ ''int main;'' @ [LF], sk_open = False\<rparr>"
proof -
  have "request1_ok (get_req ''/../httpd.c'')" by (simp add: request_eval)
  from static_get [OF this, where sk = "conn (get_req ''/../httpd.c'')" and w = site
      and mode = "0x81A4" and f = "''int main;'' @ [LF]" and junk = zeros]
    site_files
  show ?thesis
    by (simp add: file_path_def site_def executable_mode_def S_IXUSR_def S_IXGRP_def S_IXOTH_def)
qed

text \<open>
  C25. A GET with a query string of at most 241 bytes runs the program named by the URL
  before the question mark, with the query string in its environment and no input. The
  client gets the status line twice, once from each of the two processes, and then the
  program's output.
\<close>

theorem get_query_runs_program:
  assumes "request1_ok r" and "rq_method r = ''GET''" and "rq_url r = u @ CHR ''?'' # q"
    and "CHR ''?'' \<notin> set u" and "length q \<le> 241" and "sk_in sk = encode1 r"
    and "w_stat w (file_path u) = Some mode" and "can_fork w"
    and "w_cgi w (file_path u) [''REQUEST_METHOD=GET'', ''QUERY_STRING='' @ q] [] = Some out"
    and "\<forall>p f. w_fopen w p = Some f \<longrightarrow> text_file f"
  shows "accept_request w junk sk =
    Inr (sk\<lparr>sk_in := rq_body r, sk_out := sk_out sk @ STATUS_200 @ STATUS_200 @ out, sk_open := False\<rparr>)"
proof -
  have "query_cut (rq_url r) = (u, Some q)"
    using assms(3,4) takeWhile_append_hit [of u "\<lambda>c. c \<noteq> CHR ''?''" "CHR ''?''" q]
    by (auto simp: query_cut_def dropWhile_append)
  then show ?thesis
    using assms accept_request_implements [OF assms(1,6,10), of junk]
    by (simp add: accept_spec_def get_spec_def run_cgi_def apply_reply_def)
qed

theorem get_query_runs_program_witness:
  "accept_request site zeros (conn (get_req ''/color.cgi?c=red'')) =
     Inr \<lparr>sk_in = [], sk_out = STATUS_200 @ STATUS_200 @ ''REQUEST_METHOD=GETQUERY_STRING=c=red'',
       sk_open = False\<rparr>"
proof -
  have "request1_ok (get_req ''/color.cgi?c=red'')" by (simp add: request_eval)
  from get_query_runs_program [OF this, where u = "''/color.cgi''" and q = "''c=red''"
      and sk = "conn (get_req ''/color.cgi?c=red'')" and w = site and mode = "0x81ED"
      and out = "''REQUEST_METHOD=GETQUERY_STRING=c=red''" and junk = zeros] site_files
  show ?thesis by (simp add: file_path_def site_def can_fork_def)
qed

text \<open>
  A query string of 242 bytes or more (the URL may have 254) overflows the child's
  255-byte array \<open>query_env\<close>.
\<close>

theorem long_query_overflows:
  assumes "request1_ok r" and "rq_method r = ''GET''" and "rq_url r = u @ CHR ''?'' # q"
    and "CHR ''?'' \<notin> set u" and "242 \<le> length q" and "sk_in sk = encode1 r"
    and "w_stat w (file_path u) = Some mode" and "can_fork w"
    and "\<forall>p f. w_fopen w p = Some f \<longrightarrow> text_file f"
  shows "accept_request w junk sk = Inl OutOfBounds"
proof -
  have "query_cut (rq_url r) = (u, Some q)"
    using assms(3,4) takeWhile_append_hit [of u "\<lambda>c. c \<noteq> CHR ''?''" "CHR ''?''" q]
    by (auto simp: query_cut_def dropWhile_append)
  then show ?thesis
    using assms accept_request_implements [OF assms(1,6,9), of junk]
    by (simp add: accept_spec_def get_spec_def)
qed

theorem long_query_overflows_witness:
  "accept_request site zeros (conn (get_req (''/color.cgi'' @ CHR ''?'' # replicate 242 CHR ''a'')))
    = Inl OutOfBounds"
proof -
  let ?r = "get_req (''/color.cgi'' @ CHR ''?'' # replicate 242 CHR ''a'')"
  have "request1_ok ?r" by (simp add: request_eval)
  from long_query_overflows [OF this, where u = "''/color.cgi''" and q = "replicate 242 CHR ''a''"
      and sk = "conn ?r" and w = site and mode = "0x81ED" and junk = zeros]
    site_files
  show ?thesis by (simp add: file_path_def site_def can_fork_def)
qed

text \<open>
  C23. A POST whose last \<open>Content-Length: \<close> line gives \<open>n\<close> runs the program with that
  number in its environment. If the client sends at least \<open>n\<close> bytes of body, the program
  reads exactly the first \<open>n\<close> of them and the rest stays unread.
\<close>

theorem post_body_reaches_program:
  assumes "request1_ok r" and "rq_method r = ''POST''" and "sk_in sk = encode1 r"
    and "w_stat w (file_path (rq_url r)) = Some mode" and "can_fork w"
    and "post_length (- 1) (rq_headers r) = Inr (int (length b))" and "rq_body r = b @ rest"
    and "w_cgi w (file_path (rq_url r))
      [''REQUEST_METHOD=POST'', ''CONTENT_LENGTH='' @ dec_int (int (length b))] b = Some out"
    and "\<forall>p f. w_fopen w p = Some f \<longrightarrow> text_file f"
  shows "accept_request w junk sk =
    Inr (sk\<lparr>sk_in := rest, sk_out := sk_out sk @ STATUS_200 @ STATUS_200 @ out, sk_open := False\<rparr>)"
  using assms accept_request_implements [OF assms(1,3,9), of junk]
  by (simp add: accept_spec_def post_spec_def run_cgi_def apply_reply_def copy_body_enough)

theorem post_body_reaches_program_witness:
  "accept_request site zeros (conn (post_req [''Content-Length: 5''] ''c=redX'')) =
     Inr \<lparr>sk_in = ''X'',
       sk_out = STATUS_200 @ STATUS_200 @ ''REQUEST_METHOD=POST'' @ ''CONTENT_LENGTH=5'' @ ''c=red'',
       sk_open = False\<rparr>"
proof -
  let ?r = "post_req [''Content-Length: 5''] ''c=redX''"
  have ok: "request1_ok ?r" by (simp add: request_eval)
  have n: "post_length (- 1) (rq_headers ?r) = Inr (int (length ''c=red''))" by code_simp
  have d: "dec_int (int (length ''c=red'')) = ''5''" by code_simp
  from post_body_reaches_program [OF ok _ _ _ _ n, where sk = "conn ?r" and w = site and mode = "0x81ED"
      and rest = "''X''" and junk = zeros
      and out = "''REQUEST_METHOD=POST'' @ ''CONTENT_LENGTH=5'' @ ''c=red''"] site_files d
  show ?thesis by (simp add: file_path_def site_def can_fork_def)
qed

text \<open>
  If the client closes before it has sent the announced length, the program is given
  the announced number of bytes all the same: the last byte received is repeated, because
  the copy loop does not look at what \<open>recv\<close> returned.
\<close>

theorem short_body_is_padded:
  assumes "request1_ok r" and "rq_method r = ''POST''" and "sk_in sk = encode1 r"
    and "w_stat w (file_path (rq_url r)) = Some mode" and "can_fork w"
    and "post_length (- 1) (rq_headers r) = Inr (int (length (rq_body r) + k))" and "rq_body r \<noteq> []"
    and "w_cgi w (file_path (rq_url r))
      [''REQUEST_METHOD=POST'', ''CONTENT_LENGTH='' @ dec_int (int (length (rq_body r) + k))]
      (rq_body r @ replicate k (last (rq_body r))) = Some out"
    and "\<forall>p f. w_fopen w p = Some f \<longrightarrow> text_file f"
  shows "accept_request w junk sk =
    Inr (sk\<lparr>sk_in := [], sk_out := sk_out sk @ STATUS_200 @ STATUS_200 @ out, sk_open := False\<rparr>)"
  using assms accept_request_implements [OF assms(1,3,9), of junk]
    copy_body_short [of "rq_body r" k "junk ''c'' 0"]
  by (simp add: accept_spec_def post_spec_def run_cgi_def apply_reply_def nat_int_add)

theorem short_body_is_padded_witness:
  "accept_request site zeros (conn (post_req [''Content-Length: 5''] ''c=r'')) =
     Inr \<lparr>sk_in = [],
       sk_out = STATUS_200 @ STATUS_200 @ ''REQUEST_METHOD=POST'' @ ''CONTENT_LENGTH=5'' @ ''c=rrr'',
       sk_open = False\<rparr>"
proof -
  let ?r = "post_req [''Content-Length: 5''] ''c=r''"
  have ok: "request1_ok ?r" by (simp add: request_eval)
  have n: "post_length (- 1) (rq_headers ?r) = Inr (int (length (rq_body ?r) + 2))" by code_simp
  have d: "dec_int (int (length (rq_body ?r) + 2)) = ''5''" by code_simp
  from short_body_is_padded [OF ok _ _ _ _ n, where sk = "conn ?r" and w = site and mode = "0x81ED"
      and out = "''REQUEST_METHOD=POST'' @ ''CONTENT_LENGTH=5'' @ ''c=rrr''" and junk = zeros] site_files d
  show ?thesis by (simp add: file_path_def site_def can_fork_def numeral_eq_Suc)
qed

text \<open>
  C24. Errors: a request for a path \<open>stat\<close> does not know gets the 404 page, a POST for an
  existing path without \<open>Content-Length:\<close> line the 400 page, and any other method the 501
  page. In the first two cases the request is read up to its body and the descriptor is
  closed; in the third the headers are left unread and the descriptor stays open.
\<close>

theorem error_replies:
  assumes "request1_ok r" and "sk_in sk = encode1 r"
    and "\<forall>p f. w_fopen w p = Some f \<longrightarrow> text_file f"
  shows "(rq_method r = ''GET'' \<and> w_stat w (file_path (fst (query_cut (rq_url r)))) = None
      \<or> rq_method r = ''POST'' \<and> w_stat w (file_path (rq_url r)) = None \<longrightarrow>
      accept_request w junk sk =
        Inr (sk\<lparr>sk_in := rq_body r, sk_out := sk_out sk @ page_404, sk_open := False\<rparr>))
    \<and> (rq_method r = ''POST'' \<and> w_stat w (file_path (rq_url r)) \<noteq> None
      \<and> (\<forall>h\<in>set (rq_headers r). take 15 h \<noteq> ''Content-Length:'') \<longrightarrow>
      accept_request w junk sk =
        Inr (sk\<lparr>sk_in := rq_body r, sk_out := sk_out sk @ page_400, sk_open := False\<rparr>))
    \<and> (rq_method r \<noteq> ''GET'' \<and> rq_method r \<noteq> ''POST'' \<longrightarrow>
      accept_request w junk sk =
        Inr (sk\<lparr>sk_in := wire (rq_headers r) @ crlf @ rq_body r, sk_out := sk_out sk @ page_501\<rparr>))"
proof -
  have "\<forall>h\<in>set hs. take 15 h \<noteq> ''Content-Length:'' \<Longrightarrow> post_length cl hs = Inr cl" for hs cl
    by (induction hs) auto
  then show ?thesis
    using accept_request_implements [OF assms, of junk]
    by (cases "query_cut (rq_url r)")
      (auto simp: accept_spec_def get_spec_def post_spec_def Let_def apply_reply_def)
qed

theorem error_replies_witness:
  "accept_request site zeros (conn (post_req [''Host: a''] ''x'')) =
     Inr \<lparr>sk_in = ''x'', sk_out = page_400, sk_open = False\<rparr>
   \<and> accept_request site zeros (conn (get_req ''/none'')) =
     Inr \<lparr>sk_in = [], sk_out = page_404, sk_open = False\<rparr>"
proof -
  have ok: "request1_ok (post_req [''Host: a''] ''x'')" "request1_ok (get_req ''/none'')"
    by (simp_all add: request_eval)
  from error_replies [OF ok(1), where sk = "conn (post_req [''Host: a''] ''x'')" and w = site
      and junk = zeros]
    error_replies [OF ok(2), where sk = "conn (get_req ''/none'')" and w = site and junk = zeros]
    site_files
  show ?thesis by (simp add: file_path_def site_def query_cut_def)
qed

text \<open>
  C22. Whatever bytes a client sends and whatever the system answers: if the handler
  returns with the descriptor still open, then it has sent the 501 page and nothing else.
  Every other path closes the descriptor.
\<close>

theorem open_only_after_501:
  assumes "accept_request w junk sk = Inr sk'" and "sk_open sk'"
  shows "sk_out sk' = sk_out sk @ page_501"
proof -
  have closed: "\<not> sk_open t" if "serve_request w junk s m url cgi query buf k = Inr t" for s m url cgi query buf k t
    using that by (auto simp: serve_request_def bindr_eq_Inr)
  from assms show ?thesis
    by (auto simp: accept_request_def bindr_eq_Inr unimplemented_sends Let_def
        dest: closed split: if_splits)
qed

theorem open_only_after_501_witness:
  "accept_request site zeros
     \<lparr>sk_in = ''HEAD / HTTP/1.1'' @ crlf @ crlf, sk_out = [], sk_open = True\<rparr> =
       Inr \<lparr>sk_in = crlf, sk_out = page_501, sk_open = True\<rparr>
   \<and> sk_out \<lparr>sk_in = crlf, sk_out = page_501, sk_open = True\<rparr> =
     sk_out \<lparr>sk_in = ''HEAD / HTTP/1.1'' @ crlf @ crlf, sk_out = [], sk_open = True\<rparr> @ page_501"
proof -
  have "line_ok ''HEAD'' ''/'' ''HTTP/1.1''" by (simp add: request_eval)
  then have a: "accept_request site zeros
     \<lparr>sk_in = ''HEAD / HTTP/1.1'' @ crlf @ crlf, sk_out = [], sk_open = True\<rparr> =
       Inr \<lparr>sk_in = crlf, sk_out = page_501, sk_open = True\<rparr>"
    using accept_request_other [of "''HEAD''" "''/''" "''HTTP/1.1''"
        "\<lparr>sk_in = ''HEAD / HTTP/1.1'' @ crlf @ crlf, sk_out = [], sk_open = True\<rparr>" crlf site zeros]
    by (simp add: request_line_def)
  with open_only_after_501 [OF a] show ?thesis by simp
qed

end
