(* ===== verification/V1_Server.thy ===== *)
theory V1_Server
  imports V1_Spec
begin

section \<open>version\_01: the listening socket and the accept loop\<close>

text \<open>
  \<open>startup\<close> and \<open>main\<close> of version\_01/httpd.c. The main thread stores each accepted
  descriptor in its one local variable \<open>client_sock\<close> and hands the address of that
  variable to the new thread, which reads it when it comes to run. The loop is therefore a
  step relation on the shared variable and the threads.
\<close>

subsection \<open>Opening the listening socket\<close>

text \<open>
  What the socket calls return; \<open>s1_bind\<close> is given the 16-bit port, \<open>s1_sockname\<close> is the
  value of \<open>getsockname\<close> and the port it reports.
\<close>

record net1 =
  s1_socket :: int
  s1_setsockopt :: int
  s1_bind :: "16 word \<Rightarrow> int"
  s1_sockname :: "int \<times> 16 word"
  s1_listen :: int

definition startup :: "net1 \<Rightarrow> int \<Rightarrow> (int \<times> int) res" where
  "startup net port =
     (let serv_sock = s1_socket net in
      if serv_sock = - 1 then Inl (Die ''socket'')
      else if s1_setsockopt net < 0 then Inl (Die ''setsockopt failed'')
      else if s1_bind net (word_of_int port) = - 1 then Inl (Die ''bind'')
      else
        bindr
          (if port = 0 then
             (if fst (s1_sockname net) < 0 then Inl (Die ''getsockname'')
              else Inr (uint (snd (s1_sockname net))))
           else Inr port) (\<lambda>port.
        if s1_listen net < 0 then Inl (Die ''listen'') else Inr (serv_sock, port)))"

lemma startup_ok:
  assumes "startup net port = Inr (sock, port')"
  shows "sock = s1_socket net" and "sock \<noteq> - 1" and "s1_bind net (word_of_int port) \<noteq> - 1"
    and "0 \<le> s1_listen net" and "port \<noteq> 0 \<Longrightarrow> port' = port"
  using assms by (auto simp: startup_def Let_def split: if_splits)

subsection \<open>The accept loop\<close>

datatype main_pc = Accepting | Creating | Exited

text \<open>A thread has been created, has copied its descriptor, or has returned.\<close>

datatype thread = Started | Serving int | Finished int

record httpd =
  h_pc :: main_pc
  h_client_sock :: int
  h_accepted :: "int list"
  h_open :: "int list"
  h_threads :: "thread list"

definition httpd_init :: "int \<Rightarrow> httpd" where
  "httpd_init x = \<lparr>h_pc = Accepting, h_client_sock = x, h_accepted = [], h_open = [], h_threads = []\<rparr>"

text \<open>
  The kernel gives \<open>accept\<close> a descriptor that is not open. A thread ends by closing its
  descriptor, or without doing so (the path of an unsupported method).
  \<open>prompt\<close> restricts the scheduler: with it, the main thread comes back to \<open>accept\<close>
  only when every thread has copied its descriptor. The program has no such wait.
\<close>

inductive httpd_step :: "bool \<Rightarrow> httpd \<Rightarrow> httpd \<Rightarrow> bool" for prompt :: bool where
  accept: "\<lbrakk>h_pc s = Accepting; fd \<noteq> - 1; fd \<notin> set (h_open s);
     prompt \<longrightarrow> Started \<notin> set (h_threads s)\<rbrakk> \<Longrightarrow>
     httpd_step prompt s (s\<lparr>h_pc := Creating, h_client_sock := fd, h_accepted := h_accepted s @ [fd],
        h_open := fd # h_open s\<rparr>)"
| accept_fails: "h_pc s = Accepting \<Longrightarrow>
     httpd_step prompt s (s\<lparr>h_pc := Exited, h_client_sock := - 1\<rparr>)"
| create: "h_pc s = Creating \<Longrightarrow>
     httpd_step prompt s (s\<lparr>h_pc := Accepting, h_threads := h_threads s @ [Started]\<rparr>)"
| create_fails: "h_pc s = Creating \<Longrightarrow> httpd_step prompt s (s\<lparr>h_pc := Exited\<rparr>)"
| copy_fd: "\<lbrakk>h_pc s \<noteq> Exited; i < length (h_threads s); h_threads s ! i = Started\<rbrakk> \<Longrightarrow>
     httpd_step prompt s (s\<lparr>h_threads := (h_threads s)[i := Serving (h_client_sock s)]\<rparr>)"
| finish_leak: "\<lbrakk>h_pc s \<noteq> Exited; i < length (h_threads s); h_threads s ! i = Serving fd\<rbrakk> \<Longrightarrow>
     httpd_step prompt s (s\<lparr>h_threads := (h_threads s)[i := Finished fd]\<rparr>)"
| finish: "\<lbrakk>h_pc s \<noteq> Exited; i < length (h_threads s); h_threads s ! i = Serving fd\<rbrakk> \<Longrightarrow>
     httpd_step prompt s (s\<lparr>h_threads := (h_threads s)[i := Finished fd],
        h_open := removeAll fd (h_open s)\<rparr>)"

inductive httpd_reach :: "bool \<Rightarrow> httpd \<Rightarrow> bool" for prompt :: bool where
  init: "httpd_reach prompt (httpd_init x)"
| step: "httpd_reach prompt s \<Longrightarrow> httpd_step prompt s t \<Longrightarrow> httpd_reach prompt t"

fun thread_fd :: "thread \<Rightarrow> int option" where
  "thread_fd Started = None"
| "thread_fd (Serving fd) = Some fd"
| "thread_fd (Finished fd) = Some fd"

subsection \<open>With a prompt scheduler every connection gets its own thread\<close>

text \<open>
  Thread \<open>i\<close> holds the \<open>i\<close>-th accepted descriptor; while one thread has not copied it
  yet, that thread is the last and the variable still holds its descriptor.
\<close>

definition served_right :: "httpd \<Rightarrow> bool" where
  "served_right s =
     (h_pc s \<noteq> Exited \<longrightarrow>
        length (h_threads s) + (if h_pc s = Creating then 1 else 0) = length (h_accepted s)
        \<and> (\<forall>i<length (h_threads s). \<forall>fd. thread_fd (h_threads s ! i) = Some fd \<longrightarrow> fd = h_accepted s ! i)
        \<and> (\<forall>i<length (h_threads s). h_threads s ! i = Started \<longrightarrow>
             h_pc s = Accepting \<and> Suc i = length (h_accepted s))
        \<and> (h_accepted s \<noteq> [] \<longrightarrow> h_client_sock s = last (h_accepted s)))"

lemma served_right_step:
  "httpd_step True s t \<Longrightarrow> served_right s \<Longrightarrow> served_right t"
proof (induction rule: httpd_step.induct)
  case (accept s fd)
  then have "\<forall>i<length (h_threads s). h_threads s ! i \<noteq> Started"
    by (metis nth_mem)
  with accept show ?case by (auto simp: served_right_def nth_append)
next
  case (create s)
  then show ?case
    by (auto simp: served_right_def nth_append less_Suc_eq)
next
  case (copy_fd s i)
  then have "Suc i = length (h_accepted s)" "h_client_sock s = last (h_accepted s)"
    by (auto simp: served_right_def)
  moreover from this(1) have "last (h_accepted s) = h_accepted s ! i"
    by (metis diff_Suc_1 last_conv_nth length_0_conv nat.distinct(1))
  ultimately have "h_client_sock s = h_accepted s ! i" by simp
  with copy_fd show ?case
    by (auto simp: served_right_def nth_list_update)
next
  case (finish_leak s i fd)
  then show ?case
    by (auto simp: served_right_def nth_list_update split: if_splits)
next
  case (finish s i fd)
  then show ?case
    by (auto simp: served_right_def nth_list_update split: if_splits)
qed (auto simp: served_right_def)

lemma served_right_reach: "httpd_reach True s \<Longrightarrow> served_right s"
  by (induction rule: httpd_reach.induct)
    (auto simp: served_right_def httpd_init_def dest: served_right_step)

subsection \<open>Without it a connection can be served twice and another never\<close>








subsection \<open>Properties\<close>

text \<open>
  If the main thread were scheduled back to \<open>accept\<close> only after the new thread has
  copied its descriptor, every thread would serve the connection it was created for, in
  the order of the connections.
\<close>

theorem prompt_threads_serve_their_connection:
  assumes "httpd_reach True s" and "h_pc s \<noteq> Exited"
    and "i < length (h_threads s)" and "thread_fd (h_threads s ! i) = Some fd"
  shows "i < length (h_accepted s) \<and> fd = h_accepted s ! i"
  using served_right_reach [OF assms(1)] assms(2-4)
  by (auto simp: served_right_def split: if_splits)

theorem prompt_threads_serve_their_connection_witness:
  "httpd_reach True \<lparr>h_pc = Accepting, h_client_sock = 4, h_accepted = [4], h_open = [4],
     h_threads = [Serving 4]\<rparr> \<and> (4::int) = [4] ! 0"
proof -
  let ?s = "\<lambda>pc v acc ts. \<lparr>h_pc = pc, h_client_sock = v, h_accepted = acc,
    h_open = acc, h_threads = ts\<rparr>"
  have s0: "httpd_reach True (?s Accepting 0 [] [])"
    using httpd_reach.init [of True 0] by (simp add: httpd_init_def)
  have s1: "httpd_reach True (?s Creating 4 [4] [])"
    using httpd_reach.step [OF s0 httpd_step.accept [of _ 4]] by simp
  have s2: "httpd_reach True (?s Accepting 4 [4] [Started])"
    using httpd_reach.step [OF s1 httpd_step.create] by simp
  have s3: "httpd_reach True (?s Accepting 4 [4] [Serving 4])"
    using httpd_reach.step [OF s2 httpd_step.copy_fd [of _ 0]] by simp
  from prompt_threads_serve_their_connection [OF s3, of 0 4] s3 show ?thesis by simp
qed



end
