(* ===== verification/Fifo.thy ===== *)
theory Fifo
  imports Prelude
begin

section \<open>First-in first-out queues\<close>

text \<open>
  The contract several components share: the linked list of log messages of version\_02,
  the circular array \<open>block_queue\<close>, the work list of the thread pool and the free list of
  the connection pool of version\_03. A provider gives an abstraction to a list, an
  invariant, and two operations; a client gets the first-in first-out law for every
  sequence of operations.
\<close>

datatype 'a qop = Enq 'a | Deq

text \<open>
  A run of operations: the elements that were accepted, those that were taken, and the
  queue at the end. An insertion may be refused; a removal from an empty queue waits.
\<close>

fun run_ops ::
  "('a \<Rightarrow> 'q \<Rightarrow> (bool \<times> 'q) res) \<Rightarrow> ('q \<Rightarrow> ('a \<times> 'q) res) \<Rightarrow> 'a qop list \<Rightarrow> 'q
     \<Rightarrow> ('a list \<times> 'a list \<times> 'q) res"
where
  "run_ops enq deq [] q = Inr ([], [], q)"
| "run_ops enq deq (Enq x # ops) q =
     bindr (enq x q) (\<lambda>(taken_in, q).
     bindr (run_ops enq deq ops q) (\<lambda>(acc, out, q).
       Inr (if taken_in then x # acc else acc, out, q)))"
| "run_ops enq deq (Deq # ops) q =
     bindr (deq q) (\<lambda>(x, q).
     bindr (run_ops enq deq ops q) (\<lambda>(acc, out, q). Inr (acc, x # out, q)))"

locale fifo =
  fixes items :: "'q \<Rightarrow> 'a list"
    and ok :: "'q \<Rightarrow> bool"
    and room :: "'q \<Rightarrow> bool"
    and enq :: "'a \<Rightarrow> 'q \<Rightarrow> (bool \<times> 'q) res"
    and deq :: "'q \<Rightarrow> ('a \<times> 'q) res"
  assumes enq_room: "ok q \<Longrightarrow> room q \<Longrightarrow>
      \<exists>q'. enq x q = Inr (True, q') \<and> ok q' \<and> items q' = items q @ [x]"
    and enq_full: "ok q \<Longrightarrow> \<not> room q \<Longrightarrow>
      \<exists>q'. enq x q = Inr (False, q') \<and> ok q' \<and> items q' = items q"
    and deq_some: "ok q \<Longrightarrow> items q = x # xs \<Longrightarrow>
      \<exists>q'. deq q = Inr (x, q') \<and> ok q' \<and> items q' = xs"
    and deq_none: "ok q \<Longrightarrow> items q = [] \<Longrightarrow> deq q = Inl Blocked"
begin

lemma enq_cases:
  assumes "ok q"
  obtains b q' where "enq x q = Inr (b, q')" "ok q'" "b = room q"
    "items q' = (if b then items q @ [x] else items q)"
  using enq_room [OF assms, of x] enq_full [OF assms, of x] by (cases "room q") auto

lemma deq_cases:
  assumes "ok q"
  obtains (empty) "items q = []" "deq q = Inl Blocked"
    | (taken) x q' where "deq q = Inr (x, q')" "ok q'" "items q = x # items q'"
  using deq_none [OF assms] deq_some [OF assms] by (cases "items q") auto

text \<open>Whatever is taken comes out in the order in which it was accepted, nothing is lost.\<close>

lemma run_fifo:
  assumes "ok q" and "run_ops enq deq ops q = Inr (acc, out, q')"
  shows "ok q' \<and> items q @ acc = out @ items q'"
  using assms
proof (induction ops arbitrary: q acc out)
  case Nil
  then show ?case by simp
next
  case (Cons op ops)
  show ?case
  proof (cases op)
    case (Enq x)
    from \<open>ok q\<close> obtain b q1 where q1: "enq x q = Inr (b, q1)" "ok q1"
      "items q1 = (if b then items q @ [x] else items q)"
      by (elim enq_cases [of q x])
    with Cons.prems(2) Enq obtain acc1 where "run_ops enq deq ops q1 = Inr (acc1, out, q')"
      "acc = (if b then x # acc1 else acc1)"
      by (auto simp: bindr_eq_Inr)
    with Cons.IH [of q1 acc1 out] q1 show ?thesis by (auto split: if_splits)
  next
    case Deq
    from \<open>ok q\<close> show ?thesis
    proof (cases rule: deq_cases)
      case empty
      with Cons.prems(2) Deq show ?thesis by simp
    next
      case (taken x q1)
      with Cons.prems(2) Deq obtain out1 where "run_ops enq deq ops q1 = Inr (acc, out1, q')"
        "out = x # out1"
        by (auto simp: bindr_eq_Inr)
      with Cons.IH [of q1 acc out1] taken show ?thesis by auto
    qed
  qed
qed

text \<open>The only way a run does not finish is to wait for an element.\<close>

lemma run_only_blocks:
  assumes "ok q" and "run_ops enq deq ops q = Inl e"
  shows "e = Blocked"
  using assms
proof (induction ops arbitrary: q)
  case Nil
  then show ?case by simp
next
  case (Cons op ops)
  show ?case
  proof (cases op)
    case (Enq x)
    from \<open>ok q\<close> obtain b q1 where "enq x q = Inr (b, q1)" "ok q1" by (elim enq_cases [of q x])
    with Cons Enq show ?thesis by (auto simp: bindr_eq_Inl)
  next
    case Deq
    from \<open>ok q\<close> show ?thesis
    proof (cases rule: deq_cases)
      case empty
      with Cons.prems(2) Deq show ?thesis by simp
    next
      case (taken x q1)
      with Cons Deq show ?thesis by (auto simp: bindr_eq_Inl)
    qed
  qed
qed

end

text \<open>A queue with a bound: an element is refused exactly when the bound is reached.\<close>

locale bounded_fifo = fifo items ok room enq deq
  for items :: "'q \<Rightarrow> 'a list" and ok room enq deq +
  fixes bound :: "'q \<Rightarrow> nat"
  assumes room_iff: "ok q \<Longrightarrow> room q \<longleftrightarrow> length (items q) < bound q"
    and enq_bound: "ok q \<Longrightarrow> enq x q = Inr (b, q') \<Longrightarrow> bound q' = bound q"
    and deq_bound: "ok q \<Longrightarrow> deq q = Inr (x, q') \<Longrightarrow> bound q' = bound q"
begin

lemma run_within_bound:
  assumes "ok q" and "length (items q) \<le> bound q" and "run_ops enq deq ops q = Inr (acc, out, q')"
  shows "bound q' = bound q \<and> length (items q') \<le> bound q"
  using assms
proof (induction ops arbitrary: q acc out)
  case Nil
  then show ?case by simp
next
  case (Cons op ops)
  show ?case
  proof (cases op)
    case (Enq x)
    from \<open>ok q\<close> obtain b q1 where q1: "enq x q = Inr (b, q1)" "ok q1" "b = room q"
      "items q1 = (if b then items q @ [x] else items q)"
      by (elim enq_cases [of q x])
    then have b: "length (items q1) \<le> bound q1" "bound q1 = bound q"
      using room_iff [OF \<open>ok q\<close>] enq_bound [OF \<open>ok q\<close>] Cons.prems(2) by auto
    from Cons.prems(3) Enq q1(1) obtain acc1 where "run_ops enq deq ops q1 = Inr (acc1, out, q')"
      by (auto simp: bindr_eq_Inr)
    from Cons.IH [OF q1(2) b(1) this] b(2) show ?thesis by simp
  next
    case Deq
    from \<open>ok q\<close> show ?thesis
    proof (cases rule: deq_cases)
      case empty
      with Cons.prems(3) Deq show ?thesis by simp
    next
      case (taken x q1)
      then have b: "length (items q1) \<le> bound q1" "bound q1 = bound q"
        using deq_bound [OF \<open>ok q\<close>] Cons.prems(2) by auto
      from Cons.prems(3) Deq taken(1) obtain out1 where "run_ops enq deq ops q1 = Inr (acc, out1, q')"
        by (auto simp: bindr_eq_Inr)
      from Cons.IH [OF taken(2) b(1) this] b(2) show ?thesis by simp
    qed
  qed
qed

end

end
