(* ===== verification/V2_Log.thy ===== *)
theory V2_Log
  imports Fifo Cstring
begin

section \<open>version\_02: the logger\<close>

text \<open>
  version\_02/bin/log.c. The messages wait in a singly linked list of heap nodes with head
  and tail pointers and a size; the worker threads append under the mutex, one log thread
  takes from the front. \<open>malloc\<close> gives an address not used before (nothing is ever freed).
  A message is the whole 128-byte array of its node, because \<open>add_logbuf\<close> can read past
  the string in it.
\<close>

subsection \<open>Messages and the linked list\<close>

record msglog =
  ml_msg :: "char list"
  ml_grade :: int
  ml_next :: "nat option"

record log_thread =
  lt_heap :: "nat \<Rightarrow> msglog option"
  lt_fresh :: nat
  lt_head :: "nat option"
  lt_tail :: "nat option"
  lt_size :: int

definition init_log_thread :: "int \<Rightarrow> int \<Rightarrow> log_thread \<Rightarrow> log_thread res" where
  "init_log_thread mutex_init cond_init lt =
     (if mutex_init \<noteq> 0 then Inl (Die ''fail to init lock'')
      else if cond_init \<noteq> 0 then Inl (Die ''fail to init cond'')
      else Inr (lt\<lparr>lt_size := 0, lt_tail := None, lt_head := None\<rparr>))"

definition log_grade :: "string list" where
  "log_grade = ['' [info]: '', '' [debug]: '', '' [warn]: '', '' [error]: '']"

text \<open>Lines 31 to 34: the text of the new node; \<open>junk\<close> is what \<open>malloc\<close> returned.\<close>

definition log_text :: "char list \<Rightarrow> (int \<Rightarrow> string) \<Rightarrow> int \<Rightarrow> string \<Rightarrow> int \<Rightarrow> char list res" where
  "log_text junk strerror error str grade =
     bindr (rd log_grade grade) (\<lambda>g.
     bindr (strcpy junk g) (\<lambda>msg.
     bindr (strcat msg (strerror error)) (\<lambda>msg.
     strcat msg str)))"

text \<open>Lines 35, 36 and the critical section.\<close>

definition push_node :: "char list \<Rightarrow> int \<Rightarrow> log_thread \<Rightarrow> log_thread res" where
  "push_node msg grade lt =
     (let msg_i = lt_fresh lt;
          h = (lt_heap lt)(msg_i \<mapsto> \<lparr>ml_msg = msg, ml_grade = grade, ml_next = None\<rparr>);
          lt = lt\<lparr>lt_heap := h, lt_fresh := Suc msg_i\<rparr> in
      bindr
        (if lt_size lt = 0 then Inr (lt\<lparr>lt_head := Some msg_i, lt_tail := Some msg_i\<rparr>)
         else case lt_tail lt of
           None \<Rightarrow> Inl NullDeref
         | Some t \<Rightarrow>
             (case h t of
                None \<Rightarrow> Inl NullDeref
              | Some n \<Rightarrow> Inr (lt\<lparr>lt_heap := h(t \<mapsto> n\<lparr>ml_next := Some msg_i\<rparr>), lt_tail := Some msg_i\<rparr>)))
        (\<lambda>lt. Inr (lt\<lparr>lt_size := lt_size lt + 1\<rparr>)))"

definition push_log ::
  "char list \<Rightarrow> (int \<Rightarrow> string) \<Rightarrow> int \<Rightarrow> string \<Rightarrow> int \<Rightarrow> log_thread \<Rightarrow> log_thread res"
where
  "push_log junk strerror error str grade lt =
     bindr (log_text junk strerror error str grade) (\<lambda>msg. push_node msg grade lt)"

text \<open>Line 134 and the read of \<open>ptr->msg\<close>.\<close>

definition log_head_msg :: "log_thread \<Rightarrow> char list res" where
  "log_head_msg lt =
     (case lt_head lt of
        None \<Rightarrow> Inl NullDeref
      | Some p \<Rightarrow> (case lt_heap lt p of None \<Rightarrow> Inl NullDeref | Some n \<Rightarrow> Inr (ml_msg n)))"

text \<open>Lines 146 to 150, the second critical section of the log thread.\<close>

definition log_drop :: "log_thread \<Rightarrow> log_thread res" where
  "log_drop lt =
     (let lt = lt\<lparr>lt_size := lt_size lt - 1\<rparr> in
      if lt_size lt = 0 then Inr (lt\<lparr>lt_tail := None, lt_head := None\<rparr>)
      else case lt_head lt of
        None \<Rightarrow> Inl NullDeref
      | Some p \<Rightarrow>
          (case lt_heap lt p of
             None \<Rightarrow> Inl NullDeref
           | Some n \<Rightarrow> Inr (lt\<lparr>lt_head := ml_next n\<rparr>)))"

text \<open>The log thread alone: wait until the size is not 0, take the front message, drop it.\<close>

definition log_pop :: "log_thread \<Rightarrow> (char list \<times> log_thread) res" where
  "log_pop lt =
     (if lt_size lt = 0 then Inl Blocked
      else bindr (log_head_msg lt) (\<lambda>m. bindr (log_drop lt) (\<lambda>lt. Inr (m, lt))))"

subsection \<open>The list behind the pointers\<close>

fun walk :: "(nat \<Rightarrow> msglog option) \<Rightarrow> nat option \<Rightarrow> nat \<Rightarrow> char list list" where
  "walk h p 0 = []"
| "walk h p (Suc k) =
     (case p of
        None \<Rightarrow> []
      | Some a \<Rightarrow> (case h a of None \<Rightarrow> [] | Some n \<Rightarrow> ml_msg n # walk h (ml_next n) k))"

definition log_msgs :: "log_thread \<Rightarrow> char list list" where
  "log_msgs lt = walk (lt_heap lt) (lt_head lt) (nat (lt_size lt))"

primrec path :: "(nat \<Rightarrow> msglog option) \<Rightarrow> nat option \<Rightarrow> nat list \<Rightarrow> nat option \<Rightarrow> bool" where
  "path h p [] q = (p = q)"
| "path h p (a # as) q = (p = Some a \<and> (\<exists>n. h a = Some n \<and> path h (ml_next n) as q))"

lemma path_append: "path h p (as @ bs) q \<longleftrightarrow> (\<exists>r. path h p as r \<and> path h r bs q)"
  by (induction as arbitrary: p) auto

lemma path_upd: "a \<notin> set as \<Longrightarrow> path (h(a := x)) p as q = path h p as q"
  by (induction as arbitrary: p) auto

lemma path_heap: "path h p as q \<Longrightarrow> a \<in> set as \<Longrightarrow> h a \<noteq> None"
  by (induction as arbitrary: p) auto

lemma path_walk: "path h p as q \<Longrightarrow> walk h p (length as) = map (\<lambda>a. ml_msg (the (h a))) as"
  by (induction as arbitrary: p) auto

text \<open>
  Well-formed: the nodes reachable from the head are distinct, as many as the size says,
  end in NULL, the tail is the last of them, and fresh addresses are free.
\<close>

definition log_shape :: "log_thread \<Rightarrow> nat list \<Rightarrow> bool" where
  "log_shape lt as =
     (path (lt_heap lt) (lt_head lt) as None \<and> distinct as \<and> lt_size lt = int (length as)
      \<and> lt_tail lt = (if as = [] then None else Some (last as))
      \<and> (\<forall>a\<ge>lt_fresh lt. lt_heap lt a = None))"

definition log_ok :: "log_thread \<Rightarrow> bool" where
  "log_ok lt = (\<exists>as. log_shape lt as)"

lemma log_shape_msgs:
  "log_shape lt as \<Longrightarrow> log_msgs lt = map (\<lambda>a. ml_msg (the (lt_heap lt a))) as"
  by (auto simp: log_shape_def log_msgs_def path_walk)

lemma init_log_thread_ok:
  assumes "init_log_thread m c lt = Inr lt'" and "\<forall>a\<ge>lt_fresh lt. lt_heap lt a = None"
  shows "log_ok lt' \<and> log_msgs lt' = []"
proof -
  have "log_shape lt' []"
    using assms by (auto simp: log_shape_def init_log_thread_def split: if_splits)
  then show ?thesis using log_shape_msgs by (auto simp: log_ok_def)
qed

lemma push_node_ok:
  assumes "log_ok lt"
  shows "\<exists>lt'. push_node m g lt = Inr lt' \<and> log_ok lt' \<and> log_msgs lt' = log_msgs lt @ [m]
    \<and> (log_msgs lt \<noteq> [] \<longrightarrow> lt_head lt' = lt_head lt)"
proof -
  obtain as where s: "log_shape lt as" using assms by (auto simp: log_ok_def)
  define a where "a = lt_fresh lt"
  define node where "node = \<lparr>ml_msg = m, ml_grade = g, ml_next = None\<rparr>"
  define h where "h = (lt_heap lt)(a \<mapsto> node)"
  have notin: "a \<notin> set as"
    using s path_heap unfolding log_shape_def a_def by blast
  have p: "path h (lt_head lt) as None"
    using s notin by (simp add: log_shape_def h_def path_upd)
  show ?thesis
  proof (cases as rule: rev_cases)
    case Nil
    define lt' where "lt' = lt\<lparr>lt_heap := h, lt_fresh := Suc a, lt_head := Some a,
      lt_tail := Some a, lt_size := 1\<rparr>"
    have r: "push_node m g lt = Inr lt'"
      using s Nil by (simp add: push_node_def Let_def log_shape_def lt'_def h_def node_def a_def)
    have "log_shape lt' [a]"
      using s by (auto simp: log_shape_def lt'_def h_def node_def a_def)
    then show ?thesis
      using r log_shape_msgs [of lt' "[a]"] log_shape_msgs [OF s] Nil
      by (auto simp: log_ok_def lt'_def h_def node_def)
  next
    case (snoc bs t)
    obtain n where n: "h t = Some n" "ml_next n = None" and bs: "path h (lt_head lt) bs (Some t)"
      using p snoc by (auto simp: path_append)
    define h' where "h' = h(t \<mapsto> n\<lparr>ml_next := Some a\<rparr>)"
    define lt' where "lt' = lt\<lparr>lt_heap := h', lt_fresh := Suc a, lt_tail := Some a,
      lt_size := lt_size lt + 1\<rparr>"
    have d: "t \<notin> set bs" "t \<noteq> a" "a \<notin> set bs" using s snoc notin by (auto simp: log_shape_def)
    have r: "push_node m g lt = Inr lt'"
      using s snoc n by (simp add: push_node_def Let_def log_shape_def lt'_def h'_def h_def node_def a_def)
    have "path h' (lt_head lt) (bs @ [t, a]) None"
      using bs d n by (auto simp: path_append path_upd h'_def h_def node_def)
    moreover have "t < lt_fresh lt"
      using s snoc path_heap [of "lt_heap lt" "lt_head lt" as None t]
      unfolding log_shape_def by (metis in_set_conv_decomp not_le)
    ultimately have s': "log_shape lt' (as @ [a])"
      using s snoc d by (auto simp: log_shape_def lt'_def h'_def h_def a_def)
    have "map (\<lambda>x. ml_msg (the (h' x))) as = map (\<lambda>x. ml_msg (the (lt_heap lt x))) as"
      using n notin d by (auto simp: h'_def h_def)
    then show ?thesis
      using r log_shape_msgs [OF s'] log_shape_msgs [OF s] s' d
      by (auto simp: log_ok_def lt'_def h'_def h_def node_def)
  qed
qed

lemma log_ok_size: "log_ok lt \<Longrightarrow> lt_size lt = int (length (log_msgs lt))"
  using log_shape_msgs by (auto simp: log_ok_def log_shape_def)

lemma log_head_ok:
  assumes "log_ok lt" and "log_msgs lt = m # ms"
  shows "\<exists>p n. lt_head lt = Some p \<and> lt_heap lt p = Some n \<and> ml_msg n = m"
proof -
  obtain as where s: "log_shape lt as" using assms by (auto simp: log_ok_def)
  with assms(2) log_shape_msgs [OF s] show ?thesis
    by (cases as) (auto simp: log_shape_def)
qed

lemma log_drop_ok:
  assumes "log_ok lt" and "log_msgs lt = m # ms"
  shows "\<exists>lt'. log_drop lt = Inr lt' \<and> log_ok lt' \<and> log_msgs lt' = ms"
proof -
  obtain a as where s: "log_shape lt (a # as)"
    using assms log_shape_msgs unfolding log_ok_def by (metis list.map_disc_iff list.exhaust list.distinct(1))
  then obtain n where n: "lt_head lt = Some a" "lt_heap lt a = Some n" "path (lt_heap lt) (ml_next n) as None"
    by (auto simp: log_shape_def)
  define lt' where "lt' = lt\<lparr>lt_size := lt_size lt - 1,
      lt_tail := (if as = [] then None else lt_tail lt), lt_head := ml_next n\<rparr>"
  have r: "log_drop lt = Inr lt'"
    using s n by (auto simp: log_drop_def Let_def log_shape_def lt'_def)
  have s': "log_shape lt' as"
    using s n by (auto simp: log_shape_def lt'_def)
  then show ?thesis
    using r log_shape_msgs [OF s'] log_shape_msgs [OF s] assms(2)
    by (auto simp: log_ok_def lt'_def)
qed

subsection \<open>The list is a first-in first-out queue\<close>

definition log_push_op :: "char list \<Rightarrow> log_thread \<Rightarrow> (bool \<times> log_thread) res" where
  "log_push_op m lt = bindr (push_node m 0 lt) (\<lambda>lt. Inr (True, lt))"

interpretation log_queue: fifo log_msgs log_ok "\<lambda>_. True" log_push_op log_pop
proof unfold_locales
  fix lt x assume "log_ok lt"
  then show "\<exists>q'. log_push_op x lt = Inr (True, q') \<and> log_ok q' \<and> log_msgs q' = log_msgs lt @ [x]"
    using push_node_ok [of lt x 0] by (auto simp: log_push_op_def)
next
  fix lt x xs assume "log_ok lt" and "log_msgs lt = x # xs"
  then show "\<exists>q'. log_pop lt = Inr (x, q') \<and> log_ok q' \<and> log_msgs q' = xs"
    using log_head_ok [of lt x xs] log_drop_ok [of lt x xs] log_ok_size [of lt]
    by (auto simp: log_pop_def log_head_msg_def)
next
  fix lt assume "log_ok lt" and "log_msgs lt = []"
  then show "log_pop lt = Inl Blocked"
    using log_ok_size [of lt] by (simp add: log_pop_def)
qed simp

definition no_log :: log_thread where
  "no_log = \<lparr>lt_heap = (\<lambda>_. None), lt_fresh = 0, lt_head = None, lt_tail = None, lt_size = 0\<rparr>"

lemma no_log_ok: "log_ok no_log" "log_msgs no_log = []"
  by (auto simp: log_ok_def log_shape_def no_log_def log_msgs_def)

text \<open>
  Any sequence of appends and removals on a well-formed message list: what comes out is
  what went in, in that order, and the rest is still in the list; a run that does not finish
  is waiting on an empty list, it never follows a null or dangling pointer.
\<close>

theorem log_list_is_fifo:
  assumes "log_ok lt"
  shows "case run_ops log_push_op log_pop ops lt of
      Inl e \<Rightarrow> e = Blocked
    | Inr (pushed, taken, lt') \<Rightarrow> log_ok lt' \<and> log_msgs lt @ pushed = taken @ log_msgs lt'"
  using log_queue.run_fifo [OF assms] log_queue.run_only_blocks [OF assms]
  by (auto split: sum.split)

lemma log_list_is_fifo_witness:
  "case run_ops log_push_op log_pop [Enq ''a'', Enq ''b'', Deq] no_log of
     Inl e \<Rightarrow> False
   | Inr (pushed, taken, lt') \<Rightarrow> pushed = [''a'', ''b''] \<and> taken = [''a''] \<and> log_msgs lt' = [''b'']"
  using log_list_is_fifo [OF no_log_ok(1), of "[Enq ''a'', Enq ''b'', Deq]"] no_log_ok(2)
  by (simp add: log_push_op_def push_node_def no_log_def Let_def log_pop_def log_head_msg_def log_drop_def)

subsection \<open>The text of a record\<close>

lemma log_grade_text:
  assumes "0 \<le> g" "g < 4"
  shows "rd log_grade g = Inr (log_grade ! nat g)" "nul_free (log_grade ! nat g)"
proof -
  show "rd log_grade g = Inr (log_grade ! nat g)" using assms by (simp add: rd_def log_grade_def)
  have "nat g \<in> {0, 1, 2, 3}" using assms by auto
  then show "nul_free (log_grade ! nat g)" by (auto simp: log_grade_def)
qed

lemma log_text_cases:
  assumes "length junk = 128" and "0 \<le> g" "g < 4"
    and "nul_free (strerror error)" and "nul_free str"
  shows "log_text junk strerror error str g =
    (let t = log_grade ! nat g @ strerror error @ str in
     if length t < 128 then Inr (t @ NUL # drop (Suc (length t)) junk) else Inl OutOfBounds)"
proof -
  define a where "a = log_grade ! nat g"
  have a: "rd log_grade g = Inr a" "nul_free a"
    using log_grade_text [OF assms(2,3)] by (simp_all add: a_def)
  have "length a \<le> 10"
  proof -
    have "nat g \<in> {0, 1, 2, 3}" using assms by auto
    then show ?thesis by (auto simp: log_grade_def a_def)
  qed
  then have 1: "strcpy junk a = Inr (a @ NUL # drop (Suc (length a)) junk)"
    using assms(1) by (simp add: strcpy_fits)
  show ?thesis
  proof (cases "length a + length (strerror error) < 128")
    case True
    have 2: "strcat (a @ NUL # drop (Suc (length a)) junk) (strerror error)
      = Inr ((a @ strerror error) @ NUL # drop (Suc (length (a @ strerror error))) junk)"
      using True a assms(1) by (simp add: strcat_held add.commute)
    have 3: "strcat ((a @ strerror error) @ NUL # drop (Suc (length (a @ strerror error))) junk) str
      = (if length (a @ strerror error @ str) < 128
         then Inr ((a @ strerror error @ str) @ NUL # drop (Suc (length (a @ strerror error @ str))) junk)
         else Inl OutOfBounds)"
      using True a assms strcat_held [of "a @ strerror error" "drop (Suc (length (a @ strerror error))) junk" str]
      by (auto simp: add.commute add.left_commute)
    show ?thesis
      unfolding log_text_def a(1) bindr_Inr 1 2 3 by (simp add: a_def [symmetric] Let_def)
  next
    case False
    then have "strcat (a @ NUL # drop (Suc (length a)) junk) (strerror error) = Inl OutOfBounds"
      using a assms(1) \<open>length a \<le> 10\<close> by (auto simp: strcat_held)
    with False show ?thesis
      unfolding log_text_def a(1) bindr_Inr 1 by (simp add: a_def [symmetric] Let_def)
  qed
qed

text \<open>
  \<open>push_log\<close> appends one record: the name of the grade, the text of the error number and
  the message, in the first bytes of the node. This works up to 127 characters; the texts are
  not checked against the 128 bytes of the array, and a longer record is written past it.
\<close>

theorem push_log_appends_record:
  assumes "log_ok lt" and "length junk = 128" and "0 \<le> g" "g < 4"
    and "nul_free (strerror error)" and "nul_free str"
    and "t = log_grade ! nat g @ strerror error @ str"
  shows "if length t < 128
    then \<exists>lt'. push_log junk strerror error str g lt = Inr lt' \<and> log_ok lt'
      \<and> log_msgs lt' = log_msgs lt @ [t @ NUL # drop (Suc (length t)) junk]
    else push_log junk strerror error str g lt = Inl OutOfBounds"
  using log_text_cases [OF assms(2-4), of strerror error str] assms(5,6) push_node_ok [OF assms(1)] assms(7)
  by (auto simp: push_log_def Let_def)

lemma push_log_appends_record_witness:
  "\<exists>lt. push_log (replicate 128 CHR ''j'') (\<lambda>_. ''Success'') 0 '': return 200'' 0 no_log = Inr lt
    \<and> log_msgs lt = ['' [info]: Success: return 200'' @ NUL # replicate 99 CHR ''j'']"
  using push_log_appends_record [OF no_log_ok(1), of "replicate 128 CHR ''j''" 0 "\<lambda>_. ''Success''" 0
      "'': return 200''" "'' [info]: Success: return 200''"]
  by (auto simp: log_grade_def no_log_ok)

end
