(* ===== verification/V2_Epoll.thy ===== *)
theory V2_Epoll
  imports V2_Log
begin

section \<open>version\_02: connections and the epoll interest lists\<close>

text \<open>
  version\_02/bin/epoll.c and epoll.h, with the part of the kernel they talk to: the open
  client sockets with their status flags, and the interest list of each epoll descriptor.
  \<open>epoll_ctl\<close> follows epoll\_ctl(2): adding a registered descriptor fails, changing one that
  is not registered fails, a closed descriptor leaves every interest list. The state also
  holds the allocated \<open>http_request_t\<close> structures (none is ever freed), what has been
  written to each socket, what \<open>perror\<close> printed, the descriptors open on files and the log.
\<close>

subsection \<open>State\<close>

record http_request =
  rq_fd :: int
  rq_alive :: int
  rq_method :: "char list"
  rq_url :: "char list"
  rq_ip_port :: "char list"

record srv =
  sv_reqs :: "nat \<Rightarrow> http_request option"
  sv_flags :: "int \<Rightarrow> 32 word option"
  sv_interest :: "int \<times> int \<Rightarrow> (32 word \<times> nat) option"
  sv_sent :: "int \<Rightarrow> string"
  sv_stderr :: "string list"
  sv_file_fds :: nat
  sv_log :: log_thread

definition EPOLLIN :: int where "EPOLLIN = 1"
definition EPOLLOUT :: int where "EPOLLOUT = 4"
definition O_NONBLOCK :: "32 word" where "O_NONBLOCK = 2048"

definition perror :: "string \<Rightarrow> srv \<Rightarrow> srv" where
  "perror msg s = s\<lparr>sv_stderr := sv_stderr s @ [msg]\<rparr>"

definition the_req :: "srv \<Rightarrow> nat \<Rightarrow> http_request res" where
  "the_req s p = (case sv_reqs s p of None \<Rightarrow> Inl NullDeref | Some r \<Rightarrow> Inr r)"

subsection \<open>The kernel\<close>

datatype ctl_op = CTL_ADD | CTL_MOD

definition epoll_ctl :: "int \<Rightarrow> ctl_op \<Rightarrow> int \<Rightarrow> 32 word \<times> nat \<Rightarrow> srv \<Rightarrow> int \<times> srv" where
  "epoll_ctl epfd op fd ev s =
     (if sv_flags s fd = None then (-1, s)
      else case op of
        CTL_ADD \<Rightarrow> if sv_interest s (epfd, fd) \<noteq> None then (-1, s)
          else (0, s\<lparr>sv_interest := (sv_interest s)((epfd, fd) \<mapsto> ev)\<rparr>)
      | CTL_MOD \<Rightarrow> if sv_interest s (epfd, fd) = None then (-1, s)
          else (0, s\<lparr>sv_interest := (sv_interest s)((epfd, fd) \<mapsto> ev)\<rparr>))"

definition close_fd :: "int \<Rightarrow> srv \<Rightarrow> srv" where
  "close_fd fd s = s\<lparr>sv_flags := (sv_flags s)(fd := None),
     sv_interest := (\<lambda>(e, f). if f = fd then None else sv_interest s (e, f))\<rparr>"

subsection \<open>epoll.c\<close>

definition set_sock_nonblock :: "int \<Rightarrow> srv \<Rightarrow> srv" where
  "set_sock_nonblock sockfd s =
     (case sv_flags s sockfd of
        None \<Rightarrow> perror ''fcntl get old flags fail'' s
      | Some flags \<Rightarrow> s\<lparr>sv_flags := (sv_flags s)(sockfd \<mapsto> or flags O_NONBLOCK)\<rparr>)"

definition epoll_add :: "int \<Rightarrow> nat \<Rightarrow> int \<Rightarrow> srv \<Rightarrow> srv res" where
  "epoll_add epfd ptr status s =
     bindr (the_req s ptr) (\<lambda>r.
     let s = set_sock_nonblock (rq_fd r) s;
         (rc, s) = epoll_ctl epfd CTL_ADD (rq_fd r) (word_of_int status, ptr) s in
     Inr (if rc = -1 then perror ''epoll_ctl_add fail'' s else s))"

definition epoll_del :: "int \<Rightarrow> nat \<Rightarrow> int \<Rightarrow> srv \<Rightarrow> srv res" where
  "epoll_del epfd ptr status s =
     bindr (the_req s ptr) (\<lambda>r.
     let (rc, s) = epoll_ctl epfd CTL_ADD (rq_fd r) (word_of_int status, ptr) s in
     Inr (if rc = -1 then perror ''epoll_ctl_del fail'' s else s))"

definition epoll_mod :: "int \<Rightarrow> nat \<Rightarrow> int \<Rightarrow> srv \<Rightarrow> srv res" where
  "epoll_mod epfd ptr status s =
     bindr (the_req s ptr) (\<lambda>r.
     let (rc, s) = epoll_ctl epfd CTL_MOD (rq_fd r) (word_of_int status, ptr) s in
     Inr (if rc = -1 then perror ''epoll_ctl_mod fail'' s else s))"

subsection \<open>The contract of the registry\<close>

text \<open>
  Sound: every registration is of an open socket, for reading or for writing and not both,
  and every open socket is registered in exactly one interest list.
\<close>

definition sound_regs ::
  "(int \<times> int \<Rightarrow> (32 word \<times> nat) option) \<Rightarrow> int set \<Rightarrow> bool"
where
  "sound_regs regs fds =
     ((\<forall>e f ev p. regs (e, f) = Some (ev, p) \<longrightarrow>
         f \<in> fds \<and> ev \<in> {word_of_int EPOLLIN, word_of_int EPOLLOUT})
      \<and> (\<forall>f\<in>fds. \<exists>!e. regs (e, f) \<noteq> None))"

lemma sound_regs_upd:
  assumes "sound_regs R F" and "\<forall>e'. R (e', f) \<noteq> None \<longrightarrow> e' = e"
    and "status \<in> {EPOLLIN, EPOLLOUT}"
  shows "sound_regs (R((e, f) \<mapsto> (word_of_int status, p))) (insert f F)"
proof -
  let ?R = "R((e, f) \<mapsto> (word_of_int status, p))"
  have "\<exists>!e'. ?R (e', g) \<noteq> None" if "g \<in> insert f F" for g
  proof (cases "g = f")
    case True
    then show ?thesis using assms(2) by (intro ex1I [of _ e]) (auto split: if_splits)
  next
    case False
    then have "?R (e', g) = R (e', g)" for e' by simp
    then show ?thesis using assms(1) that False by (simp add: sound_regs_def)
  qed
  moreover have "g \<in> insert f F \<and> ev \<in> {word_of_int EPOLLIN, word_of_int EPOLLOUT}"
    if "?R (e', g) = Some (ev, q)" for e' g ev q
  proof (cases "(e', g) = (e, f)")
    case True
    then show ?thesis using that assms(3) by auto
  next
    case False
    with that have "R (e', g) = Some (ev, q)" by (simp split: if_splits)
    moreover have "\<forall>e f ev p. R (e, f) = Some (ev, p) \<longrightarrow>
        f \<in> F \<and> ev \<in> {word_of_int EPOLLIN, word_of_int EPOLLOUT}"
      using assms(1) unfolding sound_regs_def by (rule conjunct1)
    ultimately show ?thesis by (meson insertI2)
  qed
  ultimately show ?thesis unfolding sound_regs_def
    by - (rule conjI, blast, rule ballI, simp only:)
qed

locale event_registry =
  fixes regs :: "'s \<Rightarrow> int \<times> int \<Rightarrow> (32 word \<times> nat) option"
    and fds :: "'s \<Rightarrow> int set"
    and names :: "'s \<Rightarrow> nat \<Rightarrow> int \<Rightarrow> bool"
    and add :: "int \<Rightarrow> nat \<Rightarrow> int \<Rightarrow> 's \<Rightarrow> 's res"
    and change :: "int \<Rightarrow> nat \<Rightarrow> int \<Rightarrow> 's \<Rightarrow> 's res"
    and shut :: "int \<Rightarrow> 's \<Rightarrow> 's"
  assumes add_new: "names s p f \<Longrightarrow> f \<in> fds s \<Longrightarrow> regs s (e, f) = None \<Longrightarrow>
      \<exists>s'. add e p status s = Inr s' \<and> fds s' = fds s
        \<and> regs s' = (regs s)((e, f) \<mapsto> (word_of_int status, p))"
    and change_old: "names s p f \<Longrightarrow> f \<in> fds s \<Longrightarrow> regs s (e, f) \<noteq> None \<Longrightarrow>
      \<exists>s'. change e p status s = Inr s' \<and> fds s' = fds s
        \<and> regs s' = (regs s)((e, f) \<mapsto> (word_of_int status, p))"
    and shut_all: "fds (shut f s) = fds s - {f}"
      "regs (shut f s) = (\<lambda>(e, g). if g = f then None else regs s (e, g))"
begin

lemma change_sound:
  assumes "sound_regs (regs s) (fds s)" and "names s p f" and "regs s (e, f) \<noteq> None"
    and "status \<in> {EPOLLIN, EPOLLOUT}" and "change e p status s = Inr s'"
  shows "sound_regs (regs s') (fds s') \<and> fds s' = fds s
    \<and> regs s' = (regs s)((e, f) \<mapsto> (word_of_int status, p))"
proof -
  have "f \<in> fds s" using assms(1,3) by (auto simp: sound_regs_def)
  from change_old [OF assms(2) this assms(3), of status] assms(5)
  have "fds s' = fds s" "regs s' = (regs s)((e, f) \<mapsto> (word_of_int status, p))" by auto
  moreover have "sound_regs ((regs s)((e, f) \<mapsto> (word_of_int status, p))) (fds s)"
  proof -
    have "\<forall>e'. regs s (e', f) \<noteq> None \<longrightarrow> e' = e"
      using assms(1,3) \<open>f \<in> fds s\<close> unfolding sound_regs_def by blast
    from sound_regs_upd [OF assms(1) this assms(4)] show ?thesis
      using \<open>f \<in> fds s\<close> by (simp add: insert_absorb)
  qed
  ultimately show ?thesis by simp
qed

lemma shut_sound:
  "sound_regs (regs s) (fds s) \<Longrightarrow> sound_regs (regs (shut f s)) (fds (shut f s))"
  unfolding sound_regs_def shut_all by (auto split: if_splits)

lemma add_sound:
  assumes "sound_regs (regs s) (fds s - {f})" and "names s p f" and "f \<in> fds s"
    and "status \<in> {EPOLLIN, EPOLLOUT}" and "add e p status s = Inr s'"
  shows "sound_regs (regs s') (fds s') \<and> fds s' = fds s"
proof -
  have n: "regs s (e', f) = None" for e'
    using assms(1) by (cases "regs s (e', f)") (auto simp: sound_regs_def)
  from add_new [OF assms(2,3) n, of e status] assms(5)
  have "fds s' = fds s" "regs s' = (regs s)((e, f) \<mapsto> (word_of_int status, p))" by auto
  moreover have "sound_regs ((regs s)((e, f) \<mapsto> (word_of_int status, p))) (fds s)"
    using sound_regs_upd [OF assms(1) _ assms(4), of f e p] n assms(3) by (simp add: insert_absorb)
  ultimately show ?thesis by simp
qed

end

definition names_fd :: "srv \<Rightarrow> nat \<Rightarrow> int \<Rightarrow> bool" where
  "names_fd s p f = (\<exists>r. sv_reqs s p = Some r \<and> rq_fd r = f)"

definition open_fds :: "srv \<Rightarrow> int set" where
  "open_fds s = dom (sv_flags s)"

interpretation epoll: event_registry sv_interest open_fds names_fd epoll_add epoll_mod close_fd
proof unfold_locales
  fix s p f e status
  assume "names_fd s p f" "f \<in> open_fds s" "sv_interest s (e, f) = None"
  then show "\<exists>s'. epoll_add e p status s = Inr s' \<and> open_fds s' = open_fds s
      \<and> sv_interest s' = (sv_interest s)((e, f) \<mapsto> (word_of_int status, p))"
    by (auto simp: epoll_add_def names_fd_def open_fds_def the_req_def set_sock_nonblock_def
        epoll_ctl_def Let_def)
next
  fix s p f e status
  assume "names_fd s p f" "f \<in> open_fds s" "sv_interest s (e, f) \<noteq> None"
  then show "\<exists>s'. epoll_mod e p status s = Inr s' \<and> open_fds s' = open_fds s
      \<and> sv_interest s' = (sv_interest s)((e, f) \<mapsto> (word_of_int status, p))"
    by (auto simp: epoll_mod_def names_fd_def open_fds_def the_req_def epoll_ctl_def Let_def)
qed (auto simp: close_fd_def open_fds_def)

subsection \<open>Removing a registration\<close>

text \<open>
  \<open>epoll_del\<close> never removes anything. It asks the kernel to add: a descriptor that is
  registered stays registered as it was and an error is printed; an open one that was not
  registered is registered by the call.
\<close>

theorem epoll_del_removes_nothing:
  assumes "epoll_del epfd p status s = Inr s'"
  shows "sv_interest s \<subseteq>\<^sub>m sv_interest s'"
  using assms
  by (auto simp: epoll_del_def bindr_eq_Inr epoll_ctl_def Let_def perror_def map_le_def
      split: if_splits)

definition srv0 :: srv where
  "srv0 = \<lparr>sv_reqs = [7 \<mapsto> \<lparr>rq_fd = 5, rq_alive = 0, rq_method = replicate 32 NUL,
       rq_url = replicate 128 NUL, rq_ip_port = replicate 128 NUL\<rparr>],
     sv_flags = [5 \<mapsto> 2], sv_interest = [(3, 5) \<mapsto> (word_of_int EPOLLIN, 7)],
     sv_sent = (\<lambda>_. []), sv_stderr = [], sv_file_fds = 0, sv_log = no_log\<rparr>"

lemma epoll_del_removes_nothing_witness:
  "\<exists>s'. epoll_del 3 7 EPOLLIN srv0 = Inr s' \<and> sv_interest s' (3, 5) = Some (1, 7)
     \<and> sv_stderr s' = [''epoll_ctl_del fail'']"
proof -
  define s' where "s' = srv0\<lparr>sv_stderr := [''epoll_ctl_del fail'']\<rparr>"
  have e: "epoll_del 3 7 EPOLLIN srv0 = Inr s'"
    by (simp add: epoll_del_def the_req_def srv0_def epoll_ctl_def perror_def s'_def)
  from epoll_del_removes_nothing [OF e] have "sv_interest s' (3, 5) = Some (1, 7)"
    by (simp add: map_le_def srv0_def EPOLLIN_def)
  with e show ?thesis by (simp add: s'_def)
qed

end
