(* ===== verification/V2_Config.thy ===== *)
theory V2_Config
  imports Cstring
begin

section \<open>version\_02: the configuration\<close>

text \<open>
  version\_02/bin/config.c and config.h. The file is read line by line with a 128-byte
  buffer; \<open>sscanf\<close> takes a key and a value from the line, into two 128-byte arrays that
  live across the lines, and five tests on the key store the value. The arrays are only
  used as C strings, so each is the string it holds; every store checks the array's size.
\<close>

record conf_http_t =
  conf_port :: int
  conf_listen_num :: int
  conf_thread_num :: int
  conf_doc :: string
  conf_event_num :: int

definition store_str :: "nat \<Rightarrow> string \<Rightarrow> string res" where
  "store_str size_of s = (if length s < size_of then Inr s else Inl OutOfBounds)"

lemma store_str_simps [simp]:
  "length s < n \<Longrightarrow> store_str n s = Inr s"
  "n \<le> length s \<Longrightarrow> store_str n s = Inl OutOfBounds"
  by (simp_all add: store_str_def)

subsection \<open>The code\<close>

definition default_file_dir :: string where "default_file_dir = ''../doc''"

definition init_default_conf :: "conf_http_t \<Rightarrow> conf_http_t res" where
  "init_default_conf conf =
     bindr (store_str 50 default_file_dir) (\<lambda>doc.
       Inr (conf\<lparr>conf_port := 9190, conf_thread_num := 4, conf_listen_num := 20,
         conf_doc := doc, conf_event_num := 2021\<rparr>))"

text \<open>\<open>sscanf(buf, "%s %s", key, value)\<close>: a word that is missing leaves its array alone.\<close>

definition word_of :: "string \<Rightarrow> string \<times> string" where
  "word_of s = (let t = dropWhile isspace s in
     (takeWhile (\<lambda>c. \<not> isspace c) t, dropWhile (\<lambda>c. \<not> isspace c) t))"

definition sscanf_two :: "string \<Rightarrow> string \<Rightarrow> string \<Rightarrow> (string \<times> string) res" where
  "sscanf_two buf key val =
     (case word_of buf of (k, rest) \<Rightarrow>
        if k = [] then Inr (key, val)
        else bindr (store_str 128 k) (\<lambda>key.
          case word_of rest of (v, _) \<Rightarrow>
            if v = [] then Inr (key, val)
            else bindr (store_str 128 v) (\<lambda>val. Inr (key, val))))"

text \<open>The five tests on the key, in the order of the code.\<close>

definition conf_apply :: "string \<Rightarrow> string \<Rightarrow> conf_http_t \<Rightarrow> conf_http_t res" where
  "conf_apply key val conf =
     bindr (if key = ''PORT'' then bindr (atoi val) (\<lambda>n. Inr (conf\<lparr>conf_port := n\<rparr>))
            else Inr conf) (\<lambda>conf.
     bindr (if key = ''THREAD_NUM'' then bindr (atoi val) (\<lambda>n. Inr (conf\<lparr>conf_thread_num := n\<rparr>))
            else Inr conf) (\<lambda>conf.
     bindr (if key = ''LISTEN_NUM'' then bindr (atoi val) (\<lambda>n. Inr (conf\<lparr>conf_listen_num := n\<rparr>))
            else Inr conf) (\<lambda>conf.
     bindr (if key = ''FILE_DIR'' then bindr (store_str 50 val) (\<lambda>d. Inr (conf\<lparr>conf_doc := d\<rparr>))
            else Inr conf) (\<lambda>conf.
     if key = ''EVENT_LIST'' then bindr (atoi val) (\<lambda>n. Inr (conf\<lparr>conf_event_num := n\<rparr>))
     else Inr conf))))"

lemma fgets_take_line_shorter:
  "fgets_take k rest = (s, rest', e) \<Longrightarrow> s \<noteq> [] \<Longrightarrow> length rest' < length rest"
  by (cases "(k, rest)" rule: fgets_take.cases)
    (auto split: if_splits prod.splits dest: fgets_take_le)

text \<open>
  The loop over the lines. \<open>fgets\<close> returns NULL when nothing is left; a line counts up to
  its first NUL, as \<open>sscanf\<close> sees it.
\<close>

function conf_loop :: "string \<Rightarrow> string \<Rightarrow> string \<Rightarrow> conf_http_t \<Rightarrow> conf_http_t res" where
  "conf_loop file key val conf =
     (case fgets_take 127 file of (line, rest, eof) \<Rightarrow>
        if line = [] then Inr conf
        else bindr (sscanf_two (takeWhile (\<lambda>c. c \<noteq> NUL) line) key val) (\<lambda>(key, val).
          bindr (conf_apply key val conf) (\<lambda>conf. conf_loop rest key val conf)))"
  by pat_completeness auto

termination
  by (relation "measure (\<lambda>(file, key, val, conf). length file)")
    (auto dest: fgets_take_line_shorter [OF sym])

declare conf_loop.simps [simp del]

text \<open>
  \<open>init_conf\<close> on the contents of the configuration file, \<open>None\<close> if \<open>fopen\<close> returns NULL.
  The test \<open>(fp = fopen(...)) < 0\<close> is false for every pointer, so the branch with the
  defaults is never taken and \<open>fgets\<close> gets the null pointer.
\<close>

definition ptr_lt_0 :: "'a option \<Rightarrow> bool" where
  "ptr_lt_0 p = False"

definition init_conf :: "string option \<Rightarrow> conf_http_t \<Rightarrow> conf_http_t res" where
  "init_conf fp conf =
     (if ptr_lt_0 fp then init_default_conf conf
      else case fp of
        None \<Rightarrow> Inl NullDeref
      | Some file \<Rightarrow> conf_loop file [] [] conf)"

subsection \<open>Lines\<close>

definition conf_word :: "string \<Rightarrow> bool" where
  "conf_word s = (s \<noteq> [] \<and> (\<forall>c\<in>set s. \<not> isspace c \<and> c \<noteq> NUL))"

lemma word_of_word:
  assumes "conf_word s" and "isspace x"
  shows "word_of (s @ x # t) = (s, x # t)"
proof -
  obtain c r where c: "s = c # r" "\<not> isspace c"
    using assms(1) by (cases s) (auto simp: conf_word_def)
  then have "dropWhile isspace (s @ x # t) = s @ x # t" by simp
  moreover have "takeWhile (\<lambda>c. \<not> isspace c) (s @ x # t) = s"
    using assms by (intro takeWhile_append_hit) (auto simp: conf_word_def)
  moreover have "dropWhile (\<lambda>c. \<not> isspace c) (s @ x # t) = x # t"
    using assms by (simp add: conf_word_def dropWhile_append)
  ultimately show ?thesis by (simp add: word_of_def Let_def)
qed

lemma word_of_skip: "isspace x \<Longrightarrow> word_of (x # s) = word_of s"
  by (simp add: word_of_def)

lemma fgets_take_line:
  assumes "LF \<notin> set s" and "length s < k"
  shows "fgets_take k (s @ LF # r) = (s @ [LF], r, False)"
  using assms
proof (induction s arbitrary: k)
  case Nil
  then show ?case by (cases k) auto
next
  case (Cons x s)
  then show ?case by (cases k) auto
qed

lemma conf_word_no_LF: "conf_word s \<Longrightarrow> LF \<notin> set s \<and> nul_free s"
  using isspace_simps(1) unfolding conf_word_def nul_free_def by blast

text \<open>A line with a key and a value.\<close>

lemma conf_loop_line:
  assumes "conf_word k" and "conf_word v" and "length k + length v < 126"
  shows "conf_loop (k @ CHR 0x20 # v @ LF # rest) key val conf =
    bindr (conf_apply k v conf) (\<lambda>conf. conf_loop rest k v conf)"
proof -
  let ?line = "k @ CHR 0x20 # v"
  have w: "LF \<notin> set ?line" "nul_free (?line @ [LF])" "length ?line < 127"
    using assms conf_word_no_LF [of k] conf_word_no_LF [of v] by auto
  have f: "fgets_take 127 (?line @ LF # rest) = (?line @ [LF], rest, False)"
    using w by (intro fgets_take_line) auto
  have t: "takeWhile (\<lambda>c. c \<noteq> NUL) (?line @ [LF]) = ?line @ [LF]"
    using w(2) unfolding nul_free_def by (auto simp: takeWhile_eq_all_conv)
  have "sscanf_two (?line @ [LF]) key val = Inr (k, v)"
    using assms word_of_word [OF assms(1), of "CHR 0x20" "v @ [LF]"]
      word_of_word [OF assms(2), of LF "[]"]
    by (auto simp: sscanf_two_def word_of_skip conf_word_def)
  with f t show ?thesis by (subst conf_loop.simps) simp
qed

text \<open>A blank line applies the previous key and value once more.\<close>

lemma conf_loop_blank:
  "conf_loop (LF # rest) key val conf =
    bindr (conf_apply key val conf) (\<lambda>conf. conf_loop rest key val conf)"
proof -
  have "fgets_take 127 (LF # rest) = ([LF], rest, False)"
    using fgets_take_line [of "[]" 127 rest] by simp
  then show ?thesis
    by (subst conf_loop.simps) (simp add: sscanf_two_def word_of_def)
qed

text \<open>A line with a key alone keeps the value of the line before.\<close>

lemma conf_loop_key_only:
  assumes "conf_word k" and "length k < 127"
  shows "conf_loop (k @ LF # rest) key val conf =
    bindr (conf_apply k val conf) (\<lambda>conf. conf_loop rest k val conf)"
proof -
  have w: "LF \<notin> set k" "nul_free (k @ [LF])"
    using assms conf_word_no_LF [of k] by auto
  have f: "fgets_take 127 (k @ LF # rest) = (k @ [LF], rest, False)"
    using w assms by (intro fgets_take_line) auto
  have t: "takeWhile (\<lambda>c. c \<noteq> NUL) (k @ [LF]) = k @ [LF]"
    using w(2) unfolding nul_free_def by (auto simp: takeWhile_eq_all_conv)
  have "sscanf_two (k @ [LF]) key val = Inr (k, val)"
    using assms word_of_word [OF assms(1), of LF "[]"]
    by (auto simp: sscanf_two_def word_of_def [of "[LF]"] conf_word_def)
  with f t show ?thesis by (subst conf_loop.simps) simp
qed

lemma conf_loop_end: "conf_loop [] key val conf = Inr conf"
  by (subst conf_loop.simps) (simp add: numeral_eq_Suc)

subsection \<open>Writing a configuration down\<close>

definition conf_line :: "string \<Rightarrow> string \<Rightarrow> string" where
  "conf_line k v = k @ '' '' @ v @ [LF]"

definition print_conf :: "conf_http_t \<Rightarrow> string" where
  "print_conf c =
     conf_line ''PORT'' (dec_int (conf_port c)) @ conf_line ''THREAD_NUM'' (dec_int (conf_thread_num c))
     @ conf_line ''LISTEN_NUM'' (dec_int (conf_listen_num c)) @ conf_line ''FILE_DIR'' (conf_doc c)
     @ conf_line ''EVENT_LIST'' (dec_int (conf_event_num c))"

definition int32 :: "int \<Rightarrow> bool" where
  "int32 n = (- (2 ^ 31) \<le> n \<and> n < 2 ^ 31)"

definition conf_ok :: "conf_http_t \<Rightarrow> bool" where
  "conf_ok c = (int32 (conf_port c) \<and> int32 (conf_thread_num c) \<and> int32 (conf_listen_num c)
     \<and> int32 (conf_event_num c) \<and> conf_word (conf_doc c) \<and> length (conf_doc c) < 50)"

lemma conf_word_dec_int: "conf_word (dec_int n)"
  unfolding conf_word_def dec_int_def
  using dec_nat_chars by (auto simp: isspace_def dest: dec_nat_chars)

lemma atoi_int32: "int32 n \<Longrightarrow> atoi (dec_int n) = Inr n"
  using atoi_dec_int [of n "[]"] by (simp add: int32_def)

lemma conf_loop_int_line:
  assumes "conf_word k" and "length k \<le> 10" and "int32 n"
  shows "conf_loop (conf_line k (dec_int n) @ rest) key val conf =
    bindr (conf_apply k (dec_int n) conf) (\<lambda>conf. conf_loop rest k (dec_int n) conf)"
proof -
  have "length (dec_int n) \<le> 11" using assms(3) by (auto simp: int32_def intro: length_dec_int)
  with assms show ?thesis
    using conf_loop_line [OF assms(1) conf_word_dec_int, of n rest key val conf]
    by (simp add: conf_line_def)
qed

lemma conf_loop_blanks:
  assumes "conf_apply key val conf = Inr conf"
  shows "conf_loop (replicate k LF) key val conf = Inr conf"
  using assms by (induction k) (simp_all add: conf_loop_end conf_loop_blank)

lemma init_conf_print:
  assumes "conf_ok c"
  shows "init_conf (Some (print_conf c @ replicate k LF)) conf0 = Inr (conf0
    \<lparr>conf_port := conf_port c, conf_thread_num := conf_thread_num c,
     conf_listen_num := conf_listen_num c, conf_doc := conf_doc c, conf_event_num := conf_event_num c\<rparr>)"
proof -
  have w: "conf_word ''PORT''" "conf_word ''THREAD_NUM''" "conf_word ''LISTEN_NUM''"
    "conf_word ''FILE_DIR''" "conf_word ''EVENT_LIST''"
    by (simp_all add: conf_word_def isspace_def)
  have d: "conf_loop (conf_line ''FILE_DIR'' (conf_doc c) @ rest) key val conf =
    bindr (conf_apply ''FILE_DIR'' (conf_doc c) conf) (\<lambda>conf. conf_loop rest ''FILE_DIR'' (conf_doc c) conf)"
    for rest key val conf
    using conf_loop_line [OF w(4), of "conf_doc c" rest key val conf] assms
    by (simp add: conf_line_def conf_ok_def)
  show ?thesis
    using assms
    by (simp add: init_conf_def ptr_lt_0_def print_conf_def conf_loop_int_line w d conf_ok_def conf_apply_def
        atoi_int32 conf_loop_blanks)
qed

subsection \<open>Properties\<close>

text \<open>
  C28. Round trip: a configuration written as the five lines of httpd.conf, with any number
  of blank lines behind them, is read back exactly, whatever the configuration held before.
\<close>

theorem init_conf_reads_back:
  assumes "conf_ok c"
  shows "init_conf (Some (print_conf c @ replicate k LF)) conf0 = Inr c"
  using init_conf_print [OF assms, of k conf0] by simp

theorem init_conf_reads_back_witness:
  "init_conf (Some (''PORT 12345'' @ [LF] @ ''THREAD_NUM 4'' @ [LF] @ ''LISTEN_NUM 10240'' @ [LF]
      @ ''FILE_DIR ../doc'' @ [LF] @ ''EVENT_LIST 2048'' @ [LF] @ [LF, LF]))
    \<lparr>conf_port = 0, conf_listen_num = 0, conf_thread_num = 0, conf_doc = [], conf_event_num = 0\<rparr>
   = Inr \<lparr>conf_port = 12345, conf_listen_num = 10240, conf_thread_num = 4, conf_doc = ''../doc'',
       conf_event_num = 2048\<rparr>"
proof -
  let ?c = "\<lparr>conf_port = 12345, conf_listen_num = 10240, conf_thread_num = 4, conf_doc = ''../doc'',
    conf_event_num = 2048\<rparr>"
  have d: "dec_int 12345 = ''12345''" "dec_int 4 = ''4''" "dec_int 10240 = ''10240''"
    "dec_int 2048 = ''2048''"
    by (simp_all add: dec_int_def dec_nat.simps digit_char_def char_of_def bit_0)
  have "conf_ok ?c" by (simp add: conf_ok_def int32_def conf_word_def isspace_def)
  from init_conf_reads_back [OF this, of 2] show ?thesis
    by (simp add: print_conf_def conf_line_def d numeral_eq_Suc)
qed

text \<open>
  Without a configuration file the program does not fall back to its defaults: the
  test for the failed \<open>fopen\<close> never succeeds and the null pointer is read from. The
  defaults, had they been taken, would be port 9190, 4 threads, \<open>../doc\<close>.
\<close>

theorem missing_conf_faults:
  "init_conf None conf = Inl NullDeref
   \<and> init_default_conf conf = Inr \<lparr>conf_port = 9190, conf_listen_num = 20, conf_thread_num = 4,
       conf_doc = ''../doc'', conf_event_num = 2021, \<dots> = conf_http_t.more conf\<rparr>"
  by (simp add: init_conf_def ptr_lt_0_def init_default_conf_def default_file_dir_def)

text \<open>
  A \<open>FILE_DIR\<close> of 50 to 114 characters overflows the 50-byte array of the
  configuration, wherever the line stands behind well-formed lines.
\<close>

theorem long_file_dir_overflows:
  assumes "conf_ok c" and "conf_word d" and "50 \<le> length d" and "length d \<le> 114"
  shows "init_conf (Some (print_conf c @ conf_line ''FILE_DIR'' d @ rest)) conf0 = Inl OutOfBounds"
proof -
  have w: "conf_word ''PORT''" "conf_word ''THREAD_NUM''" "conf_word ''LISTEN_NUM''"
    "conf_word ''FILE_DIR''" "conf_word ''EVENT_LIST''"
    by (simp_all add: conf_word_def isspace_def)
  have l: "conf_loop (conf_line ''FILE_DIR'' v @ r) key val conf =
    bindr (conf_apply ''FILE_DIR'' v conf) (\<lambda>conf. conf_loop r ''FILE_DIR'' v conf)"
    if "conf_word v" "length v \<le> 114" for v r key val conf
    using conf_loop_line [OF w(4) that(1), of r key val conf] that(2) by (simp add: conf_line_def)
  show ?thesis
    using assms
    by (simp add: init_conf_def ptr_lt_0_def print_conf_def conf_loop_int_line w l conf_ok_def
        conf_apply_def atoi_int32)
qed

theorem long_file_dir_overflows_witness:
  "init_conf (Some (print_conf \<lparr>conf_port = 1, conf_listen_num = 1, conf_thread_num = 1,
      conf_doc = ''d'', conf_event_num = 1\<rparr> @ conf_line ''FILE_DIR'' (replicate 60 CHR ''x'') @ []))
    \<lparr>conf_port = 0, conf_listen_num = 0, conf_thread_num = 0, conf_doc = [], conf_event_num = 0\<rparr>
   = Inl OutOfBounds"
  by (rule long_file_dir_overflows) (simp_all add: conf_ok_def int32_def conf_word_def isspace_def)

text \<open>
  A line that has a key but no value gives the key the value of the line before it:
  after \<open>LISTEN_NUM n\<close>, a line \<open>PORT\<close> sets the port to \<open>n\<close>.
\<close>

theorem key_without_value_takes_previous:
  assumes "int32 n"
  shows "conf_loop (conf_line ''LISTEN_NUM'' (dec_int n) @ ''PORT'' @ LF # rest) key val conf =
    conf_loop rest ''PORT'' (dec_int n) (conf\<lparr>conf_listen_num := n, conf_port := n\<rparr>)"
proof -
  have w: "conf_word ''LISTEN_NUM''" "conf_word ''PORT''"
    by (simp_all add: conf_word_def isspace_def)
  show ?thesis
    using conf_loop_int_line [OF w(1) _ assms] conf_loop_key_only [OF w(2), of rest] assms
    by (simp add: conf_apply_def atoi_int32)
qed

theorem key_without_value_takes_previous_witness:
  "conf_loop (conf_line ''LISTEN_NUM'' (dec_int 20) @ ''PORT'' @ LF # []) [] []
      \<lparr>conf_port = 80, conf_listen_num = 0, conf_thread_num = 0, conf_doc = [], conf_event_num = 0\<rparr> =
    conf_loop [] ''PORT'' (dec_int 20)
      \<lparr>conf_port = 20, conf_listen_num = 20, conf_thread_num = 0, conf_doc = [], conf_event_num = 0\<rparr>"
  using key_without_value_takes_previous [of 20 "[]" "[]" "[]"
      "\<lparr>conf_port = 80, conf_listen_num = 0, conf_thread_num = 0, conf_doc = [], conf_event_num = 0\<rparr>"]
  by (simp add: int32_def)

end
