(* ===== verification/V2_Request.thy ===== *)
theory V2_Request
  imports V2_Epoll V2_Config
begin

section \<open>version\_02: reading a request and answering it\<close>

text \<open>
  version\_02/bin/handle_request.c. A connection is served in two events: \<open>recv_http\<close> parses
  the request into the \<open>http_request_t\<close> and asks for writability, \<open>send_http\<close> answers and
  asks for readability again or closes. What the system calls of one handler return is an
  argument: \<open>en_errno m\<close> is \<open>errno\<close> when the message \<open>m\<close> is logged, \<open>en_write p\<close> the result
  of the \<open>write\<close> of the part \<open>p\<close> of the answer.
\<close>

subsection \<open>What the system calls return\<close>

datatype fs_entry = Directory | Regular string bool \<comment> \<open>contents, and may it be opened\<close>

record env =
  en_junk :: stack
  en_strerror :: "int \<Rightarrow> string"
  en_errno :: "string \<Rightarrow> int"
  en_recv :: "char list option"
  en_stat :: "string \<Rightarrow> fs_entry option"
  en_write :: "string \<Rightarrow> int"
  en_sendfile :: int

definition log_msg :: "env \<Rightarrow> string \<Rightarrow> int \<Rightarrow> srv \<Rightarrow> srv res" where
  "log_msg env str grade s =
     bindr (push_log (local_buf (en_junk env) ''msglog'' 128) (en_strerror env)
              (en_errno env str) str grade (sv_log s))
       (\<lambda>l. Inr (s\<lparr>sv_log := l\<rparr>))"

text \<open>A \<open>write\<close> on a socket: an error, or the number of bytes accepted, which the code
  compares with 0 only.\<close>

definition sock_write :: "env \<Rightarrow> string \<Rightarrow> int \<Rightarrow> string \<Rightarrow> srv \<Rightarrow> int \<times> srv" where
  "sock_write env part fd str s =
     (if sv_flags s fd = None \<or> en_write env part < 0 then (-1, s)
      else (min (en_write env part) (int (length str)),
            s\<lparr>sv_sent := (sv_sent s)(fd := sv_sent s fd @ take (nat (en_write env part)) str)\<rparr>))"

definition sock_sendfile :: "env \<Rightarrow> int \<Rightarrow> string \<Rightarrow> srv \<Rightarrow> int \<times> srv" where
  "sock_sendfile env fd str s =
     (if sv_flags s fd = None \<or> en_sendfile env < 0 then (-1, s)
      else (min (en_sendfile env) (int (length str)),
            s\<lparr>sv_sent := (sv_sent s)(fd := sv_sent s fd @ take (nat (en_sendfile env)) str)\<rparr>))"

subsection \<open>The answers\<close>

definition HTTP_200_NONKEEP :: "string \<Rightarrow> string" where
  "HTTP_200_NONKEEP n = ''HTTP/1.1 200 OK'' @ crlf @ ''Content-Type: text/html'' @ crlf
     @ ''Content-Length: '' @ n @ crlf @ crlf"

definition HTTP_200_KEEP :: "string \<Rightarrow> string" where
  "HTTP_200_KEEP n = ''HTTP/1.1 200 OK'' @ crlf @ ''Connection: Keep-Alive'' @ crlf
     @ ''Keep-Alive: timeout=30'' @ crlf @ ''Content-Type: text/html'' @ crlf
     @ ''Content-Length: '' @ n @ crlf @ crlf"

definition HTTP_405_KEEP :: string where
  "HTTP_405_KEEP = ''HTTP/1.1 405 Request not allow'' @ crlf @ ''Connection: keep-alive'' @ crlf
     @ ''Server: dblank/1.0.0'' @ crlf @ ''Content-Type: text/html'' @ crlf
     @ ''Content-Length : 76'' @ crlf @ crlf"

definition HTTP_405_NONKEEP :: string where
  "HTTP_405_NONKEEP = ''HTTP/1.1 405 Request not allow'' @ crlf @ ''Connection: close'' @ crlf
     @ ''Server: dblank/1.0.0'' @ crlf @ ''Content-Type: text/html'' @ crlf
     @ ''Content-Length : 76'' @ crlf @ crlf"

definition body_405 :: string where
  "body_405 = ''<html> <h1>Hahahaha, we only accept GET because the maker is too low!</h1>'' @ crlf"

definition write_405 :: "env \<Rightarrow> nat \<Rightarrow> srv \<Rightarrow> srv res" where
  "write_405 env p s =
     bindr (the_req s p) (\<lambda>r.
     let header = (if rq_alive r \<noteq> 0 then HTTP_405_KEEP else HTTP_405_NONKEEP);
         (n, s) = sock_write env ''header'' (rq_fd r) header s in
     bindr (if n < 0 then log_msg env ('': faile to write header'' @ [LF, LF]) 2 s else Inr s) (\<lambda>s.
     let (n, s) = sock_write env ''body'' (rq_fd r) body_405 s in
     if n < 0 then log_msg env ('': fail to write body'' @ [LF, LF]) 2 s else Inr s))"

definition write_200 :: "env \<Rightarrow> nat \<Rightarrow> string \<Rightarrow> srv \<Rightarrow> (int \<times> srv) res" where
  "write_200 env p filename s =
     bindr (the_req s p) (\<lambda>r.
     case en_stat env filename of
       Some (Regular content readable) \<Rightarrow>
         let size = dec_int (int (length content));
             header = (if rq_alive r \<noteq> 0 then HTTP_200_KEEP size else HTTP_200_NONKEEP size);
             (n, s) = sock_write env ''header'' (rq_fd r) header s in
         if n < 0 then
           bindr (log_msg env ('': fail to write'' @ [LF, LF]) 2 s) (\<lambda>s. Inr (-1, s))
         else if \<not> readable then
           bindr (log_msg env ('': fail to open filename'' @ [LF, LF]) 2 s) (\<lambda>s. Inr (-1, s))
         else
           let s = s\<lparr>sv_file_fds := Suc (sv_file_fds s)\<rparr>;
               (n, s) = sock_sendfile env (rq_fd r) content s in
           if n < 0 then
             bindr (log_msg env ('': fail to sendfile'' @ [LF, LF]) 2 s) (\<lambda>s. Inr (-1, s))
           else Inr (0, s\<lparr>sv_file_fds := sv_file_fds s - 1\<rparr>)
     | _ \<Rightarrow> bindr (write_405 env p s) (\<lambda>s. Inr (-1, s)))"

text \<open>The \<open>http_ptr = NULL\<close> of \<open>check_alive\<close> and \<open>recv_http\<close> sets a parameter, the
  structure stays allocated.\<close>

definition check_alive :: "int \<Rightarrow> nat \<Rightarrow> srv \<Rightarrow> srv res" where
  "check_alive epfd p s =
     bindr (the_req s p) (\<lambda>r.
     if rq_alive r \<noteq> 0 then epoll_mod epfd p EPOLLIN s else Inr (close_fd (rq_fd r) s))"

text \<open>The path of lines 200 to 206.\<close>

definition make_path :: "env \<Rightarrow> string \<Rightarrow> string \<Rightarrow> string res" where
  "make_path env doc url =
     bindr (strcpy (replicate 128 NUL) doc) (\<lambda>path.
     bindr (strcat path url) (\<lambda>path.
     bindr (strlen path) (\<lambda>n.
     bindr (rd path (int n - 1)) (\<lambda>c.
     bindr (if c = CHR ''/'' then strcat path ''index.html'' else Inr path) (\<lambda>path.
     cstr path 0)))))"

definition send_http :: "env \<Rightarrow> conf_http_t \<Rightarrow> int \<Rightarrow> nat \<Rightarrow> srv \<Rightarrow> (int \<times> srv) res" where
  "send_http env conf epfd p s =
     bindr (the_req s p) (\<lambda>r.
     bindr (cstr (rq_method r) 0) (\<lambda>meth.
     if \<not> strcasecmp_eq meth ''GET'' then
       bindr (write_405 env p s) (\<lambda>s. bindr (check_alive epfd p s) (\<lambda>s. Inr (-1, s)))
     else
       bindr (cstr (rq_url r) 0) (\<lambda>url.
       if length url \<le> 0 then
         bindr (write_405 env p s) (\<lambda>s. bindr (check_alive epfd p s) (\<lambda>s. Inr (-1, s)))
       else
         (let doc = conf_doc conf in
         bindr (make_path env doc url) (\<lambda>path.
         bindr (write_200 env p path s) (\<lambda>(mark, s).
         bindr (check_alive epfd p s) (\<lambda>s.
         Inr (sint (ucast (word_of_int mark :: 64 word) :: 32 word), s))))))))"

subsection \<open>Reading the request\<close>

text \<open>One of the two copy loops of \<open>get_url_method\<close>; \<open>cap\<close> is 32 or 128.\<close>

function copy_word :: "char list \<Rightarrow> nat \<Rightarrow> nat \<Rightarrow> char list \<Rightarrow> nat \<Rightarrow> nat \<Rightarrow> (char list \<times> nat \<times> nat) res" where
  "copy_word header sz cap dst i j =
     bindr (rd header (int i)) (\<lambda>c.
     if c \<noteq> CHR '' '' \<and> i < sz \<and> j < cap then
       bindr (wr dst (int j) c) (\<lambda>dst. copy_word header sz cap dst (Suc i) (Suc j))
     else Inr (dst, i, j))"
  by auto

termination by (relation "measure (\<lambda>(h, n, cap, d, i, j). cap - j)") auto

function skip_blanks :: "char list \<Rightarrow> nat \<Rightarrow> nat res" where
  "skip_blanks header i =
     bindr (rd header (int i)) (\<lambda>c.
     if c = CHR '' '' then skip_blanks header (Suc i) else Inr i)"
  by auto

termination
  by (relation "measure (\<lambda>(h, i). length h - i)") (auto simp: rd_nat split: if_splits)

declare copy_word.simps [simp del] skip_blanks.simps [simp del]

definition get_url_method ::
  "char list \<Rightarrow> char list \<Rightarrow> char list \<Rightarrow> 64 word \<Rightarrow> (char list \<times> char list \<times> int) res"
where
  "get_url_method header url meth sz =
     bindr (copy_word header (unat sz) 32 meth 0 0) (\<lambda>(meth, i, j).
     bindr (wr meth (int j) NUL) (\<lambda>meth.
     bindr (skip_blanks header i) (\<lambda>i.
     bindr (copy_word header (unat sz) 128 url i 0) (\<lambda>(url, i, j).
     bindr (wr url (int j) NUL) (\<lambda>url.
     bindr (cstr header 0) (\<lambda>text.
     Inr (url, meth, if strcasestr_hit text ''keep-alive'' then 1 else 0)))))))"

text \<open>
  \<open>recv\<close> gives a negative number in case of error, stored in a \<open>size_t\<close>. The buffer is
  not cleared: behind the bytes received stands what the stack holds.
\<close>

definition recv_buf :: "env \<Rightarrow> char list" where
  "recv_buf env =
     (case en_recv env of
        None \<Rightarrow> local_buf (en_junk env) ''buf'' 10240
      | Some bs \<Rightarrow> take 10240 bs @ drop (length bs) (local_buf (en_junk env) ''buf'' 10240))"

definition recv_count :: "env \<Rightarrow> 64 word" where
  "recv_count env =
     (case en_recv env of None \<Rightarrow> -1 | Some bs \<Rightarrow> word_of_nat (length (take 10240 bs)))"

definition recv_http :: "env \<Rightarrow> int \<Rightarrow> nat \<Rightarrow> srv \<Rightarrow> srv res" where
  "recv_http env epfd p s =
     bindr (the_req s p) (\<lambda>r.
     let n = recv_count env in
     if n < 0 then
       bindr (log_msg env ('': recv socket fail'' @ [LF, LF]) 2 s) (\<lambda>s. Inr (close_fd (rq_fd r) s))
     else if n = 0 then
       bindr (log_msg env ('': socket connect close'' @ [LF, LF]) 0 s) (\<lambda>s. Inr (close_fd (rq_fd r) s))
     else
       bindr (get_url_method (recv_buf env) (rq_url r) (rq_method r) n) (\<lambda>(url, meth, alive).
       epoll_mod epfd p EPOLLOUT
         (s\<lparr>sv_reqs := (sv_reqs s)(p \<mapsto> r\<lparr>rq_url := url, rq_method := meth, rq_alive := alive\<rparr>)\<rparr>)))"

subsection \<open>The worker thread\<close>

text \<open>Lines 36 to 48 for one ready event, then the loop over the events of one \<open>epoll_wait\<close>.\<close>

definition handle_event :: "env \<Rightarrow> conf_http_t \<Rightarrow> int \<Rightarrow> 32 word \<times> nat \<Rightarrow> srv \<Rightarrow> srv res" where
  "handle_event env conf epfd ev s =
     (if fst ev = word_of_int EPOLLIN then recv_http env epfd (snd ev) s
      else if fst ev = word_of_int EPOLLOUT then
        bindr (send_http env conf epfd (snd ev) s) (\<lambda>(rc, s).
        if rc = -1 then log_msg env ('': return 405'' @ [LF, LF]) 0 s
        else log_msg env ('': return 200'' @ [LF, LF]) 0 s)
      else Inr s)"

fun wait_task_turn :: "(env \<times> 32 word \<times> nat) list \<Rightarrow> conf_http_t \<Rightarrow> int \<Rightarrow> srv \<Rightarrow> srv res" where
  "wait_task_turn [] conf epfd s = Inr s"
| "wait_task_turn ((env, ev) # evs) conf epfd s =
     bindr (handle_event env conf epfd ev s) (wait_task_turn evs conf epfd)"

text \<open>Each turn is the result of one \<open>epoll_wait\<close>: an error, or the ready events.\<close>

fun wait_task ::
  "(env \<times> (env \<times> 32 word \<times> nat) list option) list \<Rightarrow> conf_http_t \<Rightarrow> int \<Rightarrow> srv \<Rightarrow> srv res"
where
  "wait_task [] conf epfd s = Inr s"
| "wait_task ((env, None) # turns) conf epfd s =
     bindr (log_msg env ('': epoll_wait fail'' @ [LF, LF]) 2 s) (wait_task turns conf epfd)"
| "wait_task ((env, Some evs) # turns) conf epfd s =
     bindr (wait_task_turn evs conf epfd s) (wait_task turns conf epfd)"

subsection \<open>What the parser finds\<close>

lemma copy_word_run:
  assumes "CHR '' '' \<notin> set w" and "length pre + length w \<le> sz" and "length d0 + length w \<le> cap"
    and "cap \<le> length d0 + length d1"
    and "c = CHR '' '' \<or> length d0 + length w = cap \<or> length pre + length w = sz"
  shows "copy_word (pre @ w @ c # r) sz cap (d0 @ d1) (length pre) (length d0)
    = Inr (d0 @ w @ drop (length w) d1, length pre + length w, length d0 + length w)"
  using assms
proof (induction w arbitrary: pre d0 d1)
  case Nil
  then show ?case by (auto simp: copy_word.simps)
next
  case (Cons x w)
  obtain y d2 where d1: "d1 = y # d2" using Cons.prems(3,4) by (cases d1) auto
  have "copy_word ((pre @ [x]) @ w @ c # r) sz cap ((d0 @ [x]) @ d2) (length (pre @ [x])) (length (d0 @ [x]))
    = Inr ((d0 @ [x]) @ w @ drop (length w) d2, length (pre @ [x]) + length w, length (d0 @ [x]) + length w)"
    by (rule Cons.IH) (use Cons.prems d1 in auto)
  moreover have "x \<noteq> CHR '' ''" using Cons.prems(1) by auto
  ultimately show ?case
    using Cons.prems d1 by (simp add: copy_word.simps [of _ _ _ _ "length pre"])
qed

lemma skip_blanks_run:
  assumes "c \<noteq> CHR '' ''"
  shows "skip_blanks (pre @ replicate k (CHR '' '') @ c # r) (length pre) = Inr (length pre + k)"
proof (induction k arbitrary: pre)
  case 0
  then show ?case using assms by (simp add: skip_blanks.simps)
next
  case (Suc k)
  then have "skip_blanks ((pre @ [CHR '' '']) @ replicate k (CHR '' '') @ c # r) (Suc (length pre))
    = Inr (Suc (length pre) + k)" by (metis length_append_singleton)
  then show ?case by (simp add: skip_blanks.simps [of "pre @ CHR '' '' # replicate k (CHR '' '') @ c # r"])
qed

text \<open>The buffer starts with a method, one or more blanks, a path and a blank.\<close>

definition request_line :: "string \<Rightarrow> nat \<Rightarrow> string \<Rightarrow> string \<Rightarrow> string" where
  "request_line m k u rest = m @ replicate (Suc k) (CHR '' '') @ u @ CHR '' '' # rest"

lemma get_url_method_run:
  assumes "CHR '' '' \<notin> set m" "length m < 32" and "CHR '' '' \<notin> set u" "length u < 128" "u \<noteq> []"
    and "length m + Suc k + length u \<le> unat sz"
    and "length meth = 32" "length url = 128"
    and "header = request_line m k u rest" and "cstr header 0 = Inr text"
  shows "get_url_method header url meth sz =
    Inr (u @ NUL # drop (Suc (length u)) url, m @ NUL # drop (Suc (length m)) meth,
         if strcasestr_hit text ''keep-alive'' then 1 else 0)"
proof -
  let ?sp = "CHR '' ''"
  have 1: "copy_word header (unat sz) 32 meth 0 0 = Inr (m @ drop (length m) meth, length m, length m)"
    using copy_word_run [of m "[]" "unat sz" "[]" 32 meth ?sp "replicate k ?sp @ u @ ?sp # rest"] assms
    by (simp add: request_line_def)
  have 2: "wr (m @ drop (length m) meth) (int (length m)) NUL = Inr (m @ NUL # drop (Suc (length m)) meth)"
    using assms(2,7) by (simp add: wr_nat list_update_append drop_update_swap flip: Cons_nth_drop_Suc)
  obtain c u' where u: "u = c # u'" "c \<noteq> ?sp" using assms(3,5) by (cases u) auto
  have 3: "skip_blanks header (length m) = Inr (length m + Suc k)"
    using skip_blanks_run [OF u(2), of m "Suc k" "u' @ ?sp # rest"] assms(9) u(1)
    by (simp add: request_line_def)
  have 4: "copy_word header (unat sz) 128 url (length m + Suc k) 0
    = Inr (u @ drop (length u) url, length m + Suc k + length u, length u)"
    using copy_word_run [of u "m @ replicate (Suc k) ?sp" "unat sz" "[]" 128 url ?sp rest] assms
    by (simp add: request_line_def)
  have 5: "wr (u @ drop (length u) url) (int (length u)) NUL = Inr (u @ NUL # drop (Suc (length u)) url)"
    using assms(4,8) by (simp add: wr_nat list_update_append flip: Cons_nth_drop_Suc)
  show ?thesis
    unfolding get_url_method_def 1 bindr_Inr prod.case 2 3 4 5 assms(10) ..
qed

text \<open>What \<open>get_url_method\<close> stores always ends in NUL, inside arrays of the same size.\<close>

lemma copy_word_length: "copy_word h sz cap d i j = Inr (d', i', j') \<Longrightarrow> length d' = length d"
proof (induction h sz cap d i j arbitrary: d' rule: copy_word.induct)
  case (1 h sz cap d i j)
  from "1.prems" show ?case
    using "1.IH" by (subst (asm) copy_word.simps) (fastforce simp: bindr_eq_Inr split: if_splits dest: wr_length)
qed

lemma wr_stored: "wr d i c = Inr d' \<Longrightarrow> c \<in> set d' \<and> length d' = length d"
  by (auto simp: wr_def set_update_memI split: if_splits)

lemma get_url_method_arrays:
  assumes "get_url_method h url meth sz = Inr (url', method', alive)"
  shows "length url' = length url \<and> length method' = length meth
    \<and> NUL \<in> set url' \<and> NUL \<in> set method' \<and> alive \<in> {0, 1}"
  using assms
  by (auto simp: get_url_method_def bindr_eq_Inr split: prod.splits
      dest!: copy_word_length wr_stored)

subsection \<open>Log messages and answers leave the connections alone\<close>

text \<open>The texts of \<open>strerror\<close> are C strings of at most 64 characters.\<close>

definition quiet :: "env \<Rightarrow> bool" where
  "quiet env = (\<forall>e. nul_free (en_strerror env e) \<and> length (en_strerror env e) \<le> 64)"

definition same_conns :: "srv \<Rightarrow> srv \<Rightarrow> bool" where
  "same_conns s t = (sv_reqs t = sv_reqs s \<and> sv_flags t = sv_flags s \<and> sv_interest t = sv_interest s)"

lemma same_conns_trans [trans]: "same_conns s t \<Longrightarrow> same_conns t u \<Longrightarrow> same_conns s u"
  by (simp add: same_conns_def)

lemma log_grade_length: "0 \<le> g \<Longrightarrow> g < 4 \<Longrightarrow> length (log_grade ! nat g) \<le> 10"
proof -
  assume "0 \<le> g" "g < 4"
  then have "nat g \<in> {0, 1, 2, 3}" by auto
  then show ?thesis by (auto simp: log_grade_def)
qed

lemma log_msg_ok:
  assumes "log_ok (sv_log s)" and "quiet env" and "nul_free str" and "length str \<le> 48"
    and "0 \<le> g" "g < 4"
  shows "\<exists>l m. log_msg env str g s = Inr (s\<lparr>sv_log := l\<rparr>) \<and> log_ok l
    \<and> log_msgs l = log_msgs (sv_log s) @ [(log_grade ! nat g @ en_strerror env (en_errno env str) @ str) @ NUL # m]"
proof -
  let ?t = "log_grade ! nat g @ en_strerror env (en_errno env str) @ str"
  have "length (en_strerror env (en_errno env str)) \<le> 64" using assms(2) by (simp add: quiet_def)
  then have "length ?t < 128" using log_grade_length [OF assms(5,6)] assms(4) by simp
  moreover have "nul_free (en_strerror env (en_errno env str))" using assms(2) by (simp add: quiet_def)
  ultimately have "log_text (local_buf (en_junk env) ''msglog'' 128) (en_strerror env) (en_errno env str) str g
    = Inr (?t @ NUL # drop (Suc (length ?t)) (local_buf (en_junk env) ''msglog'' 128))"
    by (subst log_text_cases) (simp_all add: assms(3,5,6) Let_def)
  moreover obtain l where "push_node (?t @ NUL # drop (Suc (length ?t)) (local_buf (en_junk env) ''msglog'' 128)) g (sv_log s)
      = Inr l" "log_ok l"
    "log_msgs l = log_msgs (sv_log s) @ [?t @ NUL # drop (Suc (length ?t)) (local_buf (en_junk env) ''msglog'' 128)]"
    using push_node_ok [OF assms(1)] by blast
  ultimately show ?thesis
    by (intro exI [of _ l] exI) (simp add: log_msg_def push_log_def)
qed

lemma log_msgE:
  assumes "log_ok (sv_log s)" and "quiet env" and "nul_free str" and "length str \<le> 48"
    and "0 \<le> g" "g < 4"
  obtains l where "log_msg env str g s = Inr (s\<lparr>sv_log := l\<rparr>)" "log_ok l"
  using log_msg_ok [OF assms] by blast

lemma write_405_ok:
  assumes "log_ok (sv_log s)" and "quiet env" and "sv_reqs s p = Some r"
  shows "\<exists>s'. write_405 env p s = Inr s' \<and> same_conns s s' \<and> log_ok (sv_log s')"
proof -
  define h where "h = (if rq_alive r \<noteq> 0 then HTTP_405_KEEP else HTTP_405_NONKEEP)"
  obtain n1 s1 where 1: "sock_write env ''header'' (rq_fd r) h s = (n1, s1)" by fastforce
  then have c1: "same_conns s s1" "sv_log s1 = sv_log s"
    by (auto simp: sock_write_def same_conns_def split: if_splits)
  obtain l where l: "log_msg env ('': faile to write header'' @ [LF, LF]) 2 s1 = Inr (s1\<lparr>sv_log := l\<rparr>)" "log_ok l"
    using log_msgE [of s1 env "'': faile to write header'' @ [LF, LF]" 2] assms(1,2) c1 by auto
  define s2 where "s2 = (if n1 < 0 then s1\<lparr>sv_log := l\<rparr> else s1)"
  have c2: "same_conns s s2" "log_ok (sv_log s2)"
    using c1 l assms(1) by (auto simp: s2_def same_conns_def)
  obtain n3 s3 where 3: "sock_write env ''body'' (rq_fd r) body_405 s2 = (n3, s3)" by fastforce
  then have c3: "same_conns s s3" "log_ok (sv_log s3)"
    using c2 by (auto simp: sock_write_def same_conns_def split: if_splits)
  obtain l3 where l3: "log_msg env ('': fail to write body'' @ [LF, LF]) 2 s3 = Inr (s3\<lparr>sv_log := l3\<rparr>)" "log_ok l3"
    using log_msgE [of s3 env "'': fail to write body'' @ [LF, LF]" 2] assms(2) c3 by auto
  have "(if n1 < 0 then log_msg env ('': faile to write header'' @ [LF, LF]) 2 s1 else Inr s1) = Inr s2"
    using l by (simp add: s2_def)
  then have "write_405 env p s = (if n3 < 0 then Inr (s3\<lparr>sv_log := l3\<rparr>) else Inr s3)"
    using 1 3 l3 assms(3) by (simp add: write_405_def the_req_def h_def [symmetric])
  then show ?thesis using c3 l3 by (auto simp: same_conns_def)
qed

lemma write_200_ok:
  assumes "log_ok (sv_log s)" and "quiet env" and "sv_reqs s p = Some r"
  shows "\<exists>rc s'. write_200 env p fn s = Inr (rc, s') \<and> rc \<in> {-1, 0} \<and> same_conns s s' \<and> log_ok (sv_log s')"
proof (cases "\<exists>content readable. en_stat env fn = Some (Regular content readable)")
  case False
  then have "write_200 env p fn s = bindr (write_405 env p s) (\<lambda>s. Inr (-1, s))"
    using assms(3) by (auto simp: write_200_def the_req_def split: option.splits fs_entry.splits)
  then show ?thesis using write_405_ok [OF assms] by auto
next
  case True
  then obtain content readable where st: "en_stat env fn = Some (Regular content readable)" by blast
  define h where "h = (if rq_alive r \<noteq> 0 then HTTP_200_KEEP (dec_int (int (length content)))
    else HTTP_200_NONKEEP (dec_int (int (length content))))"
  obtain n1 s1 where 1: "sock_write env ''header'' (rq_fd r) h s = (n1, s1)" by fastforce
  then have c1: "same_conns s s1" "log_ok (sv_log s1)"
    using assms(1) by (auto simp: sock_write_def same_conns_def split: if_splits)
  define s2 where "s2 = s1\<lparr>sv_file_fds := Suc (sv_file_fds s1)\<rparr>"
  obtain n3 s3 where 3: "sock_sendfile env (rq_fd r) content s2 = (n3, s3)" by fastforce
  then have c3: "same_conns s s3" "log_ok (sv_log s3)"
    using c1 by (auto simp: sock_sendfile_def same_conns_def s2_def split: if_splits)
  obtain l1 where
    l1: "log_msg env ('': fail to write'' @ [LF, LF]) 2 s1 = Inr (s1\<lparr>sv_log := l1\<rparr>)" "log_ok l1"
    using log_msgE [of s1 env "'': fail to write'' @ [LF, LF]" 2] assms(2) c1 by auto
  obtain l2 where
    l2: "log_msg env ('': fail to open filename'' @ [LF, LF]) 2 s1 = Inr (s1\<lparr>sv_log := l2\<rparr>)" "log_ok l2"
    using log_msgE [of s1 env "'': fail to open filename'' @ [LF, LF]" 2] assms(2) c1 by auto
  obtain l3 where
    l3: "log_msg env ('': fail to sendfile'' @ [LF, LF]) 2 s3 = Inr (s3\<lparr>sv_log := l3\<rparr>)" "log_ok l3"
    using log_msgE [of s3 env "'': fail to sendfile'' @ [LF, LF]" 2] assms(2) c3 by auto
  have "write_200 env p fn s =
     (if n1 < 0 then Inr (-1, s1\<lparr>sv_log := l1\<rparr>)
      else if \<not> readable then Inr (-1, s1\<lparr>sv_log := l2\<rparr>)
      else if n3 < 0 then Inr (-1, s3\<lparr>sv_log := l3\<rparr>)
      else Inr (0, s3\<lparr>sv_file_fds := sv_file_fds s3 - 1\<rparr>))"
    using 1 3 l1 l2 l3 st assms(3)
    by (simp add: write_200_def the_req_def Let_def h_def [symmetric] s2_def [symmetric])
  then show ?thesis using c1 c3 l1 l2 l3 by (auto simp: same_conns_def)
qed

end
