(* ===== verification/V2_Serve.thy ===== *)
theory V2_Serve
  imports V2_Request
begin

section \<open>version\_02: what the worker threads guarantee\<close>

text \<open>
  The invariant of the connections of one server (\<open>srv_ok\<close>) and that every event keeps it,
  and what a client sees: the parse of a request, the answer to a GET, the 405 answer, and
  the cases in which a handler leaves defined behaviour.
\<close>

subsection \<open>The invariant\<close>

definition req_arrays :: "http_request \<Rightarrow> bool" where
  "req_arrays r = (length (rq_method r) = 32 \<and> length (rq_url r) = 128)"

definition parsed :: "http_request \<Rightarrow> bool" where
  "parsed r = (NUL \<in> set (rq_method r) \<and> NUL \<in> set (rq_url r))"

definition srv_ok :: "srv \<Rightarrow> bool" where
  "srv_ok s =
     (sound_regs (sv_interest s) (open_fds s)
      \<and> (\<forall>e f ev p. sv_interest s (e, f) = Some (ev, p) \<longrightarrow>
          (\<exists>r. sv_reqs s p = Some r \<and> rq_fd r = f \<and> req_arrays r
               \<and> (ev = word_of_int EPOLLOUT \<longrightarrow> parsed r)))
      \<and> log_ok (sv_log s))"

lemma srv_ok_req:
  assumes "srv_ok s" and "sv_interest s (e, f) = Some (ev, p)"
  obtains r where "sv_reqs s p = Some r" "rq_fd r = f" "req_arrays r"
    "ev = word_of_int EPOLLOUT \<Longrightarrow> parsed r"
  using assms unfolding srv_ok_def by blast

lemma srv_ok_log: "srv_ok s \<Longrightarrow> log_ok l \<Longrightarrow> srv_ok (s\<lparr>sv_log := l\<rparr>)"
  by (simp add: srv_ok_def open_fds_def)

lemma srv_ok_same:
  "srv_ok s \<Longrightarrow> same_conns s t \<Longrightarrow> log_ok (sv_log t) \<Longrightarrow> srv_ok t"
  by (simp add: srv_ok_def same_conns_def open_fds_def)

lemma srv_ok_set_req:
  assumes "srv_ok s" and "sv_reqs s p = Some r" and "rq_fd r' = rq_fd r" and "req_arrays r'" and "parsed r'"
  shows "srv_ok (s\<lparr>sv_reqs := (sv_reqs s)(p \<mapsto> r')\<rparr>)"
proof -
  have "\<exists>x. ((sv_reqs s)(p \<mapsto> r')) q = Some x \<and> rq_fd x = g \<and> req_arrays x
      \<and> (ev = word_of_int EPOLLOUT \<longrightarrow> parsed x)"
    if i: "sv_interest s (e, g) = Some (ev, q)" for e g ev q
  proof -
    obtain x where "sv_reqs s q = Some x" "rq_fd x = g" "req_arrays x"
      "ev = word_of_int EPOLLOUT \<longrightarrow> parsed x" using srv_ok_req [OF assms(1) i] by blast
    then show ?thesis using assms(2-5) by (cases "q = p") auto
  qed
  then show ?thesis using assms(1) by (simp add: srv_ok_def open_fds_def)
qed

text \<open>What a handler does to the registrations: those of other sockets stay, its own stays
  or goes with the socket.\<close>

definition only_touches :: "int \<Rightarrow> int \<Rightarrow> srv \<Rightarrow> srv \<Rightarrow> bool" where
  "only_touches e f s t =
     ((\<forall>e' g. g \<noteq> f \<longrightarrow> sv_interest t (e', g) = sv_interest s (e', g))
      \<and> open_fds t \<in> {open_fds s, open_fds s - {f}}
      \<and> (f \<in> open_fds t \<longrightarrow> sv_interest t (e, f) \<noteq> None))"

lemma only_touches_same:
  "only_touches e f s t \<Longrightarrow> same_conns t u \<Longrightarrow> only_touches e f s u"
  "same_conns s t \<Longrightarrow> only_touches e f t u \<Longrightarrow> only_touches e f s u"
  by (simp_all add: only_touches_def same_conns_def open_fds_def)

lemma close_fd_ok:
  assumes "srv_ok s"
  shows "srv_ok (close_fd f s) \<and> only_touches e f s (close_fd f s)"
proof -
  have "sound_regs (sv_interest (close_fd f s)) (open_fds (close_fd f s))"
    using epoll.shut_sound assms by (simp add: srv_ok_def)
  then show ?thesis
    using assms by (simp add: srv_ok_def close_fd_def only_touches_def open_fds_def)
qed

lemma epoll_mod_ok:
  assumes "srv_ok s" and "sv_reqs s p = Some r" and "rq_fd r = f" and "sv_interest s (e, f) = Some x"
    and "status \<in> {EPOLLIN, EPOLLOUT}" and "req_arrays r" and "status = EPOLLOUT \<Longrightarrow> parsed r"
  shows "\<exists>t. epoll_mod e p status s = Inr t \<and> srv_ok t \<and> only_touches e f s t
    \<and> t = s\<lparr>sv_interest := (sv_interest s)((e, f) \<mapsto> (word_of_int status, p))\<rparr>"
proof -
  have o: "f \<in> open_fds s" using assms(1,4) by (cases x) (auto simp: srv_ok_def sound_regs_def)
  define t where "t = s\<lparr>sv_interest := (sv_interest s)((e, f) \<mapsto> (word_of_int status, p))\<rparr>"
  have m: "epoll_mod e p status s = Inr t"
    using o assms(2-4) by (auto simp: epoll_mod_def the_req_def epoll_ctl_def open_fds_def t_def)
  have "sound_regs (sv_interest t) (open_fds t)"
    using epoll.change_sound [OF _ _ _ assms(5) m] assms(1-4) by (auto simp: srv_ok_def names_fd_def)
  moreover have "word_of_int EPOLLIN \<noteq> (word_of_int EPOLLOUT :: 32 word)"
    by (simp add: EPOLLIN_def EPOLLOUT_def)
  ultimately have "srv_ok t"
    using assms unfolding srv_ok_def t_def by (auto simp: open_fds_def)
  with m show ?thesis
    by (auto simp: t_def only_touches_def open_fds_def)
qed

lemma check_alive_ok:
  assumes "srv_ok s" and "sv_interest s (e, f) = Some (ev, p)"
  shows "\<exists>t. check_alive e p s = Inr t \<and> srv_ok t \<and> only_touches e f s t"
proof -
  obtain r where r: "sv_reqs s p = Some r" "rq_fd r = f" "req_arrays r"
    using srv_ok_req [OF assms] by blast
  show ?thesis
  proof (cases "rq_alive r = 0")
    case True
    with r close_fd_ok [OF assms(1), of f e] show ?thesis by (simp add: check_alive_def the_req_def)
  next
    case False
    with r epoll_mod_ok [OF assms(1) r(1,2) assms(2), of EPOLLIN] show ?thesis
      by (auto simp: check_alive_def the_req_def EPOLLIN_def EPOLLOUT_def)
  qed
qed

subsection \<open>Every event keeps the invariant\<close>

lemma recv_http_ok:
  assumes "srv_ok s" and "quiet env" and "sv_interest s (e, f) = Some (ev, p)"
    and "recv_http env e p s = Inr t"
  shows "srv_ok t \<and> only_touches e f s t"
proof -
  obtain r where r: "sv_reqs s p = Some r" "rq_fd r = f" "req_arrays r"
    using srv_ok_req [OF assms(1,3)] by blast
  have l: "log_ok (sv_log s)" using assms(1) by (simp add: srv_ok_def)
  show ?thesis
  proof (cases "recv_count env = 0")
    case True
    obtain l1 where "log_msg env ('': socket connect close'' @ [LF, LF]) 0 s = Inr (s\<lparr>sv_log := l1\<rparr>)" "log_ok l1"
      using log_msgE [OF l assms(2), of "'': socket connect close'' @ [LF, LF]" 0] by auto
    with True r assms(4) have "t = close_fd f (s\<lparr>sv_log := l1\<rparr>)" "srv_ok (s\<lparr>sv_log := l1\<rparr>)"
      using srv_ok_log [OF assms(1)] by (auto simp: recv_http_def the_req_def)
    then show ?thesis
      using close_fd_ok [of "s\<lparr>sv_log := l1\<rparr>" f e] only_touches_same(2) [of s "s\<lparr>sv_log := l1\<rparr>"]
      by (auto simp: same_conns_def)
  next
    case False
    with assms(4) r obtain url meth alive where
      g: "get_url_method (recv_buf env) (rq_url r) (rq_method r) (recv_count env) = Inr (url, meth, alive)" and
      m: "epoll_mod e p EPOLLOUT (s\<lparr>sv_reqs := (sv_reqs s)(p \<mapsto>
            r\<lparr>rq_url := url, rq_method := meth, rq_alive := alive\<rparr>)\<rparr>) = Inr t"
      by (auto simp: recv_http_def the_req_def bindr_eq_Inr)
    define r' where "r' = r\<lparr>rq_url := url, rq_method := meth, rq_alive := alive\<rparr>"
    define s' where "s' = s\<lparr>sv_reqs := (sv_reqs s)(p \<mapsto> r')\<rparr>"
    have r': "rq_fd r' = f" "req_arrays r'" "parsed r'"
      using get_url_method_arrays [OF g] r by (auto simp: r'_def req_arrays_def parsed_def)
    then have "srv_ok s'"
      using srv_ok_set_req [OF assms(1) r(1)] r(2) by (simp add: s'_def)
    moreover have "sv_reqs s' p = Some r'" "sv_interest s' (e, f) = Some (ev, p)"
      using assms(3) by (simp_all add: s'_def)
    ultimately have "\<exists>t. epoll_mod e p EPOLLOUT s' = Inr t \<and> srv_ok t \<and> only_touches e f s' t"
      using epoll_mod_ok [of s' p r' f e "(ev, p)" EPOLLOUT] r' by auto
    with m show ?thesis
      by (auto simp: r'_def s'_def only_touches_def open_fds_def)
  qed
qed

lemma send_http_ok:
  assumes "srv_ok s" and "quiet env" and "sv_interest s (e, f) = Some (ev, p)"
    and "send_http env conf e p s = Inr (rc, t)"
  shows "srv_ok t \<and> only_touches e f s t"
proof -
  obtain r where r: "sv_reqs s p = Some r" "rq_fd r = f" "req_arrays r"
    using srv_ok_req [OF assms(1,3)] by blast
  have l: "log_ok (sv_log s)" using assms(1) by (simp add: srv_ok_def)
  obtain u where u: "same_conns s u" "log_ok (sv_log u)" "check_alive e p u = Inr t"
  proof -
    from assms(4) r(1) consider u where "write_405 env p s = Inr u" "check_alive e p u = Inr t"
      | fn mark u where "write_200 env p fn s = Inr (mark, u)" "check_alive e p u = Inr t"
      by (auto simp: send_http_def the_req_def bindr_eq_Inr Let_def split: if_splits)
    then show ?thesis
    proof cases
      case (1 u)
      then show ?thesis using that [of u] write_405_ok [OF l assms(2) r(1)] by auto
    next
      case (2 fn mark u)
      then show ?thesis using that [of u] write_200_ok [OF l assms(2) r(1), of fn] by auto
    qed
  qed
  have "srv_ok u" by (rule srv_ok_same [OF assms(1) u(1,2)])
  moreover have "sv_interest u (e, f) = Some (ev, p)" using u(1) assms(3) by (simp add: same_conns_def)
  ultimately show ?thesis
    using check_alive_ok [of u e f ev p] u only_touches_same(2) [OF u(1)] by auto
qed

lemma handle_event_ok:
  assumes "srv_ok s" and "quiet env" and "sv_interest s (e, f) = Some (ev, p)"
    and "handle_event env conf e (ready, p) s = Inr t"
  shows "srv_ok t \<and> only_touches e f s t"
proof -
  have l: "log_ok (sv_log t')" if "srv_ok t'" for t' using that by (simp add: srv_ok_def)
  consider "ready = word_of_int EPOLLIN" | "ready \<noteq> word_of_int EPOLLIN" "ready = word_of_int EPOLLOUT"
    | "ready \<noteq> word_of_int EPOLLIN" "ready \<noteq> word_of_int EPOLLOUT" by blast
  then show ?thesis
  proof cases
    case 1
    then show ?thesis using recv_http_ok [OF assms(1-3)] assms(4) by (simp add: handle_event_def)
  next
    case 2
    with assms(4) obtain rc u where u: "send_http env conf e p s = Inr (rc, u)"
      and t: "(if rc = -1 then log_msg env ('': return 405'' @ [LF, LF]) 0 u
        else log_msg env ('': return 200'' @ [LF, LF]) 0 u) = Inr t"
      by (auto simp: handle_event_def bindr_eq_Inr)
    have s: "srv_ok u" "only_touches e f s u" using send_http_ok [OF assms(1-3) u] by auto
    obtain l1 where l1: "log_msg env ('': return 405'' @ [LF, LF]) 0 u = Inr (u\<lparr>sv_log := l1\<rparr>)" "log_ok l1"
      using log_msgE [OF l [OF s(1)] assms(2), of "'': return 405'' @ [LF, LF]" 0] by auto
    obtain l2 where l2: "log_msg env ('': return 200'' @ [LF, LF]) 0 u = Inr (u\<lparr>sv_log := l2\<rparr>)" "log_ok l2"
      using log_msgE [OF l [OF s(1)] assms(2), of "'': return 200'' @ [LF, LF]" 0] by auto
    from t l1 l2 have "\<exists>l'. t = u\<lparr>sv_log := l'\<rparr> \<and> log_ok l'" by (auto split: if_splits)
    then show ?thesis
      using srv_ok_log [OF s(1)] only_touches_same(1) [OF s(2)] by (auto simp: same_conns_def)
  next
    case 3
    then show ?thesis
      using assms by (auto simp: handle_event_def only_touches_def)
  qed
qed

subsection \<open>The parse of a request\<close>

lemma recv_buf_length [simp]: "length (recv_buf env) = 10240"
  by (auto simp: recv_buf_def split: option.splits)

lemma recv_count_Some:
  "en_recv env = Some bs \<Longrightarrow> length bs \<le> 10240 \<Longrightarrow> unat (recv_count env) = length bs"
  by (simp add: recv_count_def unat_of_nat)

definition stale :: "env \<Rightarrow> nat \<Rightarrow> char list" where
  "stale env n = drop n (local_buf (en_junk env) ''buf'' 10240)"

lemma recv_http_run:
  assumes "srv_ok s" and "sv_interest s (e, f) = Some (ev, p)" and "sv_reqs s p = Some r"
    and "en_recv env = Some req" and "req = request_line m k u rest" and "nul_free req"
    and "length req \<le> 10240" and "NUL \<in> set (stale env (length req))"
    and "CHR '' '' \<notin> set m" "length m < 32" and "CHR '' '' \<notin> set u" "length u < 128" "u \<noteq> []"
    and "alive = (if strcasestr_hit (req @ takeWhile (\<lambda>c. c \<noteq> NUL) (stale env (length req))) ''keep-alive''
                  then 1 else 0)"
  shows "\<exists>t r'. recv_http env e p s = Inr t \<and> srv_ok t
    \<and> sv_interest t = (sv_interest s)((e, f) \<mapsto> (word_of_int EPOLLOUT, p))
    \<and> sv_reqs t p = Some r' \<and> cstr (rq_method r') 0 = Inr m \<and> cstr (rq_url r') 0 = Inr u
    \<and> rq_alive r' = alive \<and> rq_fd r' = f \<and> sv_sent t = sv_sent s \<and> sv_file_fds t = sv_file_fds s"
proof -
  have r: "rq_fd r = f" "req_arrays r" using srv_ok_req [OF assms(1,2)] assms(3) by auto
  have c: "unat (recv_count env) = length req" using recv_count_Some assms(4,7) by simp
  then have c0: "recv_count env \<noteq> 0" using assms(5) by (auto simp: request_line_def)
  have b: "recv_buf env = req @ stale env (length req)"
    using assms(4,7) by (simp add: recv_buf_def stale_def)
  have t: "cstr (recv_buf env) 0 = Inr (req @ takeWhile (\<lambda>c. c \<noteq> NUL) (stale env (length req)))"
    using assms(6,8) b by (auto simp: cstr_def nul_free_def takeWhile_append)
  define r' where "r' = r\<lparr>rq_url := u @ NUL # drop (Suc (length u)) (rq_url r),
    rq_method := m @ NUL # drop (Suc (length m)) (rq_method r), rq_alive := alive\<rparr>"
  define s' where "s' = s\<lparr>sv_reqs := (sv_reqs s)(p \<mapsto> r')\<rparr>"
  have g: "get_url_method (recv_buf env) (rq_url r) (rq_method r) (recv_count env)
      = Inr (rq_url r', rq_method r', alive)"
  proof -
    have "recv_buf env = request_line m k u (rest @ stale env (length req))"
      using b assms(5) by (simp add: request_line_def)
    moreover have "length m + Suc k + length u \<le> unat (recv_count env)"
      using c assms(5) by (simp add: request_line_def)
    ultimately show ?thesis
      using get_url_method_run [of m u k "recv_count env" "rq_method r" "rq_url r"] assms(9-14) r(2) t
      by (simp add: req_arrays_def r'_def)
  qed
  have n: "nul_free m" "nul_free u" using assms(5,6) by (auto simp: request_line_def)
  then have r': "req_arrays r'" "parsed r'" "rq_fd r' = f"
    using r assms(10,12) by (auto simp: r'_def req_arrays_def parsed_def)
  have "srv_ok s'" using srv_ok_set_req [OF assms(1,3) _ r'(1,2)] r r' by (simp add: s'_def)
  moreover have "sv_reqs s' p = Some r'" "sv_interest s' (e, f) = Some (ev, p)"
    using assms(2) by (simp_all add: s'_def)
  ultimately obtain t where m: "epoll_mod e p EPOLLOUT s' = Inr t" "srv_ok t"
    "t = s'\<lparr>sv_interest := (sv_interest s')((e, f) \<mapsto> (word_of_int EPOLLOUT, p))\<rparr>"
    using epoll_mod_ok [of s' p r' f e "(ev, p)" EPOLLOUT] r' by auto
  have "recv_http env e p s = Inr t"
    using assms(3) c0 g m(1) by (simp add: recv_http_def the_req_def Let_def r'_def s'_def)
  moreover have "cstr (rq_method r') 0 = Inr m" "cstr (rq_url r') 0 = Inr u" "rq_alive r' = alive"
    using n by (simp_all add: r'_def)
  ultimately show ?thesis using m(2,3) r'(3) by (simp add: s'_def)
qed

text \<open>
  C20. A request whose first line has a method of at most 31 characters, one or more blanks
  and a path of at most 127 characters is parsed exactly: the connection keeps the method
  and the path as C strings and its socket is now watched for writing, whatever was stored
  before. The connection counts as keep-alive exactly when \<open>keep-alive\<close> stands, in any case,
  somewhere in the request or in what earlier calls left in the buffer behind it, up to
  the first NUL: the bytes received are not terminated.
\<close>

theorem recv_http_parses:
  assumes "srv_ok s" and "sv_interest s (e, f) = Some (ev, p)" and "sv_reqs s p = Some r"
    and "en_recv env = Some req" and "req = request_line m k u rest" and "nul_free req"
    and "length req \<le> 10240" and "NUL \<in> set (stale env (length req))"
    and "CHR '' '' \<notin> set m" "length m < 32" and "CHR '' '' \<notin> set u" "length u < 128" "u \<noteq> []"
  shows "\<exists>t r'. recv_http env e p s = Inr t
    \<and> sv_interest t = (sv_interest s)((e, f) \<mapsto> (word_of_int EPOLLOUT, p))
    \<and> sv_reqs t p = Some r' \<and> cstr (rq_method r') 0 = Inr m \<and> cstr (rq_url r') 0 = Inr u
    \<and> rq_alive r' =
        (if strcasestr_hit (req @ takeWhile (\<lambda>c. c \<noteq> NUL) (stale env (length req))) ''keep-alive''
         then 1 else 0)"
  using recv_http_run [OF assms refl] by blast

definition env1 :: env where
  "env1 = \<lparr>en_junk = (\<lambda>_ _. NUL), en_strerror = (\<lambda>_. ''Success''), en_errno = (\<lambda>_. 0),
     en_recv = Some (''GET /a HTTP/1.1'' @ crlf @ crlf),
     en_stat = [''../doc/a'' \<mapsto> Regular ''hi'' True], en_write = (\<lambda>_. 1000), en_sendfile = 2\<rparr>"

lemma srv0_ok: "srv_ok srv0"
  by (auto simp: srv_ok_def srv0_def sound_regs_def open_fds_def req_arrays_def no_log_ok
      EPOLLIN_def EPOLLOUT_def split: if_splits)

lemma stale_NUL: "en_junk env = (\<lambda>_ _. NUL) \<Longrightarrow> n \<le> 10240 \<Longrightarrow> stale env n = replicate (10240 - n) NUL"
  by (simp add: stale_def local_buf_def map_replicate_const)

lemma env1_stale: "n \<le> 10240 \<Longrightarrow> takeWhile (\<lambda>c. c \<noteq> NUL) (stale env1 n) = []"
  by (cases "10240 - n") (simp_all add: stale_NUL env1_def)

lemma recv_http_parses_witness:
  "\<exists>t r'. recv_http env1 3 7 srv0 = Inr t \<and> sv_interest t (3, 5) = Some (word_of_int EPOLLOUT, 7)
    \<and> sv_reqs t 7 = Some r' \<and> cstr (rq_url r') 0 = Inr ''/a'' \<and> rq_alive r' = 0"
proof -
  define req where "req = ''GET /a HTTP/1.1'' @ crlf @ crlf"
  have r: "req = request_line ''GET'' 0 ''/a'' (''HTTP/1.1'' @ crlf @ crlf)"
    by (simp add: req_def request_line_def)
  have l: "length req = 19" "nul_free req" "en_recv env1 = Some req"
    by (simp_all add: req_def env1_def)
  have "\<not> strcasestr_hit req ''keep-alive''"
    unfolding req_def by code_simp
  moreover have "takeWhile (\<lambda>c. c \<noteq> NUL) (stale env1 (length req)) = []"
    by (rule env1_stale) (simp add: l)
  moreover have "sv_interest srv0 (3, 5) = Some (word_of_int EPOLLIN, 7)"
    "sv_reqs srv0 7 = Some (the (sv_reqs srv0 7))" by (simp_all add: srv0_def)
  moreover have "NUL \<in> set (stale env1 (length req))"
    by (simp add: l stale_NUL env1_def)
  ultimately show ?thesis
    using recv_http_parses [OF srv0_ok _ _ l(3) r l(2)] l(1) by fastforce
qed

lemma long_method_overflows:
  assumes "header = m @ r" and "CHR '' '' \<notin> set m" and "32 \<le> length m" and "length m < length header"
    and "32 \<le> unat sz" and "length meth = 32"
  shows "get_url_method header url meth sz = Inl OutOfBounds"
proof -
  define w where "w = take 32 m"
  have w: "length w = 32" "CHR '' '' \<notin> set w"
    using assms(2,3) by (auto simp: w_def dest: in_set_takeD)
  obtain x v where "drop 32 m @ r = x # v" using assms(1,3,4) by (cases "drop 32 m @ r") auto
  then have "header = w @ x # v" using assms(1) by (metis append.assoc append_take_drop_id w_def)
  then have "copy_word header (unat sz) 32 meth 0 0 = Inr (w, 32, 32)"
    using copy_word_run [of w "[]" "unat sz" "[]" 32 meth x v] w assms(5,6) by simp
  then show ?thesis using w(1) by (simp add: get_url_method_def wr_def)
qed

lemma long_path_overflows:
  assumes "header = request_line m k u rest" and "CHR '' '' \<notin> set m" "length m < 32"
    and "CHR '' '' \<notin> set u" "128 \<le> length u" and "length m + Suc k + length u \<le> unat sz"
    and "length meth = 32" "length url = 128"
  shows "get_url_method header url meth sz = Inl OutOfBounds"
proof -
  let ?sp = "CHR '' ''"
  have 1: "copy_word header (unat sz) 32 meth 0 0 = Inr (m @ drop (length m) meth, length m, length m)"
    using copy_word_run [of m "[]" "unat sz" "[]" 32 meth ?sp "replicate k ?sp @ u @ ?sp # rest"] assms
    by (simp add: request_line_def)
  have 2: "\<exists>d. wr (m @ drop (length m) meth) (int (length m)) NUL = Inr d"
    using assms(3,7) by (simp add: wr_nat)
  obtain y u' where y: "u = y # u'" "y \<noteq> ?sp" using assms(4,5) by (cases u) auto
  have 3: "skip_blanks header (length m) = Inr (length m + Suc k)"
    using skip_blanks_run [OF y(2), of m "Suc k" "u' @ ?sp # rest"] assms(1) y(1)
    by (simp add: request_line_def)
  define w where "w = take 128 u"
  have w: "length w = 128" "?sp \<notin> set w"
    using assms(4,5) by (auto simp: w_def dest: in_set_takeD)
  obtain x v where "drop 128 u @ ?sp # rest = x # v" by (cases "drop 128 u @ ?sp # rest") auto
  then have "header = (m @ replicate (Suc k) ?sp) @ w @ x # v"
    using assms(1) unfolding request_line_def w_def by (metis append.assoc append_take_drop_id)
  then have "copy_word header (unat sz) 128 url (length m + Suc k) 0 = Inr (w, length m + Suc k + 128, 128)"
    using copy_word_run [of w "m @ replicate (Suc k) ?sp" "unat sz" "[]" 128 url x v] w assms(5,6,8) by simp
  with 1 2 3 w(1) show ?thesis by (auto simp: get_url_method_def wr_def split: if_splits)
qed

text \<open>
  The terminating NUL is stored after the loop has filled the array: a method of 32 or
  more characters, or after a shorter one a path of 128 or more, makes \<open>recv_http\<close> write one
  byte past the 32 or 128 bytes of its array.
\<close>

theorem long_request_line_overflows:
  assumes "sv_reqs s p = Some r" and "req_arrays r"
    and "en_recv env = Some req" and "req = request_line m k u rest" and "length req \<le> 10240"
    and "CHR '' '' \<notin> set m" and "CHR '' '' \<notin> set u"
    and "length m \<ge> 32 \<or> length m < 32 \<and> length u \<ge> 128"
  shows "recv_http env e p s = Inl OutOfBounds"
proof -
  have c: "unat (recv_count env) = length req" using recv_count_Some assms(3,5) by simp
  then have c0: "recv_count env \<noteq> 0" using assms(4) by (auto simp: request_line_def)
  have b: "recv_buf env = request_line m k u (rest @ stale env (length req))"
    using assms(3,4,5) by (simp add: recv_buf_def stale_def request_line_def)
  have l: "length m + Suc k + length u < length req" using assms(4) by (simp add: request_line_def)
  from assms(8) have "get_url_method (recv_buf env) (rq_url r) (rq_method r) (recv_count env) = Inl OutOfBounds"
  proof
    assume "32 \<le> length m"
    then show ?thesis
      using l c assms(2,5,6) b by (intro long_method_overflows [of _ m]) (auto simp: request_line_def req_arrays_def)
  next
    assume "length m < 32 \<and> 128 \<le> length u"
    then show ?thesis
      using l c assms(2,6,7) by (intro long_path_overflows [OF b]) (auto simp: req_arrays_def)
  qed
  then show ?thesis using assms(1) c0 by (simp add: recv_http_def the_req_def Let_def)
qed

lemma long_request_line_overflows_witness:
  "recv_http (env1\<lparr>en_recv := Some (request_line ''GET'' 0 (CHR ''/'' # replicate 127 CHR ''a'') [])\<rparr>) 3 7 srv0
    = Inl OutOfBounds"
  by (rule long_request_line_overflows [where r = "the (sv_reqs srv0 7)" and m = "''GET''" and k = 0
        and u = "CHR ''/'' # replicate 127 CHR ''a''" and rest = "[]", OF _ _ _ refl])
    (simp_all add: srv0_def req_arrays_def request_line_def)

subsection \<open>A failed recv\<close>

lemma copy_word_size_beyond:
  "length h \<le> sz \<Longrightarrow> length h \<le> sz' \<Longrightarrow> copy_word h sz cap d i j = copy_word h sz' cap d i j"
proof (induction h sz cap d i j rule: copy_word.induct)
  case (1 h sz cap d i j)
  show ?case
  proof (cases "i < length h")
    case True
    then have r: "rd h (int i) = Inr (h ! i)" "i < sz" "i < sz'" using "1.prems" by (auto simp: rd_nat)
    have "h ! i \<noteq> CHR '' '' \<and> j < cap \<Longrightarrow> wr d (int j) (h ! i) = Inr d' \<Longrightarrow>
        copy_word h sz cap d' (Suc i) (Suc j) = copy_word h sz' cap d' (Suc i) (Suc j)" for d'
      using "1.IH" [OF r(1)] "1.prems" r by blast
    then show ?thesis
      using r by (subst (1 2) copy_word.simps) (auto simp: bindr_def split: sum.splits)
  qed (simp add: copy_word.simps rd_nat)
qed

text \<open>
  A failed \<open>recv\<close> is not seen: its result goes into an unsigned variable, so the test for
  a negative number never succeeds. The handler goes on as if the client had sent the 10240
  bytes that earlier calls left on the stack, and the socket is not closed.
\<close>

theorem recv_error_is_served:
  assumes "en_recv env = None"
  shows "recv_http env e p s
    = recv_http (env\<lparr>en_recv := Some (local_buf (en_junk env) ''buf'' 10240)\<rparr>) e p s"
proof -
  let ?env = "env\<lparr>en_recv := Some (local_buf (en_junk env) ''buf'' 10240)\<rparr>"
  have b: "recv_buf ?env = recv_buf env" using assms by (simp add: recv_buf_def)
  have c: "unat (recv_count env) = 2 ^ 64 - 1" "unat (recv_count ?env) = 10240"
    using assms by (simp_all add: recv_count_def unsigned_minus_1_eq_mask mask_eq_exp_minus_1)
  then have c0: "recv_count env \<noteq> 0" "recv_count ?env \<noteq> 0" by auto
  have "get_url_method (recv_buf env) url meth (recv_count env)
      = get_url_method (recv_buf env) url meth (recv_count ?env)" for url meth
    using copy_word_size_beyond [of "recv_buf env" "unat (recv_count env)" "unat (recv_count ?env)"] c
    by (simp add: get_url_method_def)
  then show ?thesis using b c0 by (simp add: recv_http_def Let_def)
qed

lemma recv_error_is_served_witness:
  "recv_http (env1\<lparr>en_recv := None\<rparr>) 3 7 srv0 = Inl OutOfBounds"
proof -
  let ?e = "env1\<lparr>en_recv := Some (local_buf (en_junk env1) ''buf'' 10240)\<rparr>"
  have c: "unat (recv_count ?e) = 10240" by (simp add: recv_count_def)
  then have c0: "recv_count ?e \<noteq> 0" by auto
  have b: "recv_buf ?e = replicate 32 NUL @ NUL # replicate 10207 NUL"
    by (simp add: recv_buf_def local_buf_def env1_def map_replicate_const flip: replicate_add replicate_Suc)
  have "copy_word (recv_buf ?e) 10240 32 (replicate 32 NUL) 0 0 = Inr (replicate 32 NUL, 32, 32)"
    using copy_word_run [of "replicate 32 NUL" "[]" 10240 "[]" 32 "replicate 32 NUL" NUL "replicate 10207 NUL"] b
    by simp
  then have "recv_http ?e 3 7 srv0 = Inl OutOfBounds"
    using c c0 by (simp add: recv_http_def the_req_def srv0_def get_url_method_def wr_def Let_def)
  with recv_error_is_served [of "env1\<lparr>en_recv := None\<rparr>" 3 7 srv0] show ?thesis by simp
qed

end
