(* ===== verification/V2_Answer.thy ===== *)
theory V2_Answer
  imports V2_Serve
begin

section \<open>version\_02: the answers\<close>

text \<open>
  What \<open>send_http\<close> writes: the file named by the path for a GET, the 405 page for everything
  else, and what happens to the connection afterwards; then the two events of a request
  together.
\<close>

subsection \<open>The abstract answer\<close>

definition file_path :: "string \<Rightarrow> string \<Rightarrow> string" where
  "file_path doc url = doc @ url @ (if last url = CHR ''/'' then ''index.html'' else [])"

definition answer_200 :: "int \<Rightarrow> string \<Rightarrow> string" where
  "answer_200 alive content =
     (let n = dec_int (int (length content)) in
      (if alive \<noteq> 0 then HTTP_200_KEEP n else HTTP_200_NONKEEP n) @ content)"

definition answer_405 :: "int \<Rightarrow> string" where
  "answer_405 alive = (if alive \<noteq> 0 then HTTP_405_KEEP else HTTP_405_NONKEEP) @ body_405"

text \<open>The socket after an answer: watched for the next request, or closed.\<close>

definition conn_after :: "int \<Rightarrow> int \<Rightarrow> nat \<Rightarrow> int \<Rightarrow> srv \<Rightarrow> bool" where
  "conn_after e f p alive t =
     (if alive \<noteq> 0 then f \<in> open_fds t \<and> sv_interest t (e, f) = Some (word_of_int EPOLLIN, p)
      else f \<notin> open_fds t \<and> (\<forall>e'. sv_interest t (e', f) = None))"

text \<open>The system calls take everything they are given.\<close>

definition writes_all :: "env \<Rightarrow> bool" where
  "writes_all env = ((\<forall>part. 2048 \<le> en_write env part) \<and> 2 ^ 31 \<le> en_sendfile env)"

subsection \<open>Path and pages\<close>

lemma make_path_run:
  assumes "nul_free doc" and "nul_free url" and "url \<noteq> []" and "length doc + length url + 10 < 128"
  shows "make_path env doc url = Inr (file_path doc url)"
proof -
  have 1: "strcpy (replicate 128 NUL) doc = Inr (doc @ NUL # replicate (127 - length doc) NUL)"
    using assms(4) by (simp add: strcpy_fits)
  have 2: "strcat (doc @ NUL # replicate (127 - length doc) NUL) url
      = Inr ((doc @ url) @ NUL # replicate (127 - length doc - length url) NUL)"
    using assms(1,4) by (simp add: strcat_held)
  have 3: "strlen ((doc @ url) @ NUL # replicate (127 - length doc - length url) NUL) = Inr (length (doc @ url))"
    using assms(1,2) unfolding strlen_def by (subst cstr_held) auto
  obtain us c where u: "url = us @ [c]" using assms(3) by (cases url rule: rev_cases) auto
  have "((doc @ us) @ c # NUL # replicate (127 - length doc - length url) NUL)
      = (doc @ url) @ NUL # replicate (127 - length doc - length url) NUL" using u by simp
  moreover have "int (length (doc @ url)) - 1 = int (length (doc @ us))" using u by simp
  ultimately have 4: "rd ((doc @ url) @ NUL # replicate (127 - length doc - length url) NUL)
      (int (length (doc @ url)) - 1) = Inr (last url)"
    using u by (metis last_snoc rd_append_mid)
  have 5: "strcat ((doc @ url) @ NUL # replicate (127 - length doc - length url) NUL) ''index.html''
      = Inr ((doc @ url @ ''index.html'') @ NUL # replicate (117 - length doc - length url) NUL)"
    using assms strcat_held [of "doc @ url" "replicate (127 - length doc - length url) NUL" "''index.html''"] by simp
  have 6: "cstr ((doc @ url @ ''index.html'') @ NUL # r) 0 = Inr (doc @ url @ ''index.html'')"
    "cstr ((doc @ url) @ NUL # r) 0 = Inr (doc @ url)" for r
    using assms(1,2) by (subst cstr_held; simp)+
  show ?thesis
    unfolding make_path_def 1 bindr_Inr 2 3 4 using 5 6 by (simp add: file_path_def del: append_assoc)
qed

lemma sock_write_all:
  assumes "f \<in> open_fds s" and "writes_all env" and "length str \<le> 2048"
  shows "sock_write env part f str s = (int (length str), s\<lparr>sv_sent := (sv_sent s)(f := sv_sent s f @ str)\<rparr>)"
proof -
  have w: "2048 \<le> en_write env part" using assms(2) by (simp add: writes_all_def)
  moreover have "sv_flags s f \<noteq> None" using assms(1) by (auto simp: open_fds_def)
  ultimately show ?thesis using assms(3) by (simp add: sock_write_def)
qed

lemma header_lengths:
  "length HTTP_405_KEEP \<le> 2048" "length HTTP_405_NONKEEP \<le> 2048" "length body_405 = 76"
  "length n \<le> 20 \<Longrightarrow> length (HTTP_200_KEEP n) \<le> 2048"
  "length n \<le> 20 \<Longrightarrow> length (HTTP_200_NONKEEP n) \<le> 2048"
  by (simp_all add: HTTP_405_KEEP_def HTTP_405_NONKEEP_def body_405_def HTTP_200_KEEP_def HTTP_200_NONKEEP_def)

definition sent_more :: "int \<Rightarrow> string \<Rightarrow> srv \<Rightarrow> srv" where
  "sent_more f str s = s\<lparr>sv_sent := (sv_sent s)(f := sv_sent s f @ str)\<rparr>"

lemma write_405_run:
  assumes "f \<in> open_fds s" and "writes_all env" and "sv_reqs s p = Some r" and "rq_fd r = f"
  shows "write_405 env p s = Inr (sent_more f (answer_405 (rq_alive r)) s)"
proof -
  have o: "f \<in> open_fds (s\<lparr>sv_sent := x\<rparr>)" for x using assms(1) by (simp add: open_fds_def)
  show ?thesis
    using sock_write_all [OF assms(1,2)] sock_write_all [OF o assms(2)] header_lengths(1-3) assms(3,4)
    by (simp add: write_405_def the_req_def sent_more_def answer_405_def)
qed

lemma write_200_run:
  assumes "f \<in> open_fds s" and "writes_all env" and "sv_reqs s p = Some r" and "rq_fd r = f"
    and "en_stat env fn = Some (Regular content True)" and "length content < 2 ^ 31"
  shows "write_200 env p fn s = Inr (0, sent_more f (answer_200 (rq_alive r) content) s)"
proof -
  define n where "n = dec_int (int (length content))"
  define h where "h = (if rq_alive r \<noteq> 0 then HTTP_200_KEEP n else HTTP_200_NONKEEP n)"
  have "length n \<le> 20" using length_dec_int [of "int (length content)"] assms(6) by (simp add: n_def)
  then have "length h \<le> 2048" using header_lengths(4,5) by (simp add: h_def)
  note 1 = sock_write_all [OF assms(1,2) this, of "''header''"]
  define s2 where "s2 = s\<lparr>sv_sent := (sv_sent s)(f := sv_sent s f @ h), sv_file_fds := Suc (sv_file_fds s)\<rparr>"
  have 2: "sock_sendfile env f content s2
      = (int (length content), s2\<lparr>sv_sent := (sv_sent s2)(f := sv_sent s2 f @ content)\<rparr>)"
    using assms(1,2,6) by (auto simp: sock_sendfile_def writes_all_def open_fds_def s2_def)
  have "write_200 env p fn s = Inr (0, s2\<lparr>sv_sent := (sv_sent s2)(f := sv_sent s2 f @ content),
      sv_file_fds := sv_file_fds s2 - 1\<rparr>)"
    using assms(3-5) 1 2
    by (simp add: write_200_def the_req_def Let_def n_def [symmetric] h_def [symmetric] s2_def [symmetric])
  then show ?thesis
    by (simp add: s2_def sent_more_def answer_200_def Let_def n_def [symmetric] h_def [symmetric])
qed

lemma check_alive_run:
  assumes "srv_ok s" and "sv_interest s (e, f) = Some (ev, p)" and "sv_reqs s p = Some r"
  shows "\<exists>t. check_alive e p s = Inr t \<and> srv_ok t \<and> conn_after e f p (rq_alive r) t
    \<and> sv_sent t = sv_sent s \<and> sv_file_fds t = sv_file_fds s"
proof -
  have r: "rq_fd r = f" "req_arrays r" using srv_ok_req [OF assms(1,2)] assms(3) by auto
  have o: "f \<in> open_fds s" using assms(1,2) by (auto simp: srv_ok_def sound_regs_def)
  show ?thesis
  proof (cases "rq_alive r = 0")
    case True
    with r assms(3) close_fd_ok [OF assms(1), of f] show ?thesis
      by (simp add: check_alive_def the_req_def conn_after_def close_fd_def open_fds_def)
  next
    case False
    obtain t where "epoll_mod e p EPOLLIN s = Inr t" "srv_ok t"
      "t = s\<lparr>sv_interest := (sv_interest s)((e, f) \<mapsto> (word_of_int EPOLLIN, p))\<rparr>"
      using epoll_mod_ok [OF assms(1,3) r(1) assms(2), of EPOLLIN] r(2)
      by (auto simp: EPOLLIN_def EPOLLOUT_def)
    with False assms(3) o show ?thesis
      by (simp add: check_alive_def the_req_def conn_after_def open_fds_def)
  qed
qed

lemma sent_more_ok:
  "srv_ok s \<Longrightarrow> srv_ok (sent_more f x s)"
  "sv_interest (sent_more f x s) = sv_interest s" "sv_reqs (sent_more f x s) = sv_reqs s"
  "sv_file_fds (sent_more f x s) = sv_file_fds s"
  "sv_sent (sent_more f x s) = (sv_sent s)(f := sv_sent s f @ x)"
  by (auto simp: sent_more_def srv_ok_def open_fds_def)

subsection \<open>One writable event\<close>

definition gets_file :: "env \<Rightarrow> conf_http_t \<Rightarrow> string \<Rightarrow> string \<Rightarrow> string \<Rightarrow> bool" where
  "gets_file env conf m u content =
     (strcasecmp_eq m ''GET'' \<and> u \<noteq> []
      \<and> en_stat env (file_path (conf_doc conf) u) = Some (Regular content True) \<and> length content < 2 ^ 31)"

definition refused :: "env \<Rightarrow> conf_http_t \<Rightarrow> string \<Rightarrow> string \<Rightarrow> bool" where
  "refused env conf m u =
     (\<not> strcasecmp_eq m ''GET'' \<or> u = []
      \<or> (case en_stat env (file_path (conf_doc conf) u) of Some (Regular _ _) \<Rightarrow> False | _ \<Rightarrow> True))"

definition writable ::
  "env \<Rightarrow> conf_http_t \<Rightarrow> int \<Rightarrow> int \<Rightarrow> nat \<Rightarrow> http_request \<Rightarrow> string \<Rightarrow> string \<Rightarrow> srv \<Rightarrow> bool"
where
  "writable env conf e f p r m u s =
     (srv_ok s \<and> quiet env \<and> writes_all env
      \<and> sv_interest s (e, f) = Some (word_of_int EPOLLOUT, p) \<and> sv_reqs s p = Some r
      \<and> cstr (rq_method r) 0 = Inr m \<and> cstr (rq_url r) 0 = Inr u
      \<and> nul_free (conf_doc conf) \<and> length (conf_doc conf) + length u + 10 < 128)"

lemma mark_minus_one [simp]: "sint (ucast (-1 :: 64 word) :: 32 word) = -1"
  by code_simp

lemma send_http_run:
  assumes w: "writable env conf e f p r m u s"
    and "gets_file env conf m u content \<and> x = answer_200 (rq_alive r) content \<and> rc = 0
       \<or> refused env conf m u \<and> x = answer_405 (rq_alive r) \<and> rc = -1"
  shows "\<exists>t. send_http env conf e p s = Inr (rc, t) \<and> srv_ok t \<and> conn_after e f p (rq_alive r) t
    \<and> sv_sent t = (sv_sent s)(f := sv_sent s f @ x) \<and> sv_file_fds t = sv_file_fds s"
proof -
  have s: "srv_ok s" "sv_interest s (e, f) = Some (word_of_int EPOLLOUT, p)" "sv_reqs s p = Some r"
    "writes_all env" using w by (simp_all add: writable_def)
  have r: "rq_fd r = f" using srv_ok_req [OF s(1,2)] s(3) by auto
  have o: "f \<in> open_fds s" using s(1,2) by (auto simp: srv_ok_def sound_regs_def)
  have c: "cstr (rq_method r) 0 = Inr m" "cstr (rq_url r) 0 = Inr u" "nul_free u"
    using w cstr_split(1) [of "rq_url r" 0 u] by (simp_all add: writable_def)
  have mp: "u \<noteq> [] \<Longrightarrow> make_path env (conf_doc conf) u = Inr (file_path (conf_doc conf) u)"
    using make_path_run w c(3) by (simp add: writable_def)
  obtain t where t: "check_alive e p (sent_more f x s) = Inr t" "srv_ok t" "conn_after e f p (rq_alive r) t"
    "sv_sent t = (sv_sent s)(f := sv_sent s f @ x)" "sv_file_fds t = sv_file_fds s"
    using check_alive_run [OF sent_more_ok(1) [OF s(1)], of f x e f _ p r] s(2,3) sent_more_ok by auto
  note w405 = write_405_run [OF o s(4) s(3) r]
  from assms(2) consider (ok) "gets_file env conf m u content" "x = answer_200 (rq_alive r) content" "rc = 0"
    | (meth) "\<not> strcasecmp_eq m ''GET'' \<or> u = []" "x = answer_405 (rq_alive r)" "rc = -1"
    | (none) "strcasecmp_eq m ''GET''" "u \<noteq> []" "x = answer_405 (rq_alive r)" "rc = -1"
        "case en_stat env (file_path (conf_doc conf) u) of Some (Regular _ _) \<Rightarrow> False | _ \<Rightarrow> True"
    unfolding refused_def by blast
  then have "send_http env conf e p s = Inr (rc, t)"
  proof cases
    case ok
    then have "write_200 env p (file_path (conf_doc conf) u) s = Inr (0, sent_more f x s)"
      using write_200_run [OF o s(4) s(3) r, of "file_path (conf_doc conf) u" content]
      by (simp add: gets_file_def)
    with ok mp c s(3) t(1) show ?thesis
      by (simp add: send_http_def the_req_def gets_file_def Let_def)
  next
    case meth
    then show ?thesis using w405 c s(3) t(1) by (auto simp: send_http_def the_req_def)
  next
    case none
    then have "write_200 env p (file_path (conf_doc conf) u) s = Inr (-1, sent_more f x s)"
      using w405 s(3)
      by (cases "en_stat env (file_path (conf_doc conf) u)")
        (auto simp: write_200_def the_req_def split: fs_entry.splits)
    with none mp c s(3) t(1) show ?thesis
      by (simp add: send_http_def the_req_def Let_def)
  qed
  with t show ?thesis by blast
qed

lemma handle_writable_run:
  assumes "writable env conf e f p r m u s"
    and "gets_file env conf m u content \<and> x = answer_200 (rq_alive r) content
       \<or> refused env conf m u \<and> x = answer_405 (rq_alive r)"
  shows "\<exists>t. handle_event env conf e (word_of_int EPOLLOUT, p) s = Inr t \<and> conn_after e f p (rq_alive r) t
    \<and> sv_sent t = (sv_sent s)(f := sv_sent s f @ x) \<and> sv_file_fds t = sv_file_fds s"
proof -
  obtain rc u1 where u: "send_http env conf e p s = Inr (rc, u1)" "srv_ok u1" "conn_after e f p (rq_alive r) u1"
    "sv_sent u1 = (sv_sent s)(f := sv_sent s f @ x)" "sv_file_fds u1 = sv_file_fds s"
    using send_http_run [OF assms(1), of content x 0] send_http_run [OF assms(1), of content x "-1"] assms(2) by blast
  have q: "quiet env" "log_ok (sv_log u1)" using assms(1) u(2) by (simp_all add: writable_def srv_ok_def)
  obtain l1 where l1: "log_msg env ('': return 405'' @ [LF, LF]) 0 u1 = Inr (u1\<lparr>sv_log := l1\<rparr>)"
    using log_msgE [OF q(2,1), of "'': return 405'' @ [LF, LF]" 0] by auto
  obtain l2 where l2: "log_msg env ('': return 200'' @ [LF, LF]) 0 u1 = Inr (u1\<lparr>sv_log := l2\<rparr>)"
    using log_msgE [OF q(2,1), of "'': return 200'' @ [LF, LF]" 0] by auto
  have "word_of_int EPOLLOUT \<noteq> (word_of_int EPOLLIN :: 32 word)" by (simp add: EPOLLIN_def EPOLLOUT_def)
  then have "handle_event env conf e (word_of_int EPOLLOUT, p) s
      = Inr (u1\<lparr>sv_log := if rc = -1 then l1 else l2\<rparr>)"
    using u(1) l1 l2 by (simp add: handle_event_def)
  then show ?thesis using u(3-5) by (auto simp: conn_after_def open_fds_def)
qed

text \<open>
  C5. The two events of a request. The first brings a GET for a path that, below the
  configured directory, names a readable file; the second says the socket is writable. The
  client receives exactly the 200 header with the length of the file, and the file; the
  connection is then watched for the next request if the request asked for keep-alive (in
  the sense of the parser), and closed otherwise. A path that ends in \<open>/\<close> is completed with
  \<open>index.html\<close>. No descriptor stays open on the file.
\<close>

theorem get_request_is_served:
  assumes "srv_ok s" and "sv_interest s (e, f) = Some (word_of_int EPOLLIN, p)"
    and "en_recv env = Some req" and "req = request_line m k u rest" and "nul_free req"
    and "length req \<le> 10240" and "NUL \<in> set (stale env (length req))"
    and "CHR '' '' \<notin> set m" "CHR '' '' \<notin> set u"
    and "gets_file env2 conf m u content" and "quiet env2" and "writes_all env2"
    and "nul_free (conf_doc conf)" "length (conf_doc conf) + length u + 10 < 128"
    and "alive = (if strcasestr_hit (req @ takeWhile (\<lambda>c. c \<noteq> NUL) (stale env (length req))) ''keep-alive''
                  then 1 else 0)"
  shows "\<exists>t. wait_task_turn [(env, word_of_int EPOLLIN, p), (env2, word_of_int EPOLLOUT, p)] conf e s = Inr t
    \<and> sv_sent t = (sv_sent s)(f := sv_sent s f @ answer_200 alive content)
    \<and> conn_after e f p alive t \<and> sv_file_fds t = sv_file_fds s"
proof -
  have m: "length m < 32" "u \<noteq> []"
    using assms(10) strcasecmp_eq_length [of m "''GET''"] by (auto simp: gets_file_def)
  obtain r where r: "sv_reqs s p = Some r" using srv_ok_req [OF assms(1,2)] by blast
  obtain s1 r1 where 1: "recv_http env e p s = Inr s1" "srv_ok s1"
    "sv_interest s1 = (sv_interest s)((e, f) \<mapsto> (word_of_int EPOLLOUT, p))"
    "sv_reqs s1 p = Some r1" "cstr (rq_method r1) 0 = Inr m" "cstr (rq_url r1) 0 = Inr u"
    "rq_alive r1 = alive" "sv_sent s1 = sv_sent s" "sv_file_fds s1 = sv_file_fds s"
    using recv_http_run [OF assms(1,2) r assms(3-8) m(1) assms(9) _ m(2) assms(15)] assms(14) by auto
  have "writable env2 conf e f p r1 m u s1"
    using 1 assms(11-14) by (simp add: writable_def)
  from handle_writable_run [OF this, of content "answer_200 alive content"] assms(10) 1(7)
  obtain t where "handle_event env2 conf e (word_of_int EPOLLOUT, p) s1 = Inr t" "conn_after e f p alive t"
    "sv_sent t = (sv_sent s1)(f := sv_sent s1 f @ answer_200 alive content)" "sv_file_fds t = sv_file_fds s1"
    by auto
  then show ?thesis using 1 by (simp add: handle_event_def)
qed

definition conf1 :: conf_http_t where
  "conf1 = \<lparr>conf_port = 12345, conf_listen_num = 20, conf_thread_num = 4, conf_doc = ''../doc'', conf_event_num = 2048\<rparr>"

definition env2 :: env where
  "env2 = env1\<lparr>en_write := (\<lambda>_. 4096), en_sendfile := 2 ^ 31\<rparr>"

lemma env2_facts:
  "quiet env2" "writes_all env2" "gets_file env2 conf1 ''GET'' ''/a'' ''hi''"
  by (simp_all add: quiet_def writes_all_def gets_file_def file_path_def conf1_def env2_def env1_def)

lemma get_request_is_served_witness:
  "\<exists>t. wait_task_turn [(env1, word_of_int EPOLLIN, 7), (env2, word_of_int EPOLLOUT, 7)] conf1 3 srv0 = Inr t
    \<and> sv_sent t 5 = answer_200 0 ''hi'' \<and> 5 \<notin> open_fds t"
proof -
  define req where "req = ''GET /a HTTP/1.1'' @ crlf @ crlf"
  have r: "req = request_line ''GET'' 0 ''/a'' (''HTTP/1.1'' @ crlf @ crlf)"
    by (simp add: req_def request_line_def)
  have l: "length req = 19" "nul_free req" "en_recv env1 = Some req"
    by (simp_all add: req_def env1_def)
  have "\<not> strcasestr_hit req ''keep-alive''"
    unfolding req_def by code_simp
  moreover have "takeWhile (\<lambda>c. c \<noteq> NUL) (stale env1 (length req)) = []"
    by (rule env1_stale) (simp add: l)
  ultimately have a: "0 = (if strcasestr_hit (req @ takeWhile (\<lambda>c. c \<noteq> NUL) (stale env1 (length req))) ''keep-alive''
                  then 1 else (0::int))" by simp
  have n: "NUL \<in> set (stale env1 (length req))" by (simp add: l stale_NUL env1_def)
  have "\<exists>t. wait_task_turn [(env1, word_of_int EPOLLIN, 7), (env2, word_of_int EPOLLOUT, 7)] conf1 3 srv0 = Inr t
    \<and> sv_sent t = (sv_sent srv0)(5 := sv_sent srv0 5 @ answer_200 0 ''hi'')
    \<and> conn_after 3 5 7 0 t \<and> sv_file_fds t = sv_file_fds srv0"
    by (rule get_request_is_served [OF srv0_ok _ l(3) r l(2) _ n _ _ env2_facts(3,1,2) _ _ a])
      (simp_all add: srv0_def l conf1_def)
  then show ?thesis by (auto simp: conn_after_def srv0_def)
qed

subsection \<open>Requests that get no file\<close>

text \<open>A GET for a file that is there but cannot be opened, and the header it gets.\<close>

definition withheld :: "env \<Rightarrow> conf_http_t \<Rightarrow> string \<Rightarrow> string \<Rightarrow> string \<Rightarrow> bool" where
  "withheld env conf m u content =
     (strcasecmp_eq m ''GET'' \<and> u \<noteq> []
      \<and> en_stat env (file_path (conf_doc conf) u) = Some (Regular content False) \<and> length content < 2 ^ 31)"

definition header_200 :: "int \<Rightarrow> string \<Rightarrow> string" where
  "header_200 alive content =
     (let n = dec_int (int (length content)) in if alive \<noteq> 0 then HTTP_200_KEEP n else HTTP_200_NONKEEP n)"

lemma write_200_withheld:
  assumes "f \<in> open_fds s" and "writes_all env" and "sv_reqs s p = Some r" and "rq_fd r = f"
    and "en_stat env fn = Some (Regular content False)" and "length content < 2 ^ 31"
    and "log_ok (sv_log s)" and "quiet env"
  obtains l where "log_ok l" "write_200 env p fn s = Inr (-1, sent_more f (header_200 (rq_alive r) content) (s\<lparr>sv_log := l\<rparr>))"
proof -
  define h where "h = header_200 (rq_alive r) content"
  have "length (dec_int (int (length content))) \<le> 20"
    using length_dec_int [of "int (length content)"] assms(6) by simp
  then have "length h \<le> 2048" using header_lengths(4,5) by (simp add: h_def header_200_def Let_def)
  note 1 = sock_write_all [OF assms(1,2) this, of "''header''"]
  let ?s = "s\<lparr>sv_sent := (sv_sent s)(f := sv_sent s f @ h)\<rparr>"
  have "log_ok (sv_log ?s)" using assms(7) by simp
  then obtain l where "log_msg env ('': fail to open filename'' @ [LF, LF]) 2 ?s = Inr (?s\<lparr>sv_log := l\<rparr>)" "log_ok l"
    using log_msgE [OF _ assms(8), of ?s "'': fail to open filename'' @ [LF, LF]" 2] by auto
  then show thesis
    using assms(3-5) 1
    by (intro that [of l]) (simp_all add: write_200_def the_req_def Let_def sent_more_def h_def header_200_def)
qed

lemma handle_withheld_run:
  assumes w: "writable env conf e f p r m u s" and "withheld env conf m u content"
  shows "\<exists>t. handle_event env conf e (word_of_int EPOLLOUT, p) s = Inr t \<and> conn_after e f p (rq_alive r) t
    \<and> sv_sent t = (sv_sent s)(f := sv_sent s f @ header_200 (rq_alive r) content) \<and> sv_file_fds t = sv_file_fds s"
proof -
  let ?fn = "file_path (conf_doc conf) u" and ?h = "header_200 (rq_alive r) content"
  have s: "srv_ok s" "sv_interest s (e, f) = Some (word_of_int EPOLLOUT, p)" "sv_reqs s p = Some r"
    "writes_all env" "quiet env" using w by (simp_all add: writable_def)
  have r: "rq_fd r = f" using srv_ok_req [OF s(1,2)] s(3) by auto
  have o: "f \<in> open_fds s" using s(1,2) by (auto simp: srv_ok_def sound_regs_def)
  have c: "cstr (rq_method r) 0 = Inr m" "cstr (rq_url r) 0 = Inr u" "nul_free u" "u \<noteq> []" "strcasecmp_eq m ''GET''"
    using w cstr_split(1) [of "rq_url r" 0 u] assms(2) by (simp_all add: writable_def withheld_def)
  have mp: "make_path env (conf_doc conf) u = Inr ?fn"
    using make_path_run w c(3,4) by (simp add: writable_def)
  obtain l where l: "log_ok l" "write_200 env p ?fn s = Inr (-1, sent_more f ?h (s\<lparr>sv_log := l\<rparr>))"
    using write_200_withheld [OF o s(4,3) r, of ?fn content] assms(2) s(1,5)
    by (auto simp: withheld_def srv_ok_def)
  have "srv_ok (sent_more f ?h (s\<lparr>sv_log := l\<rparr>))" by (intro sent_more_ok(1) srv_ok_log s(1) l(1))
  then obtain t where t: "check_alive e p (sent_more f ?h (s\<lparr>sv_log := l\<rparr>)) = Inr t" "srv_ok t"
    "conn_after e f p (rq_alive r) t" "sv_sent t = (sv_sent s)(f := sv_sent s f @ ?h)" "sv_file_fds t = sv_file_fds s"
    using check_alive_run [of "sent_more f ?h (s\<lparr>sv_log := l\<rparr>)" e f _ p r] s(2,3) sent_more_ok by auto
  have "send_http env conf e p s = Inr (-1, t)"
    using mp c s(3) l(2) t(1) by (simp add: send_http_def the_req_def Let_def)
  moreover have "log_ok (sv_log t)" using t(2) by (simp add: srv_ok_def)
  then obtain l1 where "log_msg env ('': return 405'' @ [LF, LF]) 0 t = Inr (t\<lparr>sv_log := l1\<rparr>)"
    using log_msgE [OF _ s(5), of t "'': return 405'' @ [LF, LF]" 0] by auto
  moreover have "word_of_int EPOLLOUT \<noteq> (word_of_int EPOLLIN :: 32 word)" by (simp add: EPOLLIN_def EPOLLOUT_def)
  ultimately have "handle_event env conf e (word_of_int EPOLLOUT, p) s = Inr (t\<lparr>sv_log := l1\<rparr>)"
    by (simp add: handle_event_def)
  then show ?thesis using t(3-5) by (auto simp: conn_after_def open_fds_def)
qed

text \<open>
  C21. The requests that get no file. Another method than GET, an empty path, and a path that
  names nothing or a directory are answered with the 405 page, in full; the announced length,
  76, is that of the page. A GET for a file that \<open>stat\<close> finds and \<open>open\<close> refuses gets no such
  page: the 200 header with the length of the file is already sent, and nothing follows it. In
  each case the connection goes on or is closed as after a file, and no descriptor stays open.
  Together with the readable files of C5 these are all the requests there are, but for files
  of 2 GB and more.
\<close>

theorem requests_that_get_no_file:
  assumes "writable env conf e f p r m u s"
  shows "length body_405 = 76
    \<and> (refused env conf m u \<longrightarrow> (\<exists>t. handle_event env conf e (word_of_int EPOLLOUT, p) s = Inr t
        \<and> sv_sent t = (sv_sent s)(f := sv_sent s f @ answer_405 (rq_alive r))
        \<and> conn_after e f p (rq_alive r) t \<and> sv_file_fds t = sv_file_fds s))
    \<and> (withheld env conf m u content \<longrightarrow> (\<exists>t. handle_event env conf e (word_of_int EPOLLOUT, p) s = Inr t
        \<and> sv_sent t = (sv_sent s)(f := sv_sent s f @ header_200 (rq_alive r) content)
        \<and> conn_after e f p (rq_alive r) t \<and> sv_file_fds t = sv_file_fds s))
    \<and> (refused env conf m u \<or> (\<exists>content. withheld env conf m u content \<or> gets_file env conf m u content
          \<or> 2 ^ 31 \<le> length content \<and> (\<exists>b. en_stat env (file_path (conf_doc conf) u) = Some (Regular content b))))"
proof (intro conjI impI)
  show "length body_405 = 76" by (fact header_lengths(3))
next
  assume "refused env conf m u"
  then show "\<exists>t. handle_event env conf e (word_of_int EPOLLOUT, p) s = Inr t
      \<and> sv_sent t = (sv_sent s)(f := sv_sent s f @ answer_405 (rq_alive r))
      \<and> conn_after e f p (rq_alive r) t \<and> sv_file_fds t = sv_file_fds s"
    using handle_writable_run [OF assms, of _ "answer_405 (rq_alive r)"] by blast
next
  assume "withheld env conf m u content"
  then show "\<exists>t. handle_event env conf e (word_of_int EPOLLOUT, p) s = Inr t
      \<and> sv_sent t = (sv_sent s)(f := sv_sent s f @ header_200 (rq_alive r) content)
      \<and> conn_after e f p (rq_alive r) t \<and> sv_file_fds t = sv_file_fds s"
    using handle_withheld_run [OF assms, of content] by blast
next
  show "refused env conf m u \<or> (\<exists>content. withheld env conf m u content \<or> gets_file env conf m u content
      \<or> 2 ^ 31 \<le> length content \<and> (\<exists>b. en_stat env (file_path (conf_doc conf) u) = Some (Regular content b)))"
    by (force simp: refused_def withheld_def gets_file_def not_less split: option.splits fs_entry.splits)
qed

text \<open>A POST, and a GET for a file the server may not read.\<close>

definition srv_asked :: "string \<Rightarrow> srv" where
  "srv_asked m = srv0\<lparr>sv_reqs := [7 \<mapsto> \<lparr>rq_fd = 5, rq_alive = 1, rq_method = m @ replicate (32 - length m) NUL,
       rq_url = ''/a'' @ replicate 126 NUL, rq_ip_port = replicate 128 NUL\<rparr>],
     sv_interest := [(3, 5) \<mapsto> (word_of_int EPOLLOUT, 7)]\<rparr>"

definition env_locked :: env where
  "env_locked = env2\<lparr>en_stat := \<lambda>_. Some (Regular ''secret'' False)\<rparr>"

lemma env_locked_facts: "quiet env_locked" "writes_all env_locked" "withheld env_locked conf1 ''GET'' ''/a'' ''secret''"
  by (simp_all add: quiet_def writes_all_def withheld_def env_locked_def env2_def env1_def)

lemma asked_writable:
  assumes "quiet env" and "writes_all env" and "nul_free m" and "length m < 32"
  shows "writable env conf1 3 5 7 (the (sv_reqs (srv_asked m) 7)) m ''/a'' (srv_asked m)"
proof -
  have m: "NUL \<in> set (m @ replicate (32 - length m) NUL)" using assms(4) by simp
  have "srv_ok (srv_asked m)"
    using m assms(4) by (auto simp: srv_ok_def srv_asked_def srv0_def sound_regs_def open_fds_def req_arrays_def
        parsed_def no_log_ok split: if_splits)
  moreover have "cstr (m @ replicate (32 - length m) NUL) 0 = Inr m"
    using assms(3,4) by (cases "32 - length m") (auto simp: cstr_held)
  moreover have "cstr (''/a'' @ replicate 126 NUL) 0 = Inr ''/a''" by (simp add: cstr_def)
  ultimately show ?thesis using assms(1,2) by (simp add: writable_def srv_asked_def conf1_def)
qed

lemma requests_that_get_no_file_witness:
  "(\<exists>t. handle_event env2 conf1 3 (word_of_int EPOLLOUT, 7) (srv_asked ''POST'') = Inr t
      \<and> sv_sent t 5 = HTTP_405_KEEP @ body_405 \<and> sv_interest t (3, 5) = Some (word_of_int EPOLLIN, 7))
    \<and> (\<exists>t. handle_event env_locked conf1 3 (word_of_int EPOLLOUT, 7) (srv_asked ''GET'') = Inr t
      \<and> sv_sent t 5 = HTTP_200_KEEP ''6'' \<and> sv_interest t (3, 5) = Some (word_of_int EPOLLIN, 7))"
proof -
  have f: "refused env2 conf1 ''POST'' ''/a''" by (simp add: refused_def strcasecmp_eq_def)
  have post: "writable env2 conf1 3 5 7 (the (sv_reqs (srv_asked ''POST'') 7)) ''POST'' ''/a'' (srv_asked ''POST'')"
    by (rule asked_writable [OF env2_facts(1,2)]) simp_all
  have get: "writable env_locked conf1 3 5 7 (the (sv_reqs (srv_asked ''GET'') 7)) ''GET'' ''/a'' (srv_asked ''GET'')"
    by (rule asked_writable [OF env_locked_facts(1,2)]) simp_all
  have "\<exists>t. handle_event env2 conf1 3 (word_of_int EPOLLOUT, 7) (srv_asked ''POST'') = Inr t
    \<and> sv_sent t 5 = sv_sent (srv_asked ''POST'') 5 @ answer_405 1 \<and> conn_after 3 5 7 1 t"
    using requests_that_get_no_file [OF post] f by (force simp: srv_asked_def)
  moreover have "\<exists>t. handle_event env_locked conf1 3 (word_of_int EPOLLOUT, 7) (srv_asked ''GET'') = Inr t
    \<and> sv_sent t 5 = sv_sent (srv_asked ''GET'') 5 @ header_200 1 ''secret'' \<and> conn_after 3 5 7 1 t"
    using requests_that_get_no_file [OF get, of "''secret''"] env_locked_facts(3) by (force simp: srv_asked_def)
  moreover have "dec_int 6 = ''6''" by code_simp
  ultimately show ?thesis
    by (auto simp: srv_asked_def srv0_def answer_405_def header_200_def conn_after_def)
qed

end
