(* ===== verification/V2_LogWork.thy ===== *)
theory V2_LogWork
  imports V2_Log
begin

section \<open>version\_02: the log thread at work\<close>

text \<open>
  version\_02/bin/log.c, \<open>log_work\<close>, \<open>add_logbuf\<close> and \<open>get_time\<close>. First the interleaving of
  the worker threads with the log thread on the shared list: the log thread reads the size
  under the mutex, but reads the head pointer and the message outside it, and comes back to
  drop the node. Then what the log thread does with a message: the copy into its buffer, the
  flush and the change of file.
\<close>

subsection \<open>Workers and log thread on the shared list\<close>

text \<open>
  Where the log thread is: before the wait of lines 90 to 107 (\<open>Waiting\<close>), past the test
  of line 109 (\<open>Ready\<close>), after \<open>ptr = log_thread->head\<close> (\<open>Holding\<close>), after the second
  \<open>add_logbuf\<close> has read \<open>ptr->msg\<close> (\<open>Copied\<close>).
\<close>

datatype log_pc = Waiting | Ready | Holding "nat option" | Copied

record log_sys =
  ls_list :: log_thread
  ls_pc :: log_pc
  ls_pushed :: "char list list"
  ls_taken :: "char list list"

text \<open>What one thread does between two points where another may run.\<close>

datatype log_event = Push "char list" int | Wait | Look | Read | Drop

definition log_event_step :: "log_event \<Rightarrow> log_sys \<Rightarrow> log_sys res" where
  "log_event_step ev s =
     (case (ev, ls_pc s) of
        (Push m g, _) \<Rightarrow>
          bindr (push_node m g (ls_list s)) (\<lambda>lt.
          Inr (s\<lparr>ls_list := lt, ls_pushed := ls_pushed s @ [m]\<rparr>))
      | (Wait, Waiting) \<Rightarrow>
          if lt_size (ls_list s) = 0 then Inl Blocked
          else Inr (s\<lparr>ls_pc := if lt_size (ls_list s) > 0 then Ready else Waiting\<rparr>)
      | (Look, Ready) \<Rightarrow> Inr (s\<lparr>ls_pc := Holding (lt_head (ls_list s))\<rparr>)
      | (Read, Holding p) \<Rightarrow>
          bindr (log_head_msg (ls_list s\<lparr>lt_head := p\<rparr>)) (\<lambda>m.
          Inr (s\<lparr>ls_pc := Copied, ls_taken := ls_taken s @ [m]\<rparr>))
      | (Drop, Copied) \<Rightarrow>
          bindr (log_drop (ls_list s)) (\<lambda>lt. Inr (s\<lparr>ls_list := lt, ls_pc := Waiting\<rparr>))
      | _ \<Rightarrow> Inl Blocked)"

inductive log_reach :: "log_sys \<Rightarrow> log_sys \<Rightarrow> bool" where
  start: "log_reach s s"
| step: "log_reach s t \<Longrightarrow> log_event_step ev t = Inr u \<Longrightarrow> log_reach s u"

inductive_cases log_reachE: "log_reach s u"

definition log_sys_ok :: "log_sys \<Rightarrow> bool" where
  "log_sys_ok s =
     (log_ok (ls_list s)
      \<and> (ls_pc s \<noteq> Waiting \<longrightarrow> log_msgs (ls_list s) \<noteq> [])
      \<and> (\<forall>p. ls_pc s = Holding p \<longrightarrow> lt_head (ls_list s) = p)
      \<and> (if ls_pc s = Copied
         then ls_pushed s = ls_taken s @ tl (log_msgs (ls_list s))
              \<and> ls_taken s \<noteq> [] \<and> last (ls_taken s) = hd (log_msgs (ls_list s))
         else ls_pushed s = ls_taken s @ log_msgs (ls_list s)))"

lemma log_held_msg:
  assumes "log_ok lt" and "log_msgs lt = m # ms" and "p = lt_head lt"
  shows "log_head_msg (lt\<lparr>lt_head := p\<rparr>) = Inr m"
proof -
  obtain a n where "lt_head lt = Some a" "lt_heap lt a = Some n" "ml_msg n = m"
    using log_head_ok [OF assms(1,2)] by blast
  then show ?thesis using assms(3) by (simp add: log_head_msg_def)
qed

lemma log_event_step_ok:
  assumes "log_sys_ok s"
  shows "case log_event_step ev s of Inl e \<Rightarrow> e = Blocked | Inr t \<Rightarrow> log_sys_ok t"
proof (cases ev)
  case (Push m g)
  obtain lt where lt: "push_node m g (ls_list s) = Inr lt" "log_ok lt"
    "log_msgs lt = log_msgs (ls_list s) @ [m]"
    "log_msgs (ls_list s) \<noteq> [] \<longrightarrow> lt_head lt = lt_head (ls_list s)"
    using push_node_ok [of "ls_list s" m g] assms by (auto simp: log_sys_ok_def)
  with assms Push show ?thesis
    by (auto simp: log_event_step_def log_sys_ok_def)
next
  case Wait
  have "lt_size (ls_list s) = int (length (log_msgs (ls_list s)))"
    using assms log_ok_size by (simp add: log_sys_ok_def)
  with assms Wait show ?thesis
    by (cases "ls_pc s") (auto simp: log_event_step_def log_sys_ok_def)
next
  case Look
  with assms show ?thesis
    by (cases "ls_pc s") (auto simp: log_event_step_def log_sys_ok_def)
next
  case Read
  show ?thesis
  proof (cases "ls_pc s")
    case (Holding p)
    with assms obtain m ms where m: "log_msgs (ls_list s) = m # ms"
      by (cases "log_msgs (ls_list s)") (auto simp: log_sys_ok_def)
    have "log_head_msg (ls_list s\<lparr>lt_head := p\<rparr>) = Inr m"
      by (rule log_held_msg [OF _ m]) (use assms Holding in \<open>auto simp: log_sys_ok_def\<close>)
    then show ?thesis
      using assms Holding Read m by (simp add: log_event_step_def log_sys_ok_def)
  qed (use Read in \<open>auto simp: log_event_step_def\<close>)
next
  case Drop
  show ?thesis
  proof (cases "ls_pc s = Copied")
    case True
    with assms obtain m ms where m: "log_msgs (ls_list s) = m # ms"
      by (cases "log_msgs (ls_list s)") (auto simp: log_sys_ok_def)
    obtain lt where "log_drop (ls_list s) = Inr lt" "log_ok lt" "log_msgs lt = ms"
      using log_drop_ok [of "ls_list s" m ms] assms m by (auto simp: log_sys_ok_def)
    with assms True Drop m show ?thesis
      by (auto simp: log_event_step_def log_sys_ok_def)
  qed (use Drop in \<open>auto simp: log_event_step_def split: log_pc.splits\<close>)
qed

lemma log_reach_ok: "log_reach s t \<Longrightarrow> log_sys_ok s \<Longrightarrow> log_sys_ok t"
proof (induction rule: log_reach.induct)
  case (step s t ev u)
  then show ?case using log_event_step_ok [of t ev] by simp
qed

text \<open>The state after \<open>init_log_thread\<close>, before any thread runs.\<close>

definition log_sys0 :: "log_thread \<Rightarrow> log_sys" where
  "log_sys0 lt = \<lparr>ls_list = lt, ls_pc = Waiting, ls_pushed = [], ls_taken = []\<rparr>"

lemma log_sys0_ok:
  assumes "init_log_thread m c lt = Inr lt'" and "\<forall>a\<ge>lt_fresh lt. lt_heap lt a = None"
  shows "log_sys_ok (log_sys0 lt')"
  using init_log_thread_ok [OF assms] by (simp add: log_sys_ok_def log_sys0_def)

text \<open>What the log thread does next at each point.\<close>

definition log_next :: "log_pc \<Rightarrow> log_event" where
  "log_next pc =
     (case pc of Waiting \<Rightarrow> Wait | Ready \<Rightarrow> Look | Holding p \<Rightarrow> Read | Copied \<Rightarrow> Drop)"

lemma log_next_enabled:
  assumes "log_sys_ok s" and "log_msgs (ls_list s) \<noteq> []"
  shows "\<exists>t. log_event_step (log_next (ls_pc s)) s = Inr t"
proof -
  obtain m ms where m: "log_msgs (ls_list s) = m # ms"
    using assms(2) by (cases "log_msgs (ls_list s)") auto
  have "\<forall>p. ls_pc s = Holding p \<longrightarrow> log_head_msg (ls_list s\<lparr>lt_head := p\<rparr>) = Inr m"
    using assms(1) by (intro allI impI log_held_msg [OF _ m]) (auto simp: log_sys_ok_def)
  moreover obtain lt where "log_drop (ls_list s) = Inr lt"
    using log_drop_ok [of "ls_list s" m ms] assms(1) m by (auto simp: log_sys_ok_def)
  moreover have "lt_size (ls_list s) \<noteq> 0"
    using assms log_ok_size by (simp add: log_sys_ok_def)
  ultimately show ?thesis
    by (cases "ls_pc s") (simp_all add: log_event_step_def log_next_def)
qed

text \<open>A given sequence of steps.\<close>

fun log_run :: "log_event list \<Rightarrow> log_sys \<Rightarrow> log_sys res" where
  "log_run [] s = Inr s"
| "log_run (ev # evs) s = bindr (log_event_step ev s) (log_run evs)"

lemma log_run_reach: "log_run evs t = Inr u \<Longrightarrow> log_reach s t \<Longrightarrow> log_reach s u"
  by (induction evs arbitrary: t) (auto simp: bindr_eq_Inr intro: log_reach.step)

text \<open>
  C15. Workers appending under the mutex, and the log thread reading the head pointer and the
  message outside it and dropping the node under it, interleaved in any order: no step is
  ever a null or dangling access, and the messages the log thread has taken are, in order,
  a prefix of the messages pushed; the rest is still in the list (its front node is the one
  just taken while the thread is between the copy and the drop). While the list is not empty
  the log thread has a step it can do.
\<close>

theorem log_thread_takes_in_order:
  assumes "init_log_thread mutex_init cond_init lt = Inr lt'"
    and "\<forall>a\<ge>lt_fresh lt. lt_heap lt a = None"
    and "log_reach (log_sys0 lt') s"
  shows "ls_pushed s = ls_taken s @
      (if ls_pc s = Copied then tl (log_msgs (ls_list s)) else log_msgs (ls_list s))
    \<and> (\<forall>ev e. log_event_step ev s = Inl e \<longrightarrow> e = Blocked)
    \<and> (log_msgs (ls_list s) \<noteq> [] \<longrightarrow> (\<exists>t. log_event_step (log_next (ls_pc s)) s = Inr t))"
proof -
  have ok: "log_sys_ok s"
    using log_reach_ok [OF assms(3) log_sys0_ok [OF assms(1,2)]] .
  then have "ls_pushed s = ls_taken s @
      (if ls_pc s = Copied then tl (log_msgs (ls_list s)) else log_msgs (ls_list s))"
    by (simp add: log_sys_ok_def split: if_splits)
  moreover have "\<forall>ev e. log_event_step ev s = Inl e \<longrightarrow> e = Blocked"
    using log_event_step_ok [OF ok] by (metis sum.simps(5))
  ultimately show ?thesis using log_next_enabled [OF ok] by blast
qed

definition empty_log :: log_thread where
  "empty_log = \<lparr>lt_heap = (\<lambda>_. None), lt_fresh = 5, lt_head = Some 3, lt_tail = None, lt_size = 7\<rparr>"

text \<open>Two pushes around the log thread's reads.\<close>

lemma log_thread_takes_in_order_witness:
  "\<exists>s :: log_sys. ls_pushed s = [''a'', ''b''] \<and> ls_taken s = [''a''] \<and> ls_pc s = Copied
     \<and> tl (log_msgs (ls_list s)) = [''b'']"
proof -
  define lt0 where "lt0 = empty_log\<lparr>lt_head := None, lt_size := 0\<rparr>"
  have i: "init_log_thread 0 0 empty_log = Inr lt0" "\<forall>a\<ge>lt_fresh empty_log. lt_heap empty_log a = None"
    by (simp_all add: init_log_thread_def empty_log_def lt0_def)
  obtain s where s: "log_run [Push ''a'' 0, Wait, Look, Push ''b'' 0, Read] (log_sys0 lt0) = Inr s"
    and v: "ls_pushed s = [''a'', ''b'']" "ls_taken s = [''a'']" "ls_pc s = Copied"
    by (simp add: log_event_step_def log_sys0_def lt0_def empty_log_def push_node_def Let_def
        log_head_msg_def)
  have "log_reach (log_sys0 lt0) s" by (rule log_run_reach [OF s log_reach.start])
  from log_thread_takes_in_order [OF i this] v have "tl (log_msgs (ls_list s)) = [''b'']" by simp
  with v show ?thesis by blast
qed

subsection \<open>The time stamp\<close>

record tm =
  tm_year :: int
  tm_mon :: int
  tm_mday :: int
  tm_hour :: int
  tm_min :: int
  tm_sec :: int

text \<open>The conversion \<open>%0wd\<close> of \<open>sprintf\<close>.\<close>

definition dec_pad :: "nat \<Rightarrow> int \<Rightarrow> string" where
  "dec_pad w i =
     (if i < 0 then CHR ''-'' # replicate (w - 1 - length (dec_int (- i))) CHR ''0'' @ dec_int (- i)
      else replicate (w - length (dec_int i)) CHR ''0'' @ dec_int i)"

definition time_text :: "tm \<Rightarrow> string" where
  "time_text t =
     dec_pad 4 (1900 + tm_year t) @ ''-'' @ dec_pad 2 (1 + tm_mon t) @ ''-'' @ dec_pad 2 (tm_mday t)
     @ ''-'' @ dec_pad 2 (tm_hour t) @ ''-'' @ dec_pad 2 (tm_min t) @ ''-'' @ dec_pad 2 (tm_sec t)"

definition get_time :: "tm \<Rightarrow> char list \<Rightarrow> char list res" where
  "get_time now buf = strcpy buf (time_text now)"

text \<open>The ranges of the fields \<open>localtime\<close> fills.\<close>

definition tm_ok :: "tm \<Rightarrow> bool" where
  "tm_ok t =
     (0 \<le> tm_year t \<and> tm_year t \<le> 8099 \<and> 0 \<le> tm_mon t \<and> tm_mon t \<le> 11 \<and> 1 \<le> tm_mday t
      \<and> tm_mday t \<le> 31 \<and> 0 \<le> tm_hour t \<and> tm_hour t \<le> 23 \<and> 0 \<le> tm_min t \<and> tm_min t \<le> 59
      \<and> 0 \<le> tm_sec t \<and> tm_sec t \<le> 60)"

lemma dec_int_not_Nil [simp]: "dec_int i \<noteq> []"
  by (simp add: dec_int_def)

lemma dec_pad_facts [simp]:
  "nul_free (dec_pad w i)" "dec_pad w i \<noteq> []"
  by (auto simp: dec_pad_def)

lemma length_dec_pad:
  assumes "0 \<le> i" "i < 2 ^ 31"
  shows "length (dec_pad w i) \<le> max w 11"
  using length_dec_int [of i] assms by (auto simp: dec_pad_def)

lemma time_text_facts:
  "nul_free (time_text t)" "time_text t \<noteq> []" "hd (time_text t) \<noteq> NUL"
proof -
  show n: "nul_free (time_text t)" and e: "time_text t \<noteq> []" by (auto simp: time_text_def)
  from n e show "hd (time_text t) \<noteq> NUL" by (cases "time_text t") auto
qed

lemma time_text_length: "tm_ok t \<Longrightarrow> length (time_text t) \<le> 71"
  using length_dec_pad [of "1900 + tm_year t" 4] length_dec_pad [of "1 + tm_mon t" 2]
    length_dec_pad [of "tm_mday t" 2] length_dec_pad [of "tm_hour t" 2]
    length_dec_pad [of "tm_min t" 2] length_dec_pad [of "tm_sec t" 2]
  by (auto simp: tm_ok_def time_text_def)

lemma get_time_fits:
  assumes "tm_ok t" and "length buf = 256"
  shows "\<exists>r. get_time t buf = Inr (time_text t @ NUL # r) \<and> length (time_text t @ NUL # r) = 256"
  using time_text_length [OF assms(1)] assms(2) by (auto simp: get_time_def strcpy_fits)

subsection \<open>The copy into the buffer\<close>

text \<open>
  \<open>add_logbuf\<close>: the loop stops at the first NUL of the destination after the byte just
  written, whatever the source holds.
\<close>

function add_logbuf :: "char list \<Rightarrow> char list \<Rightarrow> int \<Rightarrow> int \<Rightarrow> (char list \<times> int) res" where
  "add_logbuf buf p p_str index =
     bindr (rd p p_str) (\<lambda>c.
     bindr (wr buf index c) (\<lambda>buf'.
     bindr (rd buf' (index + 1)) (\<lambda>d.
     if d \<noteq> NUL then add_logbuf buf' p (p_str + 1) (index + 1) else Inr (buf', index + 1))))"
  by auto

termination
  by (relation "measure (\<lambda>(buf, p, p_str, index). nat (int (length buf) - index))")
    (auto simp: wr_def rd_def split: if_splits)

declare add_logbuf.simps [simp del]

text \<open>In front of a NUL byte the loop runs once.\<close>

lemma add_logbuf_once:
  assumes "p = c # p'"
  shows "add_logbuf (s @ x # NUL # r) p 0 (int (length s)) = Inr (s @ c # NUL # r, int (length s) + 1)"
proof -
  have "rd (s @ c # NUL # r) (int (length s) + 1) = Inr NUL"
    by (simp add: rd_def nth_append nat_add_distrib)
  moreover have "rd p 0 = Inr c" using assms by (simp add: rd_def)
  ultimately show ?thesis by (simp add: add_logbuf.simps)
qed

text \<open>In front of enough other bytes it reads past the end of its source.\<close>

lemma add_logbuf_runs_away:
  assumes "k \<le> length p" and "i + (length p - k) < length buf"
    and "\<forall>j\<in>{i<..i + (length p - k)}. buf ! j \<noteq> NUL"
  shows "add_logbuf buf p (int k) (int i) = Inl OutOfBounds"
  using assms
proof (induction "length p - k" arbitrary: k i buf)
  case 0
  then show ?case by (simp add: add_logbuf.simps rd_nat)
next
  case (Suc d)
  define buf' where "buf' = buf[i := p ! k]"
  have k: "k < length p" and i: "Suc i < length buf" using Suc.hyps(2) Suc.prems(2) by auto
  have "buf' ! Suc i \<noteq> NUL" using Suc.prems(3) Suc.hyps(2) by (simp add: buf'_def)
  moreover have "add_logbuf buf' p (int (Suc k)) (int (Suc i)) = Inl OutOfBounds"
    by (rule Suc.hyps(1)) (use Suc.prems Suc.hyps(2) k in \<open>auto simp: buf'_def\<close>)
  moreover have "rd buf' (int i + 1) = Inr (buf' ! Suc i)"
    using i rd_nat [of buf' "Suc i"] by (simp add: buf'_def add.commute)
  ultimately show ?case
    using k i by (simp add: add_logbuf.simps [of buf] rd_nat wr_nat buf'_def [symmetric] add.commute)
qed

subsection \<open>One turn of the loop\<close>

text \<open>
  The local variables of \<open>log_work\<close> and the files it writes. The descriptor is named by the
  path it was opened with; \<open>lw_opened\<close> counts the descriptors, none of which is ever closed.
\<close>

record log_worker =
  lw_filename :: "char list"
  lw_buf :: "char list"
  lw_timebuf :: "char list"
  lw_index :: int
  lw_total :: int
  lw_fd :: string
  lw_files :: "string \<Rightarrow> string option"
  lw_opened :: nat

text \<open>What the system calls of a turn return.\<close>

record log_env =
  le_now :: tm
  le_open_ok :: bool
  le_write :: int

definition log_open :: "log_env \<Rightarrow> log_worker \<Rightarrow> log_worker res" where
  "log_open env w =
     bindr (get_time (le_now env) (lw_timebuf w)) (\<lambda>timebuf.
     bindr (cstr timebuf 0) (\<lambda>t.
     bindr (strcpy (lw_filename w) (''../log/'' @ t @ ''.log'')) (\<lambda>filename.
     bindr (cstr filename 0) (\<lambda>name.
     if \<not> le_open_ok env then Inl (Die ''fail to open log file'')
     else Inr (w\<lparr>lw_timebuf := timebuf, lw_filename := filename, lw_fd := name,
       lw_files := (if lw_files w name = None then (lw_files w)(name \<mapsto> []) else lw_files w),
       lw_opened := Suc (lw_opened w)\<rparr>)))))"

definition log_work_start ::
  "stack \<Rightarrow> (string \<Rightarrow> string option) \<Rightarrow> log_env \<Rightarrow> log_worker res"
where
  "log_work_start junk files env =
     log_open env \<lparr>lw_filename = local_buf junk ''filename'' 512, lw_buf = local_buf junk ''buf'' 2048,
       lw_timebuf = local_buf junk ''timebuf'' 256, lw_index = 0, lw_total = 0, lw_fd = [],
       lw_files = files, lw_opened = 0\<rparr>"

definition log_rotate :: "log_env \<Rightarrow> log_worker \<Rightarrow> log_worker res" where
  "log_rotate env w =
     (if lw_total w > 1048576 then bindr (log_open env w) (\<lambda>w. Inr (w\<lparr>lw_total := 0\<rparr>))
      else Inr w)"

definition log_flush :: "log_env \<Rightarrow> log_worker \<Rightarrow> log_worker res" where
  "log_flush env w =
     (if lw_index w > 1024 then
        (if le_write env < 0 then Inl (Die ''fail to write'')
         else Inr (w\<lparr>lw_files := (lw_files w)(lw_fd w \<mapsto>
                 (case lw_files w (lw_fd w) of None \<Rightarrow> [] | Some s \<Rightarrow> s)
                 @ take (nat (min (le_write env) (lw_index w))) (lw_buf w)),
               lw_total := lw_total w + lw_index w, lw_index := 0\<rparr>))
      else Inr w)"

definition log_copy :: "log_env \<Rightarrow> char list \<Rightarrow> log_worker \<Rightarrow> log_worker res" where
  "log_copy env msg w =
     bindr (get_time (le_now env) (lw_timebuf w)) (\<lambda>timebuf.
     bindr (add_logbuf (lw_buf w) timebuf 0 (lw_index w)) (\<lambda>(buf, index).
     bindr (add_logbuf buf msg 0 index) (\<lambda>(buf, index).
     Inr (w\<lparr>lw_timebuf := timebuf, lw_buf := buf, lw_index := index\<rparr>))))"

text \<open>Lines 90 to 158, with the log thread alone on the list.\<close>

definition log_work_turn :: "log_env \<Rightarrow> log_thread \<times> log_worker \<Rightarrow> (log_thread \<times> log_worker) res" where
  "log_work_turn env = (\<lambda>(lt, w).
     if lt_size lt = 0 then Inl Blocked
     else if lt_size lt > 0 then
       bindr (log_rotate env w) (\<lambda>w.
       bindr (log_flush env w) (\<lambda>w.
       bindr (log_head_msg lt) (\<lambda>msg.
       bindr (log_copy env msg w) (\<lambda>w.
       bindr (log_drop lt) (\<lambda>lt. Inr (lt, w))))))
     else Inr (lt, w))"

fun log_work :: "log_env list \<Rightarrow> log_thread \<times> log_worker \<Rightarrow> (log_thread \<times> log_worker) res" where
  "log_work [] s = Inr s"
| "log_work (env # envs) s = bindr (log_work_turn env s) (log_work envs)"

subsection \<open>What reaches the log file\<close>

text \<open>The buffer holds \<open>s\<close> and only NUL bytes after it.\<close>

definition zeroed :: "log_worker \<Rightarrow> string \<Rightarrow> bool" where
  "zeroed w s =
     (lw_buf w = s @ replicate (2048 - length s) NUL \<and> lw_index w = int (length s)
      \<and> length s \<le> 1026 \<and> lw_total w \<le> 1048576 \<and> length (lw_timebuf w) = 256)"

lemma log_copy_zeroed:
  assumes "zeroed w s" and "length s \<le> 1024" and "tm_ok (le_now env)" and "m \<noteq> []"
  shows "\<exists>w'. log_copy env m w = Inr w' \<and> zeroed w' (s @ [hd (time_text (le_now env)), hd m])
    \<and> lw_files w' = lw_files w \<and> lw_fd w' = lw_fd w"
proof -
  obtain r where tb: "get_time (le_now env) (lw_timebuf w) = Inr (time_text (le_now env) @ NUL # r)"
    "length (time_text (le_now env) @ NUL # r) = 256"
    using get_time_fits [OF assms(3)] assms(1) by (auto simp: zeroed_def)
  obtain c t where c: "time_text (le_now env) = c # t"
    using time_text_facts(2) [of "le_now env"] by (cases "time_text (le_now env)") auto
  obtain d m' where d: "m = d # m'" using assms(4) by (cases m) auto
  define k where "k = 2045 - length s"
  have z: "replicate (2048 - length s) NUL = NUL # NUL # NUL # replicate k NUL"
    using assms(2) by (simp add: k_def flip: replicate_Suc)
  have "lw_buf w = s @ NUL # NUL # (NUL # replicate k NUL)" "lw_index w = int (length s)"
    using assms(1) z by (simp_all add: zeroed_def)
  then have 1: "add_logbuf (lw_buf w) (time_text (le_now env) @ NUL # r) 0 (lw_index w)
      = Inr ((s @ [c]) @ NUL # NUL # replicate k NUL, int (length (s @ [c])))"
    using add_logbuf_once [of "time_text (le_now env) @ NUL # r" c] c by simp
  have 2: "add_logbuf ((s @ [c]) @ NUL # NUL # replicate k NUL) m 0 (int (length (s @ [c])))
      = Inr (s @ [c, d] @ replicate (Suc k) NUL, int (length s) + 2)"
    using add_logbuf_once [OF d, of "s @ [c]" NUL "replicate k NUL"] by simp
  define w' where "w' = w\<lparr>lw_timebuf := time_text (le_now env) @ NUL # r,
    lw_buf := s @ [c, d] @ replicate (Suc k) NUL, lw_index := int (length s) + 2\<rparr>"
  have "log_copy env m w = Inr w'"
    unfolding log_copy_def tb(1) bindr_Inr 1 prod.case 2 w'_def ..
  moreover have "2046 - length s = Suc k" using assms(2) by (simp add: k_def)
  then have "zeroed w' (s @ [hd (time_text (le_now env)), hd m])"
    using assms(1,2) tb(2) c d by (simp add: zeroed_def w'_def)
  ultimately show ?thesis by (auto simp: w'_def)
qed

lemma log_work_turn_zeroed:
  assumes "zeroed w s" and "length s \<le> 1024" and "tm_ok (le_now env)"
    and "log_ok lt" and "log_msgs lt = m # ms" and "m \<noteq> []"
  shows "\<exists>lt' w'. log_work_turn env (lt, w) = Inr (lt', w') \<and> log_ok lt' \<and> log_msgs lt' = ms
    \<and> zeroed w' (s @ [hd (time_text (le_now env)), hd m]) \<and> lw_files w' = lw_files w \<and> lw_fd w' = lw_fd w"
proof -
  have z: "lt_size lt > 0" using log_ok_size [OF assms(4)] assms(5) by simp
  have h: "log_head_msg lt = Inr m" using log_held_msg [OF assms(4,5)] by simp
  have r: "log_rotate env w = Inr w" "log_flush env w = Inr w"
    using assms(1,2) by (auto simp: log_rotate_def log_flush_def zeroed_def)
  obtain w' where w': "log_copy env m w = Inr w'"
    "zeroed w' (s @ [hd (time_text (le_now env)), hd m])" "lw_files w' = lw_files w" "lw_fd w' = lw_fd w"
    using log_copy_zeroed [OF assms(1,2,3,6)] by blast
  obtain lt' where "log_drop lt = Inr lt'" "log_ok lt'" "log_msgs lt' = ms"
    using log_drop_ok [OF assms(4,5)] by blast
  with z h r w' show ?thesis by (simp add: log_work_turn_def)
qed

text \<open>The first byte of each stamp and of each message, in order.\<close>

definition first_bytes :: "log_env list \<Rightarrow> char list list \<Rightarrow> string" where
  "first_bytes envs ms =
     concat (map (\<lambda>(env, m). [hd (time_text (le_now env)), hd m]) (zip envs ms))"

lemma first_bytes_Cons [simp]:
  "first_bytes [] ms = []"
  "first_bytes (e # es) (m # ms) = hd (time_text (le_now e)) # hd m # first_bytes es ms"
  by (simp_all add: first_bytes_def)

lemma length_first_bytes: "length envs \<le> length ms \<Longrightarrow> length (first_bytes envs ms) = 2 * length envs"
  by (induction envs ms rule: list_induct2') (auto simp: first_bytes_def)

lemma log_work_zeroed:
  assumes "zeroed w s" and "length s + 2 * length envs \<le> 1026"
    and "\<forall>env\<in>set envs. tm_ok (le_now env)" and "log_ok lt"
    and "length envs \<le> length (log_msgs lt)" and "[] \<notin> set (log_msgs lt)"
  shows "\<exists>lt' w'. log_work envs (lt, w) = Inr (lt', w') \<and> log_ok lt'
    \<and> log_msgs lt' = drop (length envs) (log_msgs lt)
    \<and> zeroed w' (s @ first_bytes envs (log_msgs lt)) \<and> lw_files w' = lw_files w \<and> lw_fd w' = lw_fd w"
  using assms
proof (induction envs arbitrary: lt w s)
  case Nil
  then show ?case by simp
next
  case (Cons env envs)
  then obtain m ms where m: "log_msgs lt = m # ms" "m \<noteq> []" by (cases "log_msgs lt") auto
  obtain lt1 w1 where 1: "log_work_turn env (lt, w) = Inr (lt1, w1)" "log_ok lt1" "log_msgs lt1 = ms"
    "zeroed w1 (s @ [hd (time_text (le_now env)), hd m])" "lw_files w1 = lw_files w" "lw_fd w1 = lw_fd w"
    using log_work_turn_zeroed [OF Cons.prems(1) _ _ Cons.prems(4) m, of env] Cons.prems(2,3)
    by (auto simp del: ex_simps)
  from Cons.IH [OF 1(4) _ _ 1(2)] Cons.prems 1 m show ?case by simp
qed

text \<open>
  C29. With a buffer that starts as NUL bytes, \<open>add_logbuf\<close> stops after one byte because it
  tests the destination: each record adds the first digit of its time stamp and the first
  character of its message to the buffer and nothing else. This holds for the first 513
  records; nothing is written to the file while they are handled. (The log files kept in
  version\_02/log consist of the bytes \<open>2\<close> and space only.)
\<close>

theorem log_record_is_two_bytes:
  assumes "lw_buf w = replicate 2048 NUL" and "lw_index w = 0" and "lw_total w = 0"
    and "length (lw_timebuf w) = 256" and "\<forall>env\<in>set envs. tm_ok (le_now env)"
    and "log_ok lt" and "[] \<notin> set (log_msgs lt)"
    and "length envs \<le> length (log_msgs lt)" and "length envs \<le> 513"
  shows "\<exists>lt' w'. log_work envs (lt, w) = Inr (lt', w')
    \<and> log_msgs lt' = drop (length envs) (log_msgs lt)
    \<and> lw_index w' = 2 * int (length envs) \<and> lw_files w' = lw_files w
    \<and> take (2 * length envs) (lw_buf w') = first_bytes envs (log_msgs lt)"
proof -
  have "zeroed w []" using assms(1-4) by (simp add: zeroed_def)
  from log_work_zeroed [OF this _ assms(5,6) _ assms(7)] assms(8,9)
  obtain lt' w' where "log_work envs (lt, w) = Inr (lt', w')"
    "log_msgs lt' = drop (length envs) (log_msgs lt)" "lw_files w' = lw_files w"
    "zeroed w' (first_bytes envs (log_msgs lt))" by auto
  then show ?thesis
    using length_first_bytes [OF assms(8)] by (auto simp: zeroed_def)
qed

text \<open>Two log records of the same second, from 2021 as in the files of the repository.\<close>

definition env0 :: log_env where
  "env0 = \<lparr>le_now = \<lparr>tm_year = 121, tm_mon = 3, tm_mday = 6, tm_hour = 21, tm_min = 13, tm_sec = 48\<rparr>,
     le_open_ok = True, le_write = 1026\<rparr>"

definition worker0 :: log_worker where
  "worker0 = \<lparr>lw_filename = [], lw_buf = replicate 2048 NUL, lw_timebuf = replicate 256 NUL,
     lw_index = 0, lw_total = 0, lw_fd = ''f'', lw_files = (\<lambda>_. None), lw_opened = 1\<rparr>"

lemma push_nodes:
  assumes "log_ok lt"
  shows "\<exists>lt'. log_ok lt' \<and> log_msgs lt' = log_msgs lt @ ms"
  using assms
proof (induction ms arbitrary: lt)
  case Nil
  then show ?case by auto
next
  case (Cons m ms)
  obtain lt1 where "log_ok lt1" "log_msgs lt1 = log_msgs lt @ [m]"
    using push_node_ok [OF Cons.prems, of m 0] by auto
  with Cons.IH [of lt1] show ?case by auto
qed

lemma some_log: "\<exists>lt. log_ok lt \<and> log_msgs lt = ms"
  using push_nodes [OF no_log_ok(1), of ms] no_log_ok(2) by simp

lemma env0_facts: "tm_ok (le_now env0)" "hd (time_text (le_now env0)) = CHR ''2''"
  by (simp_all add: env0_def tm_ok_def time_text_def dec_pad_def dec_int_def dec_nat.simps
      digit_char_def char_of_def bit_0 length_replicate)

lemma log_record_is_two_bytes_witness:
  "\<exists>lt lt' w'. log_msgs lt = ['' [info]: x'', '' [warn]: y''] \<and> log_work [env0, env0] (lt, worker0) = Inr (lt', w')
    \<and> take 4 (lw_buf w') = ''2 2 ''"
proof -
  obtain lt where lt: "log_ok lt" "log_msgs lt = ['' [info]: x'', '' [warn]: y'']"
    using some_log by blast
  have "\<exists>lt' w'. log_work [env0, env0] (lt, worker0) = Inr (lt', w')
    \<and> log_msgs lt' = drop (length [env0, env0]) (log_msgs lt)
    \<and> lw_index w' = 2 * int (length [env0, env0]) \<and> lw_files w' = lw_files worker0
    \<and> take (2 * length [env0, env0]) (lw_buf w') = first_bytes [env0, env0] (log_msgs lt)"
    by (rule log_record_is_two_bytes) (use lt env0_facts in \<open>simp_all add: worker0_def\<close>)
  with lt env0_facts show ?thesis by auto
qed

text \<open>
  The record after these 513 is the first to find more than 1024 bytes in the buffer. It
  appends them to the file and sets the index to 0, but the buffer is not cleared: the copy
  of the time stamp now finds 1026 bytes that are not NUL in front of it and reads on past
  the end of \<open>timebuf\<close>.
\<close>

theorem log_record_514_overruns:
  assumes "lw_buf w = replicate 2048 NUL" and "lw_index w = 0" and "lw_total w = 0"
    and "length (lw_timebuf w) = 256" and "\<forall>env\<in>set (envs @ [env]). tm_ok (le_now env)"
    and "log_ok lt" and "\<forall>m\<in>set (log_msgs lt). m \<noteq> [] \<and> hd m \<noteq> NUL"
    and "length (log_msgs lt) \<ge> 514" and "length envs = 513" and "le_write env \<ge> 0"
  shows "log_work (envs @ [env]) (lt, w) = Inl OutOfBounds"
proof -
  define s where "s = first_bytes envs (log_msgs lt)"
  have "zeroed w []" using assms(1-4) by (simp add: zeroed_def)
  from log_work_zeroed [OF this, of envs lt] assms obtain lt' w' where
    1: "log_work envs (lt, w) = Inr (lt', w')" "log_ok lt'" "zeroed w' s"
      "log_msgs lt' = drop 513 (log_msgs lt)" by (auto simp: s_def)
  have len: "length s = 1026" using length_first_bytes [of envs "log_msgs lt"] assms by (simp add: s_def)
  obtain m ms where m: "log_msgs lt' = m # ms" proof (cases "log_msgs lt'")
    case Nil
    then show ?thesis using 1(4) assms(8) by simp
  qed blast
  then have "lt_size lt' > 0" using log_ok_size [OF 1(2)] by simp
  moreover have "log_head_msg lt' = Inr m" using log_held_msg [OF 1(2) m] by simp
  moreover have "log_rotate env w' = Inr w'" using 1(3) by (simp add: log_rotate_def zeroed_def)
  moreover obtain w'' where w'': "log_flush env w' = Inr w''" "lw_buf w'' = lw_buf w'" "lw_index w'' = 0"
    "lw_timebuf w'' = lw_timebuf w'"
    using 1(3) len assms(10) by (auto simp: log_flush_def zeroed_def)
  moreover have "log_copy env m w'' = Inl OutOfBounds"
  proof -
    obtain r where tb: "get_time (le_now env) (lw_timebuf w'') = Inr (time_text (le_now env) @ NUL # r)"
      "length (time_text (le_now env) @ NUL # r) = 256"
      using get_time_fits [of "le_now env" "lw_timebuf w''"] assms(5) 1(3) w''(4) by (auto simp: zeroed_def)
    have "\<forall>c\<in>set s. c \<noteq> NUL"
      using assms(7) time_text_facts(3) unfolding s_def first_bytes_def by (fastforce dest: set_zip_rightD)
    then have nz: "\<forall>j<1026. lw_buf w' ! j \<noteq> NUL"
      using 1(3) len by (auto simp: zeroed_def nth_append)
    have "add_logbuf (lw_buf w') (time_text (le_now env) @ NUL # r) (int 0) (int 0) = Inl OutOfBounds"
      by (rule add_logbuf_runs_away) (use tb(2) nz 1(3) len in \<open>auto simp: zeroed_def\<close>)
    with tb w'' show ?thesis by (simp add: log_copy_def)
  qed
  ultimately have "log_work_turn env (lt', w') = Inl OutOfBounds"
    by (simp add: log_work_turn_def)
  moreover have "log_work (envs @ [env]) t = bindr (log_work envs t) (log_work_turn env)" for t
    by (induction envs arbitrary: t) (auto simp: bindr_assoc bindr_def split: sum.splits)
  ultimately show ?thesis using 1(1) by simp
qed

lemma log_record_514_overruns_witness:
  "\<exists>lt. log_msgs lt = replicate 514 '' [info]: x''
    \<and> log_work (replicate 513 env0 @ [env0]) (lt, worker0) = Inl OutOfBounds"
proof -
  obtain lt where lt: "log_ok lt" "log_msgs lt = replicate 514 '' [info]: x''"
    using some_log by blast
  have "log_work (replicate 513 env0 @ [env0]) (lt, worker0) = Inl OutOfBounds"
    by (rule log_record_514_overruns) (use lt env0_facts in \<open>simp_all add: worker0_def env0_def\<close>)
  with lt show ?thesis by blast
qed

end
