(* ===== verification/V2_Server.thy ===== *)
theory V2_Server
  imports V2_Answer V2_LogWork
begin

section \<open>version\_02: start-up and the accept loop\<close>

text \<open>
  version\_02/bin/http.c. \<open>main\<close> reads the configuration, opens the listening socket, makes
  one epoll descriptor and one thread for each worker and the log thread, and then accepts
  connections for the workers in turn. The whole server is the relation \<open>srv_reach\<close>: the main
  thread accepts, a worker handles a ready event of a registered socket, in any order.
\<close>

subsection \<open>Start-up\<close>

record net2 =
  n2_socket :: int
  n2_setsockopt :: int
  n2_bind :: "16 word \<Rightarrow> int"
  n2_listen :: "int \<Rightarrow> int"

text \<open>The result is the socket and what \<open>perror\<close> printed.\<close>

definition startup2 :: "net2 \<Rightarrow> 16 word \<Rightarrow> int \<Rightarrow> (int \<times> string list) res" where
  "startup2 net server_port listen_num =
     (let server_sock = n2_socket net in
      if server_sock = -1 then Inl (Die ''server_sock create fail'')
      else
        let err = (if n2_setsockopt net < 0 then [''so_reuseaddr fail''] else []) in
        if n2_bind net server_port < 0 then Inl (Die ''bind fail'')
        else if n2_listen net listen_num < 0 then Inl (Die ''listen fail'')
        else Inr (server_sock, err))"

record os2 =
  os_mutex :: int
  os_cond :: int
  os_conf_file :: "string option"
  os_malloc_ok :: "int \<Rightarrow> bool"
  os_net :: net2
  os_epoll_create :: "nat \<Rightarrow> int"
  os_thread_create :: "nat \<Rightarrow> int"
  os_log_thread_create :: int

fun create_epfds :: "(nat \<Rightarrow> int) \<Rightarrow> nat list \<Rightarrow> int list res" where
  "create_epfds mk [] = Inr []"
| "create_epfds mk (i # is) =
     (if mk i < 0 then Inl (Die ''fail to epoll_create1'')
      else bindr (create_epfds mk is) (\<lambda>es. Inr (mk i # es)))"

fun create_threads :: "(nat \<Rightarrow> int) \<Rightarrow> nat list \<Rightarrow> unit res" where
  "create_threads mk [] = Inr ()"
| "create_threads mk (i # is) =
     (if mk i \<noteq> 0 then Inl (Die ''fail to create thread'') else create_threads mk is)"

definition main_setup :: "os2 \<Rightarrow> log_thread \<Rightarrow> conf_http_t \<Rightarrow> (log_thread \<times> conf_http_t \<times> int \<times> int list) res" where
  "main_setup os lt conf =
     bindr (init_log_thread (os_mutex os) (os_cond os) lt) (\<lambda>lt.
     bindr (init_conf (os_conf_file os) conf) (\<lambda>conf.
     if \<not> os_malloc_ok os (4 * conf_thread_num conf) then Inl (Die ''fail to malloc epfds'')
     else if \<not> os_malloc_ok os (8 * conf_thread_num conf) then Inl (Die ''fail to malloc threads'')
     else
       bindr (startup2 (os_net os) (word_of_int (conf_port conf)) (conf_listen_num conf)) (\<lambda>(serv_sock, _).
       bindr (create_epfds (os_epoll_create os) [0..<nat (conf_thread_num conf)]) (\<lambda>epfds.
       bindr (create_threads (os_thread_create os) [0..<nat (conf_thread_num conf)]) (\<lambda>_.
       if os_log_thread_create os \<noteq> 0 then Inl (Die ''fail to create log thread'')
       else Inr (lt, conf, serv_sock, epfds))))))"

lemma create_epfds_length: "create_epfds mk is = Inr es \<Longrightarrow> es = map mk is \<and> (\<forall>e\<in>set es. 0 \<le> e)"
  by (induction "is" arbitrary: es) (auto simp: bindr_eq_Inr split: if_splits)

lemma main_setup_ok:
  assumes "main_setup os lt conf = Inr (lt', conf', sock, epfds)"
    and "\<forall>a\<ge>lt_fresh lt. lt_heap lt a = None"
  shows "log_ok lt' \<and> log_msgs lt' = [] \<and> init_conf (os_conf_file os) conf = Inr conf'
    \<and> length epfds = nat (conf_thread_num conf')"
  using assms init_log_thread_ok [of "os_mutex os" "os_cond os" lt lt'] create_epfds_length
  by (fastforce simp: main_setup_def bindr_eq_Inr split: if_splits prod.splits)

subsection \<open>Accepting\<close>

text \<open>What \<open>accept\<close> returns: an error, or the descriptor with the text of the client's address
  and its port; and what \<open>malloc\<close> returns.\<close>

record client =
  cl_fd :: int
  cl_ip :: string
  cl_port :: int

definition connect_text :: "client \<Rightarrow> string" where
  "connect_text c = '' ip: '' @ cl_ip c @ '' port: '' @ dec_int (cl_port c) @ '' connect'' @ [LF, LF]"

definition accept_client :: "env \<Rightarrow> client option \<Rightarrow> nat \<Rightarrow> int \<Rightarrow> srv \<Rightarrow> srv res" where
  "accept_client env ac ptr epfd s =
     (case ac of
        None \<Rightarrow> log_msg env ('': accept fail'' @ [LF, LF]) 2 s
      | Some c \<Rightarrow>
          let s = s\<lparr>sv_flags := (sv_flags s)(cl_fd c \<mapsto> 2), sv_sent := (sv_sent s)(cl_fd c := [])\<rparr>;
              r = \<lparr>rq_fd = cl_fd c, rq_alive = 0,
                   rq_method = local_buf (en_junk env) ''method'' 32,
                   rq_url = local_buf (en_junk env) ''url'' 128,
                   rq_ip_port = local_buf (en_junk env) ''ip_port'' 128\<rparr>;
              s = s\<lparr>sv_reqs := (sv_reqs s)(ptr \<mapsto> r)\<rparr> in
          bindr (epoll_add epfd ptr EPOLLIN s) (\<lambda>s.
          bindr (strcpy (rq_ip_port r) (connect_text c)) (\<lambda>ip_port.
          let s = s\<lparr>sv_reqs := (sv_reqs s)(ptr \<mapsto> r\<lparr>rq_ip_port := ip_port\<rparr>)\<rparr> in
          bindr (cstr ip_port 0) (\<lambda>str. log_msg env str 0 s))))"

text \<open>One pass of the loop over the workers' epoll descriptors.\<close>

fun accept_round :: "(env \<times> client option \<times> nat) list \<Rightarrow> int list \<Rightarrow> srv \<Rightarrow> srv res" where
  "accept_round ((env, ac, ptr) # acs) (epfd # epfds) s =
     bindr (accept_client env ac ptr epfd s) (accept_round acs epfds)"
| "accept_round _ _ s = Inr s"

lemma accept_client_ok:
  assumes "srv_ok s" and "quiet env" and "cl_fd c \<notin> open_fds s" and "sv_reqs s ptr = None"
    and "nul_free (cl_ip c)" and "length (cl_ip c) \<le> 15" and "0 \<le> cl_port c" and "cl_port c < 65536"
  shows "\<exists>t. accept_client env (Some c) ptr epfd s = Inr t \<and> srv_ok t
    \<and> sv_interest t = (sv_interest s)((epfd, cl_fd c) \<mapsto> (word_of_int EPOLLIN, ptr))
    \<and> open_fds t = insert (cl_fd c) (open_fds s)
    \<and> (\<forall>q. q \<noteq> ptr \<longrightarrow> sv_reqs t q = sv_reqs s q) \<and> sv_reqs t ptr \<noteq> None"
proof -
  let ?f = "cl_fd c"
  define r where "r = \<lparr>rq_fd = ?f, rq_alive = 0, rq_method = local_buf (en_junk env) ''method'' 32,
    rq_url = local_buf (en_junk env) ''url'' 128, rq_ip_port = local_buf (en_junk env) ''ip_port'' 128\<rparr>"
  define s1 where "s1 = s\<lparr>sv_flags := (sv_flags s)(?f \<mapsto> 2), sv_sent := (sv_sent s)(?f := []),
    sv_reqs := (sv_reqs s)(ptr \<mapsto> r)\<rparr>"
  have none: "sv_interest s (e', ?f) = None" for e'
    using assms(1,3) by (cases "sv_interest s (e', ?f)") (auto simp: srv_ok_def sound_regs_def)
  define s2 where "s2 = (set_sock_nonblock ?f s1)\<lparr>sv_interest :=
    (sv_interest s1)((epfd, ?f) \<mapsto> (word_of_int EPOLLIN, ptr))\<rparr>"
  have 2: "epoll_add epfd ptr EPOLLIN s1 = Inr s2"
    using none by (simp add: epoll_add_def the_req_def s1_def r_def set_sock_nonblock_def epoll_ctl_def s2_def)
  have len: "length (connect_text c) < 64"
    using assms(6-8) length_dec_int [of "cl_port c"] by (simp add: connect_text_def)
  define b where "b = connect_text c @ NUL # drop (Suc (length (connect_text c))) (rq_ip_port r)"
  have 3: "strcpy (rq_ip_port r) (connect_text c) = Inr b"
    using len by (simp add: strcpy_fits r_def b_def)
  have nf: "nul_free (connect_text c)" using assms(5) by (simp add: connect_text_def)
  have 4: "cstr b 0 = Inr (connect_text c)" using nf by (simp add: b_def)
  define s3 where "s3 = s2\<lparr>sv_reqs := (sv_reqs s2)(ptr \<mapsto> r\<lparr>rq_ip_port := b\<rparr>)\<rparr>"
  have lg: "log_ok (sv_log s3)"
    using assms(1) by (simp add: s3_def s2_def s1_def srv_ok_def set_sock_nonblock_def perror_def)
  obtain l where l: "log_msg env (connect_text c) 0 s3 = Inr (s3\<lparr>sv_log := l\<rparr>)" "log_ok l"
  proof -
    have "length (connect_text c) \<le> 48"
      using assms(6-8) length_dec_int [of "cl_port c"] by (simp add: connect_text_def)
    then show ?thesis using that log_msgE [OF lg assms(2) nf _, of 0] by auto
  qed
  have "accept_client env (Some c) ptr epfd s = Inr (s3\<lparr>sv_log := l\<rparr>)"
    using 2 3 4 l(1) by (simp add: accept_client_def Let_def s1_def r_def s3_def)
  moreover have i: "sv_interest s3 = (sv_interest s)((epfd, ?f) \<mapsto> (word_of_int EPOLLIN, ptr))"
    "open_fds s3 = insert ?f (open_fds s)"
    "sv_reqs s3 = (sv_reqs s)(ptr \<mapsto> r\<lparr>rq_ip_port := b\<rparr>)"
    by (auto simp: s3_def s2_def s1_def open_fds_def set_sock_nonblock_def)
  moreover have "srv_ok (s3\<lparr>sv_log := l\<rparr>)"
  proof -
    have "sound_regs (sv_interest s3) (open_fds s3)"
      unfolding i using none assms(1) by (intro sound_regs_upd) (auto simp: srv_ok_def)
    moreover have "\<exists>x. sv_reqs s3 q = Some x \<and> rq_fd x = g \<and> req_arrays x \<and> (ev = word_of_int EPOLLOUT \<longrightarrow> parsed x)"
      if g: "sv_interest s3 (e', g) = Some (ev, q)" for e' g ev q
    proof (cases "(e', g) = (epfd, ?f)")
      case True
      with g i(1) have "q = ptr" "ev = word_of_int EPOLLIN" "g = ?f" by auto
      moreover have "word_of_int EPOLLIN \<noteq> (word_of_int EPOLLOUT :: 32 word)"
        by (simp add: EPOLLIN_def EPOLLOUT_def)
      ultimately show ?thesis using i(3) by (simp add: r_def req_arrays_def)
    next
      case False
      with g i(1) have "sv_interest s (e', g) = Some (ev, q)" by (auto split: if_splits)
      from srv_ok_req [OF assms(1) this] obtain x where "sv_reqs s q = Some x" "rq_fd x = g" "req_arrays x"
        "ev = word_of_int EPOLLOUT \<longrightarrow> parsed x" by blast
      with i(3) assms(4) show ?thesis by (cases "q = ptr") auto
    qed
    ultimately show ?thesis using l(2) by (simp add: srv_ok_def open_fds_def)
  qed
  ultimately show ?thesis by (auto simp: open_fds_def)
qed

lemma accept_fail_ok:
  assumes "srv_ok s" and "quiet env" and "accept_client env None ptr epfd s = Inr t"
  shows "srv_ok t \<and> sv_interest t = sv_interest s \<and> open_fds t = open_fds s"
proof -
  have "log_ok (sv_log s)" using assms(1) by (simp add: srv_ok_def)
  then obtain l where "log_msg env ('': accept fail'' @ [LF, LF]) 2 s = Inr (s\<lparr>sv_log := l\<rparr>)" "log_ok l"
    using log_msgE [of s env "'': accept fail'' @ [LF, LF]" 2] assms(2) by auto
  with assms(1,3) show ?thesis using srv_ok_log by (auto simp: accept_client_def open_fds_def)
qed

text \<open>What the kernel and \<open>inet_ntop\<close> give: a descriptor not in use, a dotted address, a port;
  and memory not in use.\<close>

definition new_client :: "env \<times> client option \<times> nat \<Rightarrow> srv \<Rightarrow> bool" where
  "new_client a s =
     (case a of (env, ac, ptr) \<Rightarrow>
        quiet env \<and> sv_reqs s ptr = None \<and>
        (case ac of None \<Rightarrow> True
         | Some c \<Rightarrow> cl_fd c \<notin> open_fds s \<and> nul_free (cl_ip c) \<and> length (cl_ip c) \<le> 15
             \<and> 0 \<le> cl_port c \<and> cl_port c < 65536))"

subsection \<open>The whole server\<close>

inductive srv_reach :: "conf_http_t \<Rightarrow> int list \<Rightarrow> srv \<Rightarrow> srv \<Rightarrow> bool"
  for conf epfds s0
where
  start: "srv_reach conf epfds s0 s0"
| accept: "srv_reach conf epfds s0 s \<Longrightarrow> epfd \<in> set epfds \<Longrightarrow> new_client (env, ac, ptr) s \<Longrightarrow>
    accept_client env ac ptr epfd s = Inr t \<Longrightarrow> srv_reach conf epfds s0 t"
| event: "srv_reach conf epfds s0 s \<Longrightarrow> epfd \<in> set epfds \<Longrightarrow> quiet env \<Longrightarrow>
    sv_interest s (epfd, f) = Some (ev, p) \<Longrightarrow>
    handle_event env conf epfd (ready, p) s = Inr t \<Longrightarrow> srv_reach conf epfds s0 t"

lemma srv_reach_ok: "srv_reach conf epfds s0 s \<Longrightarrow> srv_ok s0 \<Longrightarrow> srv_ok s"
proof (induction rule: srv_reach.induct)
  case (accept s epfd env ac ptr t)
  then show ?case
    using accept_client_ok [of s env "the ac" ptr epfd] accept_fail_ok [of s env ptr epfd t]
    by (cases ac) (auto simp: new_client_def)
next
  case (event s epfd env f ev p ready t)
  then show ?case using handle_event_ok [of s env epfd f ev p conf ready t] by blast
qed

definition no_conns :: "srv \<Rightarrow> bool" where
  "no_conns s = (sv_interest s = (\<lambda>_. None) \<and> sv_flags s = (\<lambda>_. None) \<and> log_ok (sv_log s))"

text \<open>
  C14. Whatever the clients send, whichever events the workers see and in whatever order they
  and the accepting thread run: as long as no handler leaves defined behaviour, every open
  socket is registered with exactly one worker, for reading or for writing and never both,
  no closed socket is registered, and the pointer a registration carries is that of an
  allocated request with this very descriptor; a socket registered for writing has a parsed
  request.
\<close>

theorem server_registers_each_socket_once:
  assumes "no_conns s0" and "srv_reach conf epfds s0 s"
  shows "sound_regs (sv_interest s) (open_fds s)
    \<and> (\<forall>e f ev p. sv_interest s (e, f) = Some (ev, p) \<longrightarrow>
        (\<exists>r. sv_reqs s p = Some r \<and> rq_fd r = f \<and> (ev = word_of_int EPOLLOUT \<longrightarrow> parsed r)))"
proof -
  have "srv_ok s0" using assms(1) by (simp add: no_conns_def srv_ok_def sound_regs_def open_fds_def)
  from srv_reach_ok [OF assms(2) this] show ?thesis unfolding srv_ok_def by blast
qed

definition srv_start :: srv where
  "srv_start = srv0\<lparr>sv_reqs := (\<lambda>_. None), sv_flags := (\<lambda>_. None), sv_interest := (\<lambda>_. None)\<rparr>"

definition client1 :: client where
  "client1 = \<lparr>cl_fd = 5, cl_ip = ''10.0.0.1'', cl_port = 4000\<rparr>"

lemma srv_start_facts: "no_conns srv_start" "srv_ok srv_start" "new_client (env1, Some client1, 7) srv_start"
  by (simp_all add: no_conns_def srv_start_def srv0_def no_log_ok srv_ok_def sound_regs_def open_fds_def
      new_client_def client1_def quiet_def env1_def)

lemma server_registers_each_socket_once_witness:
  "\<exists>s r. srv_reach conf1 [3] srv_start s \<and> open_fds s = {5} \<and> sv_interest s (3, 5) = Some (word_of_int EPOLLIN, 7)
    \<and> sv_reqs s 7 = Some r \<and> rq_fd r = 5"
proof -
  obtain t where t: "accept_client env1 (Some client1) 7 3 srv_start = Inr t"
    "sv_interest t = (sv_interest srv_start)((3, 5) \<mapsto> (word_of_int EPOLLIN, 7))"
    "open_fds t = insert 5 (open_fds srv_start)"
    using accept_client_ok [OF srv_start_facts(2), of env1 client1 7 3] srv_start_facts(3)
    by (auto simp: new_client_def client1_def)
  have "srv_reach conf1 [3] srv_start t"
    by (rule srv_reach.accept [OF srv_reach.start _ srv_start_facts(3) t(1)]) simp
  moreover have i: "sv_interest t (3, 5) = Some (word_of_int EPOLLIN, 7)" using t(2) by simp
  moreover have "open_fds t = {5}" using t(3) by (simp add: open_fds_def srv_start_def)
  moreover obtain r where "sv_reqs t 7 = Some r" "rq_fd r = 5"
    using server_registers_each_socket_once [OF srv_start_facts(1) \<open>srv_reach conf1 [3] srv_start t\<close>] i by blast
  ultimately show ?thesis by blast
qed

definition new_clients :: "(env \<times> client option \<times> nat) list \<Rightarrow> srv \<Rightarrow> bool" where
  "new_clients acs s =
     ((\<forall>a\<in>set acs. new_client a s \<and> fst (snd a) \<noteq> None)
      \<and> distinct (map (\<lambda>a. cl_fd (the (fst (snd a)))) acs) \<and> distinct (map (snd \<circ> snd) acs))"

lemma accept_round_run:
  assumes "srv_ok s" and "new_clients acs s" and "length acs = length epfds"
  shows "\<exists>t. accept_round acs epfds s = Inr t \<and> srv_ok t
    \<and> (\<forall>e. \<forall>f\<in>open_fds s. sv_interest t (e, f) = sv_interest s (e, f))
    \<and> (\<forall>i<length epfds. sv_interest t (epfds ! i, cl_fd (the (fst (snd (acs ! i)))))
         = Some (word_of_int EPOLLIN, snd (snd (acs ! i))))"
  using assms
proof (induction acs epfds arbitrary: s rule: list_induct2')
  case (4 a acs e epfds)
  obtain env c ptr where a: "a = (env, Some c, ptr)"
    using "4.prems"(2) by (cases a) (auto simp: new_clients_def)
  have n: "new_client (env, Some c, ptr) s" using "4.prems"(2) a by (simp add: new_clients_def)
  obtain s1 where s1: "accept_client env (Some c) ptr e s = Inr s1" "srv_ok s1"
    "sv_interest s1 = (sv_interest s)((e, cl_fd c) \<mapsto> (word_of_int EPOLLIN, ptr))"
    "open_fds s1 = insert (cl_fd c) (open_fds s)" "\<forall>q. q \<noteq> ptr \<longrightarrow> sv_reqs s1 q = sv_reqs s q"
    using accept_client_ok [OF "4.prems"(1), of env c ptr e] n by (auto simp: new_client_def)
  have "new_client b s1" if b: "b \<in> set acs" for b
  proof -
    have "new_client b s" "fst (snd b) \<noteq> None" "snd (snd b) \<noteq> ptr" "cl_fd (the (fst (snd b))) \<noteq> cl_fd c"
      using "4.prems"(2) a b by (auto simp: new_clients_def image_iff)
    then show ?thesis using s1(4,5) by (cases b) (auto simp: new_client_def)
  qed
  then have "new_clients acs s1" using "4.prems"(2) by (auto simp: new_clients_def)
  with "4.IH" [of s1] s1(2) "4.prems"(3) obtain t where t: "accept_round acs epfds s1 = Inr t" "srv_ok t"
    "\<forall>e. \<forall>f\<in>open_fds s1. sv_interest t (e, f) = sv_interest s1 (e, f)"
    "\<forall>i<length epfds. sv_interest t (epfds ! i, cl_fd (the (fst (snd (acs ! i)))))
         = Some (word_of_int EPOLLIN, snd (snd (acs ! i)))" by auto
  have "accept_round (a # acs) (e # epfds) s = Inr t" using a s1(1) t(1) by simp
  moreover have "cl_fd c \<notin> open_fds s" using n by (simp add: new_client_def)
  ultimately show ?case
    using t s1(3,4) a by (auto simp: nth_Cons split: nat.split)
qed auto

text \<open>
  C27. One pass of the accept loop hands the accepted connections to the workers in turn: the
  i-th connection is registered for reading with the i-th worker, with its own request
  structure, and the connections the server already had are left as they are.
\<close>

theorem accept_round_serves_workers_in_turn:
  assumes "srv_ok s" and "new_clients acs s" and "length acs = length epfds"
  shows "\<exists>t. accept_round acs epfds s = Inr t
    \<and> (\<forall>e. \<forall>f\<in>open_fds s. sv_interest t (e, f) = sv_interest s (e, f))
    \<and> (\<forall>i<length epfds. sv_interest t (epfds ! i, cl_fd (the (fst (snd (acs ! i)))))
         = Some (word_of_int EPOLLIN, snd (snd (acs ! i))))"
  using accept_round_run [OF assms] by blast

lemma accept_round_serves_workers_in_turn_witness:
  "\<exists>t. accept_round [(env1, Some client1, 7), (env1, Some (client1\<lparr>cl_fd := 6\<rparr>), 8)] [3, 4] srv_start = Inr t
    \<and> sv_interest t (4, 6) = Some (word_of_int EPOLLIN, 8)"
proof -
  define acs where "acs = [(env1, Some client1, 7::nat), (env1, Some (client1\<lparr>cl_fd := 6\<rparr>), 8)]"
  have "new_clients acs srv_start"
    using srv_start_facts(3)
    by (simp add: acs_def new_clients_def new_client_def client1_def open_fds_def srv_start_def)
  from accept_round_serves_workers_in_turn [OF srv_start_facts(2) this, of "[3, 4]"]
  obtain t where t: "accept_round acs [3, 4] srv_start = Inr t"
    "\<forall>i<length [3::int, 4]. sv_interest t ([3, 4] ! i, cl_fd (the (fst (snd (acs ! i)))))
       = Some (word_of_int EPOLLIN, snd (snd (acs ! i)))" by (auto simp: acs_def)
  from t(2) have "sv_interest t ([3, 4] ! 1, cl_fd (the (fst (snd (acs ! 1)))))
       = Some (word_of_int EPOLLIN, snd (snd (acs ! 1)))" by (rule allE [of _ 1]) simp
  with t(1) show ?thesis by (intro exI [of _ t]) (simp add: acs_def)
qed

end
