(* ===== verification/V3_Lock.thy ===== *)
theory V3_Lock
  imports Prelude
begin

section \<open>version\_03: mutexes and semaphores\<close>

text \<open>
  version\_03/lock/lock.h. The classes wrap one pthread object each. A mutex is free or held;
  locking a held one waits, unlocking a free one is undefined. A semaphore is its value. The
  constructors throw when the initialisation fails. A condition variable is the list of the
  threads that sleep on it; going to sleep and giving the mutex back are one step.
\<close>

type_synonym mutex = bool \<comment> \<open>held\<close>
type_synonym sem = nat

definition std_exception :: fault where "std_exception = Die ''std::exception''"

definition locker_init :: "int \<Rightarrow> mutex res" where
  "locker_init rc = (if rc \<noteq> 0 then Inl std_exception else Inr False)"

definition locker_lock :: "mutex \<Rightarrow> mutex res" where
  "locker_lock m = (if m then Inl Blocked else Inr True)"

definition locker_unlock :: "mutex \<Rightarrow> mutex res" where
  "locker_unlock m = (if m then Inr False else Inl NotLocked)"

definition sem_init :: "int \<Rightarrow> nat \<Rightarrow> sem res" where
  "sem_init rc num = (if rc \<noteq> 0 then Inl std_exception else Inr num)"

definition sem_wait :: "sem \<Rightarrow> sem res" where
  "sem_wait s = (case s of 0 \<Rightarrow> Inl Blocked | Suc n \<Rightarrow> Inr n)"

definition sem_post :: "sem \<Rightarrow> sem" where
  "sem_post s = Suc s"

type_synonym cond = "nat list"

definition cond_init :: "int \<Rightarrow> cond res" where
  "cond_init rc = (if rc \<noteq> 0 then Inl std_exception else Inr [])"

text \<open>
  The first half of \<open>wait\<close>, up to where thread \<open>t\<close> sleeps. It goes on when it no longer is in
  the list, and has to take the mutex again first.
\<close>

definition cond_wait :: "nat \<Rightarrow> mutex \<Rightarrow> cond \<Rightarrow> (mutex \<times> cond) res" where
  "cond_wait t m c = bindr (locker_unlock m) (\<lambda>m. Inr (m, c @ [t]))"

text \<open>\<open>signal\<close> wakes one of the sleepers, which the system chooses.\<close>

definition cond_signal :: "nat \<Rightarrow> cond \<Rightarrow> cond" where
  "cond_signal t c = remove1 t c"

definition cond_broadcast :: "cond \<Rightarrow> cond" where
  "cond_broadcast c = []"

lemma mutex_simps [simp]:
  "locker_lock False = Inr True" "locker_lock True = Inl Blocked"
  "locker_unlock True = Inr False" "locker_unlock False = Inl NotLocked"
  by (simp_all add: locker_lock_def locker_unlock_def)

end
