(* ===== verification/V3_BlockQueue.thy ===== *)
theory V3_BlockQueue
  imports V3_Lock Fifo Cstring
begin

section \<open>version\_03: the blocking queue\<close>

text \<open>
  version\_03/log/block\_queue.h: a circular array with a front index that points one before
  the first element and a back index that points at the last. Every operation locks and
  unlocks the mutex of the queue; \<open>m_front\<close> and \<open>m_back\<close> start at -1.
\<close>

record 'a block_queue =
  m_mutex :: mutex
  m_array :: "'a list"
  m_size :: int
  m_max_size :: int
  m_front :: int
  m_back :: int

text \<open>\<open>new T[n]\<close>: the elements are what the default constructor gives.\<close>

definition block_queue_new :: "(nat \<Rightarrow> 'a) \<Rightarrow> int \<Rightarrow> 'a block_queue res" where
  "block_queue_new mk max_size =
     (if max_size \<le> 0 then Inl (Die ''exit(-1)'')
      else Inr \<lparr>m_mutex = False, m_array = map mk [0..<nat max_size], m_size = 0,
        m_max_size = max_size, m_front = -1, m_back = -1\<rparr>)"

definition bq_lock :: "'a block_queue \<Rightarrow> 'a block_queue res" where
  "bq_lock q = bindr (locker_lock (m_mutex q)) (\<lambda>m. Inr (q\<lparr>m_mutex := m\<rparr>))"

definition bq_unlock :: "'a block_queue \<Rightarrow> 'a block_queue res" where
  "bq_unlock q = bindr (locker_unlock (m_mutex q)) (\<lambda>m. Inr (q\<lparr>m_mutex := m\<rparr>))"

definition bq_clear :: "'a block_queue \<Rightarrow> 'a block_queue res" where
  "bq_clear q = bindr (bq_lock q) (\<lambda>q. bq_unlock (q\<lparr>m_size := 0, m_front := -1, m_back := -1\<rparr>))"

definition bq_max_size :: "'a block_queue \<Rightarrow> (int \<times> 'a block_queue) res" where
  "bq_max_size q = bindr (bq_lock q) (\<lambda>q. bindr (bq_unlock q) (\<lambda>q'. Inr (m_max_size q, q')))"

definition bq_size :: "'a block_queue \<Rightarrow> (int \<times> 'a block_queue) res" where
  "bq_size q = bindr (bq_lock q) (\<lambda>q. bindr (bq_unlock q) (\<lambda>q'. Inr (m_size q, q')))"

definition bq_full :: "'a block_queue \<Rightarrow> (bool \<times> 'a block_queue) res" where
  "bq_full q = bindr (bq_lock q) (\<lambda>q.
     if m_size q \<ge> m_max_size q then bindr (bq_unlock q) (\<lambda>q. Inr (True, q))
     else bindr (bq_unlock q) (\<lambda>q. Inr (False, q)))"

definition bq_empty :: "'a block_queue \<Rightarrow> (bool \<times> 'a block_queue) res" where
  "bq_empty q = bindr (bq_lock q) (\<lambda>q.
     if m_size q = 0 then bindr (bq_unlock q) (\<lambda>q. Inr (True, q))
     else bindr (bq_unlock q) (\<lambda>q. Inr (False, q)))"

text \<open>The value stored through the reference parameter, if any.\<close>

definition bq_front :: "'a block_queue \<Rightarrow> ('a option \<times> 'a block_queue) res" where
  "bq_front q = bindr (bq_lock q) (\<lambda>q.
     if m_size q = 0 then bindr (bq_unlock q) (\<lambda>q. Inr (None, q))
     else bindr (rd (m_array q) (m_front q)) (\<lambda>v. bindr (bq_unlock q) (\<lambda>q. Inr (Some v, q))))"

definition bq_back :: "'a block_queue \<Rightarrow> ('a option \<times> 'a block_queue) res" where
  "bq_back q = bindr (bq_lock q) (\<lambda>q.
     if m_size q = 0 then bindr (bq_unlock q) (\<lambda>q. Inr (None, q))
     else bindr (rd (m_array q) (m_back q)) (\<lambda>v. bindr (bq_unlock q) (\<lambda>q. Inr (Some v, q))))"

definition bq_push :: "'a \<Rightarrow> 'a block_queue \<Rightarrow> (bool \<times> 'a block_queue) res" where
  "bq_push value q = bindr (bq_lock q) (\<lambda>q.
     if m_size q \<ge> m_max_size q then bindr (bq_unlock q) (\<lambda>q. Inr (False, q))
     else
       let back = (m_back q + 1) mod m_max_size q in
       if 0 \<le> back \<and> back < int (length (m_array q)) then
         bindr (bq_unlock (q\<lparr>m_back := back, m_array := (m_array q)[nat back := value],
                            m_size := m_size q + 1\<rparr>)) (\<lambda>q. Inr (True, q))
       else Inl OutOfBounds)"

text \<open>\<open>wait_ok\<close>: what \<open>m_cond.wait\<close> returns if it returns without an element having come.\<close>

definition bq_pop :: "bool \<Rightarrow> 'a block_queue \<Rightarrow> ('a option \<times> 'a block_queue) res" where
  "bq_pop wait_ok q = bindr (bq_lock q) (\<lambda>q.
     if m_size q \<le> 0 then
       (if wait_ok then Inl Blocked else bindr (bq_unlock q) (\<lambda>q. Inr (None, q)))
     else
       let front = (m_front q + 1) mod m_max_size q in
       bindr (rd (m_array q) front) (\<lambda>v.
       bindr (bq_unlock (q\<lparr>m_front := front, m_size := m_size q - 1\<rparr>)) (\<lambda>q. Inr (Some v, q))))"

subsection \<open>The list in the array\<close>

definition bq_slot :: "'a block_queue \<Rightarrow> nat \<Rightarrow> nat" where
  "bq_slot q i = nat ((m_front q + 1 + int i) mod m_max_size q)"

definition bq_items :: "'a block_queue \<Rightarrow> 'a list" where
  "bq_items q = map (\<lambda>i. m_array q ! bq_slot q i) [0..<nat (m_size q)]"

definition bq_ok :: "'a block_queue \<Rightarrow> bool" where
  "bq_ok q =
     (\<not> m_mutex q \<and> 0 < m_max_size q \<and> length (m_array q) = nat (m_max_size q)
      \<and> 0 \<le> m_size q \<and> m_size q \<le> m_max_size q \<and> -1 \<le> m_front q \<and> m_front q < m_max_size q
      \<and> -1 \<le> m_back q \<and> m_back q < m_max_size q
      \<and> (m_front q + m_size q) mod m_max_size q = m_back q mod m_max_size q
      \<and> (0 < m_size q \<longrightarrow> 0 \<le> m_back q))"

definition bq_room :: "'a block_queue \<Rightarrow> bool" where
  "bq_room q = (m_size q < m_max_size q)"

definition bq_bound :: "'a block_queue \<Rightarrow> nat" where
  "bq_bound q = nat (m_max_size q)"

lemma bq_items_length: "bq_ok q \<Longrightarrow> length (bq_items q) = nat (m_size q)"
  by (simp add: bq_items_def)

lemma block_queue_new_ok:
  "block_queue_new mk n = Inr q \<Longrightarrow> bq_ok q \<and> bq_items q = [] \<and> bq_bound q = nat n"
  by (auto simp: block_queue_new_def bq_ok_def bq_items_def bq_bound_def split: if_splits)

lemma bq_slot_lt: "bq_ok q \<Longrightarrow> bq_slot q i < length (m_array q)"
  by (simp add: bq_ok_def bq_slot_def nat_less_iff)

lemma bq_slot_inj:
  assumes "bq_ok q" and "i < j" and "int j < m_max_size q"
  shows "bq_slot q i \<noteq> bq_slot q j"
proof
  let ?m = "m_max_size q"
  assume "bq_slot q i = bq_slot q j"
  moreover have "0 < ?m" using assms(1) by (simp add: bq_ok_def)
  ultimately have "(m_front q + 1 + int i) mod ?m = (m_front q + 1 + int j) mod ?m"
    by (simp add: bq_slot_def eq_nat_nat_iff)
  then have "?m dvd int j - int i"
    by (simp add: mod_eq_dvd_iff dvd_diff_commute)
  then show False using assms(2,3) zdvd_not_zless [of "int j - int i" ?m] by simp
qed

lemma bq_push_ok:
  assumes "bq_ok q" and "bq_room q"
  shows "\<exists>q'. bq_push x q = Inr (True, q') \<and> bq_ok q' \<and> bq_items q' = bq_items q @ [x]
    \<and> m_max_size q' = m_max_size q"
proof -
  let ?m = "m_max_size q" and ?n = "nat (m_size q)"
  define bk where "bk = (m_back q + 1) mod ?m"
  define q' where "q' = q\<lparr>m_back := bk, m_array := (m_array q)[nat bk := x], m_size := m_size q + 1\<rparr>"
  have m: "0 < ?m" "int (length (m_array q)) = ?m" "0 \<le> m_size q" "m_size q < ?m"
    using assms by (auto simp: bq_ok_def bq_room_def)
  have b: "0 \<le> bk" "bk < ?m" using m by (simp_all add: bk_def)
  have r: "bq_push x q = Inr (True, q')"
    using assms m b by (simp add: bq_push_def bq_lock_def bq_unlock_def Let_def bq_ok_def bq_room_def
        q'_def flip: bk_def)
  have e: "(m_front q + m_size q) mod ?m = m_back q mod ?m" using assms(1) by (simp add: bq_ok_def)
  have e': "(m_front q + (m_size q + 1)) mod ?m = bk mod ?m"
  proof -
    have "(m_front q + (m_size q + 1)) mod ?m = ((m_front q + m_size q) mod ?m + 1) mod ?m"
      by (simp add: mod_simps add.assoc)
    then show ?thesis using e by (simp add: bk_def mod_simps)
  qed
  have ok: "bq_ok q'" using assms(1) m b e' by (simp add: bq_ok_def q'_def)
  have s: "bq_slot q' i = bq_slot q i" for i by (simp add: bq_slot_def q'_def)
  have new: "nat bk = bq_slot q ?n"
    using e' m(3) b(2) by (simp add: bq_slot_def bk_def algebra_simps)
  have "m_array q' ! bq_slot q' i = m_array q ! bq_slot q i" if "i < ?n" for i
    using bq_slot_inj [OF assms(1) that] that m(3,4) new s by (simp add: q'_def)
  moreover have "m_array q' ! bq_slot q' ?n = x"
    using bq_slot_lt [OF assms(1), of ?n] new s by (simp add: q'_def)
  moreover have "nat (m_size q') = Suc ?n" using m(3) by (simp add: q'_def nat_add_distrib)
  ultimately have "bq_items q' = bq_items q @ [x]" by (simp add: bq_items_def)
  with r ok show ?thesis by (auto simp: q'_def)
qed

lemma bq_push_full:
  "bq_ok q \<Longrightarrow> \<not> bq_room q \<Longrightarrow> bq_push x q = Inr (False, q)"
  by (auto simp: bq_push_def bq_lock_def bq_unlock_def bq_ok_def bq_room_def)

lemma bq_pop_ok:
  assumes "bq_ok q" and "bq_items q = x # xs"
  shows "\<exists>q'. bq_pop w q = Inr (Some x, q') \<and> bq_ok q' \<and> bq_items q' = xs
    \<and> m_max_size q' = m_max_size q \<and> m_array q' ! nat (m_front q') = x \<and> 0 \<le> m_front q'"
proof -
  let ?m = "m_max_size q"
  define front where "front = (m_front q + 1) mod ?m"
  define q' where "q' = q\<lparr>m_front := front, m_size := m_size q - 1\<rparr>"
  obtain n where n: "nat (m_size q) = Suc n"
    using assms bq_items_length [OF assms(1)] by (cases "nat (m_size q)") auto
  have m: "0 < ?m" "int (length (m_array q)) = ?m" "0 < m_size q"
    using assms n by (auto simp: bq_ok_def)
  have f: "0 \<le> front" "front < ?m" "nat front = bq_slot q 0"
    using m by (simp_all add: front_def bq_slot_def)
  have x: "m_array q ! nat front = x" and xs: "xs = map (\<lambda>i. m_array q ! bq_slot q (Suc i)) [0..<n]"
  proof -
    have "[0..<Suc n] = 0 # map Suc [0..<n]" by (simp add: map_Suc_upt upt_conv_Cons del: upt_Suc)
    then show "m_array q ! nat front = x" "xs = map (\<lambda>i. m_array q ! bq_slot q (Suc i)) [0..<n]"
      using assms(2) f(3) n by (auto simp: bq_items_def simp del: upt_Suc)
  qed
  have r: "bq_pop w q = Inr (Some x, q')"
    using assms m f x by (simp add: bq_pop_def bq_lock_def bq_unlock_def Let_def bq_ok_def rd_def
        q'_def flip: front_def)
  have "(front + (m_size q - 1)) mod ?m = (m_front q + m_size q) mod ?m"
    by (simp add: front_def mod_simps)
  then have ok: "bq_ok q'" using assms(1) m f by (simp add: bq_ok_def q'_def)
  have "(front + (1 + int i)) mod ?m = (m_front q + 1 + (1 + int i)) mod ?m" for i
    unfolding front_def by (rule mod_add_left_eq)
  then have "bq_slot q' i = bq_slot q (Suc i)" for i
    by (simp add: bq_slot_def q'_def add.assoc)
  then have "bq_items q' = xs" using n m(3) xs by (simp add: bq_items_def q'_def nat_diff_distrib)
  with r ok x f(1) show ?thesis by (simp add: q'_def)
qed

lemma bq_pop_empty:
  "bq_ok q \<Longrightarrow> bq_items q = [] \<Longrightarrow> bq_pop w q = (if w then Inl Blocked else Inr (None, q))"
  using bq_items_length [of q] by (auto simp: bq_pop_def bq_lock_def bq_unlock_def bq_ok_def)

subsection \<open>A bounded first-in first-out queue\<close>

definition bq_deq :: "'a block_queue \<Rightarrow> ('a \<times> 'a block_queue) res" where
  "bq_deq q = bindr (bq_pop True q) (\<lambda>(v, q). case v of None \<Rightarrow> Inl Blocked | Some x \<Rightarrow> Inr (x, q))"

interpretation bq: bounded_fifo bq_items bq_ok bq_room bq_push bq_deq bq_bound
proof unfold_locales
  fix q :: "'a block_queue" and x xs
  assume "bq_ok q" "bq_items q = x # xs"
  then show "\<exists>q'. bq_deq q = Inr (x, q') \<and> bq_ok q' \<and> bq_items q' = xs"
    using bq_pop_ok [of q x xs True] by (auto simp: bq_deq_def)
next
  fix q q' :: "'a block_queue" and x b
  assume q: "bq_ok q" "bq_push x q = Inr (b, q')"
  then show "bq_bound q' = bq_bound q"
    using bq_push_ok [of q x] bq_push_full [of q x] by (cases "bq_room q") (auto simp: bq_bound_def)
next
  fix q q' :: "'a block_queue" and x
  assume q: "bq_ok q" "bq_deq q = Inr (x, q')"
  then show "bq_bound q' = bq_bound q"
    using bq_pop_ok [of q _ _ True] bq_pop_empty [of q True]
    by (cases "bq_items q") (auto simp: bq_bound_def bq_deq_def)
next
  fix q :: "'a block_queue" and x
  assume "bq_ok q" "bq_room q"
  then show "\<exists>q'. bq_push x q = Inr (True, q') \<and> bq_ok q' \<and> bq_items q' = bq_items q @ [x]"
    using bq_push_ok [of q x] by blast
next
  fix q :: "'a block_queue" assume q: "bq_ok q"
  then show "bq_room q \<longleftrightarrow> length (bq_items q) < bq_bound q"
    by (auto simp: bq_items_length bq_room_def bq_bound_def bq_ok_def nat_less_iff)
qed (auto simp: bq_push_full bq_deq_def bq_pop_empty)

lemma bq_observers:
  assumes "bq_ok q"
  shows "bq_size q = Inr (int (length (bq_items q)), q)" "bq_max_size q = Inr (int (bq_bound q), q)"
    "bq_full q = Inr (length (bq_items q) = bq_bound q, q)" "bq_empty q = Inr (bq_items q = [], q)"
  using assms bq_items_length [OF assms]
  by (auto simp: bq_size_def bq_max_size_def bq_full_def bq_empty_def bq_lock_def bq_unlock_def bq_ok_def
      bq_bound_def bq_items_def)

lemma bq_clear_ok: "bq_ok q \<Longrightarrow> \<exists>q'. bq_clear q = Inr q' \<and> bq_ok q' \<and> bq_items q' = []"
  by (simp add: bq_clear_def bq_lock_def bq_unlock_def bq_ok_def bq_items_def)

lemma bq_back_last:
  assumes "bq_ok q" and "bq_items q \<noteq> []"
  shows "bq_back q = Inr (Some (last (bq_items q)), q)"
proof -
  obtain n where n: "nat (m_size q) = Suc n"
    using assms bq_items_length [OF assms(1)] by (cases "nat (m_size q)") auto
  then have i: "m_size q = int n + 1" by linarith
  have "nat (m_back q) = bq_slot q n"
    using assms(1) i by (auto simp: bq_ok_def bq_slot_def algebra_simps)
  moreover have "last (bq_items q) = m_array q ! bq_slot q n" using n by (simp add: bq_items_def)
  ultimately show ?thesis
    using assms(1) i by (auto simp: bq_back_def bq_lock_def bq_unlock_def bq_ok_def rd_def)
qed

text \<open>
  C18. Every sequence of pushes and pops on a new queue of n places: the popped elements are
  the accepted ones in order, what is left is in the queue, the queue never holds more than
  n elements, a push is refused only when it holds n, and a run that does not finish is
  waiting for an element. The mutex is free after every operation.
\<close>

theorem block_queue_is_bounded_fifo:
  assumes "block_queue_new mk n = Inr q"
  shows "case run_ops bq_push bq_deq ops q of
      Inl e \<Rightarrow> e = Blocked
    | Inr (acc, out, q') \<Rightarrow> acc = out @ bq_items q' \<and> length (bq_items q') \<le> nat n \<and> \<not> m_mutex q'
        \<and> (\<forall>x. (\<exists>q''. bq_push x q' = Inr (False, q'')) \<longleftrightarrow> length (bq_items q') = nat n)"
proof (cases "run_ops bq_push bq_deq ops q")
  case (Inl e)
  then show ?thesis
    using bq.run_only_blocks [OF _ Inl] block_queue_new_ok [OF assms] by simp
next
  case (Inr r)
  obtain acc out q' where r: "r = (acc, out, q')" by (cases r)
  have q: "bq_ok q" "bq_items q = []" "bq_bound q = nat n" using block_queue_new_ok [OF assms] by auto
  have "bq_ok q'" "acc = out @ bq_items q'"
    using bq.run_fifo [OF q(1) Inr [unfolded r]] q(2) by auto
  moreover have "bq_bound q' = nat n" "length (bq_items q') \<le> nat n"
    using bq.run_within_bound [OF q(1) _ Inr [unfolded r]] q(2,3) by auto
  moreover have "(\<exists>q''. bq_push x q' = Inr (False, q'')) \<longleftrightarrow> \<not> bq_room q'" for x
    using bq_push_ok [OF \<open>bq_ok q'\<close>, of x] bq_push_full [OF \<open>bq_ok q'\<close>, of x] by (cases "bq_room q'") auto
  moreover have "\<not> bq_room q' \<longleftrightarrow> length (bq_items q') = nat n"
    using bq.room_iff [OF \<open>bq_ok q'\<close>] calculation(3,4) by linarith
  ultimately show ?thesis using Inr r by (simp add: bq_ok_def)
qed

lemma block_queue_is_bounded_fifo_witness:
  "case block_queue_new (\<lambda>_. 0) 2 of Inl e \<Rightarrow> False
   | Inr q \<Rightarrow> (case run_ops bq_push bq_deq [Enq 1, Enq 2, Enq (3::nat), Deq, Enq 4] q of
        Inl e \<Rightarrow> False
      | Inr (acc, out, q') \<Rightarrow> acc = [1, 2, 4] \<and> out = [1] \<and> bq_items q' = [2, 4])"
  using block_queue_is_bounded_fifo [of "\<lambda>_. 0 :: nat" 2 _ "[Enq 1, Enq 2, Enq 3, Deq, Enq 4]"]
  by (simp add: block_queue_new_def bq_push_def bq_lock_def bq_unlock_def bq_deq_def bq_pop_def rd_def upt_rec)

text \<open>
  \<open>front\<close> does not give the front element: the index points one before it. Before the
  first pop it reads \<open>m_array[-1]\<close>; right after a pop it gives the element that was just
  removed instead of the next one. \<open>back\<close> gives the last element.
\<close>

theorem front_is_one_behind:
  assumes "bq_ok q" and "bq_items q = x # y # xs"
  shows "(m_front q = -1 \<longrightarrow> bq_front q = Inl OutOfBounds)
    \<and> (\<exists>q'. bq_pop w q = Inr (Some x, q') \<and> bq_items q' = y # xs \<and> bq_front q' = Inr (Some x, q'))
    \<and> bq_back q = Inr (Some (last (bq_items q)), q)"
proof -
  have n: "m_size q \<noteq> 0" "\<not> m_mutex q" using assms bq_items_length [OF assms(1)] by (auto simp: bq_ok_def)
  obtain q' where q': "bq_pop w q = Inr (Some x, q')" "bq_ok q'" "bq_items q' = y # xs"
    "m_array q' ! nat (m_front q') = x" "0 \<le> m_front q'" using bq_pop_ok [OF assms] by blast
  have "m_size q' \<noteq> 0" using q'(3) bq_items_length [OF q'(2)] by auto
  then have "bq_front q' = Inr (Some x, q')"
    using q' by (auto simp: bq_front_def bq_lock_def bq_unlock_def bq_ok_def rd_def)
  moreover have "m_front q = -1 \<longrightarrow> bq_front q = Inl OutOfBounds"
    using n by (simp add: bq_front_def bq_lock_def)
  ultimately show ?thesis using q' bq_back_last [OF assms(1)] assms(2) by auto
qed

definition bq12 :: "nat block_queue" where
  "bq12 = \<lparr>m_mutex = False, m_array = [1, 2, 0], m_size = 2, m_max_size = 3, m_front = -1, m_back = 1\<rparr>"

lemma front_is_one_behind_witness:
  "bq_front bq12 = Inl OutOfBounds
    \<and> (\<exists>q'. bq_pop True bq12 = Inr (Some 1, q') \<and> bq_items q' = [2] \<and> bq_front q' = Inr (Some 1, q'))"
proof -
  have "bq_ok bq12" "bq_items bq12 = [1, 2]" "m_front bq12 = -1"
    by (simp_all add: bq_ok_def bq_items_def bq12_def bq_slot_def upt_rec)
  with front_is_one_behind [of bq12 1 2 "[]" True] show ?thesis by simp
qed

end
