(* ===== verification/V3_Pools.thy ===== *)
theory V3_Pools
  imports V3_Lock Fifo "HOL-Library.Multiset"
begin

section \<open>version\_03: the pools of database connections and of threads\<close>

text \<open>
  version\_03/CGImysql/sql\_connection\_pool.cpp and version\_03/threadpool/threadpool.h. Both
  guard a list with a mutex and count its elements with a semaphore, and both leave the
  mutex before or take it after the semaphore, so the two are models of interleaved steps:
  a step is what a thread does between two points where another may run. Database
  connections and requests are numbers.
\<close>

subsection \<open>One thread among many\<close>

lemma sum_list_update:
  fixes f :: "'a \<Rightarrow> 'b :: comm_monoid_add"
  assumes "i < length xs"
  shows "sum_list (map f (xs[i := y])) + f (xs ! i) = sum_list (map f xs) + f y"
proof -
  obtain as x bs where xs: "xs = as @ x # bs" "length as = i"
    using assms by (metis id_take_nth_drop length_take less_imp_le min.absorb2)
  then have "xs ! i = x" "xs[i := y] = as @ y # bs" by auto
  with xs show ?thesis by (simp add: ac_simps)
qed

lemma sum_list_ge_nth: "i < length xs \<Longrightarrow> f (xs ! i) \<le> sum_list (map f xs)" for f :: "'a \<Rightarrow> nat"
  using elem_le_sum_list [of i "map f xs"] by simp

subsection \<open>The connection pool\<close>

record connection_pool =
  cp_MaxConn :: "32 word"
  cp_CurConn :: "32 word"
  cp_FreeConn :: "32 word"
  cp_lock :: mutex
  cp_connList :: "nat list"
  cp_reserve :: sem

definition connection_pool_new :: connection_pool where
  "connection_pool_new = \<lparr>cp_MaxConn = 0, cp_CurConn = 0, cp_FreeConn = 0, cp_lock = False,
     cp_connList = [], cp_reserve = 0\<rparr>"

text \<open>\<open>connect i\<close>: the i-th call of \<open>mysql_init\<close> and \<open>mysql_real_connect\<close>.\<close>

fun pool_fill :: "(nat \<Rightarrow> nat option) \<Rightarrow> nat list \<Rightarrow> connection_pool \<Rightarrow> connection_pool res" where
  "pool_fill connect [] p = Inr p"
| "pool_fill connect (i # is) p =
     (case connect i of
        None \<Rightarrow> Inl (Die ''Error:'')
      | Some con \<Rightarrow>
          pool_fill connect is (p\<lparr>cp_connList := cp_connList p @ [con], cp_FreeConn := cp_FreeConn p + 1\<rparr>))"

definition pool_init :: "(nat \<Rightarrow> nat option) \<Rightarrow> 32 word \<Rightarrow> connection_pool \<Rightarrow> connection_pool res" where
  "pool_init connect MaxConn p =
     bindr (locker_lock (cp_lock p)) (\<lambda>m.
     bindr (pool_fill connect [0..<unat MaxConn] (p\<lparr>cp_lock := m\<rparr>)) (\<lambda>p.
     let p = p\<lparr>cp_reserve := unat (cp_FreeConn p), cp_MaxConn := cp_FreeConn p\<rparr> in
     bindr (locker_unlock (cp_lock p)) (\<lambda>m. Inr (p\<lparr>cp_lock := m\<rparr>))))"

text \<open>The critical sections of \<open>GetConnection\<close> and \<open>ReleaseConnection\<close>. \<open>front\<close> and
  \<open>pop_front\<close> of an empty list are undefined.\<close>

definition pool_take :: "connection_pool \<Rightarrow> (nat \<times> connection_pool) res" where
  "pool_take p =
     bindr (locker_lock (cp_lock p)) (\<lambda>m.
     case cp_connList p of
       [] \<Rightarrow> Inl OutOfBounds
     | con # rest \<Rightarrow>
         bindr (locker_unlock m) (\<lambda>m.
         Inr (con, p\<lparr>cp_lock := m, cp_connList := rest, cp_FreeConn := cp_FreeConn p - 1,
                     cp_CurConn := cp_CurConn p + 1\<rparr>)))"

definition pool_put :: "nat \<Rightarrow> connection_pool \<Rightarrow> connection_pool res" where
  "pool_put con p =
     bindr (locker_lock (cp_lock p)) (\<lambda>m.
     bindr (locker_unlock m) (\<lambda>m.
     Inr (p\<lparr>cp_lock := m, cp_connList := cp_connList p @ [con], cp_FreeConn := cp_FreeConn p + 1,
            cp_CurConn := cp_CurConn p - 1\<rparr>)))"

definition GetConnection :: "connection_pool \<Rightarrow> (nat option \<times> connection_pool) res" where
  "GetConnection p =
     (if length (cp_connList p) = 0 then Inr (None, p)
      else bindr (sem_wait (cp_reserve p)) (\<lambda>r.
           bindr (pool_take (p\<lparr>cp_reserve := r\<rparr>)) (\<lambda>(con, p). Inr (Some con, p))))"

definition ReleaseConnection :: "nat option \<Rightarrow> connection_pool \<Rightarrow> (bool \<times> connection_pool) res" where
  "ReleaseConnection con p =
     (case con of
        None \<Rightarrow> Inr (False, p)
      | Some c \<Rightarrow>
          bindr (pool_put c p) (\<lambda>p. Inr (True, p\<lparr>cp_reserve := sem_post (cp_reserve p)\<rparr>)))"

text \<open>Closing the connections leaves no trace in the pool.\<close>

definition DestroyPool :: "connection_pool \<Rightarrow> connection_pool res" where
  "DestroyPool p =
     bindr (locker_lock (cp_lock p)) (\<lambda>m.
     let p = p\<lparr>cp_lock := m\<rparr> in
     bindr
       (if length (cp_connList p) > 0 then
          let p = p\<lparr>cp_CurConn := 0, cp_FreeConn := 0, cp_connList := []\<rparr> in
          bindr (locker_unlock (cp_lock p)) (\<lambda>m. Inr (p\<lparr>cp_lock := m\<rparr>))
        else Inr p) (\<lambda>p.
     bindr (locker_unlock (cp_lock p)) (\<lambda>m. Inr (p\<lparr>cp_lock := m\<rparr>))))"

definition GetFreeConn :: "connection_pool \<Rightarrow> 32 word" where
  "GetFreeConn p = cp_FreeConn p"

text \<open>
  \<open>DestroyPool\<close>, which the destructor of the pool calls, unlocks its mutex twice when
  there are connections to close: in that case it leaves defined behaviour. It is correct
  for an empty pool only.
\<close>

theorem destroy_pool_unlocks_twice:
  assumes "\<not> cp_lock p"
  shows "DestroyPool p = (if cp_connList p = [] then Inr p else Inl NotLocked)"
  using assms by (simp add: DestroyPool_def Let_def)

lemma destroy_pool_unlocks_twice_witness:
  "DestroyPool (connection_pool_new\<lparr>cp_connList := [4]\<rparr>) = Inl NotLocked"
  by (subst destroy_pool_unlocks_twice) (simp_all add: connection_pool_new_def)

subsection \<open>Threads using the connection pool\<close>

text \<open>
  Where a thread is: outside; past the test of the list in \<open>GetConnection\<close>; past the wait for
  the semaphore; using a connection; past the critical section of \<open>ReleaseConnection\<close>.
\<close>

datatype conn_pc = Outside | Tested | Reserved | Uses nat | Returned

record conn_sys =
  cs_pool :: connection_pool
  cs_pcs :: "conn_pc list"

datatype conn_event = TestList nat | Reserve nat | TakeConn nat | ReturnConn nat | PostConn nat

definition conn_step :: "conn_event \<Rightarrow> conn_sys \<Rightarrow> conn_sys res" where
  "conn_step ev s =
     (let p = cs_pool s; at = (\<lambda>t pc. t < length (cs_pcs s) \<and> cs_pcs s ! t = pc);
          go = (\<lambda>t pc p. Inr (s\<lparr>cs_pool := p, cs_pcs := (cs_pcs s)[t := pc]\<rparr>)) in
      case ev of
        TestList t \<Rightarrow>
          if at t Outside then (if length (cp_connList p) = 0 then Inr s else go t Tested p) else Inl Blocked
      | Reserve t \<Rightarrow>
          if at t Tested then bindr (sem_wait (cp_reserve p)) (\<lambda>r. go t Reserved (p\<lparr>cp_reserve := r\<rparr>))
          else Inl Blocked
      | TakeConn t \<Rightarrow>
          if at t Reserved then bindr (pool_take p) (\<lambda>(con, p). go t (Uses con) p) else Inl Blocked
      | ReturnConn t \<Rightarrow>
          (if t < length (cs_pcs s) then
             (case cs_pcs s ! t of
                Uses con \<Rightarrow> bindr (pool_put con p) (go t Returned)
              | _ \<Rightarrow> Inl Blocked)
           else Inl Blocked)
      | PostConn t \<Rightarrow>
          if at t Returned then go t Outside (p\<lparr>cp_reserve := sem_post (cp_reserve p)\<rparr>) else Inl Blocked)"

inductive conn_reach :: "conn_sys \<Rightarrow> conn_sys \<Rightarrow> bool" where
  start: "conn_reach s s"
| step: "conn_reach s t \<Longrightarrow> conn_step ev t = Inr u \<Longrightarrow> conn_reach s u"

definition owed :: "conn_pc \<Rightarrow> nat" where
  "owed pc = (case pc of Reserved \<Rightarrow> 1 | Returned \<Rightarrow> 1 | _ \<Rightarrow> 0)"

definition held :: "conn_pc \<Rightarrow> nat multiset" where
  "held pc = (case pc of Uses c \<Rightarrow> {#c#} | _ \<Rightarrow> {#})"

lemma owed_simps [simp]:
  "owed Outside = 0" "owed Tested = 0" "owed Reserved = 1" "owed (Uses c) = 0" "owed Returned = 1"
  "held Outside = {#}" "held Tested = {#}" "held Reserved = {#}" "held (Uses c) = {#c#}" "held Returned = {#}"
  by (simp_all add: owed_def held_def)

definition conn_ok :: "nat multiset \<Rightarrow> conn_sys \<Rightarrow> bool" where
  "conn_ok conns s =
     (\<not> cp_lock (cs_pool s)
      \<and> length (cp_connList (cs_pool s)) = cp_reserve (cs_pool s) + sum_list (map owed (cs_pcs s))
      \<and> mset (cp_connList (cs_pool s)) + sum_list (map held (cs_pcs s)) = conns
      \<and> cp_FreeConn (cs_pool s) = word_of_nat (length (cp_connList (cs_pool s)))
      \<and> cp_CurConn (cs_pool s) = word_of_nat (size (sum_list (map held (cs_pcs s)))))"

lemma conn_step_ok:
  assumes ok: "conn_ok conns s"
  shows "case conn_step ev s of Inl e \<Rightarrow> e = Blocked | Inr t \<Rightarrow> conn_ok conns t"
proof -
  let ?p = "cs_pool s" and ?xs = "cs_pcs s"
  have upd: "sum_list (map owed (?xs[t := y])) + owed (?xs ! t) = sum_list (map owed ?xs) + owed y"
    "sum_list (map held (?xs[t := y])) + held (?xs ! t) = sum_list (map held ?xs) + held y"
    if "t < length ?xs" for t y using that by (simp_all add: sum_list_update)
  show ?thesis
  proof (cases ev)
    case (TestList t)
    then show ?thesis
      using ok upd [of t Tested] by (auto simp: conn_step_def Let_def conn_ok_def)
  next
    case (Reserve t)
    then show ?thesis
      using ok upd [of t Reserved]
      by (auto simp: conn_step_def Let_def conn_ok_def sem_wait_def split: nat.split)
  next
    case (TakeConn t)
    show ?thesis
    proof (cases "t < length ?xs \<and> ?xs ! t = Reserved")
      case True
      then have "1 \<le> sum_list (map owed ?xs)" using sum_list_ge_nth [of t ?xs owed] by simp
      then have "1 \<le> length (cp_connList ?p)" using ok unfolding conn_ok_def by linarith
      then obtain c cs where c: "cp_connList ?p = c # cs" by (cases "cp_connList ?p") auto
      show ?thesis
        using TakeConn True c ok upd [of t "Uses c"]
        by (simp add: conn_step_def Let_def conn_ok_def pool_take_def)
    qed (use TakeConn in \<open>auto simp: conn_step_def Let_def\<close>)
  next
    case (ReturnConn t)
    show ?thesis
    proof (cases "\<exists>c. t < length ?xs \<and> ?xs ! t = Uses c")
      case True
      then obtain c where c: "t < length ?xs" "?xs ! t = Uses c" by blast
      have h: "sum_list (map held ?xs) = add_mset c (sum_list (map held (?xs[t := Returned])))"
        using upd(2) [OF c(1), of Returned] c(2) by simp
      show ?thesis
        using ReturnConn c ok upd(1) [OF c(1), of Returned] h
        by (simp add: conn_step_def Let_def conn_ok_def pool_put_def)
    next
      case False
      then show ?thesis
        using ReturnConn by (auto simp: conn_step_def Let_def split: conn_pc.split)
    qed
  next
    case (PostConn t)
    then show ?thesis
      using ok upd [of t Outside] by (auto simp: conn_step_def Let_def conn_ok_def sem_post_def)
  qed
qed

lemma conn_reach_ok: "conn_reach s t \<Longrightarrow> conn_ok conns s \<Longrightarrow> conn_ok conns t"
proof (induction rule: conn_reach.induct)
  case (step s t ev u)
  then show ?case using conn_step_ok [of conns t ev] by simp
qed

lemma pool_fill_ok:
  "pool_fill connect is p = Inr p' \<Longrightarrow>
     cp_connList p' = cp_connList p @ map (the \<circ> connect) is
     \<and> cp_FreeConn p' = cp_FreeConn p + word_of_nat (length is) \<and> cp_lock p' = cp_lock p
     \<and> cp_CurConn p' = cp_CurConn p"
  by (induction "is" arbitrary: p) (auto split: option.splits)

definition conn_sys0 :: "connection_pool \<Rightarrow> nat \<Rightarrow> conn_sys" where
  "conn_sys0 p n = \<lparr>cs_pool = p, cs_pcs = replicate n Outside\<rparr>"

lemma conn_sys0_ok:
  assumes "pool_init connect n connection_pool_new = Inr p"
  shows "conn_ok (mset (map (the \<circ> connect) [0..<unat n])) (conn_sys0 p k) \<and> cp_MaxConn p = n"
proof -
  obtain q where q: "pool_fill connect [0..<unat n] (connection_pool_new\<lparr>cp_lock := True\<rparr>) = Inr q"
    using assms by (auto simp: pool_init_def bindr_eq_Inr connection_pool_new_def)
  from pool_fill_ok [OF q] have f: "cp_connList q = map (the \<circ> connect) [0..<unat n]"
    "cp_FreeConn q = n" "cp_lock q" "cp_CurConn q = 0"
    by (simp_all add: connection_pool_new_def)
  have "p = q\<lparr>cp_reserve := unat n, cp_MaxConn := n, cp_lock := False\<rparr>"
    using assms q f by (auto simp: pool_init_def bindr_eq_Inr connection_pool_new_def Let_def)
  moreover have "sum_list (replicate k ({#} :: nat multiset)) = {#}" by (induction k) auto
  ultimately show ?thesis
    using f by (simp add: conn_ok_def conn_sys0_def sum_list_replicate map_replicate_const)
qed

lemma held_pair:
  assumes "i < length xs" and "j < length xs" and "i \<noteq> j"
  shows "held (xs ! i) + held (xs ! j) \<subseteq># sum_list (map held xs)"
proof -
  have "sum_list (map held (xs[i := Outside])) + held (xs ! i) = sum_list (map held xs)"
    using sum_list_update [OF assms(1), of held Outside] by simp
  moreover have "sum_list (map held ((xs[i := Outside])[j := Outside])) + held (xs ! j)
      = sum_list (map held (xs[i := Outside]))"
    using sum_list_update [of j "xs[i := Outside]" held Outside] assms by simp
  ultimately have "sum_list (map held ((xs[i := Outside])[j := Outside])) + (held (xs ! i) + held (xs ! j))
      = sum_list (map held xs)" by (simp add: ac_simps)
  then show ?thesis by (metis mset_subset_eq_add_right)
qed

lemma held_once:
  assumes "distinct (map f [0..<n])" and "mset fr + sum_list (map held xs) = mset (map f [0..<n])"
  shows "i < length xs \<Longrightarrow> j < length xs \<Longrightarrow> xs ! i = Uses c \<Longrightarrow> xs ! j = Uses c \<Longrightarrow> i = j"
    and "i < length xs \<Longrightarrow> xs ! i = Uses c \<Longrightarrow> c \<notin> set fr"
proof -
  have one: "count (mset fr) c + count (sum_list (map held xs)) c \<le> 1" for c
    using assms by (metis count_union distinct_count_atmost_1 le_numeral_extra(4) zero_le_one One_nat_def)
  show "i = j" if i: "i < length xs" "j < length xs" "xs ! i = Uses c" "xs ! j = Uses c"
  proof (rule ccontr)
    assume "i \<noteq> j"
    with held_pair [OF i(1,2)] i(3,4) have "{#c, c#} \<subseteq># sum_list (map held xs)" by simp
    from mset_subset_eq_count [OF this, of c] one [of c] show False by simp
  qed
  show "c \<notin> set fr" if i: "i < length xs" "xs ! i = Uses c"
  proof
    assume "c \<in> set fr"
    then have "1 \<le> count (mset fr) c" by (simp add: Suc_le_eq)
    moreover have "held (xs ! i) \<subseteq># sum_list (map held xs)"
      using sum_list_update [OF i(1), of held Outside] by (metis add_0_right mset_subset_eq_add_right owed_simps(6))
    from mset_subset_eq_count [OF this, of c] have "1 \<le> count (sum_list (map held xs)) c" using i(2) by simp
    ultimately show False using one [of c] by linarith
  qed
qed

text \<open>
  C16. The connection pool with any number of threads that take and return connections, in
  any interleaving: two threads never hold the same connection, a connection in use is never
  in the list, none is lost, the list is never popped while empty, and the counters of free
  and used connections are those of the list and of the threads.
\<close>

theorem connection_pool_is_exclusive:
  assumes "pool_init connect n connection_pool_new = Inr p"
    and "distinct (map (the \<circ> connect) [0..<unat n])"
    and "conn_reach (conn_sys0 p k) s"
  shows "(\<forall>i j c. i < length (cs_pcs s) \<and> j < length (cs_pcs s)
        \<and> cs_pcs s ! i = Uses c \<and> cs_pcs s ! j = Uses c \<longrightarrow> i = j)
    \<and> (\<forall>i<length (cs_pcs s). \<forall>c. cs_pcs s ! i = Uses c \<longrightarrow> c \<notin> set (cp_connList (cs_pool s)))
    \<and> mset (cp_connList (cs_pool s)) + sum_list (map held (cs_pcs s)) = mset (map (the \<circ> connect) [0..<unat n])
    \<and> (\<forall>ev e. conn_step ev s = Inl e \<longrightarrow> e = Blocked)
    \<and> unat (GetFreeConn (cs_pool s)) = length (cp_connList (cs_pool s))
    \<and> unat (cp_CurConn (cs_pool s)) = size (sum_list (map held (cs_pcs s)))"
proof -
  let ?all = "mset (map (the \<circ> connect) [0..<unat n])" and ?p = "cs_pool s" and ?xs = "cs_pcs s"
  have ok: "conn_ok ?all s"
    using conn_reach_ok [OF assms(3)] conn_sys0_ok [OF assms(1), of k] by blast
  then have m: "mset (cp_connList ?p) + sum_list (map held ?xs) = ?all" by (simp add: conn_ok_def)
  have "size (mset (cp_connList ?p)) + size (sum_list (map held ?xs)) = unat n"
    using arg_cong [OF m, of size] by simp
  moreover have "unat n < 2 ^ 32" using unsigned_less [of n] by simp
  ultimately have "unat (word_of_nat (length (cp_connList ?p)) :: 32 word) = length (cp_connList ?p)"
    "unat (word_of_nat (size (sum_list (map held ?xs))) :: 32 word) = size (sum_list (map held ?xs))"
    by (simp_all add: unat_of_nat)
  then have "unat (GetFreeConn ?p) = length (cp_connList ?p)"
    "unat (cp_CurConn ?p) = size (sum_list (map held ?xs))"
    using ok by (simp_all add: conn_ok_def GetFreeConn_def)
  moreover have "\<forall>ev e. conn_step ev s = Inl e \<longrightarrow> e = Blocked"
    using conn_step_ok [OF ok] by (metis sum.simps(5))
  ultimately show ?thesis using held_once [OF assms(2) m] m by blast
qed

fun conn_run :: "conn_event list \<Rightarrow> conn_sys \<Rightarrow> conn_sys res" where
  "conn_run [] s = Inr s"
| "conn_run (ev # evs) s = bindr (conn_step ev s) (conn_run evs)"

lemma conn_run_reach: "conn_run evs t = Inr u \<Longrightarrow> conn_reach s t \<Longrightarrow> conn_reach s u"
  by (induction evs arbitrary: t) (auto simp: bindr_eq_Inr intro: conn_reach.step)

lemma connection_pool_is_exclusive_witness:
  "\<exists>s. conn_reach (conn_sys0 (connection_pool_new\<lparr>cp_MaxConn := 2, cp_FreeConn := 2, cp_connList := [10, 11], cp_reserve := 2\<rparr>) 2) s
    \<and> cs_pcs s = [Uses 10, Uses 11] \<and> unat (GetFreeConn (cs_pool s)) = 0"
proof -
  let ?c = "\<lambda>i :: nat. Some (10 + i)"
  define p where "p = connection_pool_new\<lparr>cp_MaxConn := 2, cp_FreeConn := 2, cp_connList := [10, 11], cp_reserve := 2\<rparr>"
  have i: "pool_init ?c 2 connection_pool_new = Inr p"
    by (simp add: pool_init_def connection_pool_new_def p_def upt_rec Let_def)
  have d: "distinct (map (the \<circ> ?c) [0..<unat (2 :: 32 word)])" by (simp add: upt_rec)
  obtain s where s: "conn_run [TestList 0, TestList 1, Reserve 1, Reserve 0, TakeConn 0, TakeConn 1] (conn_sys0 p 2) = Inr s"
    "cs_pcs s = [Uses 10, Uses 11]" "cp_connList (cs_pool s) = []"
    by (simp add: conn_step_def conn_sys0_def p_def connection_pool_new_def Let_def sem_wait_def pool_take_def
        numeral_2_eq_2)
  have "conn_reach (conn_sys0 p 2) s" by (rule conn_run_reach [OF s(1) conn_reach.start])
  with connection_pool_is_exclusive [OF i d this] s show ?thesis by (intro exI [of _ s]) (simp add: p_def)
qed

end
