(* ===== verification/V3_ThreadPool.thy ===== *)
theory V3_ThreadPool
  imports V3_Pools
begin

section \<open>version\_03: the thread pool\<close>

text \<open>
  version\_03/threadpool/threadpool.h: the main thread appends requests, the workers wait for
  the semaphore, take a request under the mutex and process it. A request is a pointer to a
  connection, here a number, or NULL. Both the sequential operations, which give a bounded
  queue, and the interleaving of the workers with the main thread are modelled.
\<close>

record threadpool =
  m_thread_number :: int
  m_max_requests :: int
  m_workqueue :: "nat option list"
  m_queuelocker :: mutex
  m_queuestat :: sem
  m_stop :: bool

text \<open>\<open>create i\<close> and \<open>detach i\<close>: what \<open>pthread_create\<close> and \<open>pthread_detach\<close> return.\<close>

fun start_workers :: "(nat \<Rightarrow> int) \<Rightarrow> (nat \<Rightarrow> int) \<Rightarrow> nat list \<Rightarrow> unit res" where
  "start_workers create detach [] = Inr ()"
| "start_workers create detach (i # is) =
     (if create i \<noteq> 0 then Inl std_exception
      else if detach i \<noteq> 0 then Inl std_exception
      else start_workers create detach is)"

definition threadpool_new :: "(nat \<Rightarrow> int) \<Rightarrow> (nat \<Rightarrow> int) \<Rightarrow> int \<Rightarrow> int \<Rightarrow> threadpool res" where
  "threadpool_new create detach thread_number max_requests =
     (if thread_number \<le> 0 \<or> max_requests \<le> 0 then Inl std_exception
      else bindr (start_workers create detach [0..<nat thread_number]) (\<lambda>_.
        Inr \<lparr>m_thread_number = thread_number, m_max_requests = max_requests, m_workqueue = [],
          m_queuelocker = False, m_queuestat = 0, m_stop = False\<rparr>))"

definition threadpool_delete :: "threadpool \<Rightarrow> threadpool" where
  "threadpool_delete q = q\<lparr>m_stop := True\<rparr>"

text \<open>The critical section of \<open>append\<close>; \<open>size()\<close> is unsigned, the bound is positive.\<close>

definition append_locked :: "nat option \<Rightarrow> threadpool \<Rightarrow> (bool \<times> threadpool) res" where
  "append_locked request q =
     bindr (locker_lock (m_queuelocker q)) (\<lambda>m.
     if int (length (m_workqueue q)) > m_max_requests q then
       bindr (locker_unlock m) (\<lambda>m. Inr (False, q\<lparr>m_queuelocker := m\<rparr>))
     else
       bindr (locker_unlock m) (\<lambda>m.
       Inr (True, q\<lparr>m_queuelocker := m, m_workqueue := m_workqueue q @ [request]\<rparr>)))"

definition append_request :: "nat option \<Rightarrow> threadpool \<Rightarrow> (bool \<times> threadpool) res" where
  "append_request request q =
     bindr (append_locked request q) (\<lambda>(added, q).
     Inr (added, if added then q\<lparr>m_queuestat := sem_post (m_queuestat q)\<rparr> else q))"

text \<open>The critical section of \<open>run\<close>: nothing if the queue is empty.\<close>

definition take_locked :: "threadpool \<Rightarrow> (nat option option \<times> threadpool) res" where
  "take_locked q =
     bindr (locker_lock (m_queuelocker q)) (\<lambda>m.
     case m_workqueue q of
       [] \<Rightarrow> bindr (locker_unlock m) (\<lambda>m. Inr (None, q\<lparr>m_queuelocker := m\<rparr>))
     | request # rest \<Rightarrow>
         bindr (locker_unlock m) (\<lambda>m.
         Inr (Some request, q\<lparr>m_queuelocker := m, m_workqueue := rest\<rparr>)))"

definition wait_and_take :: "threadpool \<Rightarrow> (nat option option \<times> threadpool) res" where
  "wait_and_take q =
     bindr (sem_wait (m_queuestat q)) (\<lambda>st. take_locked (q\<lparr>m_queuestat := st\<rparr>))"

subsection \<open>A bounded queue\<close>

definition tp_ok :: "threadpool \<Rightarrow> bool" where
  "tp_ok q = (\<not> m_queuelocker q \<and> 0 < m_max_requests q \<and> m_queuestat q = length (m_workqueue q))"

definition tp_bound :: "threadpool \<Rightarrow> nat" where
  "tp_bound q = nat (m_max_requests q) + 1"

definition tp_room :: "threadpool \<Rightarrow> bool" where
  "tp_room q = (length (m_workqueue q) < tp_bound q)"

definition tp_deq :: "threadpool \<Rightarrow> (nat option \<times> threadpool) res" where
  "tp_deq q = bindr (wait_and_take q) (\<lambda>(r, q). case r of None \<Rightarrow> Inl Blocked | Some x \<Rightarrow> Inr (x, q))"

interpretation tp: bounded_fifo m_workqueue tp_ok tp_room append_request tp_deq tp_bound
proof unfold_locales
  fix q :: threadpool and x
  assume "tp_ok q" "tp_room q"
  then show "\<exists>q'. append_request x q = Inr (True, q') \<and> tp_ok q' \<and> m_workqueue q' = m_workqueue q @ [x]"
    by (auto simp: append_request_def append_locked_def tp_ok_def tp_room_def tp_bound_def sem_post_def)
next
  fix q :: threadpool and x
  assume "tp_ok q" "\<not> tp_room q"
  then show "\<exists>q'. append_request x q = Inr (False, q') \<and> tp_ok q' \<and> m_workqueue q' = m_workqueue q"
    by (auto simp: append_request_def append_locked_def tp_ok_def tp_room_def tp_bound_def)
next
  fix q q' :: threadpool and x
  assume "tp_ok q" "tp_deq q = Inr (x, q')"
  then show "tp_bound q' = tp_bound q"
    by (cases "m_workqueue q")
      (auto simp: tp_deq_def wait_and_take_def take_locked_def tp_ok_def sem_wait_def tp_bound_def)
qed (auto simp: tp_deq_def wait_and_take_def take_locked_def tp_ok_def sem_wait_def tp_room_def tp_bound_def
  append_request_def append_locked_def bindr_eq_Inr split: if_splits list.splits nat.splits)

text \<open>
  \<open>append\<close> tests for more than the maximum, so the queue takes one request more than
  \<open>max_requests\<close> before it refuses one; within that bound every request that was accepted
  is taken once, in order.
\<close>

theorem threadpool_queue_is_fifo:
  assumes "threadpool_new create detach k n = Inr q"
  shows "case run_ops append_request tp_deq ops q of
      Inl e \<Rightarrow> e = Blocked
    | Inr (acc, out, q') \<Rightarrow> acc = out @ m_workqueue q' \<and> length (m_workqueue q') \<le> nat n + 1
        \<and> (\<forall>x. (\<exists>q''. append_request x q' = Inr (False, q'')) \<longleftrightarrow> length (m_workqueue q') = nat n + 1)"
proof -
  have q: "tp_ok q" "m_workqueue q = []" "tp_bound q = nat n + 1"
    using assms by (auto simp: threadpool_new_def tp_ok_def tp_bound_def bindr_eq_Inr split: if_splits)
  show ?thesis
  proof (cases "run_ops append_request tp_deq ops q")
    case (Inl e)
    then show ?thesis using tp.run_only_blocks [OF q(1) Inl] by simp
  next
    case (Inr r)
    obtain acc out q' where r: "r = (acc, out, q')" by (cases r)
    have f: "tp_ok q'" "acc = out @ m_workqueue q'"
      using tp.run_fifo [OF q(1) Inr [unfolded r]] q(2) by auto
    have b: "tp_bound q' = nat n + 1" "length (m_workqueue q') \<le> nat n + 1"
      using tp.run_within_bound [OF q(1) _ Inr [unfolded r]] q(2,3) by auto
    have "(\<exists>q''. append_request x q' = Inr (False, q'')) \<longleftrightarrow> \<not> tp_room q'" for x
      using tp.enq_room [OF f(1), of x] tp.enq_full [OF f(1), of x] by (cases "tp_room q'") auto
    moreover have "\<not> tp_room q' \<longleftrightarrow> length (m_workqueue q') = nat n + 1"
      using b by (auto simp: tp_room_def)
    ultimately show ?thesis using Inr r f(2) b(2) by simp
  qed
qed

lemma threadpool_queue_is_fifo_witness:
  "case threadpool_new (\<lambda>_. 0) (\<lambda>_. 0) 2 1 of Inl e \<Rightarrow> False
   | Inr q \<Rightarrow> (case run_ops append_request tp_deq [Enq (Some 1), Enq (Some 2), Enq (Some 3), Deq] q of
        Inl e \<Rightarrow> False
      | Inr (acc, out, q') \<Rightarrow> acc = [Some 1, Some 2] \<and> out = [Some 1] \<and> m_workqueue q' = [Some 2])"
  using threadpool_queue_is_fifo [of "\<lambda>_. 0" "\<lambda>_. 0" 2 1 _ "[Enq (Some 1), Enq (Some 2), Enq (Some 3), Deq]"]
  by (simp add: threadpool_new_def upt_rec append_request_def append_locked_def tp_deq_def wait_and_take_def
      take_locked_def sem_post_def sem_wait_def)

subsection \<open>Workers and main thread\<close>

text \<open>
  A worker waits for the semaphore, has passed it, processes a request (with its database
  connection), or has left \<open>run\<close>. The main thread is between the critical section and the
  \<open>post\<close> of \<open>append\<close> when \<open>ts_posting\<close> holds.
\<close>

datatype worker_pc = WaitsStat | Woken | Processes nat | Ended

record pool_sys =
  ts_pool :: threadpool
  ts_pcs :: "worker_pc list"
  ts_posting :: bool
  ts_accepted :: "nat option list"
  ts_taken :: "nat option list"

datatype pool_event = AppendReq "nat option" | PostStat | WaitStat nat | TakeReq nat | FinishReq nat | DeletePool

definition pool_step :: "pool_event \<Rightarrow> pool_sys \<Rightarrow> pool_sys res" where
  "pool_step ev s =
     (let q = ts_pool s; at = (\<lambda>t pc. t < length (ts_pcs s) \<and> ts_pcs s ! t = pc);
          to = (\<lambda>t pc. (ts_pcs s)[t := pc]) in
      case ev of
        AppendReq r \<Rightarrow>
          if ts_posting s then Inl Blocked
          else bindr (append_locked r q) (\<lambda>(added, q).
            Inr (if added then s\<lparr>ts_pool := q, ts_posting := True, ts_accepted := ts_accepted s @ [r]\<rparr>
                 else s\<lparr>ts_pool := q\<rparr>))
      | PostStat \<Rightarrow>
          if ts_posting s then Inr (s\<lparr>ts_pool := q\<lparr>m_queuestat := sem_post (m_queuestat q)\<rparr>, ts_posting := False\<rparr>)
          else Inl Blocked
      | WaitStat t \<Rightarrow>
          if at t WaitsStat then
            (if m_stop q then Inr (s\<lparr>ts_pcs := to t Ended\<rparr>)
             else bindr (sem_wait (m_queuestat q)) (\<lambda>st.
               Inr (s\<lparr>ts_pool := q\<lparr>m_queuestat := st\<rparr>, ts_pcs := to t Woken\<rparr>)))
          else Inl Blocked
      | TakeReq t \<Rightarrow>
          if at t Woken then
            bindr (take_locked q) (\<lambda>(r, q).
            Inr (case r of
                None \<Rightarrow> s\<lparr>ts_pool := q, ts_pcs := to t WaitsStat\<rparr>
              | Some None \<Rightarrow> s\<lparr>ts_pool := q, ts_pcs := to t WaitsStat, ts_taken := ts_taken s @ [None]\<rparr>
              | Some (Some c) \<Rightarrow>
                  s\<lparr>ts_pool := q, ts_pcs := to t (Processes c), ts_taken := ts_taken s @ [Some c]\<rparr>))
          else Inl Blocked
      | FinishReq t \<Rightarrow>
          (if t < length (ts_pcs s) then
             (case ts_pcs s ! t of
                Processes c \<Rightarrow> Inr (s\<lparr>ts_pcs := to t WaitsStat\<rparr>)
              | _ \<Rightarrow> Inl Blocked)
           else Inl Blocked)
      | DeletePool \<Rightarrow> Inr (s\<lparr>ts_pool := threadpool_delete q\<rparr>))"

inductive pool_reach :: "pool_sys \<Rightarrow> pool_sys \<Rightarrow> bool" where
  start: "pool_reach s s"
| step: "pool_reach s t \<Longrightarrow> pool_step ev t = Inr u \<Longrightarrow> pool_reach s u"

definition woken :: "worker_pc \<Rightarrow> nat" where
  "woken pc = (if pc = Woken then 1 else 0)"

lemma woken_simps [simp]:
  "woken WaitsStat = 0" "woken Woken = 1" "woken (Processes c) = 0" "woken Ended = 0"
  by (simp_all add: woken_def)

definition pool_ok :: "int \<Rightarrow> pool_sys \<Rightarrow> bool" where
  "pool_ok n s =
     (\<not> m_queuelocker (ts_pool s) \<and> m_max_requests (ts_pool s) = n
      \<and> length (m_workqueue (ts_pool s))
          = m_queuestat (ts_pool s) + sum_list (map woken (ts_pcs s)) + (if ts_posting s then 1 else 0)
      \<and> int (length (m_workqueue (ts_pool s))) \<le> n + 1
      \<and> ts_accepted s = ts_taken s @ m_workqueue (ts_pool s))"

lemma pool_ok_woken:
  assumes "pool_ok n s" and "t < length (ts_pcs s)" and "ts_pcs s ! t = Woken"
  shows "m_workqueue (ts_pool s) \<noteq> []"
proof -
  have "1 \<le> sum_list (map woken (ts_pcs s))" using sum_list_ge_nth [OF assms(2), of woken] assms(3) by simp
  then have "1 \<le> length (m_workqueue (ts_pool s))" using assms(1) unfolding pool_ok_def by linarith
  then show ?thesis by auto
qed

lemma pool_step_ok:
  assumes ok: "pool_ok n s" and n: "0 < n"
  shows "case pool_step ev s of Inl e \<Rightarrow> e = Blocked | Inr t \<Rightarrow> pool_ok n t"
proof -
  let ?q = "ts_pool s" and ?xs = "ts_pcs s"
  have upd: "sum_list (map woken (?xs[t := y])) + woken (?xs ! t) = sum_list (map woken ?xs) + woken y"
    if "t < length ?xs" for t y using that by (simp add: sum_list_update)
  show ?thesis
  proof (cases ev)
    case (AppendReq r)
    then show ?thesis
      using ok by (auto simp: pool_step_def Let_def pool_ok_def append_locked_def)
  next
    case PostStat
    then show ?thesis
      using ok by (auto simp: pool_step_def Let_def pool_ok_def sem_post_def)
  next
    case (WaitStat t)
    then show ?thesis
      using ok upd [of t Woken] upd [of t Ended]
      by (auto simp: pool_step_def Let_def pool_ok_def sem_wait_def split: nat.split)
  next
    case (TakeReq t)
    show ?thesis
    proof (cases "t < length ?xs \<and> ?xs ! t = Woken")
      case True
      then obtain r rs where r: "m_workqueue ?q = r # rs"
        using pool_ok_woken [OF ok] by (cases "m_workqueue ?q") auto
      show ?thesis
        using TakeReq True r ok upd [of t WaitsStat] upd [of t "Processes (the r)"]
        by (cases r) (simp_all add: pool_step_def Let_def pool_ok_def take_locked_def)
    qed (use TakeReq in \<open>auto simp: pool_step_def Let_def\<close>)
  next
    case (FinishReq t)
    then show ?thesis
      using ok upd [of t WaitsStat]
      by (auto simp: pool_step_def Let_def pool_ok_def split: worker_pc.split)
  next
    case DeletePool
    then show ?thesis
      using ok by (simp add: pool_step_def Let_def pool_ok_def threadpool_delete_def)
  qed
qed

lemma pool_reach_ok: "pool_reach s t \<Longrightarrow> pool_ok n s \<Longrightarrow> 0 < n \<Longrightarrow> pool_ok n t"
proof (induction rule: pool_reach.induct)
  case (step s t ev u)
  then show ?case using pool_step_ok [of n t ev] by simp
qed

definition pool_sys0 :: "threadpool \<Rightarrow> pool_sys" where
  "pool_sys0 q = \<lparr>ts_pool = q, ts_pcs = replicate (nat (m_thread_number q)) WaitsStat, ts_posting = False,
     ts_accepted = [], ts_taken = []\<rparr>"

text \<open>
  C17. The workers and the main thread in any interleaving: the requests the workers have
  taken are, in order and each once, the first of those accepted, the rest is in the queue;
  a worker that has passed the semaphore always finds a request (the test for an empty
  queue in \<open>run\<close> never succeeds); and the queue never holds more than
  \<open>max_requests + 1\<close> requests.
\<close>

theorem threadpool_hands_out_each_request_once:
  assumes "threadpool_new create detach k n = Inr q" and "pool_reach (pool_sys0 q) s"
  shows "ts_accepted s = ts_taken s @ m_workqueue (ts_pool s)
    \<and> (\<forall>t<length (ts_pcs s). ts_pcs s ! t = Woken \<longrightarrow> m_workqueue (ts_pool s) \<noteq> [])
    \<and> int (length (m_workqueue (ts_pool s))) \<le> n + 1
    \<and> (\<forall>ev e. pool_step ev s = Inl e \<longrightarrow> e = Blocked)"
proof -
  have q: "m_max_requests q = n" "0 < n" "\<not> m_queuelocker q" "m_workqueue q = []" "m_queuestat q = 0"
    using assms(1) by (auto simp: threadpool_new_def bindr_eq_Inr split: if_splits)
  then have "pool_ok n (pool_sys0 q)"
    by (simp add: pool_ok_def pool_sys0_def sum_list_replicate)
  from pool_reach_ok [OF assms(2) this q(2)] have ok: "pool_ok n s" .
  moreover have "\<forall>ev e. pool_step ev s = Inl e \<longrightarrow> e = Blocked"
    using pool_step_ok [OF ok q(2)] by (metis sum.simps(5))
  ultimately show ?thesis using pool_ok_woken [OF ok] by (simp add: pool_ok_def)
qed

fun pool_run :: "pool_event list \<Rightarrow> pool_sys \<Rightarrow> pool_sys res" where
  "pool_run [] s = Inr s"
| "pool_run (ev # evs) s = bindr (pool_step ev s) (pool_run evs)"

lemma pool_run_reach: "pool_run evs t = Inr u \<Longrightarrow> pool_reach s t \<Longrightarrow> pool_reach s u"
  by (induction evs arbitrary: t) (auto simp: bindr_eq_Inr intro: pool_reach.step)

lemma threadpool_hands_out_each_request_once_witness:
  "\<exists>q s. threadpool_new (\<lambda>_. 0) (\<lambda>_. 0) 2 5 = Inr q \<and> pool_reach (pool_sys0 q) s
    \<and> ts_pcs s = [Woken, Processes 7] \<and> m_workqueue (ts_pool s) = [Some 8]"
proof -
  obtain q where q: "threadpool_new (\<lambda>_. 0) (\<lambda>_. 0) 2 5 = Inr q"
    by (simp add: threadpool_new_def upt_rec)
  then have q': "q = \<lparr>m_thread_number = 2, m_max_requests = 5, m_workqueue = [], m_queuelocker = False,
      m_queuestat = 0, m_stop = False\<rparr>"
    by (simp add: threadpool_new_def upt_rec)
  obtain s where s: "pool_run [AppendReq (Some 7), PostStat, WaitStat 1, AppendReq (Some 8), TakeReq 1, PostStat, WaitStat 0]
      (pool_sys0 q) = Inr s"
    "ts_pcs s = [Woken, Processes 7]" "ts_accepted s = [Some 7, Some 8]" "ts_taken s = [Some 7]"
    by (simp add: q' pool_step_def pool_sys0_def Let_def append_locked_def take_locked_def sem_wait_def
        sem_post_def numeral_2_eq_2)
  have r: "pool_reach (pool_sys0 q) s" by (rule pool_run_reach [OF s(1) pool_reach.start])
  from threadpool_hands_out_each_request_once [OF q r] s(3,4) have "m_workqueue (ts_pool s) = [Some 8]" by simp
  with q r s(2) show ?thesis by blast
qed

end
