(* ===== verification/V3_Timer.thy ===== *)
theory V3_Timer
  imports Prelude
begin

section \<open>version\_03: the sorted list of timers\<close>

text \<open>
  version\_03/timer/lst\_timer.h: the doubly linked list of timers in ascending order of
  expiry, as nodes in a heap. \<open>delete\<close> takes a node out of the heap, so a use after it is a
  fault. The loops over the list are partial functions: \<open>None\<close> is a loop that does not end.
  The user data is the index of the connection; the callback is the list of those it was
  called for.
\<close>

subsection \<open>The code\<close>

record util_timer =
  ut_expire :: int
  ut_user :: nat
  ut_prev :: "nat option"
  ut_next :: "nat option"

type_synonym timer_heap = "nat \<Rightarrow> util_timer option"

record sort_timer_lst =
  tl_heap :: timer_heap
  tl_head :: "nat option"
  tl_tail :: "nat option"

definition ut_load :: "timer_heap \<Rightarrow> nat option \<Rightarrow> util_timer res" where
  "ut_load h p =
     (case p of None \<Rightarrow> Inl NullDeref
      | Some a \<Rightarrow> (case h a of None \<Rightarrow> Inl NullDeref | Some t \<Rightarrow> Inr t))"

definition set_next :: "nat option \<Rightarrow> nat option \<Rightarrow> timer_heap \<Rightarrow> timer_heap res" where
  "set_next p q h = bindr (ut_load h p) (\<lambda>t. Inr (h(the p \<mapsto> t\<lparr>ut_next := q\<rparr>)))"

definition set_prev :: "nat option \<Rightarrow> nat option \<Rightarrow> timer_heap \<Rightarrow> timer_heap res" where
  "set_prev p q h = bindr (ut_load h p) (\<lambda>t. Inr (h(the p \<mapsto> t\<lparr>ut_prev := q\<rparr>)))"

definition link_before :: "nat \<Rightarrow> nat \<Rightarrow> nat \<Rightarrow> timer_heap \<Rightarrow> timer_heap res" where
  "link_before timer prev tmp h =
     bindr (set_next (Some prev) (Some timer) h) (\<lambda>h.
     bindr (set_next (Some timer) (Some tmp) h) (\<lambda>h.
     bindr (set_prev (Some tmp) (Some timer) h) (\<lambda>h.
     set_prev (Some timer) (Some prev) h)))"

definition link_last :: "nat \<Rightarrow> nat \<Rightarrow> timer_heap \<Rightarrow> timer_heap res" where
  "link_last timer prev h =
     bindr (set_next (Some prev) (Some timer) h) (\<lambda>h.
     bindr (set_prev (Some timer) (Some prev) h) (\<lambda>h.
     set_next (Some timer) None h))"

text \<open>The loop of the private \<open>add_timer\<close>, and what follows it.\<close>

partial_function (option) add_loop ::
  "nat \<Rightarrow> nat \<Rightarrow> nat option \<Rightarrow> sort_timer_lst \<Rightarrow> sort_timer_lst res option"
where
  "add_loop timer prev tmp tls =
     (case tmp of
        None \<Rightarrow>
          Some (bindr (link_last timer prev (tl_heap tls)) (\<lambda>h.
                Inr (tls\<lparr>tl_heap := h, tl_tail := Some timer\<rparr>)))
      | Some t \<Rightarrow>
          (case bindr (ut_load (tl_heap tls) (Some timer)) (\<lambda>x.
                bindr (ut_load (tl_heap tls) (Some t)) (\<lambda>y. Inr (x, y))) of
             Inl e \<Rightarrow> Some (Inl e)
           | Inr (x, y) \<Rightarrow>
               if ut_expire x < ut_expire y then
                 Some (bindr (link_before timer prev t (tl_heap tls)) (\<lambda>h. Inr (tls\<lparr>tl_heap := h\<rparr>)))
               else add_loop timer t (ut_next y) tls))"

definition add_timer_from :: "nat \<Rightarrow> nat option \<Rightarrow> sort_timer_lst \<Rightarrow> sort_timer_lst res option" where
  "add_timer_from timer lst_head tls =
     (case ut_load (tl_heap tls) lst_head of
        Inl e \<Rightarrow> Some (Inl e)
      | Inr p \<Rightarrow> add_loop timer (the lst_head) (ut_next p) tls)"

definition add_timer :: "nat option \<Rightarrow> sort_timer_lst \<Rightarrow> sort_timer_lst res option" where
  "add_timer timer tls =
     (case timer of
        None \<Rightarrow> Some (Inr tls)
      | Some a \<Rightarrow>
          (case tl_head tls of
             None \<Rightarrow> Some (Inr (tls\<lparr>tl_head := Some a, tl_tail := Some a\<rparr>))
           | Some hd_t \<Rightarrow>
               (case bindr (ut_load (tl_heap tls) (Some a)) (\<lambda>x.
                     bindr (ut_load (tl_heap tls) (Some hd_t)) (\<lambda>y. Inr (x, y))) of
                  Inl e \<Rightarrow> Some (Inl e)
                | Inr (x, y) \<Rightarrow>
                    if ut_expire x < ut_expire y then
                      Some (bindr (set_next (Some a) (Some hd_t) (tl_heap tls)) (\<lambda>h.
                            bindr (set_prev (Some hd_t) (Some a) h) (\<lambda>h.
                            Inr (tls\<lparr>tl_heap := h, tl_head := Some a\<rparr>))))
                    else add_timer_from a (tl_head tls) tls)))"

definition adjust_timer :: "nat option \<Rightarrow> sort_timer_lst \<Rightarrow> sort_timer_lst res option" where
  "adjust_timer timer tls =
     (case timer of
        None \<Rightarrow> Some (Inr tls)
      | Some a \<Rightarrow>
          (case ut_load (tl_heap tls) (Some a) of
             Inl e \<Rightarrow> Some (Inl e)
           | Inr x \<Rightarrow>
               (case ut_next x of
                  None \<Rightarrow> Some (Inr tls)
                | Some tmp \<Rightarrow>
                    (case ut_load (tl_heap tls) (Some tmp) of
                       Inl e \<Rightarrow> Some (Inl e)
                     | Inr y \<Rightarrow>
                         if ut_expire x < ut_expire y then Some (Inr tls)
                         else if Some a = tl_head tls then
                           (case bindr (set_prev (ut_next x) None (tl_heap tls)) (\<lambda>h.
                                 set_next (Some a) None h) of
                              Inl e \<Rightarrow> Some (Inl e)
                            | Inr h \<Rightarrow> add_timer_from a (ut_next x) (tls\<lparr>tl_heap := h, tl_head := ut_next x\<rparr>))
                         else
                           (case bindr (set_next (ut_prev x) (ut_next x) (tl_heap tls)) (\<lambda>h.
                                 set_prev (ut_next x) (ut_prev x) h) of
                              Inl e \<Rightarrow> Some (Inl e)
                            | Inr h \<Rightarrow> add_timer_from a (ut_next x) (tls\<lparr>tl_heap := h\<rparr>))))))"

definition del_timer :: "nat option \<Rightarrow> sort_timer_lst \<Rightarrow> sort_timer_lst res" where
  "del_timer timer tls =
     (case timer of
        None \<Rightarrow> Inr tls
      | Some a \<Rightarrow>
          if Some a = tl_head tls \<and> Some a = tl_tail tls then
            Inr (tls\<lparr>tl_heap := (tl_heap tls)(a := None), tl_head := None, tl_tail := None\<rparr>)
          else if Some a = tl_head tls then
            bindr (ut_load (tl_heap tls) (Some a)) (\<lambda>x.
            bindr (set_prev (ut_next x) None (tl_heap tls)) (\<lambda>h.
            Inr (tls\<lparr>tl_heap := h(a := None), tl_head := ut_next x\<rparr>)))
          else if Some a = tl_tail tls then
            bindr (ut_load (tl_heap tls) (Some a)) (\<lambda>x.
            bindr (set_next (ut_prev x) None (tl_heap tls)) (\<lambda>h.
            Inr (tls\<lparr>tl_heap := h(a := None), tl_tail := ut_prev x\<rparr>)))
          else
            bindr (ut_load (tl_heap tls) (Some a)) (\<lambda>x.
            bindr (set_next (ut_prev x) (ut_next x) (tl_heap tls)) (\<lambda>h.
            bindr (set_prev (ut_next x) (ut_prev x) h) (\<lambda>h.
            Inr (tls\<lparr>tl_heap := h(a := None)\<rparr>)))))"

text \<open>The loop of \<open>tick\<close>; \<open>fired\<close> collects the user data the callback was called for.\<close>

partial_function (option) tick_loop ::
  "int \<Rightarrow> nat option \<Rightarrow> nat list \<Rightarrow> sort_timer_lst \<Rightarrow> (nat list \<times> sort_timer_lst) res option"
where
  "tick_loop cur tmp fired tls =
     (case tmp of
        None \<Rightarrow> Some (Inr (fired, tls))
      | Some a \<Rightarrow>
          (case ut_load (tl_heap tls) (Some a) of
             Inl e \<Rightarrow> Some (Inl e)
           | Inr x \<Rightarrow>
               if cur < ut_expire x then Some (Inr (fired, tls))
               else
                 (case (if ut_next x = None then Inr (tl_heap tls)
                        else set_prev (ut_next x) None (tl_heap tls)) of
                    Inl e \<Rightarrow> Some (Inl e)
                  | Inr h \<Rightarrow>
                      tick_loop cur (ut_next x) (fired @ [ut_user x])
                        (tls\<lparr>tl_heap := h(a := None), tl_head := ut_next x\<rparr>))))"

definition tick :: "int \<Rightarrow> sort_timer_lst \<Rightarrow> (nat list \<times> sort_timer_lst) res option" where
  "tick cur tls = (if tl_head tls = None then Some (Inr ([], tls)) else tick_loop cur (tl_head tls) [] tls)"

text \<open>The destructor: it walks from the head and deletes every node.\<close>

partial_function (option) delete_loop :: "nat option \<Rightarrow> sort_timer_lst \<Rightarrow> sort_timer_lst res option" where
  "delete_loop tmp tls =
     (case tmp of
        None \<Rightarrow> Some (Inr tls)
      | Some a \<Rightarrow>
          (case ut_load (tl_heap tls) (Some a) of
             Inl e \<Rightarrow> Some (Inl e)
           | Inr x \<Rightarrow> delete_loop (ut_next x) (tls\<lparr>tl_head := ut_next x, tl_heap := (tl_heap tls)(a := None)\<rparr>)))"

definition sort_timer_lst_delete :: "sort_timer_lst \<Rightarrow> sort_timer_lst res option" where
  "sort_timer_lst_delete tls = delete_loop (tl_head tls) tls"

subsection \<open>Segments of the list\<close>

text \<open>A node as the specification sees it: its address, expiry and user.\<close>

type_synonym timer = "nat \<times> int \<times> nat"

fun dseg :: "timer_heap \<Rightarrow> nat option \<Rightarrow> nat option \<Rightarrow> timer list \<Rightarrow> nat option \<Rightarrow> nat option \<Rightarrow> bool" where
  "dseg h pv p [] lst q = (p = q \<and> lst = pv)"
| "dseg h pv p ((a, e, u) # xs) lst q =
     (p = Some a \<and> (\<exists>nx. h a = Some \<lparr>ut_expire = e, ut_user = u, ut_prev = pv, ut_next = nx\<rparr>
        \<and> dseg h (Some a) nx xs lst q))"

abbreviation addr :: "timer \<Rightarrow> nat" where "addr \<equiv> fst"
abbreviation expire :: "timer \<Rightarrow> int" where "expire x \<equiv> fst (snd x)"
abbreviation user :: "timer \<Rightarrow> nat" where "user x \<equiv> snd (snd x)"

lemma dseg_append:
  "dseg h pv p (xs @ ys) lst q \<longleftrightarrow> (\<exists>m r. dseg h pv p xs m r \<and> dseg h m r ys lst q)"
proof (induction xs arbitrary: pv p)
  case (Cons x xs)
  then show ?case by (cases x) (simp, blast)
qed simp

lemma dseg_upd [simp]: "a \<notin> addr ` set xs \<Longrightarrow> dseg (h(a := x)) pv p xs lst q = dseg h pv p xs lst q"
  by (induction xs arbitrary: pv p) auto

lemma dseg_set_prev:
  assumes "dseg h pv p ((b, e, u) # ys) lst q" and "b \<notin> addr ` set ys"
  shows "\<exists>h'. set_prev p pv' h = Inr h' \<and> dseg h' pv' p ((b, e, u) # ys) lst q \<and> (\<forall>x. x \<noteq> b \<longrightarrow> h' x = h x)"
  using assms by (auto simp: set_prev_def ut_load_def)

lemma dseg_set_next:
  assumes "dseg h pv p (xs @ [(b, e, u)]) (Some b) q" and "b \<notin> addr ` set xs"
  shows "\<exists>h'. set_next (Some b) r h = Inr h' \<and> dseg h' pv p (xs @ [(b, e, u)]) (Some b) r
    \<and> (\<forall>x. x \<noteq> b \<longrightarrow> h' x = h x)"
  using assms by (auto simp: set_next_def ut_load_def dseg_append)

lemma dseg_cong:
  "(\<forall>a\<in>addr ` set xs. h' a = h a) \<Longrightarrow> dseg h' pv p xs lst q = dseg h pv p xs lst q"
  by (induction xs arbitrary: pv p) auto

lemma dseg_frame:
  assumes "dseg h pv p xs lst q" and "\<forall>x. x \<notin> S \<longrightarrow> h' x = h x" and "S \<inter> addr ` set xs = {}"
  shows "dseg h' pv p xs lst q"
proof -
  have "h' x = h x" if "x \<in> addr ` set xs" for x
  proof -
    have "x \<notin> S" using that assms(3) by auto
    then show ?thesis using assms(2) by simp
  qed
  then have "\<forall>a\<in>addr ` set xs. h' a = h a" by simp
  from dseg_cong [OF this] assms(1) show ?thesis by simp
qed

lemma dseg_last: "dseg h pv p (xs @ [(b, e, u)]) lst q \<Longrightarrow> lst = Some b"
  by (auto simp: dseg_append)

subsection \<open>The list behind the pointers\<close>

definition timers_in :: "sort_timer_lst \<Rightarrow> timer list \<Rightarrow> bool" where
  "timers_in tls xs =
     ((\<exists>lst. dseg (tl_heap tls) None (tl_head tls) xs lst None)
      \<and> distinct (map addr xs)
      \<and> (xs \<noteq> [] \<longrightarrow> tl_tail tls = Some (addr (last xs))))"

fun ins_timer :: "timer \<Rightarrow> timer list \<Rightarrow> timer list" where
  "ins_timer x [] = [x]"
| "ins_timer x (y # ys) = (if expire x < expire y then x # y # ys else y # ins_timer x ys)"

lemma set_ins_timer [simp]: "set (ins_timer x xs) = insert x (set xs)"
  by (induction xs) auto

lemma ins_timer_not_Nil [simp]: "ins_timer x xs \<noteq> []"
  by (cases xs) auto

lemma distinct_ins_timer [simp]:
  "distinct (map addr (ins_timer x xs)) \<longleftrightarrow> addr x \<notin> addr ` set xs \<and> distinct (map addr xs)"
  by (induction xs) auto

lemma sorted_ins_timer: "sorted (map expire xs) \<Longrightarrow> sorted (map expire (ins_timer x xs))"
  by (induction xs) (auto simp: order_trans [OF less_imp_le])

lemma last_ins_timer:
  "last (ins_timer x xs) = (if \<forall>y\<in>set xs. expire y \<le> expire x then x else last xs)" if "sorted (map expire xs)"
  using that by (induction xs) force+

lemma link_last_ok:
  assumes "dseg h None p (ws @ [(b, eb, ub)]) (Some b) None" and "h a = Some t"
    and "a \<noteq> b" "a \<notin> addr ` set ws" "b \<notin> addr ` set ws"
  shows "\<exists>h'. link_last a b h = Inr h'
    \<and> dseg h' None p (ws @ [(b, eb, ub), (a, ut_expire t, ut_user t)]) (Some a) None"
  using assms by (auto simp: link_last_def set_next_def set_prev_def ut_load_def dseg_append)

lemma link_before_ok:
  assumes "dseg h None p (ws @ [(b, eb, ub)]) (Some b) (Some c)" and "h a = Some t"
    and "dseg h (Some b) (Some c) ((c, ec, uc) # ys) lst None"
    and "a \<noteq> b" "a \<noteq> c" "b \<noteq> c" "a \<notin> addr ` set ws" "b \<notin> addr ` set ws" "c \<notin> addr ` set ws"
    and "a \<notin> addr ` set ys" "b \<notin> addr ` set ys" "c \<notin> addr ` set ys"
  shows "\<exists>h'. link_before a b c h = Inr h'
    \<and> dseg h' None p (ws @ (b, eb, ub) # (a, ut_expire t, ut_user t) # (c, ec, uc) # ys) lst None"
  using assms by (auto simp: link_before_def set_next_def set_prev_def ut_load_def dseg_append)

lemma add_loop_ok:
  assumes "dseg (tl_heap tls) None p (ws @ [(b, eb, ub)]) (Some b) tmp"
    and "dseg (tl_heap tls) (Some b) tmp ys lst None"
    and "tl_heap tls a = Some t" and "distinct (map addr (ws @ (b, eb, ub) # ys))"
    and "a \<notin> addr ` set (ws @ (b, eb, ub) # ys)"
  shows "\<exists>h' tail' lst'. add_loop a b tmp tls = Some (Inr (tls\<lparr>tl_heap := h', tl_tail := tail'\<rparr>))
    \<and> dseg h' None p (ws @ (b, eb, ub) # ins_timer (a, ut_expire t, ut_user t) ys) lst' None
    \<and> tail' = (if \<forall>y\<in>set ys. expire y \<le> ut_expire t then Some a else tl_tail tls)"
  using assms
proof (induction ys arbitrary: ws b eb ub tmp)
  case Nil
  then obtain h' where "link_last a b (tl_heap tls) = Inr h'"
    "dseg h' None p (ws @ [(b, eb, ub), (a, ut_expire t, ut_user t)]) (Some a) None"
    using link_last_ok [of "tl_heap tls" p ws b eb ub a t] by auto
  with Nil show ?case by (subst add_loop.simps) auto
next
  case (Cons y ys)
  obtain c ec uc where y: "y = (c, ec, uc)" by (cases y)
  with Cons.prems obtain nx where tmp: "tmp = Some c" and
    c: "tl_heap tls c = Some \<lparr>ut_expire = ec, ut_user = uc, ut_prev = Some b, ut_next = nx\<rparr>"
      "dseg (tl_heap tls) (Some c) nx ys lst None" by auto
  show ?case
  proof (cases "ut_expire t < ec")
    case True
    obtain h' where "link_before a b c (tl_heap tls) = Inr h'"
      "dseg h' None p (ws @ (b, eb, ub) # (a, ut_expire t, ut_user t) # (c, ec, uc) # ys) lst None"
      using link_before_ok [of "tl_heap tls" p ws b eb ub c a t ec uc ys lst] Cons.prems y tmp by auto
    with True tmp c Cons.prems(3) y show ?thesis
      by (intro exI [of _ h'] exI [of _ "tl_tail tls"] exI [of _ lst], subst add_loop.simps) (auto simp: ut_load_def)
  next
    case False
    have "dseg (tl_heap tls) None p ((ws @ [(b, eb, ub)]) @ [(c, ec, uc)]) (Some c) nx"
      using Cons.prems(1) tmp c(1) by (auto simp: dseg_append)
    with Cons.IH [of "ws @ [(b, eb, ub)]" c ec uc nx] Cons.prems(3-5) c(2) y
    have "\<exists>h' tail' lst'. add_loop a c nx tls = Some (Inr (tls\<lparr>tl_heap := h', tl_tail := tail'\<rparr>))
      \<and> dseg h' None p ((ws @ [(b, eb, ub)]) @ (c, ec, uc) # ins_timer (a, ut_expire t, ut_user t) ys) lst' None
      \<and> tail' = (if \<forall>y\<in>set ys. expire y \<le> ut_expire t then Some a else tl_tail tls)"
      by simp
    moreover have "add_loop a b tmp tls = add_loop a c nx tls"
      using False tmp c(1) Cons.prems(3) by (subst add_loop.simps) (simp add: ut_load_def)
    ultimately show ?thesis using False y by auto
  qed
qed

lemma add_timer_from_ok:
  assumes "dseg (tl_heap tls) None p (ws @ (b, eb, ub) # ys) lst None"
    and "tl_heap tls a = Some t" and "distinct (map addr (ws @ (b, eb, ub) # ys))"
    and "a \<notin> addr ` set (ws @ (b, eb, ub) # ys)"
  shows "\<exists>h' tail' lst'. add_timer_from a (Some b) tls = Some (Inr (tls\<lparr>tl_heap := h', tl_tail := tail'\<rparr>))
    \<and> dseg h' None p (ws @ (b, eb, ub) # ins_timer (a, ut_expire t, ut_user t) ys) lst' None
    \<and> tail' = (if \<forall>y\<in>set ys. expire y \<le> ut_expire t then Some a else tl_tail tls)"
proof -
  obtain m nx where b: "dseg (tl_heap tls) None p ws m (Some b)"
    "tl_heap tls b = Some \<lparr>ut_expire = eb, ut_user = ub, ut_prev = m, ut_next = nx\<rparr>"
    "dseg (tl_heap tls) (Some b) nx ys lst None"
    using assms(1) by (auto simp: dseg_append)
  then have "dseg (tl_heap tls) None p (ws @ [(b, eb, ub)]) (Some b) nx"
    by (auto simp: dseg_append)
  from add_loop_ok [OF this b(3) assms(2-4)] b(2) show ?thesis
    by (simp add: add_timer_from_def ut_load_def)
qed

lemma add_timer_ok:
  assumes "timers_in tls xs" and "sorted (map expire xs)" and "a \<notin> addr ` set xs"
    and "tl_heap tls a = Some \<lparr>ut_expire = e, ut_user = u, ut_prev = None, ut_next = None\<rparr>"
  shows "\<exists>tls'. add_timer (Some a) tls = Some (Inr tls') \<and> timers_in tls' (ins_timer (a, e, u) xs)"
proof (cases xs)
  case Nil
  then show ?thesis using assms by (auto simp: timers_in_def add_timer_def)
next
  case (Cons x ys)
  obtain b eb ub where x: "x = (b, eb, ub)" by (cases x)
  obtain lst where d: "dseg (tl_heap tls) None (tl_head tls) ((b, eb, ub) # ys) lst None"
    using assms(1) Cons x by (auto simp: timers_in_def)
  then obtain nx where b: "tl_head tls = Some b"
    "tl_heap tls b = Some \<lparr>ut_expire = eb, ut_user = ub, ut_prev = None, ut_next = nx\<rparr>" by auto
  have n: "a \<noteq> b" "a \<notin> addr ` set ys" "b \<notin> addr ` set ys" "distinct (map addr ys)"
    using assms(1,3) Cons x by (auto simp: timers_in_def)
  show ?thesis
  proof (cases "e < eb")
    case True
    let ?h = "(tl_heap tls)(a \<mapsto> \<lparr>ut_expire = e, ut_user = u, ut_prev = None, ut_next = Some b\<rparr>,
      b \<mapsto> \<lparr>ut_expire = eb, ut_user = ub, ut_prev = Some a, ut_next = nx\<rparr>)"
    have "add_timer (Some a) tls = Some (Inr (tls\<lparr>tl_heap := ?h, tl_head := Some a\<rparr>))"
      using True b assms(4) n
      by (simp add: add_timer_def ut_load_def set_next_def set_prev_def)
    moreover have "dseg ?h None (Some a) ((a, e, u) # (b, eb, ub) # ys) lst None"
      using d n b by auto
    ultimately show ?thesis
      using True Cons x assms(1) n by (auto simp: timers_in_def)
  next
    case False
    have "\<exists>h' tail' lst'. add_timer_from a (Some b) tls = Some (Inr (tls\<lparr>tl_heap := h', tl_tail := tail'\<rparr>))
      \<and> dseg h' None (tl_head tls) ((b, eb, ub) # ins_timer (a, e, u) ys) lst' None
      \<and> tail' = (if \<forall>y\<in>set ys. expire y \<le> e then Some a else tl_tail tls)"
      using add_timer_from_ok [of tls "tl_head tls" "[]" b eb ub ys lst a] d n assms(4) by simp
    then obtain h' tail' lst' where r: "add_timer_from a (Some b) tls = Some (Inr (tls\<lparr>tl_heap := h', tl_tail := tail'\<rparr>))"
      "dseg h' None (tl_head tls) ((b, eb, ub) # ins_timer (a, e, u) ys) lst' None"
      "tail' = (if \<forall>y\<in>set ys. expire y \<le> e then Some a else tl_tail tls)" by blast
    have "add_timer (Some a) tls = add_timer_from a (Some b) tls"
      using False b assms(4) by (simp add: add_timer_def ut_load_def)
    moreover have "tail' = Some (addr (last (ins_timer (a, e, u) ys)))"
    proof (cases "ys = []")
      case True
      then show ?thesis using r(3) by simp
    next
      case False
      then show ?thesis
        using r(3) last_ins_timer [of ys "(a, e, u)"] assms(1,2) Cons by (auto simp: timers_in_def)
    qed
    ultimately show ?thesis
      using r(1,2) False Cons x n by (auto simp: timers_in_def)
  qed
qed

lemma adjust_timer_ok:
  assumes "timers_in tls (xs @ (a, e, u) # ys)" and "sorted (map expire ys)"
  shows "\<exists>tls'. adjust_timer (Some a) tls = Some (Inr tls') \<and> timers_in tls' (xs @ ins_timer (a, e, u) ys)"
proof -
  obtain m nx lst where a: "dseg (tl_heap tls) None (tl_head tls) xs m (Some a)"
    "tl_heap tls a = Some \<lparr>ut_expire = e, ut_user = u, ut_prev = m, ut_next = nx\<rparr>"
    "dseg (tl_heap tls) (Some a) nx ys lst None"
    using assms(1) by (auto simp: timers_in_def dseg_append)
  show ?thesis
  proof (cases ys)
    case Nil
    with a have "adjust_timer (Some a) tls = Some (Inr tls)" by (simp add: adjust_timer_def ut_load_def)
    with assms(1) Nil show ?thesis by simp
  next
    case (Cons y zs)
    obtain c ec uc where y: "y = (c, ec, uc)" by (cases y)
    obtain nc where c: "nx = Some c"
      "tl_heap tls c = Some \<lparr>ut_expire = ec, ut_user = uc, ut_prev = Some a, ut_next = nc\<rparr>"
      "dseg (tl_heap tls) (Some c) nc zs lst None" using a(3) Cons y by auto
    have n: "a \<noteq> c" "a \<notin> addr ` set xs" "c \<notin> addr ` set xs" "a \<notin> addr ` set zs" "c \<notin> addr ` set zs"
      "distinct (map addr xs)" "distinct (map addr zs)" "addr ` set xs \<inter> addr ` set zs = {}"
      using assms(1) Cons y by (auto simp: timers_in_def)
    have tail: "tl_tail tls = Some (addr (last ys))" using assms(1) Cons by (simp add: timers_in_def)
    show ?thesis
    proof (cases "e < ec")
      case True
      with a c have "adjust_timer (Some a) tls = Some (Inr tls)" by (simp add: adjust_timer_def ut_load_def)
      with assms(1) Cons y True show ?thesis by simp
    next
      case False
      define u1 where "u1 = (if xs = [] then
          tls\<lparr>tl_heap := (tl_heap tls)(c \<mapsto> \<lparr>ut_expire = ec, ut_user = uc, ut_prev = None, ut_next = nc\<rparr>,
             a \<mapsto> \<lparr>ut_expire = e, ut_user = u, ut_prev = None, ut_next = None\<rparr>), tl_head := Some c\<rparr>
        else tls\<lparr>tl_heap := (the_inv Inr (set_next m nx (tl_heap tls)))(c \<mapsto> \<lparr>ut_expire = ec, ut_user = uc, ut_prev = m, ut_next = nc\<rparr>)\<rparr>)"
      have u1: "adjust_timer (Some a) tls = add_timer_from a (Some c) u1
        \<and> (\<exists>lst'. dseg (tl_heap u1) None (tl_head u1) (xs @ (c, ec, uc) # zs) lst' None)
        \<and> (\<exists>t. tl_heap u1 a = Some t \<and> ut_expire t = e \<and> ut_user t = u) \<and> tl_tail u1 = tl_tail tls"
      proof (cases xs rule: rev_cases)
        case Nil
        then have "m = None" "tl_head tls = Some a" using a(1) by auto
        then show ?thesis
          using Nil a c n False
          by (auto simp: u1_def adjust_timer_def ut_load_def set_next_def set_prev_def)
      next
        case (snoc vs v)
        obtain b eb ub where v: "v = (b, eb, ub)" by (cases v)
        then have m: "m = Some b" using a(1) snoc dseg_last by auto
        have nh: "tl_head tls \<noteq> Some a"
          using a(1) n(2) snoc by (cases vs; cases v) auto
        have "b \<notin> addr ` set vs" using n(6) snoc v by auto
        from dseg_set_next [OF a(1) [unfolded snoc v m] this, of nx] obtain h' where
          h': "set_next m nx (tl_heap tls) = Inr h'" "dseg h' None (tl_head tls) xs (Some b) (Some c)"
          "\<forall>x. x \<noteq> b \<longrightarrow> h' x = tl_heap tls x" using snoc v m c(1) by auto
        have "b \<noteq> c" "b \<noteq> a" "b \<notin> addr ` set zs" using n(2,3,8) snoc v by auto
        then have hc: "h' c = tl_heap tls c" "h' a = tl_heap tls a"
          using h'(3) by simp_all
        have hz: "dseg h' (Some c) nc zs lst None"
          by (rule dseg_frame [OF c(3), of "{b}"]) (use h'(3) \<open>b \<notin> addr ` set zs\<close> in auto)
        have u: "u1 = tls\<lparr>tl_heap := h'(c \<mapsto> \<lparr>ut_expire = ec, ut_user = uc, ut_prev = m, ut_next = nc\<rparr>)\<rparr>"
          using h'(1) snoc by (simp add: u1_def the_inv_f_f)
        have "adjust_timer (Some a) tls = add_timer_from a (Some c) u1"
          using a(2) c(1,2) False nh h'(1) hc(1)
          by (simp add: u adjust_timer_def ut_load_def set_prev_def)
        moreover have "dseg (tl_heap u1) None (tl_head u1) (xs @ (c, ec, uc) # zs) lst None"
          using h'(2) hz n m by (auto simp: u dseg_append)
        ultimately show ?thesis using hc(2) a(2) n(1) by (auto simp: u)
      qed
      then obtain t lst' where t: "tl_heap u1 a = Some t" "ut_expire t = e" "ut_user t = u"
        "dseg (tl_heap u1) None (tl_head u1) (xs @ (c, ec, uc) # zs) lst' None" by blast
      have "\<exists>h' tail' lst'. add_timer_from a (Some c) u1 = Some (Inr (u1\<lparr>tl_heap := h', tl_tail := tail'\<rparr>))
        \<and> dseg h' None (tl_head u1) (xs @ (c, ec, uc) # ins_timer (a, ut_expire t, ut_user t) zs) lst' None
        \<and> tail' = (if \<forall>y\<in>set zs. expire y \<le> ut_expire t then Some a else tl_tail u1)"
        by (rule add_timer_from_ok [OF t(4) t(1)]) (use n in auto)
      then obtain h' tail' lst'' where r: "add_timer_from a (Some c) u1 = Some (Inr (u1\<lparr>tl_heap := h', tl_tail := tail'\<rparr>))"
        "dseg h' None (tl_head u1) (xs @ (c, ec, uc) # ins_timer (a, e, u) zs) lst'' None"
        "tail' = (if \<forall>y\<in>set zs. expire y \<le> e then Some a else tl_tail tls)"
        unfolding t(2,3) using u1 by metis
      have "tail' = Some (addr (last (ins_timer (a, e, u) zs)))"
      proof (cases "zs = []")
        case True
        then show ?thesis using r(3) by simp
      next
        case False
        then show ?thesis
          using r(3) last_ins_timer [of zs "(a, e, u)"] assms(2) Cons tail by auto
      qed
      then show ?thesis
        using u1 r(1,2) False Cons y n by (auto simp: timers_in_def)
    qed
  qed
qed

lemma del_timer_ok:
  assumes "timers_in tls (xs @ (a, e, u) # ys)"
  shows "\<exists>tls'. del_timer (Some a) tls = Inr tls' \<and> timers_in tls' (xs @ ys) \<and> tl_heap tls' a = None"
proof -
  obtain m nx lst where a: "dseg (tl_heap tls) None (tl_head tls) xs m (Some a)"
    "tl_heap tls a = Some \<lparr>ut_expire = e, ut_user = u, ut_prev = m, ut_next = nx\<rparr>"
    "dseg (tl_heap tls) (Some a) nx ys lst None"
    using assms(1) by (auto simp: timers_in_def dseg_append)
  have n: "a \<notin> addr ` set xs" "a \<notin> addr ` set ys" "distinct (map addr xs)" "distinct (map addr ys)"
    "addr ` set xs \<inter> addr ` set ys = {}"
    and tail: "tl_tail tls = Some (if ys = [] then a else addr (last ys))"
    using assms(1) by (auto simp: timers_in_def)
  have hd_a: "tl_head tls = Some a \<longleftrightarrow> xs = []"
    using a(1) n(1) by (cases xs) auto
  have tl_a: "tl_tail tls = Some a \<longleftrightarrow> ys = []"
    using tail n(2) by (cases ys rule: rev_cases) auto
  text \<open>The node before \<open>a\<close>, if any, points to \<open>nx\<close> afterwards, the node behind it to \<open>m\<close>.\<close>
  have prev: "\<exists>h'. set_next m q (tl_heap tls) = Inr h' \<and> dseg h' None (tl_head tls) xs m q
      \<and> (\<forall>x. x \<notin> addr ` set xs \<longrightarrow> h' x = tl_heap tls x)" if ne: "xs \<noteq> []" for q
  proof -
    obtain vs b eb ub where v: "xs = vs @ [(b, eb, ub)]" using ne by (metis rev_exhaust prod_cases3)
    then have m: "m = Some b" using a(1) dseg_last by auto
    have "b \<notin> addr ` set vs" using n(3) v by auto
    from dseg_set_next [OF a(1) [unfolded v m] this, of q] show ?thesis using v m by auto
  qed
  have foll: "\<exists>h'. set_prev nx m h = Inr h' \<and> dseg h' m nx ys lst None
      \<and> (\<forall>x. x \<notin> addr ` set ys \<longrightarrow> h' x = h x)"
    if ne: "ys \<noteq> []" and d: "dseg h (Some a) nx ys lst None" for h
  proof -
    obtain c ec uc zs where y: "ys = (c, ec, uc) # zs" using ne by (metis list.exhaust prod_cases3)
    have "c \<notin> addr ` set zs" using n(4) y by auto
    from dseg_set_prev [OF d [unfolded y] this, of m] show ?thesis using y by auto
  qed
  show ?thesis
  proof (cases "xs = []")
    case True
    then have m: "m = None" using a(1) by simp
    show ?thesis
    proof (cases "ys = []")
      case True
      then show ?thesis
        using \<open>xs = []\<close> hd_a tl_a by (auto simp: del_timer_def timers_in_def)
    next
      case False
      from foll [OF False a(3)] obtain h' where h': "set_prev nx None (tl_heap tls) = Inr h'"
        "dseg h' None nx ys lst None" using m by auto
      then show ?thesis
        using \<open>xs = []\<close> False hd_a tl_a a(2) n tail by (auto simp: del_timer_def ut_load_def timers_in_def)
    qed
  next
    case False
    from prev [OF False] obtain h' where h': "set_next m nx (tl_heap tls) = Inr h'"
      "dseg h' None (tl_head tls) xs m nx" "\<forall>x. x \<notin> addr ` set xs \<longrightarrow> h' x = tl_heap tls x" by blast
    show ?thesis
    proof (cases "ys = []")
      case True
      obtain vs b eb ub where v: "xs = vs @ [(b, eb, ub)]" using False by (metis rev_exhaust prod_cases3)
      then have m: "m = Some b" using a(1) dseg_last by auto
      have nx: "nx = None" using True a(3) by simp
      have "del_timer (Some a) tls = Inr (tls\<lparr>tl_heap := h'(a := None), tl_tail := m\<rparr>)"
        using True False hd_a tl_a a(2) h'(1) nx by (simp add: del_timer_def ut_load_def)
      moreover have "dseg (h'(a := None)) None (tl_head tls) xs m None"
        using h'(2) n(1) nx by simp
      ultimately show ?thesis
        using True n(3) v m by (auto simp: timers_in_def simp del: dseg_upd)
    next
      case ys: False
      have "dseg h' (Some a) nx ys lst None"
        by (rule dseg_frame [OF a(3) h'(3) n(5)])
      from foll [OF ys this] obtain h'' where h'': "set_prev nx m h' = Inr h''"
        "dseg h'' m nx ys lst None" "\<forall>x. x \<notin> addr ` set ys \<longrightarrow> h'' x = h' x" by blast
      have "dseg h'' None (tl_head tls) xs m nx"
        by (rule dseg_frame [OF h'(2) h''(3)]) (use n(5) in auto)
      then have "dseg h'' None (tl_head tls) (xs @ ys) lst None"
        using h''(2) by (auto simp: dseg_append)
      then have "dseg (h''(a := None)) None (tl_head tls) (xs @ ys) lst None"
        by (rule dseg_frame [of _ _ _ _ _ _ "{a}"]) (use n(1,2) in auto)
      moreover have "del_timer (Some a) tls = Inr (tls\<lparr>tl_heap := h''(a := None)\<rparr>)"
        using False ys hd_a tl_a a(2) h'(1) h''(1) by (simp add: del_timer_def ut_load_def)
      moreover have "distinct (map addr (xs @ ys))" using n by auto
      ultimately show ?thesis
        using n(1,2) tail ys by (auto simp: timers_in_def simp del: dseg_upd)
    qed
  qed
qed

lemma tick_loop_ok:
  assumes "dseg (tl_heap tls) None p xs lst None" and "distinct (map addr xs)" and "tl_head tls = p"
    and "xs \<noteq> [] \<longrightarrow> tl_tail tls = Some (addr (last xs))"
  shows "\<exists>tls'. tick_loop cur p fired tls
      = Some (Inr (fired @ map user (takeWhile (\<lambda>x. expire x \<le> cur) xs), tls'))
    \<and> timers_in tls' (dropWhile (\<lambda>x. expire x \<le> cur) xs)"
  using assms
proof (induction xs arbitrary: p tls fired lst)
  case Nil
  then show ?case by (subst tick_loop.simps) (simp add: timers_in_def)
next
  case (Cons x ys)
  obtain a e u where x: "x = (a, e, u)" by (cases x)
  obtain nx where a: "p = Some a"
    "tl_heap tls a = Some \<lparr>ut_expire = e, ut_user = u, ut_prev = None, ut_next = nx\<rparr>"
    "dseg (tl_heap tls) (Some a) nx ys lst None" using Cons.prems(1) x by auto
  show ?case
  proof (cases "cur < e")
    case True
    then show ?thesis
      using Cons.prems a x by (subst tick_loop.simps) (auto simp: ut_load_def timers_in_def)
  next
    case False
    have n: "a \<notin> addr ` set ys" "distinct (map addr ys)" using Cons.prems(2) x by auto
    obtain h lst' where h: "(if nx = None then Inr (tl_heap tls) else set_prev nx None (tl_heap tls)) = Inr h"
      "dseg h None nx ys lst' None"
    proof (cases ys)
      case Nil
      then show ?thesis using that [of "tl_heap tls" None] a(3) by simp
    next
      case (Cons y zs)
      obtain c ec uc where y: "y = (c, ec, uc)" by (cases y)
      then show ?thesis
        using that dseg_set_prev [of "tl_heap tls" "Some a" nx c ec uc zs lst None None] a(3) Cons n(2) by auto
    qed
    define tls1 where "tls1 = tls\<lparr>tl_heap := h(a := None), tl_head := nx\<rparr>"
    have "tick_loop cur p fired tls = tick_loop cur nx (fired @ [u]) tls1"
      using False a(1,2) h(1) by (cases nx; subst tick_loop.simps) (simp_all add: ut_load_def tls1_def)
    moreover have "ys \<noteq> [] \<longrightarrow> tl_tail tls1 = Some (addr (last ys))"
      using Cons.prems(4) by (simp add: tls1_def)
    moreover have "dseg (tl_heap tls1) None nx ys lst' None" using h(2) n(1) by (simp add: tls1_def)
    moreover have "tl_head tls1 = nx" by (simp add: tls1_def)
    ultimately show ?thesis
      using Cons.IH [of tls1 nx lst' "fired @ [u]"] n(2) False x by simp
  qed
qed

lemma tick_ok:
  assumes "timers_in tls xs"
  shows "\<exists>tls'. tick cur tls = Some (Inr (map user (takeWhile (\<lambda>x. expire x \<le> cur) xs), tls'))
    \<and> timers_in tls' (dropWhile (\<lambda>x. expire x \<le> cur) xs)"
proof -
  obtain lst where d: "dseg (tl_heap tls) None (tl_head tls) xs lst None" "distinct (map addr xs)"
    "xs \<noteq> [] \<longrightarrow> tl_tail tls = Some (addr (last xs))" using assms by (auto simp: timers_in_def)
  show ?thesis
  proof (cases "tl_head tls = None")
    case True
    then have "xs = []" using d(1) by (cases xs) auto
    with True assms show ?thesis by (simp add: tick_def)
  next
    case False
    then show ?thesis using tick_loop_ok [OF d(1,2) refl d(3), of cur "[]"] by (auto simp: tick_def)
  qed
qed

subsection \<open>The destructor\<close>

lemma delete_loop_ok:
  assumes "dseg (tl_heap tls) pv (tl_head tls) xs lst None" and "distinct (map addr xs)"
  shows "delete_loop (tl_head tls) tls = Some (Inr (tls\<lparr>tl_head := None,
    tl_heap := (\<lambda>b. if b \<in> addr ` set xs then None else tl_heap tls b)\<rparr>))"
  using assms
proof (induction xs arbitrary: pv tls)
  case Nil
  then show ?case by (subst delete_loop.simps) simp
next
  case (Cons x xs)
  obtain a e u where x: "x = (a, e, u)" by (cases x)
  with Cons.prems obtain nx where a: "tl_head tls = Some a"
    "tl_heap tls a = Some \<lparr>ut_expire = e, ut_user = u, ut_prev = pv, ut_next = nx\<rparr>"
    "dseg (tl_heap tls) (Some a) nx xs lst None" "a \<notin> addr ` set xs" "distinct (map addr xs)" by auto
  let ?t = "tls\<lparr>tl_head := nx, tl_heap := (tl_heap tls)(a := None)\<rparr>"
  have "delete_loop (tl_head tls) tls = delete_loop (tl_head ?t) ?t"
    using a(1,2) by (subst delete_loop.simps) (simp add: ut_load_def)
  also have "\<dots> = Some (Inr (?t\<lparr>tl_head := None, tl_heap := (\<lambda>b. if b \<in> addr ` set xs then None else tl_heap ?t b)\<rparr>))"
    by (rule Cons.IH [of ?t "Some a"]) (use a(3,5) dseg_upd [OF a(4), unfolded fun_upd_def] in simp_all)
  finally show ?case using x by (simp add: fun_eq_iff)
qed

text \<open>
  On a well-formed list the destructor ends without touching a deleted node, deletes the timers
  of the list and no other, and leaves the tail pointer where it was.
\<close>

lemma sort_timer_lst_delete_ok:
  assumes "timers_in tls xs"
  shows "sort_timer_lst_delete tls = Some (Inr (tls\<lparr>tl_head := None,
    tl_heap := (\<lambda>b. if b \<in> addr ` set xs then None else tl_heap tls b)\<rparr>))"
  using assms by (auto simp: timers_in_def sort_timer_lst_delete_def intro: delete_loop_ok)

subsection \<open>The list against its specification\<close>

text \<open>
  What main.cpp does with the list: a new timer at a fresh address, a later expiry for an
  existing one followed by \<open>adjust_timer\<close>, a removal, a tick at a time.
\<close>

datatype timer_op = AddT nat int nat | AdjustT nat int | DelT nat | TickT int

definition timer_step :: "timer_op \<Rightarrow> sort_timer_lst \<Rightarrow> (nat list \<times> sort_timer_lst) res option" where
  "timer_step op tls =
     (case op of
        AddT a e u \<Rightarrow>
          map_option (map_sum id (Pair []))
            (add_timer (Some a) (tls\<lparr>tl_heap := (tl_heap tls)(a \<mapsto>
               \<lparr>ut_expire = e, ut_user = u, ut_prev = None, ut_next = None\<rparr>)\<rparr>))
      | AdjustT a e \<Rightarrow>
          (case tl_heap tls a of
             None \<Rightarrow> Some (Inl NullDeref)
           | Some t \<Rightarrow>
               map_option (map_sum id (Pair []))
                 (adjust_timer (Some a) (tls\<lparr>tl_heap := (tl_heap tls)(a \<mapsto> t\<lparr>ut_expire := e\<rparr>)\<rparr>)))
      | DelT a \<Rightarrow> Some (map_sum id (Pair []) (del_timer (Some a) tls))
      | TickT cur \<Rightarrow> tick cur tls)"

definition spec_step :: "timer_op \<Rightarrow> timer list \<Rightarrow> nat list \<times> timer list" where
  "spec_step op xs =
     (case op of
        AddT a e u \<Rightarrow> ([], ins_timer (a, e, u) xs)
      | AdjustT a e \<Rightarrow>
          (case filter (\<lambda>x. addr x = a) xs of
             [] \<Rightarrow> ([], xs)
           | x # _ \<Rightarrow> ([], ins_timer (a, e, user x) (filter (\<lambda>x. addr x \<noteq> a) xs)))
      | DelT a \<Rightarrow> ([], filter (\<lambda>x. addr x \<noteq> a) xs)
      | TickT cur \<Rightarrow> (map user (filter (\<lambda>x. expire x \<le> cur) xs), filter (\<lambda>x. cur < expire x) xs))"

definition valid_op :: "timer_op \<Rightarrow> timer list \<Rightarrow> bool" where
  "valid_op op xs =
     (case op of
        AddT a e u \<Rightarrow> a \<notin> addr ` set xs
      | AdjustT a e \<Rightarrow> \<exists>x\<in>set xs. addr x = a \<and> expire x \<le> e
      | DelT a \<Rightarrow> a \<in> addr ` set xs
      | TickT cur \<Rightarrow> True)"

lemma filter_absent:
  assumes "a \<notin> addr ` set ys"
  shows "filter (\<lambda>x. addr x = a) ys = []" "filter (\<lambda>x. addr x \<noteq> a) ys = ys"
  using assms by (induction ys) auto

lemma sorted_splits:
  assumes "sorted (map expire xs)"
  shows "takeWhile (\<lambda>x. expire x \<le> cur) xs = filter (\<lambda>x. expire x \<le> cur) xs"
    and "dropWhile (\<lambda>x. expire x \<le> cur) xs = filter (\<lambda>x. cur < expire x) xs"
proof -
  have "takeWhile (\<lambda>x. expire x \<le> cur) xs = filter (\<lambda>x. expire x \<le> cur) xs
    \<and> dropWhile (\<lambda>x. expire x \<le> cur) xs = filter (\<lambda>x. cur < expire x) xs"
    using assms
  proof (induction xs)
    case (Cons x xs)
    have "\<not> expire x \<le> cur \<Longrightarrow> \<forall>y\<in>set xs. cur < expire y"
      using Cons.prems by fastforce
    then show ?case
      using Cons by (cases "expire x \<le> cur") (auto simp: filter_empty_conv not_le intro!: filter_True [symmetric])
  qed simp
  then show "takeWhile (\<lambda>x. expire x \<le> cur) xs = filter (\<lambda>x. expire x \<le> cur) xs"
    "dropWhile (\<lambda>x. expire x \<le> cur) xs = filter (\<lambda>x. cur < expire x) xs" by simp_all
qed

lemma ins_timer_behind: "\<forall>x\<in>set xs. expire x \<le> expire y \<Longrightarrow> ins_timer y (xs @ ys) = xs @ ins_timer y ys"
  by (induction xs) auto

lemma timer_step_refines:
  assumes "timers_in tls xs" and "sorted (map expire xs)" and "valid_op op xs"
  shows "\<exists>tls'. timer_step op tls = Some (Inr (fst (spec_step op xs), tls'))
    \<and> timers_in tls' (snd (spec_step op xs)) \<and> sorted (map expire (snd (spec_step op xs)))"
proof (cases op)
  case (AddT a e u)
  let ?tls = "tls\<lparr>tl_heap := (tl_heap tls)(a \<mapsto> \<lparr>ut_expire = e, ut_user = u, ut_prev = None, ut_next = None\<rparr>)\<rparr>"
  have a: "a \<notin> addr ` set xs" using assms(3) AddT by (simp add: valid_op_def)
  then have "timers_in ?tls xs" using assms(1) by (simp add: timers_in_def)
  from add_timer_ok [OF this assms(2) a, of e u] AddT assms(2) sorted_ins_timer show ?thesis
    by (auto simp: timer_step_def spec_step_def)
next
  case (AdjustT a e)
  then obtain old u where o: "(a, old, u) \<in> set xs" "old \<le> e"
    using assms(3) by (auto simp: valid_op_def)
  then obtain ys zs where xs: "xs = ys @ (a, old, u) # zs" by (meson split_list)
  have n: "a \<notin> addr ` set ys" "a \<notin> addr ` set zs" using assms(1) xs by (auto simp: timers_in_def)
  then have f: "filter (\<lambda>x. addr x = a) xs = [(a, old, u)]" "filter (\<lambda>x. addr x \<noteq> a) xs = ys @ zs"
    using xs by (simp_all add: filter_absent)
  obtain lst m nx where d: "dseg (tl_heap tls) None (tl_head tls) ys m (Some a)"
    "tl_heap tls a = Some \<lparr>ut_expire = old, ut_user = u, ut_prev = m, ut_next = nx\<rparr>"
    "dseg (tl_heap tls) (Some a) nx zs lst None"
    using assms(1) xs by (auto simp: timers_in_def dseg_append)
  let ?tls = "tls\<lparr>tl_heap := (tl_heap tls)(a \<mapsto> \<lparr>ut_expire = e, ut_user = u, ut_prev = m, ut_next = nx\<rparr>)\<rparr>"
  have "timers_in ?tls (ys @ (a, e, u) # zs)"
    using assms(1) d n xs by (auto simp: timers_in_def dseg_append split: if_splits)
  moreover have s: "sorted (map expire ys)" "sorted (map expire zs)" "\<forall>y\<in>set ys. expire y \<le> old"
    "\<forall>y\<in>set ys. \<forall>z\<in>set zs. expire y \<le> expire z"
    using assms(2) xs by (auto simp: sorted_append)
  ultimately obtain tls' where "adjust_timer (Some a) ?tls = Some (Inr tls')"
    "timers_in tls' (ys @ ins_timer (a, e, u) zs)" using adjust_timer_ok [of ?tls ys a e u zs] by blast
  moreover have "ys @ ins_timer (a, e, u) zs = ins_timer (a, e, u) (ys @ zs)"
    using ins_timer_behind [of ys "(a, e, u)" zs] s(3) o(2) by force
  moreover have "sorted (map expire (ys @ zs))" using s by (simp add: sorted_append)
  ultimately show ?thesis
    using AdjustT f d(2) sorted_ins_timer [of "ys @ zs" "(a, e, u)"]
    by (simp add: timer_step_def spec_step_def)
next
  case (DelT a)
  then obtain e u where "(a, e, u) \<in> set xs" using assms(3) by (auto simp: valid_op_def)
  then obtain ys zs where xs: "xs = ys @ (a, e, u) # zs" by (meson split_list)
  have "a \<notin> addr ` set ys" "a \<notin> addr ` set zs" using assms(1) xs by (auto simp: timers_in_def)
  then have "filter (\<lambda>x. addr x \<noteq> a) xs = ys @ zs"
    using xs by (simp add: filter_absent)
  moreover obtain tls' where "del_timer (Some a) tls = Inr tls'" "timers_in tls' (ys @ zs)"
    using del_timer_ok assms(1) xs by blast
  moreover have "sorted (map expire (ys @ zs))" using assms(2) xs by (auto simp: sorted_append)
  ultimately show ?thesis using DelT by (simp add: timer_step_def spec_step_def)
next
  case (TickT cur)
  then show ?thesis
    using tick_ok [OF assms(1), of cur] sorted_splits [OF assms(2), of cur] sorted_filter [OF assms(2)]
    by (auto simp: timer_step_def spec_step_def)
qed

fun timer_run :: "timer_op list \<Rightarrow> sort_timer_lst \<Rightarrow> (nat list \<times> sort_timer_lst) res option" where
  "timer_run [] tls = Some (Inr ([], tls))"
| "timer_run (op # ops) tls =
     (case timer_step op tls of
        None \<Rightarrow> None
      | Some (Inl e) \<Rightarrow> Some (Inl e)
      | Some (Inr (fired, tls)) \<Rightarrow> map_option (map_sum id (\<lambda>(f, t). (fired @ f, t))) (timer_run ops tls))"

fun spec_run :: "timer_op list \<Rightarrow> timer list \<Rightarrow> nat list \<times> timer list" where
  "spec_run [] xs = ([], xs)"
| "spec_run (op # ops) xs =
     (case spec_step op xs of (fired, xs) \<Rightarrow> case spec_run ops xs of (f, xs) \<Rightarrow> (fired @ f, xs))"

fun valid_ops :: "timer_op list \<Rightarrow> timer list \<Rightarrow> bool" where
  "valid_ops [] xs = True"
| "valid_ops (op # ops) xs = (valid_op op xs \<and> valid_ops ops (snd (spec_step op xs)))"

lemma timer_run_refines:
  assumes "timers_in tls xs" and "sorted (map expire xs)" and "valid_ops ops xs"
  shows "\<exists>tls'. timer_run ops tls = Some (Inr (fst (spec_run ops xs), tls'))
    \<and> timers_in tls' (snd (spec_run ops xs)) \<and> sorted (map expire (snd (spec_run ops xs)))"
  using assms
proof (induction ops arbitrary: tls xs)
  case (Cons op ops)
  obtain tls1 where 1: "timer_step op tls = Some (Inr (fst (spec_step op xs), tls1))"
    "timers_in tls1 (snd (spec_step op xs))" "sorted (map expire (snd (spec_step op xs)))"
    using timer_step_refines [OF Cons.prems(1,2), of op] Cons.prems(3) by auto
  with Cons.IH [OF 1(2,3)] Cons.prems(3) show ?case by (auto split: prod.splits)
qed simp

text \<open>
  C6. The timer list refines its specification: run on any sequence of additions, extensions
  of existing timers, removals of existing timers and ticks, starting empty, the operations
  on the doubly linked list always return, never follow a null or deleted pointer, and leave
  a list that holds the specified timers in ascending order of expiry, equal ones in the
  order in which they were set. A tick calls the callback for exactly the timers that have
  expired, the earliest first, and removes exactly those.
\<close>

theorem timer_list_refines_spec:
  assumes "valid_ops ops []" and "tl_head tls = None"
  shows "\<exists>tls'. timer_run ops tls = Some (Inr (fst (spec_run ops []), tls'))
    \<and> timers_in tls' (snd (spec_run ops [])) \<and> sorted (map expire (snd (spec_run ops [])))"
proof -
  have "timers_in tls []" using assms(2) by (simp add: timers_in_def)
  from timer_run_refines [OF this _ assms(1)] show ?thesis by simp
qed

lemma timer_list_refines_spec_witness:
  "\<exists>tls'. timer_run [AddT 1 15 10, AddT 2 16 20, AddT 3 12 30, AdjustT 1 20, TickT 16]
      \<lparr>tl_heap = (\<lambda>_. None), tl_head = None, tl_tail = None\<rparr> = Some (Inr ([30, 20], tls'))
    \<and> timers_in tls' [(1, 20, 10)]"
  using timer_list_refines_spec [of "[AddT 1 15 10, AddT 2 16 20, AddT 3 12 30, AdjustT 1 20, TickT 16]"
      "\<lparr>tl_heap = (\<lambda>_. None), tl_head = None, tl_tail = None\<rparr>"]
  by (simp add: valid_op_def spec_step_def)

subsection \<open>What the main program relies on\<close>

text \<open>
  The contract between main.cpp and the list: a relation between a list and the timers it
  holds, and one law for each operation. What the main program needs of it is that the timer
  of every connection in use stays in the list: \<open>guarded\<close>.
\<close>

definition guarded :: "(nat \<Rightarrow> nat option) \<Rightarrow> timer list \<Rightarrow> nat \<Rightarrow> bool" where
  "guarded tm xs fd = (\<exists>a e. tm fd = Some a \<and> (a, e, fd) \<in> set xs)"

abbreviation without :: "nat \<Rightarrow> timer list \<Rightarrow> timer list" where
  "without a xs \<equiv> filter (\<lambda>x. addr x \<noteq> a) xs"

lemma length_ins_timer [simp]: "length (ins_timer x xs) = Suc (length xs)"
  by (induction xs) auto

lemma without_one:
  assumes "distinct (map addr xs)" and "(a, e, u) \<in> set xs"
  shows "length xs = Suc (length (without a xs))" "set (without a xs) = set xs - {(a, e, u)}"
proof -
  obtain ys zs where xs: "xs = ys @ (a, e, u) # zs" using split_list [OF assms(2)] by auto
  then have n: "a \<notin> addr ` set ys" "a \<notin> addr ` set zs" using assms(1) by auto
  then have f: "without a xs = ys @ zs" using xs by (simp add: filter_absent)
  show "length xs = Suc (length (without a xs))" using xs unfolding f by simp
  show "set (without a xs) = set xs - {(a, e, u)}" using xs n unfolding f by force
qed

locale timer_queue =
  fixes holds :: "'q \<Rightarrow> timer list \<Rightarrow> bool"
    and add :: "nat \<Rightarrow> int \<Rightarrow> nat \<Rightarrow> 'q \<Rightarrow> 'q res"
    and prolong :: "nat \<Rightarrow> int \<Rightarrow> 'q \<Rightarrow> 'q res"
    and cancel :: "nat \<Rightarrow> 'q \<Rightarrow> 'q res"
    and expired :: "int \<Rightarrow> 'q \<Rightarrow> (nat list \<times> 'q) res"
    and unused :: "nat \<Rightarrow> 'q \<Rightarrow> bool"
  assumes holds_distinct: "holds q xs \<Longrightarrow> distinct (map addr xs)"
    and unused_absent: "holds q xs \<Longrightarrow> unused a q \<Longrightarrow> a \<notin> addr ` set xs"
    and add_law: "holds q xs \<Longrightarrow> unused a q
      \<Longrightarrow> \<exists>q'. add a e u q = Inr q' \<and> holds q' (ins_timer (a, e, u) xs)"
    and prolong_law: "holds q xs \<Longrightarrow> (a, e, u) \<in> set xs \<Longrightarrow> e \<le> e'
      \<Longrightarrow> \<exists>q'. prolong a e' q = Inr q' \<and> holds q' (ins_timer (a, e', u) (without a xs))"
    and cancel_law: "holds q xs \<Longrightarrow> a \<in> addr ` set xs \<Longrightarrow> \<exists>q'. cancel a q = Inr q' \<and> holds q' (without a xs)"
    and expired_law: "holds q xs \<Longrightarrow> \<exists>q'. expired cur q = Inr (map user (filter (\<lambda>x. expire x \<le> cur) xs), q')
      \<and> holds q' (filter (\<lambda>x. cur < expire x) xs)"
begin

lemma other_timer:
  assumes "holds q xs" and "guarded tm xs fd" and "guarded tm xs fd'" and "fd' \<noteq> fd"
  shows "tm fd' \<noteq> tm fd"
  using assms eq_key_imp_eq_value [OF holds_distinct [OF assms(1)]] unfolding guarded_def by fastforce

lemma guarded_add:
  assumes "holds q xs" and "unused a q"
  shows "\<exists>q' xs'. add a e u q = Inr q' \<and> holds q' xs' \<and> set xs' = insert (a, e, u) (set xs)
    \<and> length xs' = Suc (length xs) \<and> guarded (tm(u \<mapsto> a)) xs' u
    \<and> (\<forall>fd. guarded tm xs fd \<longrightarrow> guarded (tm(u \<mapsto> a)) xs' fd)"
  using add_law [OF assms, of e u] by (fastforce simp: guarded_def)

lemma guarded_prolong:
  assumes "holds q xs" and "tm fd = Some a" and "(a, e, fd) \<in> set xs" and "e \<le> e'"
  shows "\<exists>q' xs'. prolong a e' q = Inr q' \<and> holds q' xs' \<and> set xs' = insert (a, e', fd) (set xs - {(a, e, fd)})
    \<and> length xs' = length xs \<and> (\<forall>x. guarded tm xs x \<longrightarrow> guarded tm xs' x)"
proof -
  note w = without_one [OF holds_distinct [OF assms(1)] assms(3)]
  obtain q' where q': "prolong a e' q = Inr q'" "holds q' (ins_timer (a, e', fd) (without a xs))"
    using prolong_law [OF assms(1,3,4)] by blast
  have "guarded tm (ins_timer (a, e', fd) (without a xs)) x" if "guarded tm xs x" for x
  proof (cases "x = fd")
    case True
    then show ?thesis using assms(2) by (auto simp: guarded_def)
  next
    case False
    then show ?thesis using that w(2) by (auto simp: guarded_def)
  qed
  with q' w show ?thesis by (intro exI [of _ q'] exI [of _ "ins_timer (a, e', fd) (without a xs)"]) auto
qed

lemma guarded_cancel:
  assumes "holds q xs" and "tm fd = Some a" and "(a, e, fd) \<in> set xs"
  shows "\<exists>q' xs'. cancel a q = Inr q' \<and> holds q' xs' \<and> set xs' \<subseteq> set xs \<and> length xs = Suc (length xs')
    \<and> (\<forall>x. x \<noteq> fd \<longrightarrow> guarded tm xs x \<longrightarrow> guarded tm xs' x)"
proof -
  note w = without_one [OF holds_distinct [OF assms(1)] assms(3)]
  obtain q' where "cancel a q = Inr q'" "holds q' (without a xs)"
    using cancel_law [OF assms(1), of a] assms(3) by force
  moreover have "guarded tm (without a xs) x" if "guarded tm xs x" "x \<noteq> fd" for x
    using that w(2) by (auto simp: guarded_def)
  ultimately show ?thesis using w by (intro exI [of _ q'] exI [of _ "without a xs"]) auto
qed

lemma guarded_expired:
  assumes "holds q xs"
  shows "\<exists>q' xs' us. expired cur q = Inr (us, q') \<and> holds q' xs' \<and> set xs' = {x \<in> set xs. cur < expire x}
    \<and> us = map user (filter (\<lambda>x. expire x \<le> cur) xs) \<and> length xs = length us + length xs'
    \<and> (\<forall>x. guarded tm xs x \<longrightarrow> x \<notin> set us \<longrightarrow> guarded tm xs' x)"
proof -
  have l: "length xs = length (filter (\<lambda>x. expire x \<le> cur) xs) + length (filter (\<lambda>x. cur < expire x) xs)"
    by (induction xs) auto
  have "guarded tm (filter (\<lambda>x. cur < expire x) xs) x"
    if "guarded tm xs x" "x \<notin> user ` set (filter (\<lambda>x. expire x \<le> cur) xs)" for x
    using that unfolding guarded_def by force
  with expired_law [OF assms, of cur] l show ?thesis
    by (elim exE conjE) (intro exI conjI, assumption+, simp_all)
qed

end

text \<open>The linked list gives what the contract asks for.\<close>

lemma map_sum_eq_Inr: "map_sum id f m = Inr y \<longleftrightarrow> (\<exists>x. m = Inr x \<and> y = f x)"
  by (cases m) auto

definition returned :: "'a res option \<Rightarrow> 'a res" where
  "returned m = (case m of None \<Rightarrow> Inl Blocked | Some r \<Rightarrow> r)"

lemma returned_Some [simp]: "returned (Some r) = r"
  by (simp add: returned_def)

definition timers_held :: "sort_timer_lst \<Rightarrow> timer list \<Rightarrow> bool" where
  "timers_held tls xs = (timers_in tls xs \<and> sorted (map expire xs))"

definition start_timer :: "nat \<Rightarrow> int \<Rightarrow> nat \<Rightarrow> sort_timer_lst \<Rightarrow> sort_timer_lst res" where
  "start_timer a e u tls = returned (add_timer (Some a) (tls\<lparr>tl_heap := (tl_heap tls)(a \<mapsto>
     \<lparr>ut_expire = e, ut_user = u, ut_prev = None, ut_next = None\<rparr>)\<rparr>))"

definition prolong_timer :: "nat \<Rightarrow> int \<Rightarrow> sort_timer_lst \<Rightarrow> sort_timer_lst res" where
  "prolong_timer a e tls = bindr (ut_load (tl_heap tls) (Some a)) (\<lambda>t.
     returned (adjust_timer (Some a) (tls\<lparr>tl_heap := (tl_heap tls)(a \<mapsto> t\<lparr>ut_expire := e\<rparr>)\<rparr>)))"

interpretation tls: timer_queue timers_held start_timer prolong_timer "\<lambda>a. del_timer (Some a)"
  "\<lambda>cur tls. returned (tick cur tls)" "\<lambda>a tls. tl_heap tls a = None"
proof unfold_locales
  fix q xs
  assume "timers_held q xs"
  then show "distinct (map addr xs)" by (simp add: timers_held_def timers_in_def)
next
  fix q xs a
  assume h: "timers_held q xs" "tl_heap q a = None"
  show "a \<notin> addr ` set xs"
  proof
    assume "a \<in> addr ` set xs"
    then obtain e u ys zs where "xs = ys @ (a, e, u) # zs" by (auto dest!: split_list)
    then show False using h by (auto simp: timers_held_def timers_in_def dseg_append)
  qed
  then show "\<exists>q'. start_timer a e u q = Inr q' \<and> timers_held q' (ins_timer (a, e, u) xs)" for e u
    using timer_step_refines [of q xs "AddT a e u"] h(1)
    by (auto simp: timers_held_def valid_op_def timer_step_def spec_step_def start_timer_def map_sum_eq_Inr)
next
  fix q xs a e u e'
  assume h: "timers_held q xs" "(a, e, u) \<in> set xs" "e \<le> e'"
  have d: "distinct (map addr xs)" using h(1) by (simp add: timers_held_def timers_in_def)
  obtain ys zs where xs: "xs = ys @ (a, e, u) # zs" using split_list [OF h(2)] by auto
  have f: "filter (\<lambda>x. addr x = a) xs = [(a, e, u)]"
    using d xs by (simp add: filter_absent)
  have "valid_op (AdjustT a e') xs" using h(2,3) by (force simp: valid_op_def)
  from timer_step_refines [OF _ _ this, of q] h(1) f
  obtain q' where t: "timer_step (AdjustT a e') q = Some (Inr ([], q'))"
    "timers_held q' (ins_timer (a, e', u) (without a xs))"
    by (auto simp: timers_held_def spec_step_def)
  then have "prolong_timer a e' q = Inr q'"
    by (cases "tl_heap q a") (auto simp: timer_step_def prolong_timer_def ut_load_def map_sum_eq_Inr)
  with t(2) show "\<exists>q'. prolong_timer a e' q = Inr q' \<and> timers_held q' (ins_timer (a, e', u) (without a xs))"
    by blast
next
  fix q xs a
  assume h: "timers_held q xs" "a \<in> addr ` set xs"
  then show "\<exists>q'. del_timer (Some a) q = Inr q' \<and> timers_held q' (without a xs)"
    using timer_step_refines [of q xs "DelT a"]
    by (auto simp: timers_held_def valid_op_def timer_step_def spec_step_def map_sum_eq_Inr)
next
  fix q xs cur
  assume "timers_held q xs"
  then show "\<exists>q'. returned (tick cur q) = Inr (map user (filter (\<lambda>x. expire x \<le> cur) xs), q')
      \<and> timers_held q' (filter (\<lambda>x. cur < expire x) xs)"
    using timer_step_refines [of q xs "TickT cur"]
    by (auto simp: timers_held_def valid_op_def timer_step_def spec_step_def)
qed

end
