(* ===== verification/V3_Log.thy ===== *)
theory V3_Log
  imports V3_BlockQueue
begin

section \<open>version\_03: the logger\<close>

text \<open>
  version\_03/log/log.h and log.cpp. The one \<open>Log\<close> object has static storage, so its members
  start at zero; \<open>lg_buf\<close> is empty until \<open>init\<close> allocates it. Without a queue
  \<open>write_log\<close> puts the line into the file, with one it pushes the line for the log thread,
  and puts it into the file itself when the queue is full. What \<open>gettimeofday\<close> and
  \<open>localtime\<close> give is the parameter \<open>now\<close>, which files can be opened is \<open>fopen_ok\<close>. A file
  is what has been put into its stream; when the library writes it to the disk is left
  open, so \<open>flush\<close> only takes and releases the mutex.
\<close>

subsection \<open>State\<close>

record time_of_day =
  tm_year :: int
  tm_mon :: int
  tm_mday :: int
  tm_hour :: int
  tm_min :: int
  tm_sec :: int
  tv_usec :: int

record logger =
  lg_mutex :: mutex
  lg_queue :: "string block_queue option"
  lg_dir_name :: "char list"
  lg_log_name :: "char list"
  lg_buf :: "char list"
  lg_log_buf_size :: int
  lg_max_lines :: int
  lg_count :: int
  lg_today :: int
  lg_fp :: "string option"
  lg_is_async :: bool
  lg_files :: "string \<Rightarrow> string"

definition Log_new :: "(string \<Rightarrow> string) \<Rightarrow> logger" where
  "Log_new files =
     \<lparr>lg_mutex = False, lg_queue = None, lg_dir_name = replicate 128 NUL,
      lg_log_name = replicate 128 NUL, lg_buf = [], lg_log_buf_size = 0, lg_max_lines = 0,
      lg_count = 0, lg_today = 0, lg_fp = None, lg_is_async = False, lg_files = files\<rparr>"

definition lg_lock :: "logger \<Rightarrow> logger res" where
  "lg_lock lg = bindr (locker_lock (lg_mutex lg)) (\<lambda>m. Inr (lg\<lparr>lg_mutex := m\<rparr>))"

definition lg_unlock :: "logger \<Rightarrow> logger res" where
  "lg_unlock lg = bindr (locker_unlock (lg_mutex lg)) (\<lambda>m. Inr (lg\<lparr>lg_mutex := m\<rparr>))"

subsection \<open>Opening the log\<close>

definition date_text :: "time_of_day \<Rightarrow> string" where
  "date_text t = dec_int (tm_year t + 1900) @ ''_'' @ pad0 2 (tm_mon t + 1) @ ''_''
     @ pad0 2 (tm_mday t) @ ''_''"

definition open_log :: "(string \<Rightarrow> bool) \<Rightarrow> string \<Rightarrow> string option" where
  "open_log fopen_ok f = (if fopen_ok f then Some f else None)"

definition log_start ::
  "(string \<Rightarrow> bool) \<Rightarrow> time_of_day \<Rightarrow> string \<Rightarrow> int \<Rightarrow> int \<Rightarrow> int \<Rightarrow> logger
     \<Rightarrow> (bool \<times> logger) res"
where
  "log_start fopen_ok now file_name log_buf_size split_lines max_queue_size lg =
     bindr (if max_queue_size \<ge> 1
            then bindr (block_queue_new (\<lambda>_. []) max_queue_size) (\<lambda>q.
                   Inr (lg\<lparr>lg_is_async := True, lg_queue := Some q\<rparr>))
            else Inr lg) (\<lambda>lg.
     if log_buf_size < 0 then Inl std_exception
     else
       let lg = lg\<lparr>lg_log_buf_size := log_buf_size, lg_buf := replicate (nat log_buf_size) NUL,
                   lg_max_lines := split_lines\<rparr> in
       bindr (case strrchr (CHR ''/'') file_name of
                None \<Rightarrow> Inr (lg, take 254 (date_text now @ file_name))
              | Some p \<Rightarrow>
                  bindr (strcpy (lg_log_name lg) (drop (p + 1) file_name)) (\<lambda>log_name.
                  bindr (strncpy (lg_dir_name lg) 0 file_name (p + 1)) (\<lambda>dir_name.
                  bindr (cstr dir_name 0) (\<lambda>dir.
                  bindr (cstr log_name 0) (\<lambda>name.
                    Inr (lg\<lparr>lg_log_name := log_name, lg_dir_name := dir_name\<rparr>,
                         take 254 (dir @ date_text now @ name))))))) (\<lambda>(lg, log_full_name).
       let lg = lg\<lparr>lg_today := tm_mday now, lg_fp := open_log fopen_ok log_full_name\<rparr> in
       Inr (lg_fp lg \<noteq> None, lg)))"

subsection \<open>Writing a line\<close>

definition level_text :: "int \<Rightarrow> string" where
  "level_text level =
     (if level = 0 then ''[debug]:'' else if level = 1 then ''[info]:''
      else if level = 2 then ''[warn]:'' else if level = 3 then ''[erro]:'' else ''[info]:'')"

definition stamp_text :: "time_of_day \<Rightarrow> int \<Rightarrow> string" where
  "stamp_text t level =
     dec_int (tm_year t + 1900) @ ''-'' @ pad0 2 (tm_mon t + 1) @ ''-'' @ pad0 2 (tm_mday t)
     @ '' '' @ pad0 2 (tm_hour t) @ '':'' @ pad0 2 (tm_min t) @ '':'' @ pad0 2 (tm_sec t)
     @ ''.'' @ pad0 6 (tv_usec t) @ '' '' @ level_text level @ '' ''"

text \<open>The first critical section of \<open>write_log\<close>: count the line, change the file when due.\<close>

definition rotate_due :: "time_of_day \<Rightarrow> logger \<Rightarrow> bool res" where
  "rotate_due now lg =
     (if lg_today lg \<noteq> tm_mday now then Inr True
      else if lg_max_lines lg = 0 then Inl (Die ''SIGFPE'')
      else Inr (lg_count lg mod lg_max_lines lg = 0))"

definition count_line :: "(string \<Rightarrow> bool) \<Rightarrow> time_of_day \<Rightarrow> logger \<Rightarrow> logger res" where
  "count_line fopen_ok now lg =
     bindr (lg_lock lg) (\<lambda>lg.
     let lg = lg\<lparr>lg_count := lg_count lg + 1\<rparr> in
     bindr (rotate_due now lg) (\<lambda>due.
     if \<not> due then lg_unlock lg
     else if lg_fp lg = None then Inl NullDeref
     else
       let tail = take 15 (date_text now) in
       bindr (cstr (lg_dir_name lg) 0) (\<lambda>dir.
       bindr (cstr (lg_log_name lg) 0) (\<lambda>name.
       if lg_today lg \<noteq> tm_mday now then
         lg_unlock (lg\<lparr>lg_today := tm_mday now, lg_count := 0,
                       lg_fp := open_log fopen_ok (take 254 (dir @ tail @ name))\<rparr>)
       else
         lg_unlock (lg\<lparr>lg_fp := open_log fopen_ok
           (take 254 (dir @ tail @ name @ ''.'' @ dec_int (lg_count lg div lg_max_lines lg)))\<rparr>)))))"

text \<open>The second one: format the line in the shared buffer and copy it.\<close>

definition format_line :: "time_of_day \<Rightarrow> int \<Rightarrow> string \<Rightarrow> logger \<Rightarrow> (string \<times> logger) res" where
  "format_line now level msg lg =
     bindr (lg_lock lg) (\<lambda>lg.
     bindr (vsnprintf (lg_buf lg) 0 48 (stamp_text now level)) (\<lambda>(b, n).
     bindr (vsnprintf b n (nat (lg_log_buf_size lg - 1)) msg) (\<lambda>(b, m).
     bindr (wr b (int (n + m)) LF) (\<lambda>b.
     bindr (wr b (int (n + m + 1)) NUL) (\<lambda>b.
     bindr (cstr b 0) (\<lambda>log_str.
     bindr (lg_unlock (lg\<lparr>lg_buf := b\<rparr>)) (\<lambda>lg. Inr (log_str, lg))))))))"

text \<open>The last one: hand the line to the log thread, or put it into the file.\<close>

definition put_line :: "string \<Rightarrow> logger \<Rightarrow> logger res" where
  "put_line s lg =
     bindr (lg_lock lg) (\<lambda>lg.
     case lg_fp lg of
       None \<Rightarrow> Inl NullDeref
     | Some f \<Rightarrow> lg_unlock (lg\<lparr>lg_files := (lg_files lg)(f := lg_files lg f @ s)\<rparr>))"

definition emit_line :: "string \<Rightarrow> logger \<Rightarrow> logger res" where
  "emit_line s lg =
     (if \<not> lg_is_async lg then put_line s lg
      else case lg_queue lg of
        None \<Rightarrow> Inl NullDeref
      | Some q \<Rightarrow>
          bindr (bq_full q) (\<lambda>(full, q).
          if full then put_line s (lg\<lparr>lg_queue := Some q\<rparr>)
          else bindr (bq_push s q) (\<lambda>(pushed, q). Inr (lg\<lparr>lg_queue := Some q\<rparr>))))"

definition write_log ::
  "(string \<Rightarrow> bool) \<Rightarrow> time_of_day \<Rightarrow> int \<Rightarrow> string \<Rightarrow> logger \<Rightarrow> logger res"
where
  "write_log fopen_ok now level msg lg =
     bindr (count_line fopen_ok now lg) (\<lambda>lg.
     bindr (format_line now level msg lg) (\<lambda>(log_str, lg). emit_line log_str lg))"

definition flush :: "logger \<Rightarrow> logger res" where
  "flush lg = bindr (lg_lock lg) lg_unlock"

text \<open>One turn of the loop of \<open>asyn_write_log\<close>, the log thread.\<close>

definition asyn_turn :: "logger \<Rightarrow> logger res" where
  "asyn_turn lg =
     (case lg_queue lg of
        None \<Rightarrow> Inl NullDeref
      | Some q \<Rightarrow>
          bindr (bq_pop True q) (\<lambda>(v, q).
          case v of None \<Rightarrow> Inr (lg\<lparr>lg_queue := Some q\<rparr>)
          | Some s \<Rightarrow> put_line s (lg\<lparr>lg_queue := Some q\<rparr>)))"

subsection \<open>One line\<close>

text \<open>A time with a year of four digits, as the calendar gives it.\<close>

definition real_time :: "time_of_day \<Rightarrow> bool" where
  "real_time t =
     (-900 \<le> tm_year t \<and> tm_year t < 8100 \<and> 0 \<le> tm_mon t \<and> tm_mon t < 12
      \<and> 0 \<le> tm_mday t \<and> tm_mday t < 32 \<and> 0 \<le> tm_hour t \<and> tm_hour t < 24
      \<and> 0 \<le> tm_min t \<and> tm_min t < 60 \<and> 0 \<le> tm_sec t \<and> tm_sec t < 62
      \<and> 0 \<le> tv_usec t \<and> tv_usec t < 1000000)"

definition line_text :: "time_of_day \<Rightarrow> int \<Rightarrow> string \<Rightarrow> string" where
  "line_text now level msg = stamp_text now level @ msg @ [LF]"

lemma length_pad0:
  assumes "0 \<le> i" and "i < 10 ^ w" and "0 < w"
  shows "length (pad0 w i) = w"
  using assms length_dec_nat [of "nat i" w] by (simp add: pad0_def dec_int_def nat_less_iff)

lemma length_dec_int_le: "0 \<le> i \<Longrightarrow> i < 10 ^ w \<Longrightarrow> 0 < w \<Longrightarrow> length (dec_int i) \<le> w"
  using length_dec_nat [of "nat i" w] by (simp add: dec_int_def nat_less_iff)

lemma length_level_text: "length (level_text level) \<le> 8"
  by (simp add: level_text_def)

lemma nul_free_level_text [simp]: "nul_free (level_text level)"
  by (simp add: level_text_def)

lemma nul_free_stamp_text [simp]: "nul_free (stamp_text now level)"
  by (simp add: stamp_text_def)

lemma nul_free_date_text [simp]: "nul_free (date_text now)"
  by (simp add: date_text_def)

lemma length_stamp_text: "real_time t \<Longrightarrow> length (stamp_text t level) \<le> 36"
  using length_level_text [of level] length_dec_int_le [of "tm_year t + 1900" 4]
  by (simp add: real_time_def stamp_text_def length_pad0)

lemma length_date_text: "real_time t \<Longrightarrow> length (date_text t) \<le> 11"
  using length_dec_int_le [of "tm_year t + 1900" 4]
  by (simp add: real_time_def date_text_def length_pad0)

lemma lg_lock_simps [simp]:
  "lg_lock lg = (if lg_mutex lg then Inl Blocked else Inr (lg\<lparr>lg_mutex := True\<rparr>))"
  "lg_unlock lg = (if lg_mutex lg then Inr (lg\<lparr>lg_mutex := False\<rparr>) else Inl NotLocked)"
  by (auto simp: lg_lock_def lg_unlock_def locker_lock_def locker_unlock_def)

lemma lg_unlocked [simp]: "\<not> lg_mutex lg \<Longrightarrow> lg\<lparr>lg_mutex := False\<rparr> = lg"
  by (cases lg) simp

definition lg_ok :: "logger \<Rightarrow> bool" where
  "lg_ok lg = (\<not> lg_mutex lg \<and> length (lg_buf lg) = nat (lg_log_buf_size lg) \<and> 0 \<le> lg_log_buf_size lg
     \<and> 48 \<le> lg_log_buf_size lg)"

lemma format_line_ok:
  assumes "lg_ok lg" and "real_time now" and "nul_free msg"
    and "int (length (stamp_text now level) + length msg) + 2 \<le> lg_log_buf_size lg"
  shows "\<exists>b. format_line now level msg lg = Inr (line_text now level msg, lg\<lparr>lg_buf := b\<rparr>)
    \<and> length b = length (lg_buf lg)"
proof -
  let ?s = "stamp_text now level" and ?b = "lg_buf lg"
  have s: "length ?s < 48" using length_stamp_text [OF assms(2), of level] by simp
  have len: "length ?s + length msg + 2 \<le> length ?b"
    using assms(1,4) by (simp add: lg_ok_def)
  define b1 where "b1 = ?s @ NUL # drop (Suc (length ?s)) ?b"
  have 1: "vsnprintf ?b 0 48 ?s = Inr (b1, length ?s)"
    using vsnprintf_fits [OF s, of 0 ?b] len by (simp add: b1_def)
  define r where "r = drop (length msg + length ?s + 2) ?b"
  obtain x where x: "drop (length ?s + length msg + 1) b1 = x # r"
    using len by (auto simp: b1_def r_def Cons_nth_drop_Suc [symmetric])
  have l1: "length b1 = length ?b" using len by (simp add: b1_def)
  have "length msg < nat (lg_log_buf_size lg - 1)"
    using len assms(1) by (auto simp: lg_ok_def zless_nat_eq_int_zless)
  then have 2: "vsnprintf b1 (length ?s) (nat (lg_log_buf_size lg - 1)) msg
      = Inr (?s @ msg @ NUL # x # r, length msg)"
    using vsnprintf_fits [of msg _ "length ?s" b1] len l1 x by (simp add: b1_def)
  have 3: "wr (?s @ msg @ NUL # x # r) (int (length ?s + length msg)) LF = Inr (?s @ msg @ LF # x # r)"
    using wr_append_mid [of "?s @ msg"] by simp
  have 4: "wr (?s @ msg @ LF # x # r) (1 + int (length ?s + length msg)) NUL
      = Inr (line_text now level msg @ NUL # r)"
    using wr_append_mid [of "?s @ msg @ [LF]" x r] by (simp add: line_text_def add.commute)
  have c: "cstr (line_text now level msg @ NUL # r) 0 = Inr (line_text now level msg)"
    using assms(3) by (intro cstr_held) (simp add: line_text_def)
  have "length (line_text now level msg @ NUL # r) = length ?b"
    using len by (simp add: line_text_def r_def)
  then show ?thesis
    using assms(1) by (auto simp: format_line_def lg_ok_def 1 2 3 4 c simp del: of_nat_add)
qed

lemma format_line_overruns:
  assumes "lg_ok lg" and "real_time now"
    and "lg_log_buf_size lg < int (length (stamp_text now level) + length msg) + 2"
  shows "format_line now level msg lg = Inl OutOfBounds"
proof -
  let ?s = "stamp_text now level" and ?b = "lg_buf lg" and ?n = "nat (lg_log_buf_size lg - 1)"
  have s: "length ?s < 48" using length_stamp_text [OF assms(2), of level] by simp
  have b: "48 \<le> length ?b" "length ?b = Suc ?n"
    and len: "length ?b < length ?s + length msg + 2"
    using assms(1,3) by (auto simp: lg_ok_def)
  define b1 where "b1 = ?s @ NUL # drop (Suc (length ?s)) ?b"
  have 1: "vsnprintf ?b 0 48 ?s = Inr (b1, length ?s)"
    using vsnprintf_fits [OF s, of 0 ?b] s b(1) by (simp add: b1_def)
  have l1: "length b1 = length ?b" using s b by (simp add: b1_def)
  show ?thesis
  proof (cases "vsnprintf b1 (length ?s) ?n msg")
    case (Inl e)
    then have "e = OutOfBounds" by (auto simp: vsnprintf_def wrs_def bindr_eq_Inl split: if_splits)
    with 1 Inl assms(1) show ?thesis by (simp add: format_line_def lg_ok_def)
  next
    case (Inr r)
    then obtain b2 where "r = (b2, length msg)" "length b2 = length ?b"
      using vsnprintf_length [of b1] l1 by (cases r) auto
    with 1 Inr assms(1) len show ?thesis
      by (auto simp: format_line_def lg_ok_def wr_def simp flip: of_nat_add)
  qed
qed

end
