(* ===== verification/V3_LogSpec.thy ===== *)
theory V3_LogSpec
  imports V3_Log
begin

section \<open>version\_03: what reaches the log file\<close>

text \<open>
  The synchronous logger over a run of calls, the change of file on a new day, the line
  that is too long for the buffer, and the asynchronous logger with its thread and its
  bounded queue.
\<close>

subsection \<open>Runs of the logger\<close>

lemma count_line_quiet:
  assumes "\<not> lg_mutex lg" and "lg_today lg = tm_mday now" and "0 < lg_max_lines lg"
    and "(lg_count lg + 1) mod lg_max_lines lg \<noteq> 0"
  shows "count_line fopen_ok now lg = Inr (lg\<lparr>lg_count := lg_count lg + 1\<rparr>)"
  using assms by (simp add: count_line_def rotate_due_def)

lemma put_line_ok:
  assumes "\<not> lg_mutex lg" and "lg_fp lg = Some f"
  shows "put_line s lg = Inr (lg\<lparr>lg_files := (lg_files lg)(f := lg_files lg f @ s)\<rparr>)"
  using assms by (simp add: put_line_def)

lemma emit_line_sync:
  assumes "\<not> lg_is_async lg" and "\<not> lg_mutex lg" and "lg_fp lg = Some f"
  shows "emit_line s lg = Inr (lg\<lparr>lg_files := (lg_files lg)(f := lg_files lg f @ s)\<rparr>)"
  using assms by (simp add: emit_line_def put_line_ok)

type_synonym log_call = "time_of_day \<times> int \<times> string"

fun write_logs :: "(string \<Rightarrow> bool) \<Rightarrow> log_call list \<Rightarrow> logger \<Rightarrow> logger res" where
  "write_logs fopen_ok [] lg = Inr lg"
| "write_logs fopen_ok ((now, level, msg) # cs) lg =
     bindr (write_log fopen_ok now level msg lg) (write_logs fopen_ok cs)"

definition call_text :: "log_call \<Rightarrow> string" where
  "call_text c = (case c of (now, level, msg) \<Rightarrow> line_text now level msg)"

definition call_fits :: "int \<Rightarrow> log_call \<Rightarrow> bool" where
  "call_fits bsize c = (case c of (now, level, msg) \<Rightarrow>
     real_time now \<and> nul_free msg \<and> int (length msg) + 38 \<le> bsize)"

definition call_day :: "log_call \<Rightarrow> int" where
  "call_day c = tm_mday (fst c)"

lemma write_log_quiet:
  assumes "lg_ok lg" and "lg_today lg = tm_mday now" and "0 < lg_max_lines lg"
    and "(lg_count lg + 1) mod lg_max_lines lg \<noteq> 0"
    and "call_fits (lg_log_buf_size lg) (now, level, msg)"
  shows "\<exists>b. length b = length (lg_buf lg) \<and> write_log fopen_ok now level msg lg
    = emit_line (line_text now level msg) (lg\<lparr>lg_count := lg_count lg + 1, lg_buf := b\<rparr>)"
proof -
  let ?lg = "lg\<lparr>lg_count := lg_count lg + 1\<rparr>"
  have "lg_ok ?lg" using assms(1) by (simp add: lg_ok_def)
  moreover have "int (length (stamp_text now level) + length msg) + 2 \<le> lg_log_buf_size ?lg"
    using assms(5) length_stamp_text [of now level] by (simp add: call_fits_def)
  ultimately obtain b where "format_line now level msg ?lg = Inr (line_text now level msg, ?lg\<lparr>lg_buf := b\<rparr>)"
    "length b = length (lg_buf ?lg)"
    using format_line_ok [of ?lg now msg level] assms(5) by (auto simp: call_fits_def)
  moreover have "count_line fopen_ok now lg = Inr ?lg"
    using assms(1-4) by (intro count_line_quiet) (auto simp: lg_ok_def)
  ultimately show ?thesis by (auto simp: write_log_def)
qed

lemma mod_below: "0 \<le> c \<Longrightarrow> c + 1 < m \<Longrightarrow> (c + 1) mod m \<noteq> (0::int)"
  by simp

lemma write_logs_sync:
  assumes "lg_ok lg" and "\<not> lg_is_async lg" and "lg_fp lg = Some f"
    and "0 \<le> lg_count lg" and "lg_count lg + int (length cs) < lg_max_lines lg"
    and "\<forall>c\<in>set cs. call_fits (lg_log_buf_size lg) c \<and> call_day c = lg_today lg"
  shows "\<exists>lg'. write_logs fopen_ok cs lg = Inr lg'
    \<and> lg_files lg' = (lg_files lg)(f := lg_files lg f @ concat (map call_text cs))"
  using assms
proof (induction cs arbitrary: lg)
  case Nil
  then show ?case by simp
next
  case (Cons c cs)
  obtain now level msg where c: "c = (now, level, msg)" by (cases c)
  let ?line = "line_text now level msg"
  have q: "(lg_count lg + 1) mod lg_max_lines lg \<noteq> 0"
    using Cons.prems(4,5) by (intro mod_below) auto
  obtain b where b: "length b = length (lg_buf lg)"
    "write_log fopen_ok now level msg lg = emit_line ?line (lg\<lparr>lg_count := lg_count lg + 1, lg_buf := b\<rparr>)"
    using write_log_quiet [OF Cons.prems(1) _ _ q, of now level msg fopen_ok] Cons.prems(4-6)
    by (auto simp: c call_day_def)
  define lg' where "lg' = lg\<lparr>lg_count := lg_count lg + 1, lg_buf := b,
    lg_files := (lg_files lg)(f := lg_files lg f @ ?line)\<rparr>"
  have w: "write_log fopen_ok now level msg lg = Inr lg'"
    using Cons.prems(1-3) b(2) by (simp add: emit_line_sync lg_ok_def lg'_def)
  have "lg_ok lg'" using Cons.prems(1) b(1) by (simp add: lg_ok_def lg'_def)
  moreover have "\<not> lg_is_async lg'" "lg_fp lg' = Some f" "0 \<le> lg_count lg'"
    "lg_count lg' + int (length cs) < lg_max_lines lg'"
    "\<forall>c\<in>set cs. call_fits (lg_log_buf_size lg') c \<and> call_day c = lg_today lg'"
    using Cons.prems by (simp_all add: lg'_def)
  ultimately have "\<exists>lg''. write_logs fopen_ok cs lg' = Inr lg''
      \<and> lg_files lg'' = (lg_files lg')(f := lg_files lg' f @ concat (map call_text cs))"
    by (rule Cons.IH)
  moreover have "(lg_files lg')(f := lg_files lg' f @ concat (map call_text cs))
      = (lg_files lg)(f := lg_files lg f @ concat (map call_text (c # cs)))"
    by (simp add: lg'_def c call_text_def [of "(now, level, msg)"])
  moreover have "write_logs fopen_ok (c # cs) lg = write_logs fopen_ok cs lg'"
    using w by (simp add: c)
  ultimately show ?case by (simp only:)
qed

lemma log_start_sync:
  assumes "log_start fopen_ok now name bsize split 0 (Log_new files) = Inr (True, lg)" and "48 \<le> bsize"
  shows "lg_ok lg" and "\<not> lg_is_async lg" and "\<exists>f. lg_fp lg = Some f" and "lg_count lg = 0"
    and "lg_max_lines lg = split" and "lg_log_buf_size lg = bsize" and "lg_today lg = tm_mday now"
    and "lg_files lg = files"
  using assms by (auto simp: log_start_def Log_new_def lg_ok_def Let_def open_log_def bindr_eq_Inr
      split: option.splits if_splits)

text \<open>
  C30. With the synchronous logger the file holds, after what it held before, exactly the
  lines written, in order, each with its time stamp and level, as long as the messages fit
  the buffer, the day does not change and fewer lines are written than the file may have.
\<close>

theorem log_file_holds_lines:
  assumes "log_start fopen_ok t0 name bsize split 0 (Log_new files) = Inr (True, lg)"
    and "48 \<le> bsize" and "int (length cs) < split"
    and "\<forall>c\<in>set cs. call_fits bsize c \<and> call_day c = tm_mday t0"
  shows "\<exists>f lg'. lg_fp lg = Some f \<and> write_logs fopen_ok cs lg = Inr lg'
    \<and> lg_files lg' = files(f := files f @ concat (map call_text cs))"
proof -
  note st = log_start_sync [OF assms(1,2)]
  obtain f where f: "lg_fp lg = Some f" using st(3) by blast
  have "\<exists>lg'. write_logs fopen_ok cs lg = Inr lg'
      \<and> lg_files lg' = (lg_files lg)(f := lg_files lg f @ concat (map call_text cs))"
    using st f assms(3,4) by (intro write_logs_sync) auto
  with f st(8) show ?thesis by auto
qed

definition may_10 :: time_of_day where
  "may_10 = \<lparr>tm_year = 120, tm_mon = 4, tm_mday = 10, tm_hour = 9, tm_min = 8, tm_sec = 7, tv_usec = 6\<rparr>"

definition log_at_may_10 :: logger where
  "log_at_may_10 = (case log_start (\<lambda>_. True) may_10 ''ServerLog'' 2000 800000 0 (Log_new (\<lambda>_. [])) of
     Inr (_, lg) \<Rightarrow> lg | Inl _ \<Rightarrow> Log_new (\<lambda>_. []))"

lemma dec_nat_step: "dec_nat n = (if n < 10 then [digit_char n] else dec_nat (n div 10) @ [digit_char (n mod 10)])"
  by (rule dec_nat.simps)

lemma log_at_may_10_start:
  "log_start (\<lambda>_. True) may_10 ''ServerLog'' 2000 800000 0 (Log_new (\<lambda>_. [])) = Inr (True, log_at_may_10)"
  by (simp add: log_at_may_10_def log_start_def Log_new_def open_log_def Let_def)

lemma log_file_holds_lines_witness:
  "\<exists>f lg'. lg_fp log_at_may_10 = Some f
    \<and> write_logs (\<lambda>_. True) [(may_10, 1, ''GET''), (may_10, 3, ''bad'')] log_at_may_10 = Inr lg'
    \<and> lg_files lg' f = line_text may_10 1 ''GET'' @ line_text may_10 3 ''bad''"
proof -
  have "\<forall>c\<in>set [(may_10, 1, ''GET''), (may_10, 3, ''bad'')]. call_fits 2000 c \<and> call_day c = tm_mday may_10"
    by (simp add: call_fits_def real_time_def may_10_def call_day_def)
  from log_file_holds_lines [OF log_at_may_10_start _ _ this] show ?thesis
    by (auto simp: call_text_def)
qed

subsection \<open>A new day\<close>

text \<open>The name of the file that \<open>init\<close> opens, and of the one opened on a later day.\<close>

definition first_file :: "string \<Rightarrow> time_of_day \<Rightarrow> string" where
  "first_file name t =
     (case strrchr (CHR ''/'') name of
        None \<Rightarrow> date_text t @ name
      | Some p \<Rightarrow> take (p + 1) name @ date_text t @ drop (p + 1) name)"

definition next_file :: "string \<Rightarrow> time_of_day \<Rightarrow> string" where
  "next_file name t =
     (case strrchr (CHR ''/'') name of
        None \<Rightarrow> date_text t
      | Some p \<Rightarrow> take (p + 1) name @ date_text t @ drop (p + 1) name)"

lemma strncpy_zeros:
  "i < n \<Longrightarrow> length s = i \<Longrightarrow> strncpy (replicate n NUL) 0 (s @ t) i = Inr (s @ NUL # replicate (n - i - 1) NUL)"
  by (cases "n - i") (auto simp: strncpy_def wrs_def)

lemma log_start_names:
  assumes "log_start fopen_ok now name bsize split 0 (Log_new files) = Inr (True, lg)"
    and "nul_free name" and "length name \<le> 120" and "real_time now"
  shows "lg_fp lg = Some (first_file name now)"
    and "\<exists>dir base. cstr (lg_dir_name lg) 0 = Inr dir \<and> cstr (lg_log_name lg) 0 = Inr base
      \<and> next_file name t = dir @ date_text t @ base \<and> length dir + length base \<le> 120"
proof -
  have d: "length (date_text now) \<le> 11" using length_date_text [OF assms(4)] .
  have z: "cstr (replicate 128 NUL) 0 = Inr []" by (simp add: cstr_def)
  show "lg_fp lg = Some (first_file name now)"
    "\<exists>dir base. cstr (lg_dir_name lg) 0 = Inr dir \<and> cstr (lg_log_name lg) 0 = Inr base
      \<and> next_file name t = dir @ date_text t @ base \<and> length dir + length base \<le> 120"
  proof (atomize (full), cases "strrchr (CHR ''/'') name")
    case None
    with assms d z show "lg_fp lg = Some (first_file name now) \<and>
      (\<exists>dir base. cstr (lg_dir_name lg) 0 = Inr dir \<and> cstr (lg_log_name lg) 0 = Inr base
      \<and> next_file name t = dir @ date_text t @ base \<and> length dir + length base \<le> 120)"
      by (auto simp: log_start_def Log_new_def Let_def open_log_def first_file_def next_file_def
          split: if_splits)
  next
    case (Some p)
    then obtain u v where "name = u @ CHR ''/'' # v" "length u = p" by (auto dest: strrchr_Some)
    then have uv: "take (p + 1) name = u @ ''/''" "drop (p + 1) name = v" "length name = p + 1 + length v"
      "name = (u @ ''/'') @ v" "length (u @ ''/'') = p + 1" by auto
    have 1: "strcpy (replicate 128 NUL) v = Inr (v @ NUL # replicate (127 - length v) NUL)"
      using assms(3) uv(3) by (simp add: strcpy_fits)
    have 2: "strncpy (replicate 128 NUL) 0 name (p + 1) = Inr ((u @ ''/'') @ NUL # replicate (126 - p) NUL)"
      using strncpy_zeros [of "p + 1" 128 "u @ ''/''" v] assms(3) uv by simp
    have "nul_free (u @ ''/'')" "nul_free v"
      using assms(2) nul_free_take_drop [of name "p + 1"] uv by auto
    then have 3: "cstr (v @ NUL # replicate (127 - length v) NUL) 0 = Inr v"
      "cstr ((u @ ''/'') @ NUL # replicate (126 - p) NUL) 0 = Inr (u @ ''/'')"
      by (blast intro: cstr_held)+
    have lens: "length u < 120" "length u + length v < 120"
      using assms(3) uv(3,5) by auto
    from assms(1) Some have lg: "lg_fp lg = Some (first_file name now)
      \<and> lg_dir_name lg = (u @ ''/'') @ NUL # replicate (126 - p) NUL
      \<and> lg_log_name lg = v @ NUL # replicate (127 - length v) NUL"
      using 1 2 3 uv(1,2) lens d
      by (auto simp: log_start_def Log_new_def Let_def open_log_def first_file_def split: if_splits)
    moreover have "next_file name t = (u @ ''/'') @ date_text t @ v"
      using Some uv(1,2) by (simp add: next_file_def)
    ultimately show "lg_fp lg = Some (first_file name now) \<and>
      (\<exists>dir base. cstr (lg_dir_name lg) 0 = Inr dir \<and> cstr (lg_log_name lg) 0 = Inr base
      \<and> next_file name t = dir @ date_text t @ base \<and> length dir + length base \<le> 120)"
      using 3 uv(3,5) assms(3) by auto
  qed
qed

text \<open>
  The first line of another day goes to a new file. A name given with a directory is
  kept; of a name without one, as the server gives it, only the date is left, because \<open>init\<close>
  stores the name in that case nowhere. When the new file cannot be opened the next write
  goes through a null pointer.
\<close>

theorem new_day_file_name:
  assumes "log_start fopen_ok t0 name bsize split 0 (Log_new files) = Inr (True, lg)"
    and "48 \<le> bsize" and "nul_free name" and "length name \<le> 120" and "real_time t0"
    and "call_fits bsize (now, level, msg)" and "tm_mday now \<noteq> tm_mday t0"
  shows "lg_fp lg = Some (first_file name t0)
    \<and> (if fopen_ok (next_file name now)
       then \<exists>lg'. write_log fopen_ok now level msg lg = Inr lg'
          \<and> lg_files lg' = files(next_file name now := files (next_file name now) @ line_text now level msg)
       else write_log fopen_ok now level msg lg = Inl NullDeref)"
proof -
  note st = log_start_sync [OF assms(1,2)]
  note nm = log_start_names(1) [OF assms(1,3-5)]
  obtain dir base where db: "cstr (lg_dir_name lg) 0 = Inr dir" "cstr (lg_log_name lg) 0 = Inr base"
    "next_file name now = dir @ date_text now @ base" "length dir + length base \<le> 120"
    using log_start_names(2) [OF assms(1,3-5), of now] by blast
  have rt: "real_time now" "nul_free msg" using assms(6) by (auto simp: call_fits_def)
  note d = length_date_text [OF rt(1)]
  define lg1 where "lg1 = lg\<lparr>lg_count := 0, lg_today := tm_mday now,
    lg_fp := open_log fopen_ok (next_file name now)\<rparr>"
  have c: "count_line fopen_ok now lg = Inr lg1"
    using st nm db assms(7) d by (simp add: count_line_def rotate_due_def lg1_def lg_ok_def)
  have ok: "lg_ok lg1" using st(1) by (simp add: lg_ok_def lg1_def)
  have "int (length (stamp_text now level) + length msg) + 2 \<le> lg_log_buf_size lg1"
    using assms(6) length_stamp_text [OF rt(1), of level] st(6) by (simp add: call_fits_def lg1_def)
  from format_line_ok [OF ok rt this] obtain b where
    f: "format_line now level msg lg1 = Inr (line_text now level msg, lg1\<lparr>lg_buf := b\<rparr>)" by blast
  have "\<not> lg_is_async lg1" "\<not> lg_mutex lg1" "lg_files lg1 = files"
    "lg_fp lg1 = open_log fopen_ok (next_file name now)"
    using st ok by (simp_all add: lg1_def lg_ok_def)
  then show ?thesis using nm c f
    by (simp add: write_log_def open_log_def emit_line_sync)
      (simp add: emit_line_def put_line_def)
qed

definition may_11 :: time_of_day where "may_11 = may_10\<lparr>tm_mday := 11\<rparr>"

lemma new_day_file_name_witness:
  "\<exists>lg'. write_log (\<lambda>_. True) may_11 1 ''GET'' log_at_may_10 = Inr lg'
     \<and> lg_files lg' (date_text may_11) = line_text may_11 1 ''GET''
     \<and> lg_fp log_at_may_10 = Some (date_text may_10 @ ''ServerLog'')"
proof -
  have "real_time may_10" "call_fits 2000 (may_11, 1, ''GET'')" "tm_mday may_11 \<noteq> tm_mday may_10"
    by (simp_all add: real_time_def may_10_def may_11_def call_fits_def)
  moreover have "strrchr CHR ''/'' ''ServerLog'' = None" by simp
  ultimately show ?thesis
    using new_day_file_name [OF log_at_may_10_start, of may_11 1 "''GET''"]
    by (auto simp: first_file_def next_file_def)
qed

subsection \<open>Long messages\<close>

definition quiet :: "time_of_day \<Rightarrow> logger \<Rightarrow> bool" where
  "quiet now lg = (lg_today lg = tm_mday now \<and> 0 < lg_max_lines lg
     \<and> (lg_count lg + 1) mod lg_max_lines lg \<noteq> 0)"

text \<open>
  The second \<open>vsnprintf\<close> may fill the whole buffer again although the time stamp stands
  before the message, and the newline goes behind the length the message would have had:
  a line is written within the buffer exactly when stamp, message, newline and NUL fit.
\<close>

theorem log_message_overruns:
  assumes "lg_ok lg" and "quiet now lg" and "real_time now" and "nul_free msg"
    and "\<not> lg_is_async lg" and "lg_fp lg = Some f"
  shows "if int (length (line_text now level msg)) + 1 \<le> lg_log_buf_size lg
    then \<exists>lg'. write_log fopen_ok now level msg lg = Inr lg'
      \<and> lg_files lg' = (lg_files lg)(f := lg_files lg f @ line_text now level msg)
    else write_log fopen_ok now level msg lg = Inl OutOfBounds"
proof -
  let ?lg = "lg\<lparr>lg_count := lg_count lg + 1\<rparr>"
  have ok: "lg_ok ?lg" using assms(1) by (simp add: lg_ok_def)
  have c: "count_line fopen_ok now lg = Inr ?lg"
    using assms(1,2) by (intro count_line_quiet) (auto simp: lg_ok_def quiet_def)
  have n: "int (length (line_text now level msg)) + 1
      = int (length (stamp_text now level) + length msg) + 2" by (simp add: line_text_def)
  show ?thesis
  proof (cases "int (length (line_text now level msg)) + 1 \<le> lg_log_buf_size lg")
    case True
    with n have "int (length (stamp_text now level) + length msg) + 2 \<le> lg_log_buf_size ?lg" by simp
    from format_line_ok [OF ok assms(3,4) this] c True assms(1,5,6) show ?thesis
      by (auto simp: write_log_def emit_line_sync lg_ok_def)
  next
    case False
    with n have "lg_log_buf_size ?lg < int (length (stamp_text now level) + length msg) + 2" by simp
    from format_line_overruns [OF ok assms(3) this] c False show ?thesis by (simp add: write_log_def)
  qed
qed

definition long_msg :: string where "long_msg = replicate 1964 (CHR ''x'')"

lemma log_message_overruns_witness:
  "write_log (\<lambda>_. True) may_10 1 long_msg log_at_may_10 = Inl OutOfBounds"
proof -
  note st = log_start_sync [OF log_at_may_10_start]
  obtain f where "lg_fp log_at_may_10 = Some f" using st(3) by auto
  moreover have "real_time may_10" by (simp add: real_time_def may_10_def)
  moreover have "nul_free long_msg" by (simp add: long_msg_def)
  moreover have "quiet may_10 log_at_may_10" using st by (simp add: quiet_def)
  moreover have "2000 < int (length (line_text may_10 1 long_msg)) + 1"
    by (simp add: line_text_def stamp_text_def level_text_def long_msg_def may_10_def dec_int_def
        pad0_def dec_nat_step)
  ultimately show ?thesis
    using log_message_overruns [of log_at_may_10 may_10 long_msg f 1 "\<lambda>_. True"] st by simp
qed

subsection \<open>The asynchronous logger\<close>

datatype log_event = Call log_call | Turn

fun log_run :: "(string \<Rightarrow> bool) \<Rightarrow> log_event list \<Rightarrow> logger \<Rightarrow> logger res" where
  "log_run fopen_ok [] lg = Inr lg"
| "log_run fopen_ok (Call (now, level, msg) # es) lg =
     bindr (write_log fopen_ok now level msg lg) (log_run fopen_ok es)"
| "log_run fopen_ok (Turn # es) lg = bindr (asyn_turn lg) (log_run fopen_ok es)"

fun calls_of :: "log_event list \<Rightarrow> log_call list" where
  "calls_of [] = []"
| "calls_of (Call c # es) = c # calls_of es"
| "calls_of (Turn # es) = calls_of es"

text \<open>The queue of \<open>k\<close> places, with \<open>n\<close> lines in it, is never full at a call nor empty at a turn.\<close>

fun has_room :: "nat \<Rightarrow> nat \<Rightarrow> log_event list \<Rightarrow> bool" where
  "has_room k n [] = True"
| "has_room k n (Call c # es) = (n < k \<and> has_room k (Suc n) es)"
| "has_room k n (Turn # es) = (0 < n \<and> has_room k (n - 1) es)"

definition async_ok :: "logger \<Rightarrow> string \<Rightarrow> string block_queue \<Rightarrow> bool" where
  "async_ok lg f q = (lg_ok lg \<and> lg_is_async lg \<and> lg_fp lg = Some f \<and> lg_queue lg = Some q \<and> bq_ok q)"

lemma emit_line_async:
  assumes "async_ok lg f q"
  shows "if bq_room q
    then \<exists>q'. emit_line s lg = Inr (lg\<lparr>lg_queue := Some q'\<rparr>) \<and> bq_ok q' \<and> bq_items q' = bq_items q @ [s]
      \<and> m_max_size q' = m_max_size q
    else emit_line s lg = Inr (lg\<lparr>lg_files := (lg_files lg)(f := lg_files lg f @ s)\<rparr>)"
proof -
  have a: "bq_ok q" "lg_is_async lg" "lg_queue lg = Some q" "lg_fp lg = Some f" "\<not> lg_mutex lg"
    using assms by (simp_all add: async_ok_def lg_ok_def)
  have full: "bq_full q = Inr (\<not> bq_room q, q)"
    using bq_observers(3) [OF a(1)] bq.room_iff [OF a(1)] bq_items_length [OF a(1)] a(1)
    by (auto simp: bq_room_def bq_bound_def bq_ok_def)
  have "lg\<lparr>lg_queue := Some q\<rparr> = lg" using a(3) by (cases lg) simp
  with a full have "\<not> bq_room q \<Longrightarrow> ?thesis" by (simp add: emit_line_def put_line_ok)
  moreover have ?thesis if r: "bq_room q"
  proof -
    obtain q' where "bq_push s q = Inr (True, q')" "bq_ok q'" "bq_items q' = bq_items q @ [s]"
      "m_max_size q' = m_max_size q" using bq_push_ok [OF a(1) r, of s] by blast
    with a full r show ?thesis by (simp add: emit_line_def) blast
  qed
  ultimately show ?thesis by blast
qed

lemma asyn_turn_ok:
  assumes "async_ok lg f q" and "bq_items q = s # rest"
  shows "\<exists>q'. asyn_turn lg = Inr (lg\<lparr>lg_queue := Some q', lg_files := (lg_files lg)(f := lg_files lg f @ s)\<rparr>)
    \<and> bq_ok q' \<and> bq_items q' = rest \<and> m_max_size q' = m_max_size q"
proof -
  have a: "bq_ok q" "lg_queue lg = Some q" "lg_fp lg = Some f" "\<not> lg_mutex lg"
    using assms(1) by (simp_all add: async_ok_def lg_ok_def)
  from bq_pop_ok [OF a(1) assms(2), of True] a(2-4) show ?thesis
    by (auto simp: asyn_turn_def put_line_ok)
qed

lemma async_run:
  assumes "async_ok lg f q" and "has_room (nat (m_max_size q)) (length (bq_items q)) es"
    and "0 \<le> lg_count lg" and "lg_count lg + int (length (calls_of es)) < lg_max_lines lg"
    and "\<forall>c\<in>set (calls_of es). call_fits (lg_log_buf_size lg) c \<and> call_day c = lg_today lg"
  shows "\<exists>lg' q'. log_run fopen_ok es lg = Inr lg' \<and> async_ok lg' f q'
    \<and> lg_files lg' f @ concat (bq_items q')
      = lg_files lg f @ concat (bq_items q) @ concat (map call_text (calls_of es))"
  using assms
proof (induction es arbitrary: lg q)
  case Nil
  then show ?case by auto
next
  case (Cons e es)
  show ?case
  proof (cases e)
    case Turn
    then obtain s rest where items: "bq_items q = s # rest"
      using Cons.prems(2) by (cases "bq_items q") auto
    from asyn_turn_ok [OF Cons.prems(1) items] obtain q' where q': "bq_ok q'" "bq_items q' = rest"
      "m_max_size q' = m_max_size q"
      and t: "asyn_turn lg = Inr (lg\<lparr>lg_queue := Some q', lg_files := (lg_files lg)(f := lg_files lg f @ s)\<rparr>)"
      by blast
    define lg1 where "lg1 = lg\<lparr>lg_queue := Some q', lg_files := (lg_files lg)(f := lg_files lg f @ s)\<rparr>"
    have "async_ok lg1 f q'" using Cons.prems(1) q' by (simp add: async_ok_def lg_ok_def lg1_def)
    moreover have "lg_files lg1 f = lg_files lg f @ s" "lg_count lg1 = lg_count lg"
      "lg_max_lines lg1 = lg_max_lines lg" "lg_log_buf_size lg1 = lg_log_buf_size lg"
      "lg_today lg1 = lg_today lg" by (simp_all add: lg1_def)
    ultimately show ?thesis
      using Cons.IH [of lg1 q'] Cons.prems(2-5) Turn q' items t by (auto simp flip: lg1_def)
  next
    case (Call c)
    obtain now level msg where c: "c = (now, level, msg)" by (cases c)
    let ?line = "line_text now level msg"
    have q: "(lg_count lg + 1) mod lg_max_lines lg \<noteq> 0"
      using Cons.prems(3,4) Call by (intro mod_below) auto
    obtain b where b: "length b = length (lg_buf lg)"
      "write_log fopen_ok now level msg lg = emit_line ?line (lg\<lparr>lg_count := lg_count lg + 1, lg_buf := b\<rparr>)"
      using write_log_quiet [OF _ _ _ q, of now level msg fopen_ok] Cons.prems(1,3-5)
      by (auto simp: Call c call_day_def async_ok_def)
    define lg0 where "lg0 = lg\<lparr>lg_count := lg_count lg + 1, lg_buf := b\<rparr>"
    have "async_ok lg0 f q" using Cons.prems(1) b(1) by (simp add: async_ok_def lg_ok_def lg0_def)
    moreover have "bq_room q"
      using Cons.prems(1,2) Call bq_items_length [of q] by (auto simp: async_ok_def bq_room_def bq_ok_def)
    ultimately obtain q' where q': "bq_ok q'" "bq_items q' = bq_items q @ [?line]"
      "m_max_size q' = m_max_size q" "emit_line ?line lg0 = Inr (lg0\<lparr>lg_queue := Some q'\<rparr>)"
      using emit_line_async [of lg0 f q ?line] by auto
    define lg1 where "lg1 = lg0\<lparr>lg_queue := Some q'\<rparr>"
    have "async_ok lg1 f q'" using Cons.prems(1) b(1) q'(1)
      by (simp add: async_ok_def lg_ok_def lg0_def lg1_def)
    moreover have "lg_files lg1 = lg_files lg" "lg_count lg1 = lg_count lg + 1"
      "lg_max_lines lg1 = lg_max_lines lg" "lg_log_buf_size lg1 = lg_log_buf_size lg"
      "lg_today lg1 = lg_today lg" by (simp_all add: lg0_def lg1_def)
    moreover have "log_run fopen_ok (e # es) lg = log_run fopen_ok es lg1"
      using b(2) q'(4) by (simp add: Call c lg0_def lg1_def)
    moreover have "call_text c = ?line" by (simp add: c call_text_def)
    ultimately show ?thesis
      using Cons.IH [of lg1 q'] Cons.prems(2-5) Call q'(2,3) by auto
  qed
qed

text \<open>
  C31. With the log thread, what is in the file and what waits in the queue are together the
  lines written, in order, as long as no call meets a full queue. A call that meets a full
  queue writes its line into the file itself, before the older lines that still wait.
\<close>

theorem async_log_order:
  assumes "async_ok lg f q" and "0 \<le> lg_count lg"
    and "lg_count lg + int (length (calls_of es)) + 1 < lg_max_lines lg"
    and "\<forall>c\<in>set (calls_of es). call_fits (lg_log_buf_size lg) c \<and> call_day c = lg_today lg"
    and "call_fits (lg_log_buf_size lg) (now, level, msg)" and "tm_mday now = lg_today lg"
  shows "(has_room (nat (m_max_size q)) (length (bq_items q)) es \<longrightarrow>
      (\<exists>lg' q'. log_run fopen_ok es lg = Inr lg' \<and> lg_queue lg' = Some q'
        \<and> lg_files lg' f @ concat (bq_items q')
          = lg_files lg f @ concat (bq_items q) @ concat (map call_text (calls_of es))))
    \<and> (length (bq_items q) = nat (m_max_size q) \<longrightarrow>
      (\<exists>lg'. write_log fopen_ok now level msg lg = Inr lg' \<and> lg_queue lg' = Some q
        \<and> lg_files lg' f = lg_files lg f @ line_text now level msg))"
proof (intro conjI impI)
  assume "has_room (nat (m_max_size q)) (length (bq_items q)) es"
  from async_run [OF assms(1) this assms(2) _ assms(4)] assms(3)
  show "\<exists>lg' q'. log_run fopen_ok es lg = Inr lg' \<and> lg_queue lg' = Some q'
      \<and> lg_files lg' f @ concat (bq_items q')
        = lg_files lg f @ concat (bq_items q) @ concat (map call_text (calls_of es))"
    by (force simp: async_ok_def)
next
  assume full: "length (bq_items q) = nat (m_max_size q)"
  have a: "lg_ok lg" "bq_ok q" using assms(1) by (simp_all add: async_ok_def)
  have r: "\<not> bq_room q" using full bq_items_length [OF a(2)] a(2) by (auto simp: bq_room_def bq_ok_def)
  obtain b where b: "length b = length (lg_buf lg)" "write_log fopen_ok now level msg lg
      = emit_line (line_text now level msg) (lg\<lparr>lg_count := lg_count lg + 1, lg_buf := b\<rparr>)"
    using write_log_quiet [OF a(1) _ _ mod_below assms(5), of fopen_ok] assms(2,3,6) by force
  have "async_ok (lg\<lparr>lg_count := lg_count lg + 1, lg_buf := b\<rparr>) f q"
    using assms(1) b(1) by (simp add: async_ok_def lg_ok_def)
  from emit_line_async [OF this, of "line_text now level msg"] b(2) r
  have "write_log fopen_ok now level msg lg = Inr (lg\<lparr>lg_count := lg_count lg + 1, lg_buf := b,
      lg_files := (lg_files lg)(f := lg_files lg f @ line_text now level msg)\<rparr>)" by simp
  then show "\<exists>lg'. write_log fopen_ok now level msg lg = Inr lg' \<and> lg_queue lg' = Some q
      \<and> lg_files lg' f = lg_files lg f @ line_text now level msg"
    using assms(1) by (simp add: async_ok_def)
qed

definition async_log_1 :: "logger \<times> string \<times> string block_queue" where
  "async_log_1 =
     (let q = \<lparr>m_mutex = False, m_array = [[]], m_size = 0, m_max_size = 1, m_front = -1, m_back = -1\<rparr> in
      (log_at_may_10\<lparr>lg_is_async := True, lg_queue := Some q\<rparr>, first_file ''ServerLog'' may_10, q))"

lemma async_log_order_witness:
  "case async_log_1 of (lg, f, q) \<Rightarrow>
     \<exists>lg' q'. log_run (\<lambda>_. True) [Call (may_10, 1, ''a''), Turn, Call (may_10, 1, ''b'')] lg = Inr lg'
       \<and> lg_queue lg' = Some q'
       \<and> lg_files lg' f @ concat (bq_items q') = line_text may_10 1 ''a'' @ line_text may_10 1 ''b''"
proof -
  let ?es = "[Call (may_10, 1, ''a''), Turn, Call (may_10, 1, ''b'')]"
  obtain lg f q where a: "async_log_1 = (lg, f, q)" by (cases async_log_1)
  note st = log_start_sync [OF log_at_may_10_start]
  have rt: "real_time may_10" by (simp add: real_time_def may_10_def)
  have f: "lg_fp log_at_may_10 = Some (first_file ''ServerLog'' may_10)"
    by (rule log_start_names(1) [OF log_at_may_10_start _ _ rt]) simp_all
  have lg: "async_ok lg f q" "lg_count lg = 0" "lg_max_lines lg = 800000" "lg_log_buf_size lg = 2000"
    "lg_today lg = tm_mday may_10" "lg_files lg f = []" "bq_items q = []" "m_max_size q = 1"
    using a st f by (auto simp: async_log_1_def Let_def async_ok_def lg_ok_def bq_ok_def bq_items_def)
  have "call_fits 2000 (may_10, 1, s)" if "s \<in> {''a'', ''b''}" for s
    using that rt by (auto simp: call_fits_def)
  then have h: "\<forall>c\<in>set (calls_of ?es). call_fits (lg_log_buf_size lg) c \<and> call_day c = lg_today lg"
    "call_fits (lg_log_buf_size lg) (may_10, 1, ''a'')"
    "lg_count lg + int (length (calls_of ?es)) + 1 < lg_max_lines lg" "0 \<le> lg_count lg"
    using lg(2-5) by (simp_all add: call_day_def)
  have "has_room (nat (m_max_size q)) (length (bq_items q)) ?es" using lg(7,8) by simp
  with async_log_order [OF lg(1) h(4,3,1,2) lg(5) [symmetric], of "\<lambda>_. True"]
  have "\<exists>lg' q'. log_run (\<lambda>_. True) ?es lg = Inr lg' \<and> lg_queue lg' = Some q'
        \<and> lg_files lg' f @ concat (bq_items q')
          = lg_files lg f @ concat (bq_items q) @ concat (map call_text (calls_of ?es))"
    by (rule mp [OF conjunct1])
  then show ?thesis unfolding a prod.case using lg(6,7)
    by (simp add: call_text_def del: log_run.simps)
qed

end
