(* ===== verification/V3_LogThread.thy ===== *)
theory V3_LogThread
  imports V3_LogSpec "HOL-Library.Multiset"
begin

section \<open>version\_03: writers and the log thread, interleaved\<close>

text \<open>
  \<open>write_log\<close>, called by several threads at once, and the thread that runs \<open>asyn_write_log\<close>.
  The mutexes of the log and of its queue are taken and released several times in one call
  and the threads can change between any two of these sections, which are the steps here.
  The log thread sleeps on the condition variable of the queue while it is empty; \<open>push\<close>
  wakes it after it has released the mutex, in a step of its own.
\<close>

subsection \<open>State and steps\<close>

text \<open>How far a call of \<open>write_log\<close> has come, and what the log thread is doing.\<close>

datatype writer = Idle | Counted time_of_day int string | Formatted string | Room string
  | Direct string | Pushed

datatype reader = Popping | Writing string

record log_system =
  ls_log :: logger
  ls_cond :: cond
  ls_writers :: "writer list"
  ls_reader :: reader

text \<open>What a step does to the lines.\<close>

datatype line_event = Nothing | Made string | Filed string string | Lost string

datatype log_move = Enter nat time_of_day int string | Format nat | Look nat | Push nat | Put nat
  | Broadcast nat | Pop | File_popped | Spurious

definition log_thread_id :: nat where "log_thread_id = 0"

text \<open>
  One pass of the loop of \<open>pop\<close>, from where the mutex is taken to where the thread sleeps or
  has an element. \<open>pthread\_cond\_wait\<close> does not fail here; \<open>bq_pop\<close> has that branch.
\<close>

definition bq_pop_turn :: "nat \<Rightarrow> 'a block_queue \<Rightarrow> cond \<Rightarrow> ('a option \<times> 'a block_queue \<times> cond) res" where
  "bq_pop_turn t q c = bindr (bq_lock q) (\<lambda>q.
     if m_size q \<le> 0 then
       bindr (cond_wait t (m_mutex q) c) (\<lambda>(m, c). Inr (None, q\<lparr>m_mutex := m\<rparr>, c))
     else
       let front = (m_front q + 1) mod m_max_size q in
       bindr (rd (m_array q) front) (\<lambda>v.
       bindr (bq_unlock (q\<lparr>m_front := front, m_size := m_size q - 1\<rparr>)) (\<lambda>q. Inr (Some v, q, c))))"

definition put_event :: "string \<Rightarrow> logger \<Rightarrow> (line_event \<times> logger) res" where
  "put_event s lg =
     (case lg_fp lg of None \<Rightarrow> Inl NullDeref
      | Some f \<Rightarrow> bindr (put_line s lg) (\<lambda>lg. Inr (Filed f s, lg)))"

definition set_writer :: "nat \<Rightarrow> writer \<Rightarrow> log_system \<Rightarrow> log_system" where
  "set_writer t st s = s\<lparr>ls_writers := (ls_writers s)[t := st]\<rparr>"

definition set_queue :: "string block_queue \<Rightarrow> log_system \<Rightarrow> log_system" where
  "set_queue q s = s\<lparr>ls_log := (ls_log s)\<lparr>lg_queue := Some q\<rparr>\<rparr>"

definition writer_step ::
  "(string \<Rightarrow> bool) \<Rightarrow> log_move \<Rightarrow> nat \<Rightarrow> writer \<Rightarrow> log_system \<Rightarrow> (line_event \<times> log_system) res"
where
  "writer_step fopen_ok mv t st s =
     (let lg = ls_log s in
      case (mv, st) of
        (Enter _ now level msg, Idle) \<Rightarrow>
          bindr (count_line fopen_ok now lg) (\<lambda>lg.
          Inr (Nothing, set_writer t (Counted now level msg) (s\<lparr>ls_log := lg\<rparr>)))
      | (Format _, Counted now level msg) \<Rightarrow>
          bindr (format_line now level msg lg) (\<lambda>(log_str, lg).
          Inr (Made log_str, set_writer t (Formatted log_str) (s\<lparr>ls_log := lg\<rparr>)))
      | (Look _, Formatted log_str) \<Rightarrow>
          if \<not> lg_is_async lg then Inr (Nothing, set_writer t (Direct log_str) s)
          else
            (case lg_queue lg of None \<Rightarrow> Inl NullDeref
             | Some q \<Rightarrow> bindr (bq_full q) (\<lambda>(full, q).
                 Inr (Nothing, set_writer t (if full then Direct log_str else Room log_str) (set_queue q s))))
      | (Push _, Room log_str) \<Rightarrow>
          (case lg_queue lg of None \<Rightarrow> Inl NullDeref
           | Some q \<Rightarrow> bindr (bq_push log_str q) (\<lambda>(pushed, q).
               Inr (if pushed then Nothing else Lost log_str, set_writer t Pushed (set_queue q s))))
      | (Broadcast _, Pushed) \<Rightarrow>
          Inr (Nothing, set_writer t Idle (s\<lparr>ls_cond := cond_broadcast (ls_cond s)\<rparr>))
      | (Put _, Direct log_str) \<Rightarrow>
          bindr (put_event log_str lg) (\<lambda>(ev, lg). Inr (ev, set_writer t Idle (s\<lparr>ls_log := lg\<rparr>)))
      | _ \<Rightarrow> Inl Blocked)"

definition reader_step :: "log_move \<Rightarrow> log_system \<Rightarrow> (line_event \<times> log_system) res" where
  "reader_step mv s =
     (let lg = ls_log s in
      case (mv, ls_reader s) of
        (Pop, Popping) \<Rightarrow>
          (case lg_queue lg of None \<Rightarrow> Inl NullDeref
           | Some q \<Rightarrow>
               if log_thread_id \<in> set (ls_cond s) then Inl Blocked
               else
                 bindr (bq_pop_turn log_thread_id q (ls_cond s)) (\<lambda>(v, q, c).
                 Inr (Nothing, (set_queue q s)\<lparr>ls_cond := c,
                   ls_reader := (case v of None \<Rightarrow> Popping | Some l \<Rightarrow> Writing l)\<rparr>)))
      | (File_popped, Writing single_log) \<Rightarrow>
          bindr (put_event single_log lg) (\<lambda>(ev, lg). Inr (ev, s\<lparr>ls_log := lg, ls_reader := Popping\<rparr>))
      | (Spurious, Popping) \<Rightarrow> Inr (Nothing, s\<lparr>ls_cond := cond_signal log_thread_id (ls_cond s)\<rparr>)
      | _ \<Rightarrow> Inl Blocked)"

text \<open>There is a log thread only when \<open>init\<close> has made a queue.\<close>

definition log_step :: "(string \<Rightarrow> bool) \<Rightarrow> log_move \<Rightarrow> log_system \<Rightarrow> (line_event \<times> log_system) res" where
  "log_step fopen_ok mv s =
     (case (case mv of Enter t _ _ _ \<Rightarrow> Some t | Format t \<Rightarrow> Some t | Look t \<Rightarrow> Some t | Push t \<Rightarrow> Some t
            | Put t \<Rightarrow> Some t | Broadcast t \<Rightarrow> Some t | _ \<Rightarrow> None) of
        Some t \<Rightarrow>
          if t < length (ls_writers s) then writer_step fopen_ok mv t (ls_writers s ! t) s else Inl Blocked
      | None \<Rightarrow> if lg_is_async (ls_log s) then reader_step mv s else Inl Blocked)"

definition log_system_start :: "nat \<Rightarrow> logger \<Rightarrow> log_system" where
  "log_system_start n lg =
     \<lparr>ls_log = lg, ls_cond = [], ls_writers = replicate n Idle, ls_reader = Popping\<rparr>"

inductive logs :: "(string \<Rightarrow> bool) \<Rightarrow> log_system \<Rightarrow> line_event list \<Rightarrow> log_system \<Rightarrow> bool"
  for fopen_ok s0
where
  logs_start: "logs fopen_ok s0 [] s0"
| logs_step: "logs fopen_ok s0 evs s \<Longrightarrow> log_step fopen_ok mv s = Inr (ev, s') \<Longrightarrow> logs fopen_ok s0 (evs @ [ev]) s'"

subsection \<open>What one step keeps\<close>

definition writer_lines :: "writer \<Rightarrow> string list" where
  "writer_lines st = (case st of Formatted l \<Rightarrow> [l] | Room l \<Rightarrow> [l] | Direct l \<Rightarrow> [l] | _ \<Rightarrow> [])"

definition reader_lines :: "reader \<Rightarrow> string list" where
  "reader_lines r = (case r of Writing l \<Rightarrow> [l] | Popping \<Rightarrow> [])"

definition in_hands :: "log_system \<Rightarrow> string list" where
  "in_hands s = concat (map writer_lines (ls_writers s)) @ reader_lines (ls_reader s)"

definition in_queue :: "log_system \<Rightarrow> string list" where
  "in_queue s = (case lg_queue (ls_log s) of None \<Rightarrow> [] | Some q \<Rightarrow> bq_items q)"

fun made_of :: "line_event \<Rightarrow> string list" where
  "made_of (Made l) = [l]" | "made_of _ = []"

fun filed_of :: "line_event \<Rightarrow> (string \<times> string) list" where
  "filed_of (Filed f l) = [(f, l)]" | "filed_of _ = []"

fun lost_of :: "line_event \<Rightarrow> string list" where
  "lost_of (Lost l) = [l]" | "lost_of _ = []"

definition made :: "line_event list \<Rightarrow> string list" where "made evs = concat (map made_of evs)"
definition filed :: "line_event list \<Rightarrow> (string \<times> string) list" where "filed evs = concat (map filed_of evs)"
definition lost :: "line_event list \<Rightarrow> string list" where "lost evs = concat (map lost_of evs)"

definition in_file :: "string \<Rightarrow> (string \<times> string) list \<Rightarrow> string" where
  "in_file f fls = concat (map snd (filter (\<lambda>(g, _). g = f) fls))"

text \<open>
  The mutexes are free; the log thread only sleeps on an empty queue or while a writer is about
  to wake it; a writer that is alone and has found room still has it.
\<close>

definition queue_ok :: "logger \<Rightarrow> bool" where
  "queue_ok lg = (\<not> lg_mutex lg \<and> (case lg_queue lg of None \<Rightarrow> \<not> lg_is_async lg | Some q \<Rightarrow> lg_is_async lg \<and> bq_ok q))"

definition wake_ok :: "log_system \<Rightarrow> bool" where
  "wake_ok s =
     (ls_cond s = [] \<or> ls_cond s = [log_thread_id] \<and> ls_reader s = Popping
        \<and> (in_queue s = [] \<or> Pushed \<in> set (ls_writers s)))"

definition room_ok :: "log_system \<Rightarrow> bool" where
  "room_ok s = (\<forall>l. ls_writers s = [Room l] \<longrightarrow> (\<exists>q. lg_queue (ls_log s) = Some q \<and> bq_room q))"

lemma mset_writer_lines:
  assumes "t < length ws"
  shows "mset (concat (map writer_lines (ws[t := st]))) + mset (writer_lines (ws ! t))
    = mset (concat (map writer_lines ws)) + mset (writer_lines st)"
  using assms by (induction ws arbitrary: t) (auto simp: nth_Cons split: nat.split)

lemma count_line_keeps:
  assumes "count_line fopen_ok now lg = Inr lg'" and "\<not> lg_mutex lg"
  shows "\<not> lg_mutex lg'" "lg_queue lg' = lg_queue lg" "lg_is_async lg' = lg_is_async lg" "lg_files lg' = lg_files lg"
  using assms by (auto simp: count_line_def rotate_due_def bindr_eq_Inr Let_def split: if_splits)

lemma format_line_keeps:
  assumes "format_line now level msg lg = Inr (l, lg')" and "\<not> lg_mutex lg"
  shows "\<not> lg_mutex lg'" "lg_queue lg' = lg_queue lg" "lg_is_async lg' = lg_is_async lg" "lg_files lg' = lg_files lg"
  using assms by (auto simp: format_line_def bindr_eq_Inr split: if_splits)

lemma put_event_keeps:
  assumes "put_event l lg = Inr (ev, lg')" and "\<not> lg_mutex lg"
  shows "\<not> lg_mutex lg'" "lg_queue lg' = lg_queue lg" "lg_is_async lg' = lg_is_async lg"
    "\<exists>f. ev = Filed f l \<and> lg_files lg' = (lg_files lg)(f := lg_files lg f @ l)"
  using assms by (auto simp: put_event_def put_line_def bindr_eq_Inr split: option.splits)

lemma bq_pop_turn_ok:
  assumes "bq_ok q"
  shows "bq_items q = [] \<Longrightarrow> bq_pop_turn t q c = Inr (None, q, c @ [t])"
    and "bq_items q = x # xs \<Longrightarrow> \<exists>q'. bq_pop_turn t q c = Inr (Some x, q', c) \<and> bq_ok q' \<and> bq_items q' = xs
      \<and> m_max_size q' = m_max_size q"
proof -
  note n = bq_items_length [OF assms]
  show "bq_pop_turn t q c = Inr (None, q, c @ [t])" if "bq_items q = []"
    using that n assms by (auto simp: bq_pop_turn_def bq_lock_def bq_ok_def cond_wait_def)
  show "\<exists>q'. bq_pop_turn t q c = Inr (Some x, q', c) \<and> bq_ok q' \<and> bq_items q' = xs \<and> m_max_size q' = m_max_size q"
    if x: "bq_items q = x # xs"
  proof -
    obtain q' where q': "bq_pop True q = Inr (Some x, q')" "bq_ok q'" "bq_items q' = xs" "m_max_size q' = m_max_size q"
      using bq_pop_ok [OF assms x] by blast
    moreover have "bq_pop_turn t q c = bindr (bq_pop True q) (\<lambda>(v, q'). Inr (v, q', c))"
      using x n assms by (auto simp: bq_pop_turn_def bq_pop_def bq_lock_def bq_ok_def Let_def bindr_assoc split: prod.split)
    ultimately show ?thesis by simp
  qed
qed

text \<open>What a step of any thread comes to.\<close>

definition step_ok :: "log_system \<Rightarrow> line_event \<Rightarrow> log_system \<Rightarrow> bool" where
  "step_ok s ev s' =
     (queue_ok (ls_log s') \<and> lg_is_async (ls_log s') = lg_is_async (ls_log s)
      \<and> length (ls_writers s') = length (ls_writers s)
      \<and> mset (in_hands s') + mset (in_queue s') + mset (map snd (filed_of ev)) + mset (lost_of ev)
          = mset (in_hands s) + mset (in_queue s) + mset (made_of ev)
      \<and> (\<forall>f. lg_files (ls_log s') f = lg_files (ls_log s) f @ in_file f (filed_of ev)))"

lemma set_writer_simps [simp]:
  "ls_log (set_writer t st s) = ls_log s" "ls_cond (set_writer t st s) = ls_cond s"
  "ls_reader (set_writer t st s) = ls_reader s" "ls_writers (set_writer t st s) = (ls_writers s)[t := st]"
  "in_queue (set_writer t st s) = in_queue s"
  by (simp_all add: set_writer_def in_queue_def)

lemma set_queue_simps [simp]:
  "ls_log (set_queue q s) = (ls_log s)\<lparr>lg_queue := Some q\<rparr>" "ls_cond (set_queue q s) = ls_cond s"
  "ls_reader (set_queue q s) = ls_reader s" "ls_writers (set_queue q s) = ls_writers s"
  "in_queue (set_queue q s) = bq_items q"
  by (simp_all add: set_queue_def in_queue_def)

lemma in_hands_set:
  assumes "t < length (ls_writers s)" and "ls_writers s' = (ls_writers s)[t := st]" and "ls_reader s' = ls_reader s"
  shows "mset (in_hands s') + mset (writer_lines (ls_writers s ! t)) = mset (in_hands s) + mset (writer_lines st)"
  using mset_writer_lines [OF assms(1), of st] assms(2,3) by (simp add: in_hands_def)

text \<open>A step of a writer, case by case: what it finds and what it leaves.\<close>

lemma writer_step_cases:
  assumes "writer_step fopen_ok mv t (ls_writers s ! t) s = Inr (ev, s')" and "queue_ok (ls_log s)"
  obtains (enter) now level msg lg where "ls_writers s ! t = Idle" "count_line fopen_ok now (ls_log s) = Inr lg"
      "ev = Nothing" "s' = set_writer t (Counted now level msg) (s\<lparr>ls_log := lg\<rparr>)"
  | (form) now level msg l lg where "ls_writers s ! t = Counted now level msg"
      "format_line now level msg (ls_log s) = Inr (l, lg)" "ev = Made l" "s' = set_writer t (Formatted l) (s\<lparr>ls_log := lg\<rparr>)"
  | (direct) l where "ls_writers s ! t = Formatted l" "ev = Nothing" "s' = set_writer t (Direct l) s"
  | (room) l q where "ls_writers s ! t = Formatted l" "lg_queue (ls_log s) = Some q" "bq_ok q" "bq_room q"
      "ev = Nothing" "s' = set_writer t (Room l) s"
  | (pushed) l q q' where "ls_writers s ! t = Room l" "lg_queue (ls_log s) = Some q" "bq_ok q'"
      "bq_items q' = bq_items q @ [l]" "ev = Nothing" "s' = set_writer t Pushed (set_queue q' s)"
  | (refused) l q where "ls_writers s ! t = Room l" "lg_queue (ls_log s) = Some q" "\<not> bq_room q" "ev = Lost l"
      "s' = set_writer t Pushed s"
  | (woken) "ls_writers s ! t = Pushed" "ev = Nothing" "s' = set_writer t Idle (s\<lparr>ls_cond := []\<rparr>)"
  | (put) l lg where "ls_writers s ! t = Direct l" "put_event l (ls_log s) = Inr (ev, lg)"
      "s' = set_writer t Idle (s\<lparr>ls_log := lg\<rparr>)"
proof -
  have same: "set_queue q s = s" if "lg_queue (ls_log s) = Some q" for q
    using that by (simp add: set_queue_def)
  have q: "bq_ok q" if "lg_queue (ls_log s) = Some q" for q
    using assms(2) that by (simp add: queue_ok_def)
  show ?thesis
  proof (cases "ls_writers s ! t")
    case Idle
    with assms(1) show ?thesis by (cases mv) (auto simp: writer_step_def bindr_eq_Inr intro: enter)
  next
    case (Counted now level msg)
    with assms(1) show ?thesis by (cases mv) (auto simp: writer_step_def bindr_eq_Inr intro: form)
  next
    case (Formatted l)
    show ?thesis
    proof (cases "lg_is_async (ls_log s)")
      case False
      with Formatted assms(1) show ?thesis by (cases mv) (auto simp: writer_step_def intro: direct)
    next
      case True
      then obtain q where lq: "lg_queue (ls_log s) = Some q" using assms(2) by (auto simp: queue_ok_def split: option.splits)
      have r: "bq_room q \<longleftrightarrow> length (bq_items q) \<noteq> bq_bound q"
        using bq_items_length [OF q [OF lq]] q [OF lq] by (auto simp: bq_room_def bq_bound_def bq_ok_def)
      show ?thesis
        using True Formatted assms(1) lq q [OF lq] bq_observers(3) [OF q [OF lq]] r same [OF lq]
        by (cases mv) (auto simp: writer_step_def split: if_splits intro: direct room)
    qed
  next
    case (Room l)
    then obtain q where lq: "lg_queue (ls_log s) = Some q" 
      using assms(1) by (cases mv) (auto simp: writer_step_def split: option.splits)
    show ?thesis
    proof (cases "bq_room q")
      case True
      then obtain q' where "bq_push l q = Inr (True, q')" "bq_ok q'" "bq_items q' = bq_items q @ [l]"
        using bq_push_ok [OF q [OF lq]] by blast
      with Room lq assms(1) show ?thesis by (cases mv) (auto simp: writer_step_def intro: pushed)
    next
      case False
      with Room lq assms(1) bq_push_full [OF q [OF lq] False, of l] same [OF lq]
      show ?thesis by (cases mv) (auto simp: writer_step_def intro: refused)
    qed
  next
    case (Direct l)
    with assms(1) show ?thesis by (cases mv) (auto simp: writer_step_def bindr_eq_Inr intro: put)
  next
    case Pushed
    with assms(1) show ?thesis by (cases mv) (auto simp: writer_step_def cond_broadcast_def intro: woken)
  qed
qed

lemma in_hands_log [simp]:
  "in_hands (s\<lparr>ls_log := lg\<rparr>) = in_hands s" "in_hands (s\<lparr>ls_cond := c\<rparr>) = in_hands s"
  "in_hands (set_queue q s) = in_hands s" "in_queue (s\<lparr>ls_cond := c\<rparr>) = in_queue s"
  "in_queue (s\<lparr>ls_reader := r\<rparr>) = in_queue s"
  by (simp_all add: in_hands_def in_queue_def set_queue_def)

lemma queue_ok_same:
  assumes "queue_ok lg" and "\<not> lg_mutex lg'" and "lg_queue lg' = lg_queue lg" and "lg_is_async lg' = lg_is_async lg"
  shows "queue_ok lg'"
  using assms by (auto simp: queue_ok_def split: option.splits)

lemma in_file_simps [simp]:
  "in_file f [] = []" "in_file f ((g, l) # fls) = (if g = f then l else []) @ in_file f fls"
  "in_file f (fls @ fls') = in_file f fls @ in_file f fls'"
  by (simp_all add: in_file_def)

lemma writer_step_ok:
  assumes st: "writer_step fopen_ok mv t (ls_writers s ! t) s = Inr (ev, s')" and "t < length (ls_writers s)"
    and ok: "queue_ok (ls_log s)"
  shows "step_ok s ev s'"
proof -
  note h = in_hands_set [OF assms(2), of s']
  note d = step_ok_def writer_lines_def in_queue_def
  have m: "\<not> lg_mutex (ls_log s)" using ok by (simp add: queue_ok_def)
  from st ok show ?thesis
  proof (cases rule: writer_step_cases)
    case (enter now level msg lg)
    note k = count_line_keeps [OF enter(2) m]
    from enter h [of "Counted now level msg"] k queue_ok_same [OF ok k(1-3)] show ?thesis by (simp add: d)
  next
    case (form now level msg l lg)
    note k = format_line_keeps [OF form(2) m]
    from form h [of "Formatted l"] k queue_ok_same [OF ok k(1-3)] show ?thesis by (simp add: d)
  next
    case (direct l)
    with h [of "Direct l"] ok show ?thesis by (simp add: d)
  next
    case (room l q)
    with h [of "Room l"] ok show ?thesis by (simp add: d)
  next
    case (pushed l q q')
    with h [of Pushed] ok show ?thesis by (auto simp: d queue_ok_def ac_simps)
  next
    case (refused l q)
    with h [of Pushed] ok show ?thesis by (auto simp: d ac_simps)
  next
    case woken
    with h [of Idle] ok show ?thesis by (simp add: d)
  next
    case (put l lg)
    note k = put_event_keeps [OF put(2) m]
    from put h [of Idle] k queue_ok_same [OF ok k(1-3)] show ?thesis
      by (auto simp: d ac_simps)
  qed
qed

lemma reader_step_cases:
  assumes "reader_step mv s = Inr (ev, s')" and "queue_ok (ls_log s)" and "wake_ok s"
  obtains (asleep) "mv = Pop" "ls_reader s = Popping" "in_queue s = []" "ev = Nothing" "ls_cond s = []"
      "s' = s\<lparr>ls_cond := [log_thread_id]\<rparr>"
  | (taken) l q q' where "mv = Pop" "ls_reader s = Popping" "lg_queue (ls_log s) = Some q" "bq_items q = l # bq_items q'"
      "bq_ok q'" "m_max_size q' = m_max_size q" "ev = Nothing" "ls_cond s = []"
      "s' = (set_queue q' s)\<lparr>ls_reader := Writing l\<rparr>"
  | (wrote) l lg where "ls_reader s = Writing l" "put_event l (ls_log s) = Inr (ev, lg)"
      "s' = s\<lparr>ls_log := lg, ls_reader := Popping\<rparr>"
  | (spurious) "ls_reader s = Popping" "ev = Nothing" "s' = s\<lparr>ls_cond := []\<rparr>"
proof (cases "ls_reader s")
  case (Writing l)
  with assms(1) show ?thesis by (cases mv) (auto simp: reader_step_def bindr_eq_Inr intro: wrote)
next
  case Popping
  have c: "ls_cond s = [] \<or> ls_cond s = [log_thread_id]" using assms(3) by (auto simp: wake_ok_def)
  show ?thesis
  proof (cases "mv = Pop")
    case False
    with Popping c assms(1) show ?thesis by (cases mv) (auto simp: reader_step_def cond_signal_def intro: spurious)
  next
    case True
    then obtain q where q: "lg_queue (ls_log s) = Some q" "ls_cond s = []"
      using Popping assms(1) c by (auto simp: reader_step_def split: option.splits if_splits)
    then have "bq_ok q" using assms(2) by (simp add: queue_ok_def)
    have same: "(set_queue q s)\<lparr>ls_cond := c, ls_reader := Popping\<rparr> = s\<lparr>ls_cond := c\<rparr>" for c
      using q Popping by (simp add: set_queue_def)
    show ?thesis
    proof (cases "bq_items q")
      case Nil
      with True Popping q assms(1) bq_pop_turn_ok(1) [OF \<open>bq_ok q\<close> Nil] same show ?thesis
        by (auto simp: reader_step_def in_queue_def intro: asleep)
    next
      case (Cons l ls)
      obtain q' where q': "bq_pop_turn log_thread_id q [] = Inr (Some l, q', [])" "bq_ok q'" "bq_items q' = ls"
        "m_max_size q' = m_max_size q" using bq_pop_turn_ok(2) [OF \<open>bq_ok q\<close> Cons] by blast
      then have "ev = Nothing" "s' = (set_queue q' s)\<lparr>ls_cond := [], ls_reader := Writing l\<rparr>"
        using True Popping q assms(1) by (simp_all add: reader_step_def)
      then show ?thesis using True Popping q q' Cons
        by (intro taken [of q l q']) (simp_all add: set_queue_def)
    qed
  qed
qed

lemma reader_step_ok:
  assumes st: "reader_step mv s = Inr (ev, s')" and ok: "queue_ok (ls_log s)" "wake_ok s"
  shows "step_ok s ev s'" "ls_writers s' = ls_writers s"
proof -
  note d = step_ok_def queue_ok_def reader_lines_def in_queue_def in_hands_def
  have m: "\<not> lg_mutex (ls_log s)" using ok by (simp add: queue_ok_def)
  from st ok show "step_ok s ev s'"
  proof (cases rule: reader_step_cases)
    case asleep
    with ok show ?thesis by (simp add: d)
  next
    case (taken l q q')
    with ok show ?thesis by (simp add: d set_queue_def)
  next
    case (wrote l lg)
    note k = put_event_keeps [OF wrote(2) m]
    from wrote k queue_ok_same [OF ok(1) k(1-3)] show ?thesis
      by (auto simp: step_ok_def reader_lines_def in_queue_def in_hands_def)
  next
    case spurious
    with ok show ?thesis by (simp add: d)
  qed
  from st ok show "ls_writers s' = ls_writers s" by (cases rule: reader_step_cases) auto
qed

definition system_ok :: "log_system \<Rightarrow> bool" where
  "system_ok s = (queue_ok (ls_log s) \<and> wake_ok s \<and> room_ok s)"

lemma other_pushed:
  assumes "Pushed \<in> set ws" and "ws ! t \<noteq> Pushed"
  shows "Pushed \<in> set (ws[t := st])"
  using assms by (metis in_set_conv_nth length_list_update nth_list_update_neq)

lemma writer_step_wakes:
  assumes st: "writer_step fopen_ok mv t (ls_writers s ! t) s = Inr (ev, s')" and t: "t < length (ls_writers s)"
    and ok: "queue_ok (ls_log s)" "wake_ok s"
  shows "wake_ok s'"
proof -
  have p: "Pushed \<in> set ((ls_writers s)[t := Pushed])" using t by (simp add: set_update_memI)
  note d = wake_ok_def in_queue_def
  have m: "\<not> lg_mutex (ls_log s)" using ok by (simp add: queue_ok_def)
  note o = other_pushed [of "ls_writers s" t]
  from st ok(1) show ?thesis
  proof (cases rule: writer_step_cases)
    case (enter now level msg lg)
    with count_line_keeps [OF enter(2) m] o ok(2) show ?thesis by (auto simp: d)
  next
    case (form now level msg l lg)
    with format_line_keeps [OF form(2) m] o ok(2) show ?thesis by (auto simp: d)
  next
    case (put l lg)
    with put_event_keeps [OF put(2) m] o ok(2) show ?thesis by (auto simp: d)
  qed (use o p ok(2) in \<open>auto simp: d\<close>)
qed

lemma writer_step_room:
  assumes st: "writer_step fopen_ok mv t (ls_writers s ! t) s = Inr (ev, s')" and t: "t < length (ls_writers s)"
    and ok: "queue_ok (ls_log s)" "room_ok s"
  shows "room_ok s'" "lost_of ev \<noteq> [] \<Longrightarrow> lg_is_async (ls_log s) \<and> 2 \<le> length (ls_writers s)"
proof -
  have one: "(ls_writers s)[t := st] = [st'] \<longleftrightarrow> st = st' \<and> length (ls_writers s) = 1" for st st'
    using t by (cases "ls_writers s"; cases t) auto
  from st ok(1) show "room_ok s'"
    by (cases rule: writer_step_cases) (auto simp: room_ok_def one)
  show "lg_is_async (ls_log s) \<and> 2 \<le> length (ls_writers s)" if "lost_of ev \<noteq> []"
    using st ok(1)
  proof (cases rule: writer_step_cases)
    case (refused l q)
    have "ls_writers s \<noteq> [Room l]" using ok(2) refused by (auto simp: room_ok_def)
    then have "2 \<le> length (ls_writers s)"
      using refused(1) t by (cases "ls_writers s"; cases "tl (ls_writers s)"; cases t) auto
    then show ?thesis using ok(1) refused(2) by (simp add: queue_ok_def)
  next
    case (put l lg)
    then show ?thesis using that by (auto simp: put_event_def bindr_eq_Inr split: option.splits)
  qed (use that in auto)
qed

lemma reader_step_wakes:
  assumes st: "reader_step mv s = Inr (ev, s')" and ok: "system_ok s"
  shows "wake_ok s'" "room_ok s'" "lost_of ev = []"
proof -
  have o: "queue_ok (ls_log s)" "wake_ok s" "room_ok s" using ok by (simp_all add: system_ok_def)
  have m: "\<not> lg_mutex (ls_log s)" using o by (simp add: queue_ok_def)
  from st o(1,2) have "wake_ok s' \<and> room_ok s' \<and> lost_of ev = []"
  proof (cases rule: reader_step_cases)
    case (wrote l lg)
    with put_event_keeps [OF wrote(2) m] o show ?thesis
      by (auto simp: wake_ok_def room_ok_def in_queue_def)
  next
    case (taken l q q')
    then have "bq_room q \<Longrightarrow> bq_room q'"
      using o(1) bq_items_length [of q] bq_items_length [of q'] by (auto simp: bq_room_def queue_ok_def bq_ok_def)
    with taken o show ?thesis by (auto simp: wake_ok_def room_ok_def)
  qed (use o in \<open>auto simp: wake_ok_def room_ok_def\<close>)
  then show "wake_ok s'" "room_ok s'" "lost_of ev = []" by simp_all
qed

lemma log_step_ok:
  assumes "log_step fopen_ok mv s = Inr (ev, s')" and "system_ok s"
  shows "system_ok s' \<and> step_ok s ev s' \<and> (lost_of ev \<noteq> [] \<longrightarrow> lg_is_async (ls_log s) \<and> 2 \<le> length (ls_writers s))"
proof -
  have o: "queue_ok (ls_log s)" "wake_ok s" "room_ok s" using assms(2) by (simp_all add: system_ok_def)
  consider (writer) t where "t < length (ls_writers s)" "writer_step fopen_ok mv t (ls_writers s ! t) s = Inr (ev, s')"
    | (reader) "reader_step mv s = Inr (ev, s')"
    using assms(1) by (cases mv) (auto simp: log_step_def split: if_splits)
  then show ?thesis
  proof cases
    case writer
    show ?thesis
      using writer_step_ok [OF writer(2,1) o(1)] writer_step_wakes [OF writer(2,1) o(1,2)]
        writer_step_room [OF writer(2,1) o(1,3)] by (auto simp: system_ok_def step_ok_def)
  next
    case reader
    show ?thesis
      using reader_step_ok [OF reader o(1,2)] reader_step_wakes [OF reader assms(2)]
      by (auto simp: system_ok_def step_ok_def)
  qed
qed

lemma events_simps [simp]:
  "made [] = []" "filed [] = []" "lost [] = []" "made (evs @ [ev]) = made evs @ made_of ev"
  "filed (evs @ [ev]) = filed evs @ filed_of ev" "lost (evs @ [ev]) = lost evs @ lost_of ev"
  by (simp_all add: made_def filed_def lost_def)

lemma balance:
  fixes h :: "'a multiset"
  assumes "h + q + f + l = h0 + q0 + m" and "h' + q' + f' + l' = h + q + m'"
  shows "h' + q' + (f + f') + (l + l') = h0 + q0 + (m + m')"
proof -
  have "h' + q' + (f + f') + (l + l') = (h' + q' + f' + l') + (f + l)" by (simp add: ac_simps)
  also have "\<dots> = (h + q + m') + (f + l)" by (simp only: assms(2))
  also have "\<dots> = (h + q + f + l) + m'" by (simp add: ac_simps)
  also have "\<dots> = (h0 + q0 + m) + m'" by (simp only: assms(1))
  finally show ?thesis by (simp only: add.assoc)
qed

text \<open>Every state that can be reached.\<close>

lemma logs_ok:
  assumes "logs fopen_ok s0 evs s" and "system_ok s0"
  shows "system_ok s \<and> lg_is_async (ls_log s) = lg_is_async (ls_log s0) \<and> length (ls_writers s) = length (ls_writers s0)
    \<and> mset (in_hands s) + mset (in_queue s) + mset (map snd (filed evs)) + mset (lost evs)
        = mset (in_hands s0) + mset (in_queue s0) + mset (made evs)
    \<and> (\<forall>f. lg_files (ls_log s) f = lg_files (ls_log s0) f @ in_file f (filed evs))
    \<and> (lost evs \<noteq> [] \<longrightarrow> lg_is_async (ls_log s0) \<and> 2 \<le> length (ls_writers s0))"
  using assms
proof (induction rule: logs.induct)
  case logs_start
  then show ?case by simp
next
  case (logs_step evs s mv ev s')
  note i = logs_step.IH [OF logs_step.prems]
  note k = log_step_ok [OF logs_step.hyps(2) i [THEN conjunct1]]
  have "mset (in_hands s') + mset (in_queue s') + mset (map snd (filed (evs @ [ev]))) + mset (lost (evs @ [ev]))
      = mset (in_hands s0) + mset (in_queue s0) + mset (made (evs @ [ev]))"
    using balance [of "mset (in_hands s)" "mset (in_queue s)"] i k by (simp add: step_ok_def)
  then show ?case using i k by (auto simp: step_ok_def)
qed

subsection \<open>Runs\<close>

fun log_moves :: "(string \<Rightarrow> bool) \<Rightarrow> log_move list \<Rightarrow> log_system \<Rightarrow> (line_event list \<times> log_system) res" where
  "log_moves fopen_ok [] s = Inr ([], s)"
| "log_moves fopen_ok (mv # mvs) s =
     bindr (log_step fopen_ok mv s) (\<lambda>(ev, s). bindr (log_moves fopen_ok mvs s) (\<lambda>(evs, s). Inr (ev # evs, s)))"

lemma log_moves_append:
  assumes "log_moves fopen_ok mvs s = Inr (evs, s1)" and "log_moves fopen_ok mvs' s1 = Inr (evs', s2)"
  shows "log_moves fopen_ok (mvs @ mvs') s = Inr (evs @ evs', s2)"
  using assms by (induction mvs arbitrary: s evs) (auto simp: bindr_eq_Inr)

lemma logs_moves:
  assumes "logs fopen_ok s0 evs s" and "log_moves fopen_ok mvs s = Inr (evs', s')"
  shows "logs fopen_ok s0 (evs @ evs') s'"
  using assms
proof (induction mvs arbitrary: evs s evs')
  case Nil
  then show ?case by simp
next
  case (Cons mv mvs)
  then obtain ev s1 evs1 where 1: "log_step fopen_ok mv s = Inr (ev, s1)" "log_moves fopen_ok mvs s1 = Inr (evs1, s')"
    "evs' = ev # evs1" by (auto simp: bindr_eq_Inr)
  from Cons.IH [OF logs.logs_step [OF Cons.prems(1) 1(1)] 1(2)] 1(3) show ?case by simp
qed

lemma logs_moves_start: "log_moves fopen_ok mvs s0 = Inr (evs, s) \<Longrightarrow> logs fopen_ok s0 evs s"
  using logs_moves [OF logs.logs_start, of fopen_ok mvs s0 evs s] by simp

text \<open>What \<open>init\<close> gives.\<close>

lemma log_start_system:
  assumes "log_start fopen_ok t0 name bsize split qmax (Log_new files) = Inr (ok, lg)"
  shows "queue_ok lg" "lg_is_async lg \<longleftrightarrow> 1 \<le> qmax" "lg_files lg = files"
    "\<And>q. lg_queue lg = Some q \<Longrightarrow> bq_items q = [] \<and> bq_bound q = nat qmax"
  using assms block_queue_new_ok [of "(\<lambda>_. []) :: nat \<Rightarrow> string" qmax]
  by (auto simp: log_start_def Log_new_def Let_def bindr_eq_Inr queue_ok_def split: option.splits if_splits)

lemma log_system_start_ok:
  assumes "log_start fopen_ok t0 name bsize split qmax (Log_new files) = Inr (ok, lg)"
  shows "system_ok (log_system_start n lg)" "in_hands (log_system_start n lg) = []" "in_queue (log_system_start n lg) = []"
proof -
  note l = log_start_system [OF assms]
  have "concat (map writer_lines (replicate n Idle)) = []" by (simp add: writer_lines_def)
  then show "in_hands (log_system_start n lg) = []"
    by (simp add: in_hands_def log_system_start_def reader_lines_def)
  show "in_queue (log_system_start n lg) = []"
    using l(4) by (auto simp: in_queue_def log_system_start_def split: option.splits)
  have "replicate n Idle \<noteq> [Room l]" for l by (cases n) auto
  then show "system_ok (log_system_start n lg)"
    using l(1) by (simp add: system_ok_def wake_ok_def room_ok_def log_system_start_def)
qed

text \<open>A call up to where it has found room, in a log that does not change its file.\<close>

lemma writer_finds_room:
  assumes "t < length (ls_writers s)" and "ls_writers s ! t = Idle" and "async_ok (ls_log s) f q" and "bq_room q"
    and "0 \<le> lg_count (ls_log s)" and "lg_count (ls_log s) + 1 < lg_max_lines (ls_log s)"
    and "lg_today (ls_log s) = tm_mday now" and "call_fits (lg_log_buf_size (ls_log s)) (now, level, msg)"
  obtains b where "length b = length (lg_buf (ls_log s))"
    and "log_moves fopen_ok [Enter t now level msg, Format t, Look t] s
      = Inr ([Nothing, Made (line_text now level msg), Nothing],
          set_writer t (Room (line_text now level msg))
            (s\<lparr>ls_log := (ls_log s)\<lparr>lg_count := lg_count (ls_log s) + 1, lg_buf := b\<rparr>\<rparr>))"
proof -
  let ?lg = "(ls_log s)\<lparr>lg_count := lg_count (ls_log s) + 1\<rparr>" and ?l = "line_text now level msg"
  have a: "lg_ok (ls_log s)" "lg_is_async (ls_log s)" "lg_queue (ls_log s) = Some q" "bq_ok q"
    using assms(3) by (simp_all add: async_ok_def)
  have c: "count_line fopen_ok now (ls_log s) = Inr ?lg"
    using a(1) assms(5-7) mod_below [OF assms(5,6)] by (intro count_line_quiet) (auto simp: lg_ok_def)
  have "lg_ok ?lg" "real_time now" "nul_free msg"
    "int (length (stamp_text now level) + length msg) + 2 \<le> lg_log_buf_size ?lg"
    using a(1) assms(8) length_stamp_text [of now level] by (simp_all add: lg_ok_def call_fits_def)
  from format_line_ok [OF this] obtain b
    where b: "format_line now level msg ?lg = Inr (?l, ?lg\<lparr>lg_buf := b\<rparr>)" "length b = length (lg_buf ?lg)" by blast
  have "bq_full q = Inr (False, q)"
    using bq_observers(3) [OF a(4)] bq_items_length [OF a(4)] a(4) assms(4) by (auto simp: bq_room_def bq_bound_def bq_ok_def)
  then have "log_moves fopen_ok [Enter t now level msg, Format t, Look t] s
      = Inr ([Nothing, Made ?l, Nothing], set_writer t (Room ?l) (s\<lparr>ls_log := ?lg\<lparr>lg_buf := b\<rparr>\<rparr>))"
    using assms(1,2) a c b(1) by (simp add: log_step_def writer_step_def set_writer_def set_queue_def)
  with b(2) show ?thesis by (intro that) simp_all
qed

lemma writer_pushes:
  assumes "t < length (ls_writers s)" and "ls_writers s ! t = Room l" and "async_ok (ls_log s) f q" and "bq_room q"
  obtains q' where "log_step fopen_ok (Push t) s = Inr (Nothing, set_writer t Pushed (set_queue q' s))"
    and "bq_ok q'" and "bq_items q' = bq_items q @ [l]" and "bq_bound q' = bq_bound q"
proof -
  have "lg_queue (ls_log s) = Some q" "bq_ok q" using assms(3) by (simp_all add: async_ok_def)
  moreover from bq_push_ok [OF this(2) assms(4)]
  obtain q' where "bq_push l q = Inr (True, q')" "bq_ok q'" "bq_items q' = bq_items q @ [l]" "m_max_size q' = m_max_size q"
    by blast
  ultimately show ?thesis using assms(1,2)
    by (intro that [of q']) (simp_all add: log_step_def writer_step_def bq_bound_def)
qed

lemma log_start_async:
  assumes "log_start fopen_ok t0 name bsize split qmax (Log_new files) = Inr (True, lg)" and "48 \<le> bsize" and "1 \<le> qmax"
  shows "\<exists>f q. async_ok lg f q \<and> bq_items q = [] \<and> bq_bound q = nat qmax"
    and "lg_count lg = 0" and "lg_max_lines lg = split" and "lg_log_buf_size lg = bsize" and "lg_today lg = tm_mday t0"
  using assms block_queue_new_ok [of "(\<lambda>_. []) :: nat \<Rightarrow> string" qmax]
  by (auto simp: log_start_def Log_new_def async_ok_def lg_ok_def Let_def open_log_def bindr_eq_Inr
      split: option.splits if_splits)

text \<open>Two threads log at once, and the queue has one place.\<close>

lemma line_is_lost:
  assumes "log_start fopen_ok t0 name bsize split 1 (Log_new files) = Inr (True, lg)" and "48 \<le> bsize" and "2 < split"
    and "call_fits bsize (now, level, msg)" and "tm_mday now = tm_mday t0"
    and "call_fits bsize (now', level', msg')" and "tm_mday now' = tm_mday t0" and "2 \<le> n"
  shows "\<exists>evs s. logs fopen_ok (log_system_start n lg) evs s \<and> made evs = [line_text now level msg, line_text now' level' msg']
    \<and> filed evs = [] \<and> in_queue s = [line_text now level msg] \<and> lost evs = [line_text now' level' msg']"
proof -
  let ?s0 = "log_system_start n lg" and ?l = "line_text now level msg" and ?l' = "line_text now' level' msg'"
  note st = log_start_async [OF assms(1,2)]
  obtain f q where q: "async_ok lg f q" "bq_items q = []" "bq_bound q = 1" using st(1) by auto
  have "bq_ok q" using q(1) by (simp add: async_ok_def)
  from bq.room_iff [OF this] have r: "bq_room q" using q(2,3) by simp
  have s0: "ls_log ?s0 = lg" "ls_writers ?s0 = replicate n Idle" by (simp_all add: log_system_start_def)
  obtain b where b: "length b = length (lg_buf lg)" "log_moves fopen_ok [Enter 0 now level msg, Format 0, Look 0] ?s0
      = Inr ([Nothing, Made ?l, Nothing], set_writer 0 (Room ?l) (?s0\<lparr>ls_log := lg\<lparr>lg_count := 1, lg_buf := b\<rparr>\<rparr>))"
    using writer_finds_room [of 0 ?s0 f q now level msg fopen_ok] q(1) r st assms(3-5,8) s0 by auto
  define s1 where "s1 = set_writer 0 (Room ?l) (?s0\<lparr>ls_log := lg\<lparr>lg_count := 1, lg_buf := b\<rparr>\<rparr>)"
  have s1: "ls_log s1 = lg\<lparr>lg_count := 1, lg_buf := b\<rparr>" "ls_writers s1 = (replicate n Idle)[0 := Room ?l]"
    using s0 by (simp_all add: s1_def)
  have a1: "async_ok (ls_log s1) f q" using q(1) b(1) by (simp add: s1 async_ok_def lg_ok_def)
  obtain b' where b': "length b' = length (lg_buf (ls_log s1))" "log_moves fopen_ok [Enter 1 now' level' msg', Format 1, Look 1] s1
      = Inr ([Nothing, Made ?l', Nothing], set_writer 1 (Room ?l') (s1\<lparr>ls_log := (ls_log s1)\<lparr>lg_count := 2, lg_buf := b'\<rparr>\<rparr>))"
    using writer_finds_room [of 1 s1 f q now' level' msg' fopen_ok] a1 r st assms(3,6-8) s1 by auto
  define s2 where "s2 = set_writer 1 (Room ?l') (s1\<lparr>ls_log := (ls_log s1)\<lparr>lg_count := 2, lg_buf := b'\<rparr>\<rparr>)"
  have s2: "ls_log s2 = lg\<lparr>lg_count := 2, lg_buf := b'\<rparr>" "ls_writers s2 = (replicate n Idle)[0 := Room ?l, 1 := Room ?l']"
    using s1 by (simp_all add: s2_def)
  have a2: "async_ok (ls_log s2) f q" using q(1) b(1) b'(1) by (simp add: s1 s2 async_ok_def lg_ok_def)
  obtain q' where q': "log_step fopen_ok (Push 0) s2 = Inr (Nothing, set_writer 0 Pushed (set_queue q' s2))"
    "bq_ok q'" "bq_items q' = [?l]" "bq_bound q' = 1"
    using writer_pushes [of 0 s2 ?l f q fopen_ok] a2 r s2 assms(8) q(2,3) by auto
  define s3 where "s3 = set_writer 0 Pushed (set_queue q' s2)"
  have "\<not> bq_room q'" using bq.room_iff [OF q'(2)] q'(3,4) by simp
  from bq_push_full [OF q'(2) this]
  have "log_step fopen_ok (Push 1) s3 = Inr (Lost ?l', set_writer 1 Pushed (set_queue q' s3))"
    using assms(8) by (simp add: log_step_def writer_step_def s3_def s2)
  with q'(1) have "log_moves fopen_ok [Push 0, Push 1] s2
      = Inr ([Nothing, Lost ?l'], set_writer 1 Pushed (set_queue q' s3))" by (simp add: s3_def)
  from log_moves_append [OF b(2) [folded s1_def] log_moves_append [OF b'(2) [folded s2_def] this]]
  have "logs fopen_ok ?s0 ([Nothing, Made ?l, Nothing] @ [Nothing, Made ?l', Nothing] @ [Nothing, Lost ?l'])
      (set_writer 1 Pushed (set_queue q' s3))"
    by (rule logs_moves_start)
  then show ?thesis using q'(3) by (force simp: made_def filed_def lost_def)
qed

text \<open>
  C10. Any number of threads may write to the log of version\_03 at once, with or without the log
  thread: every line that was formatted is in a file, or waits in the queue, or is in the hands of a
  thread, or was lost; no line is there twice, and the files hold exactly the lines put into
  them, whole, behind what they held before. A line is lost only with a queue, and only
  when at least two threads write: between \<open>full\<close> and \<open>push\<close> another one can take the last place,
  and \<open>write_log\<close> does not look at what \<open>push\<close> returns.
\<close>

theorem no_line_vanishes:
  assumes "log_start fopen_ok t0 name bsize split qmax (Log_new files) = Inr (ok, lg)"
    and "logs fopen_ok (log_system_start n lg) evs s"
  shows "mset (made evs)
      = mset (map snd (filed evs)) + mset (in_queue s) + mset (in_hands s) + mset (lost evs)
    \<and> (\<forall>f. lg_files (ls_log s) f = files f @ in_file f (filed evs))
    \<and> (lost evs \<noteq> [] \<longrightarrow> 1 \<le> qmax \<and> 2 \<le> n)"
proof -
  note l = logs_ok [OF assms(2) log_system_start_ok(1) [OF assms(1)]]
  have "mset (made evs)
      = mset (map snd (filed evs)) + mset (in_queue s) + mset (in_hands s) + mset (lost evs)"
    using l log_system_start_ok(2,3) [OF assms(1)] by (simp add: ac_simps)
  with l log_start_system(2,3) [OF assms(1)] show ?thesis by (simp add: log_system_start_def)
qed

text \<open>
  C11. The log thread is woken. In every state that can be reached in which a line waits in the
  queue and the log thread has none in its hands, it can take the first line at once, or after
  the \<open>broadcast\<close> that a writer who has just pushed is about to do and that nothing can keep
  it from.
\<close>

theorem log_thread_is_woken:
  assumes "log_start fopen_ok t0 name bsize split qmax (Log_new files) = Inr (ok, lg)"
    and "logs fopen_ok (log_system_start n lg) evs s"
    and "in_queue s = l # ls" and "ls_reader s = Popping"
  shows "\<exists>mvs evs' s'. (mvs = [Pop] \<or> (\<exists>t. mvs = [Broadcast t, Pop])) \<and> log_moves fopen_ok mvs s = Inr (evs', s')
    \<and> ls_reader s' = Writing l \<and> in_queue s' = ls"
proof -
  have ok: "queue_ok (ls_log s)" "wake_ok s"
    using logs_ok [OF assms(2) log_system_start_ok(1) [OF assms(1)]] by (simp_all add: system_ok_def)
  obtain q where q: "lg_queue (ls_log s) = Some q" "bq_items q = l # ls" "lg_is_async (ls_log s)" "bq_ok q"
    using assms(3) ok(1) by (auto simp: in_queue_def queue_ok_def split: option.splits)
  obtain q' where q': "bq_pop_turn log_thread_id q [] = Inr (Some l, q', [])" "bq_items q' = ls"
    using bq_pop_turn_ok(2) [OF q(4,2)] by blast
  have pop: "\<exists>s''. log_step fopen_ok Pop s' = Inr (Nothing, s'') \<and> ls_reader s'' = Writing l \<and> in_queue s'' = ls"
    if "ls_log s' = ls_log s" "ls_reader s' = Popping" "ls_cond s' = []" for s'
    using that q q' by (simp add: log_step_def reader_step_def)
  show ?thesis
  proof (cases "ls_cond s")
    case Nil
    from pop [OF refl assms(4) Nil] show ?thesis by (intro exI [of _ "[Pop]"]) auto
  next
    case Cons
    then obtain t where t: "t < length (ls_writers s)" "ls_writers s ! t = Pushed"
      using ok(2) assms(3) by (auto simp: wake_ok_def in_set_conv_nth)
    then have "log_step fopen_ok (Broadcast t) s = Inr (Nothing, set_writer t Idle (s\<lparr>ls_cond := []\<rparr>))"
      by (simp add: log_step_def writer_step_def cond_broadcast_def)
    moreover obtain s'' where "log_step fopen_ok Pop (set_writer t Idle (s\<lparr>ls_cond := []\<rparr>)) = Inr (Nothing, s'')"
      "ls_reader s'' = Writing l" "in_queue s'' = ls"
      using pop [of "set_writer t Idle (s\<lparr>ls_cond := []\<rparr>)"] assms(4) by auto
    ultimately show ?thesis by (intro exI [of _ "[Broadcast t, Pop]"]) auto
  qed
qed

text \<open>A log with a queue of one line; two threads write to it.\<close>

definition log_of_two :: logger where
  "log_of_two = (case log_start (\<lambda>_. True) may_10 ''ServerLog'' 2000 800000 1 (Log_new (\<lambda>_. [])) of
     Inr (_, lg) \<Rightarrow> lg | Inl _ \<Rightarrow> Log_new (\<lambda>_. []))"

lemma log_of_two_start:
  "log_start (\<lambda>_. True) may_10 ''ServerLog'' 2000 800000 1 (Log_new (\<lambda>_. [])) = Inr (True, log_of_two)"
  by (simp add: log_of_two_def log_start_def Log_new_def open_log_def Let_def block_queue_new_def)

lemma may_10_fits: "call_fits 2000 (may_10, 1, ''a'')" "call_fits 2000 (may_10, 1, ''b'')"
  by (simp_all add: call_fits_def real_time_def may_10_def)

lemma no_line_vanishes_witness:
  "\<exists>evs s. logs (\<lambda>_. True) (log_system_start 2 log_of_two) evs s \<and> lost evs = [line_text may_10 1 ''b'']
    \<and> {#line_text may_10 1 ''a'', line_text may_10 1 ''b''#}
      = mset (map snd (filed evs)) + mset (in_queue s) + mset (in_hands s) + mset (lost evs)"
proof -
  obtain evs s where r: "logs (\<lambda>_. True) (log_system_start 2 log_of_two) evs s"
    "made evs = [line_text may_10 1 ''a'', line_text may_10 1 ''b'']" "lost evs = [line_text may_10 1 ''b'']"
    using line_is_lost [OF log_of_two_start _ _ may_10_fits(1) refl may_10_fits(2) refl, of 2] by auto
  have "mset (made evs)
      = mset (map snd (filed evs)) + mset (in_queue s) + mset (in_hands s) + mset (lost evs)"
    using no_line_vanishes [OF log_of_two_start r(1)] by (rule conjunct1)
  with r show ?thesis by (intro exI [of _ evs] exI [of _ s]) simp
qed

text \<open>The log thread has gone to sleep when the one writer pushes.\<close>

lemma log_thread_is_woken_witness:
  "\<exists>evs s mvs evs' s'. logs (\<lambda>_. True) (log_system_start 1 log_of_two) evs s \<and> ls_cond s = [log_thread_id]
    \<and> log_moves (\<lambda>_. True) mvs s = Inr (evs', s') \<and> ls_reader s' = Writing (line_text may_10 1 ''a'')"
proof -
  let ?s0 = "log_system_start 1 log_of_two" and ?l = "line_text may_10 1 ''a''" and ?T = "\<lambda>_ :: string. True"
  note st = log_start_async [OF log_of_two_start]
  obtain f q where q: "async_ok log_of_two f q" "bq_items q = []" "bq_bound q = 1" using st(1) by auto
  then have qq: "bq_ok q" "lg_queue log_of_two = Some q" "lg_is_async log_of_two" by (simp_all add: async_ok_def)
  from bq.room_iff [OF qq(1)] have r: "bq_room q" using q(2,3) by simp
  define s1 where "s1 = ?s0\<lparr>ls_cond := [log_thread_id]\<rparr>"
  have same: "set_queue q ?s0 = ?s0" using qq by (simp add: set_queue_def log_system_start_def)
  have 1: "log_moves ?T [Pop] ?s0 = Inr ([Nothing], s1)"
    using qq same bq_pop_turn_ok(1) [OF qq(1) q(2)]
    by (simp add: log_step_def reader_step_def log_system_start_def s1_def)
  have s1: "ls_log s1 = log_of_two" "ls_writers s1 = [Idle]" "ls_cond s1 = [log_thread_id]" "ls_reader s1 = Popping"
    by (simp_all add: s1_def log_system_start_def)
  obtain b where b: "length b = length (lg_buf log_of_two)" "log_moves ?T [Enter 0 may_10 1 ''a'', Format 0, Look 0] s1
      = Inr ([Nothing, Made ?l, Nothing], set_writer 0 (Room ?l) (s1\<lparr>ls_log := log_of_two\<lparr>lg_count := 1, lg_buf := b\<rparr>\<rparr>))"
    using writer_finds_room [of 0 s1 f q may_10 1 "''a''" ?T] q(1) r st(2-5) s1 may_10_fits(1) by auto
  define s2 where "s2 = set_writer 0 (Room ?l) (s1\<lparr>ls_log := log_of_two\<lparr>lg_count := 1, lg_buf := b\<rparr>\<rparr>)"
  have s2: "ls_log s2 = log_of_two\<lparr>lg_count := 1, lg_buf := b\<rparr>" "ls_writers s2 = [Room ?l]"
    "ls_cond s2 = [log_thread_id]" "ls_reader s2 = Popping" using s1 by (simp_all add: s2_def)
  have "async_ok (ls_log s2) f q" using q(1) b(1) by (simp add: s2 async_ok_def lg_ok_def)
  then obtain q' where q': "log_step ?T (Push 0) s2 = Inr (Nothing, set_writer 0 Pushed (set_queue q' s2))"
    "bq_items q' = [?l]" using writer_pushes [of 0 s2 ?l f q ?T] r s2 q(2) by auto
  define s where "s = set_writer 0 Pushed (set_queue q' s2)"
  have "log_moves ?T [Push 0] s2 = Inr ([Nothing], s)" using q'(1) by (simp add: s_def)
  from log_moves_append [OF 1 log_moves_append [OF b(2) [folded s2_def] this]]
  have l: "logs ?T ?s0 ([Nothing] @ [Nothing, Made ?l, Nothing] @ [Nothing]) s"
    by (rule logs_moves_start)
  have "in_queue s = [?l]" "ls_reader s = Popping" "ls_cond s = [log_thread_id]"
    using q'(2) s2 by (simp_all add: s_def)
  with log_thread_is_woken [OF log_of_two_start l] l show ?thesis by blast
qed

end
