(* ===== verification/V3_HttpConn.thy ===== *)
theory V3_HttpConn
  imports V3_Log
begin

section \<open>version\_03: the state of a connection\<close>

text \<open>
  version\_03/http/http\_conn.h and the first part of http\_conn.cpp: the members of a
  connection, what the connections share, the epoll wrappers, \<open>init\<close>, \<open>close_conn\<close>,
  \<open>read_once\<close> and \<open>parse_line\<close>. The level triggered variant is the one that is compiled.

  A pointer into \<open>m_read_buf\<close> is an index, \<open>NULL\<close> is \<open>None\<close>. The mapping of a file is its
  contents or the \<open>MAP_FAILED\<close> that \<open>mmap\<close> returns when it fails. The kernel, the file
  system and MySQL are parameters: what they answer are fields of \<open>env\<close> or arguments.
\<close>

subsection \<open>Types\<close>

datatype METHOD = GET | POST | HEAD | PUT | DELETE | TRACE | OPTIONS | CONNECT | PATH

datatype CHECK_STATE = CHECK_STATE_REQUESTLINE | CHECK_STATE_HEADER | CHECK_STATE_CONTENT

datatype HTTP_CODE = NO_REQUEST | GET_REQUEST | BAD_REQUEST | NO_RESOURCE | FORBIDDEN_REQUEST
  | FILE_REQUEST | INTERNAL_ERROR | CLOSED_CONNECTION

datatype LINE_STATUS = LINE_OK | LINE_BAD | LINE_OPEN

definition FILENAME_LEN :: nat where "FILENAME_LEN = 200"
definition READ_BUFFER_SIZE :: nat where "READ_BUFFER_SIZE = 2048"
definition WRITE_BUFFER_SIZE :: nat where "WRITE_BUFFER_SIZE = 1024"

datatype mapping_addr = Mapped string | MAP_FAILED

text \<open>Where the data of an \<open>iovec\<close> starts: in \<open>m_write_buf\<close> or in the mapped file.\<close>

datatype iov_base = In_buf int | In_file int

record iovec =
  iov_base :: iov_base
  iov_len :: int

record file_stat =
  st_mode :: "32 word"
  st_size :: int

record http_conn =
  m_sockfd :: int
  m_address :: string
  m_read_buf :: "char list"
  m_read_idx :: int
  m_checked_idx :: int
  m_start_line :: int
  m_write_buf :: "char list"
  m_write_idx :: int
  m_check_state :: CHECK_STATE
  m_method :: METHOD
  m_real_file :: "char list"
  m_url :: "nat option"
  m_version :: "nat option"
  m_host :: "nat option"
  m_content_length :: int
  m_linger :: bool
  m_file_address :: "mapping_addr option"
  m_file_stat :: file_stat
  m_iv0 :: iovec
  m_iv1 :: iovec
  m_iv_count :: int
  cgi :: int
  m_string :: "nat option"
  bytes_to_send :: int
  bytes_have_send :: int
  mysql :: "nat option"

text \<open>
  What all connections share: the open sockets with their status flags, the interest list of
  the one epoll descriptor, what was sent on each socket, the number of users, the table of
  users with its lock, the statements given to MySQL, the log, and how often the time was read.
\<close>

record web =
  wb_flags :: "int \<Rightarrow> 32 word option"
  wb_interest :: "int \<Rightarrow> 32 word option"
  wb_sent :: "int \<Rightarrow> string"
  m_user_count :: int
  users :: "string \<Rightarrow> string option"
  m_lock :: mutex
  wb_queries :: "string list"
  wb_log :: logger
  wb_clock :: nat

record env =
  en_now :: "nat \<Rightarrow> time_of_day"
  en_fopen :: "string \<Rightarrow> bool"
  en_stat :: "string \<Rightarrow> file_stat option"
  en_open :: "string \<Rightarrow> string option"
  en_query :: "nat \<Rightarrow> string \<Rightarrow> int"

text \<open>\<open>mysql_query\<close> follows the pointer to the connection.\<close>

definition mysql_query :: "env \<Rightarrow> nat option \<Rightarrow> string \<Rightarrow> int res" where
  "mysql_query e con sql = (case con of None \<Rightarrow> Inl NullDeref | Some con \<Rightarrow> Inr (en_query e con sql))"

subsection \<open>The log macros\<close>

definition write_log_now :: "env \<Rightarrow> int \<Rightarrow> string \<Rightarrow> web \<Rightarrow> web res" where
  "write_log_now e level msg w =
     bindr (write_log (en_fopen e) (en_now e (wb_clock w)) level msg (wb_log w)) (\<lambda>lg.
     Inr (w\<lparr>wb_log := lg, wb_clock := Suc (wb_clock w)\<rparr>))"

definition log_flush_now :: "web \<Rightarrow> web res" where
  "log_flush_now w = bindr (flush (wb_log w)) (\<lambda>lg. Inr (w\<lparr>wb_log := lg\<rparr>))"

abbreviation LOG_INFO :: "env \<Rightarrow> string \<Rightarrow> web \<Rightarrow> web res" where
  "LOG_INFO e msg w \<equiv> write_log_now e 1 msg w"

definition LOG_INFO_flush :: "env \<Rightarrow> string \<Rightarrow> web \<Rightarrow> web res" where
  "LOG_INFO_flush e msg w = bindr (LOG_INFO e msg w) log_flush_now"

subsection \<open>Sockets and the interest list\<close>

definition EV_IN :: "32 word" where "EV_IN = 1"
definition EV_OUT :: "32 word" where "EV_OUT = 4"
definition EV_RDHUP :: "32 word" where "EV_RDHUP = 0x2000"
definition EV_ONESHOT :: "32 word" where "EV_ONESHOT = 0x40000000"
definition NONBLOCK :: "32 word" where "NONBLOCK = 2048"

definition setnonblocking :: "int \<Rightarrow> web \<Rightarrow> web" where
  "setnonblocking fd w =
     (case wb_flags w fd of
        None \<Rightarrow> w
      | Some old_option \<Rightarrow> w\<lparr>wb_flags := (wb_flags w)(fd \<mapsto> or old_option NONBLOCK)\<rparr>)"

text \<open>
  \<open>epoll_ctl\<close> as epoll\_ctl(2) says: adding needs an open descriptor that is not registered,
  changing and deleting one that is. The results are not tested by the code.
\<close>

definition addfd :: "int \<Rightarrow> bool \<Rightarrow> web \<Rightarrow> web" where
  "addfd fd one_shot w =
     (let events = or EV_IN EV_RDHUP;
          events = (if one_shot then or events EV_ONESHOT else events);
          w = (if wb_flags w fd \<noteq> None \<and> wb_interest w fd = None
               then w\<lparr>wb_interest := (wb_interest w)(fd \<mapsto> events)\<rparr> else w) in
      setnonblocking fd w)"

definition modfd :: "int \<Rightarrow> 32 word \<Rightarrow> web \<Rightarrow> web" where
  "modfd fd ev w =
     (if wb_flags w fd \<noteq> None \<and> wb_interest w fd \<noteq> None
      then w\<lparr>wb_interest := (wb_interest w)(fd \<mapsto> or ev (or EV_ONESHOT EV_RDHUP))\<rparr> else w)"

definition close_fd3 :: "int \<Rightarrow> web \<Rightarrow> web" where
  "close_fd3 fd w = w\<lparr>wb_flags := (wb_flags w)(fd := None), wb_interest := (wb_interest w)(fd := None)\<rparr>"

definition removefd :: "int \<Rightarrow> web \<Rightarrow> web" where
  "removefd fd w = close_fd3 fd (w\<lparr>wb_interest := (wb_interest w)(fd := None)\<rparr>)"

subsection \<open>A connection starts and ends\<close>

definition http_init0 :: "http_conn \<Rightarrow> http_conn" where
  "http_init0 c = c
     \<lparr>mysql := None, bytes_to_send := 0, bytes_have_send := 0,
      m_check_state := CHECK_STATE_REQUESTLINE, m_linger := False, m_method := GET,
      m_url := None, m_version := None, m_content_length := 0, m_host := None,
      m_start_line := 0, m_checked_idx := 0, m_read_idx := 0, m_write_idx := 0, cgi := 0,
      m_read_buf := replicate READ_BUFFER_SIZE NUL, m_write_buf := replicate WRITE_BUFFER_SIZE NUL,
      m_real_file := replicate FILENAME_LEN NUL\<rparr>"

definition http_init :: "int \<Rightarrow> string \<Rightarrow> http_conn \<Rightarrow> web \<Rightarrow> http_conn \<times> web" where
  "http_init sockfd addr c w =
     (let c = c\<lparr>m_sockfd := sockfd, m_address := addr\<rparr>;
          w = addfd sockfd True w;
          w = w\<lparr>m_user_count := m_user_count w + 1\<rparr> in
      (http_init0 c, w))"

definition close_conn :: "bool \<Rightarrow> http_conn \<Rightarrow> web \<Rightarrow> http_conn \<times> web" where
  "close_conn real_close c w =
     (if real_close \<and> m_sockfd c \<noteq> -1
      then let w = removefd (m_sockfd c) w in
           (c\<lparr>m_sockfd := -1\<rparr>, w\<lparr>m_user_count := m_user_count w - 1\<rparr>)
      else (c, w))"

subsection \<open>Reading and cutting lines\<close>

text \<open>
  One \<open>recv\<close>, as the level triggered variant does it: \<open>None\<close> is the result -1, which is
  added to \<open>m_read_idx\<close> like any other.
\<close>

definition read_once :: "string option \<Rightarrow> http_conn \<Rightarrow> (bool \<times> http_conn) res" where
  "read_once ans c =
     (if m_read_idx c \<ge> int READ_BUFFER_SIZE then Inr (False, c)
      else case ans of
        None \<Rightarrow> Inr (False, c\<lparr>m_read_idx := m_read_idx c - 1\<rparr>)
      | Some bs \<Rightarrow>
          if m_read_idx c < 0 then Inl OutOfBounds
          else
            let bs = take (READ_BUFFER_SIZE - nat (m_read_idx c)) bs in
            bindr (wrs (m_read_buf c) (nat (m_read_idx c)) bs) (\<lambda>b.
            Inr (bs \<noteq> [], c\<lparr>m_read_buf := b, m_read_idx := m_read_idx c + int (length bs)\<rparr>)))"

function parse_line :: "http_conn \<Rightarrow> (LINE_STATUS \<times> http_conn) res" where
  "parse_line c =
     (if m_checked_idx c < m_read_idx c then
        bindr (rd (m_read_buf c) (m_checked_idx c)) (\<lambda>temp.
        if temp = CR then
          if m_checked_idx c + 1 = m_read_idx c then Inr (LINE_OPEN, c)
          else
            bindr (rd (m_read_buf c) (m_checked_idx c + 1)) (\<lambda>d.
            if d = LF then
              bindr (wr (m_read_buf c) (m_checked_idx c) NUL) (\<lambda>b.
              bindr (wr b (m_checked_idx c + 1) NUL) (\<lambda>b.
              Inr (LINE_OK, c\<lparr>m_read_buf := b, m_checked_idx := m_checked_idx c + 2\<rparr>)))
            else Inr (LINE_BAD, c))
        else if temp = LF then
          bindr (if m_checked_idx c > 1
                 then bindr (rd (m_read_buf c) (m_checked_idx c - 1)) (\<lambda>d. Inr (d = CR))
                 else Inr False) (\<lambda>after_cr.
          if after_cr then
            bindr (wr (m_read_buf c) (m_checked_idx c - 1) NUL) (\<lambda>b.
            bindr (wr b (m_checked_idx c) NUL) (\<lambda>b.
            Inr (LINE_OK, c\<lparr>m_read_buf := b, m_checked_idx := m_checked_idx c + 1\<rparr>)))
          else Inr (LINE_BAD, c))
        else parse_line (c\<lparr>m_checked_idx := m_checked_idx c + 1\<rparr>))
      else Inr (LINE_OPEN, c))"
  by pat_completeness auto
termination
  by (relation "measure (\<lambda>c. nat (m_read_idx c - m_checked_idx c))") auto

declare parse_line.simps [simp del]

subsection \<open>A connection nobody uses\<close>

definition idle_conn :: http_conn where
  "idle_conn = http_init0
     \<lparr>m_sockfd = -1, m_address = [], m_read_buf = [], m_read_idx = 0, m_checked_idx = 0,
      m_start_line = 0, m_write_buf = [], m_write_idx = 0, m_check_state = CHECK_STATE_REQUESTLINE,
      m_method = GET, m_real_file = [], m_url = None, m_version = None, m_host = None,
      m_content_length = 0, m_linger = False, m_file_address = None,
      m_file_stat = \<lparr>st_mode = 0, st_size = 0\<rparr>, m_iv0 = \<lparr>iov_base = In_buf 0, iov_len = 0\<rparr>,
      m_iv1 = \<lparr>iov_base = In_buf 0, iov_len = 0\<rparr>, m_iv_count = 0, cgi = 0, m_string = None,
      bytes_to_send = 0, bytes_have_send = 0, mysql = None\<rparr>"

end
