(* ===== verification/V3_HttpParse.thy ===== *)
theory V3_HttpParse
  imports V3_HttpConn
begin

section \<open>version\_03: the request line, a header and the body\<close>

text \<open>
  \<open>parse_request_line\<close>, \<open>parse_headers\<close> and \<open>parse_content\<close> of http\_conn.cpp. \<open>text\<close> is
  the index of the line in \<open>m_read_buf\<close>; the parsers cut the line into pieces by writing
  NULs into the buffer and keep indices into it.
\<close>

definition blanks :: "char set" where "blanks = {CHR '' '', TAB}"

text \<open>\<open>p += strspn(p, " \t")\<close>\<close>

definition skip_at :: "char list \<Rightarrow> nat \<Rightarrow> nat res" where
  "skip_at b p = bindr (cstr b p) (\<lambda>s. Inr (p + strspn blanks s))"

text \<open>\<open>p = strpbrk(p, " \t")\<close>, then \<open>*p++ = 0\<close>; the index behind the NUL.\<close>

definition cut_at :: "char list \<Rightarrow> nat \<Rightarrow> (char list \<times> nat) option res" where
  "cut_at b p =
     bindr (cstr b p) (\<lambda>s.
     case strpbrk blanks s of
       None \<Rightarrow> Inr None
     | Some k \<Rightarrow> bindr (wr b (int (p + k)) NUL) (\<lambda>b. Inr (Some (b, p + k + 1))))"

text \<open>The two tests for a scheme: \<open>strncasecmp\<close> of a null pointer is undefined.\<close>

definition skip_scheme :: "string \<Rightarrow> char list \<Rightarrow> nat option \<Rightarrow> nat option res" where
  "skip_scheme scheme b url =
     (case url of
        None \<Rightarrow> Inl NullDeref
      | Some p \<Rightarrow>
          bindr (cstr b p) (\<lambda>s.
          if strncasecmp_eq s scheme (length scheme) then
            bindr (cstr b (p + length scheme)) (\<lambda>s.
            Inr (map_option (\<lambda>k. p + length scheme + k) (strchr (CHR ''/'') s)))
          else Inr (Some p)))"

definition take_method :: "string \<Rightarrow> http_conn \<Rightarrow> http_conn option" where
  "take_method meth c =
     (if strcasecmp_eq meth ''GET'' then Some (c\<lparr>m_method := GET\<rparr>)
      else if strcasecmp_eq meth ''POST'' then Some (c\<lparr>m_method := POST, cgi := 1\<rparr>)
      else None)"

text \<open>What follows the test of the version: the target, and the page for a lone slash.\<close>

definition take_target :: "http_conn \<Rightarrow> (HTTP_CODE \<times> http_conn) res" where
  "take_target c =
     bindr (skip_scheme ''http://'' (m_read_buf c) (m_url c)) (\<lambda>url.
     bindr (skip_scheme ''https://'' (m_read_buf c) url) (\<lambda>url.
     let c = c\<lparr>m_url := url\<rparr> in
     case url of
       None \<Rightarrow> Inr (BAD_REQUEST, c)
     | Some p \<Rightarrow>
         bindr (cstr (m_read_buf c) p) (\<lambda>s.
         if s = [] \<or> hd s \<noteq> CHR ''/'' then Inr (BAD_REQUEST, c)
         else
           bindr (if length s = 1 then wrs (m_read_buf c) (p + 1) (''judge.html'' @ [NUL])
                  else Inr (m_read_buf c)) (\<lambda>b.
           Inr (NO_REQUEST, c\<lparr>m_read_buf := b, m_check_state := CHECK_STATE_HEADER\<rparr>)))))"

definition parse_request_line :: "nat \<Rightarrow> http_conn \<Rightarrow> (HTTP_CODE \<times> http_conn) res" where
  "parse_request_line text c =
     bindr (cut_at (m_read_buf c) text) (\<lambda>r.
     case r of
       None \<Rightarrow> Inr (BAD_REQUEST, c\<lparr>m_url := None\<rparr>)
     | Some (b, url) \<Rightarrow>
         let c = c\<lparr>m_read_buf := b, m_url := Some url\<rparr> in
         bindr (cstr b text) (\<lambda>meth.
         case take_method meth c of
           None \<Rightarrow> Inr (BAD_REQUEST, c)
         | Some c \<Rightarrow>
             bindr (skip_at b url) (\<lambda>url.
             let c = c\<lparr>m_url := Some url\<rparr> in
             bindr (cut_at b url) (\<lambda>r.
             case r of
               None \<Rightarrow> Inr (BAD_REQUEST, c\<lparr>m_version := None\<rparr>)
             | Some (b, version) \<Rightarrow>
                 bindr (skip_at b version) (\<lambda>version.
                 let c = c\<lparr>m_read_buf := b, m_version := Some version\<rparr> in
                 bindr (cstr b version) (\<lambda>v.
                 if \<not> strcasecmp_eq v ''HTTP/1.1'' then Inr (BAD_REQUEST, c)
                 else take_target c))))))"

text \<open>
  \<open>atol\<close> stops at the largest and the smallest \<open>long\<close>, and the assignment to an \<open>int\<close> keeps
  the low 32 bits.
\<close>

definition atol :: "string \<Rightarrow> int" where
  "atol s = max (- (2 ^ 63)) (min (2 ^ 63 - 1) (strtol_value s))"

definition int_of_long :: "int \<Rightarrow> int" where
  "int_of_long v = signed_take_bit 31 v"

text \<open>The value of a header: behind its name and the blanks that follow.\<close>

definition header_value :: "string \<Rightarrow> string \<Rightarrow> string" where
  "header_value name s = (let v = drop (length name) s in drop (strspn blanks v) v)"

definition parse_headers ::
  "env \<Rightarrow> nat \<Rightarrow> http_conn \<Rightarrow> web \<Rightarrow> (HTTP_CODE \<times> http_conn \<times> web) res"
where
  "parse_headers e text c w =
     bindr (cstr (m_read_buf c) text) (\<lambda>s.
     if s = [] then
       if m_content_length c \<noteq> 0 then Inr (NO_REQUEST, c\<lparr>m_check_state := CHECK_STATE_CONTENT\<rparr>, w)
       else Inr (GET_REQUEST, c, w)
     else if strncasecmp_eq s ''Connection:'' 11 then
       Inr (NO_REQUEST,
            if strcasecmp_eq (header_value ''Connection:'' s) ''keep-alive'' then c\<lparr>m_linger := True\<rparr> else c, w)
     else if strncasecmp_eq s ''Content-length:'' 15 then
       Inr (NO_REQUEST,
            c\<lparr>m_content_length := int_of_long (atol (header_value ''Content-length:'' s))\<rparr>, w)
     else if strncasecmp_eq s ''Host:'' 5 then
       Inr (NO_REQUEST, c\<lparr>m_host := Some (text + 5 + strspn blanks (drop 5 s))\<rparr>, w)
     else
       bindr (LOG_INFO_flush e (''oop!unknow header: '' @ s) w) (\<lambda>w. Inr (NO_REQUEST, c, w)))"

text \<open>The sum of two \<open>int\<close>s is undefined when it does not fit.\<close>

definition add_int :: "int \<Rightarrow> int \<Rightarrow> int res" where
  "add_int a b =
     (if - (2 ^ 31) \<le> a + b \<and> a + b < 2 ^ 31 then Inr (a + b) else Inl Unrepresentable)"

definition parse_content :: "nat \<Rightarrow> http_conn \<Rightarrow> (HTTP_CODE \<times> http_conn) res" where
  "parse_content text c =
     bindr (add_int (m_content_length c) (m_checked_idx c)) (\<lambda>n.
     if m_read_idx c \<ge> n then
       bindr (wr (m_read_buf c) (int text + m_content_length c) NUL) (\<lambda>b.
       Inr (GET_REQUEST, c\<lparr>m_read_buf := b, m_string := Some text\<rparr>))
     else Inr (NO_REQUEST, c))"

end
