(* ===== verification/V3_HttpFile.thy ===== *)
theory V3_HttpFile
  imports V3_HttpParse
begin

section \<open>version\_03: the requested file, login and registration\<close>

text \<open>
  \<open>do_request\<close> and \<open>unmap\<close> of http\_conn.cpp. \<open>p\<close> points at the last slash of the target;
  the character behind it chooses a page, and in a POST the check of a login (2) or a
  registration (3). Blocks from \<open>malloc\<close> start with NULs here; the code writes each of them
  before it reads it.
\<close>

definition doc_root :: string where "doc_root = ''/root/TinyHTTP/version_03/root''"

definition S_IROTH :: "32 word" where "S_IROTH = 4"
definition S_ISDIR :: "32 word \<Rightarrow> bool" where "S_ISDIR mode = (and mode 0xF000 = 0x4000)"

subsection \<open>The form\<close>

text \<open>Copy from \<open>b[i]\<close> to \<open>dst[k]\<close> up to the character \<open>stop\<close>; where it stopped.\<close>

function copy_until :: "char \<Rightarrow> char list \<Rightarrow> nat \<Rightarrow> char list \<Rightarrow> nat \<Rightarrow> (nat \<times> char list \<times> nat) res" where
  "copy_until stop b i dst k =
     (if i < length b then
        if b ! i = stop then Inr (i, dst, k)
        else bindr (wr dst (int k) (b ! i)) (\<lambda>dst. copy_until stop b (i + 1) dst (k + 1))
      else Inl OutOfBounds)"
  by pat_completeness auto
termination
  by (relation "measure (\<lambda>(stop, b, i, dst, k). length b - i)") auto

declare copy_until.simps [simp del]

text \<open>\<open>user=...&passwd=...\<close>: the name from index 5, the password ten behind the ampersand.\<close>

definition form_fields :: "char list \<Rightarrow> nat \<Rightarrow> (string \<times> string) res" where
  "form_fields b s =
     bindr (copy_until (CHR ''&'') b (s + 5) (replicate 100 NUL) 0) (\<lambda>(i, name, k).
     bindr (wr name (int k) NUL) (\<lambda>name.
     bindr (copy_until NUL b (i + 10) (replicate 100 NUL) 0) (\<lambda>(i, password, j).
     bindr (wr password (int j) NUL) (\<lambda>password.
     bindr (cstr name 0) (\<lambda>name.
     bindr (cstr password 0) (\<lambda>password. Inr (name, password)))))))"

fun strcats :: "char list \<Rightarrow> string list \<Rightarrow> char list res" where
  "strcats b [] = Inr b"
| "strcats b (s # ss) = bindr (strcat b s) (\<lambda>b. strcats b ss)"

definition sql_insert :: "string \<Rightarrow> string \<Rightarrow> string res" where
  "sql_insert name password =
     bindr (strcpy (replicate 200 NUL) ''INSERT INTO user(username, passwd) VALUES('') (\<lambda>b.
     bindr (strcats b [[CHR 0x27], name, [CHR 0x27] @ '', '' @ [CHR 0x27], password, [CHR 0x27] @ '')'']) (\<lambda>b.
     cstr b 0))"

definition set_url :: "string \<Rightarrow> nat \<Rightarrow> http_conn \<Rightarrow> http_conn res" where
  "set_url s url c = bindr (wrs (m_read_buf c) url (s @ [NUL])) (\<lambda>b. Inr (c\<lparr>m_read_buf := b\<rparr>))"

definition lock_users :: "web \<Rightarrow> web res" where
  "lock_users w = bindr (locker_lock (m_lock w)) (\<lambda>m. Inr (w\<lparr>m_lock := m\<rparr>))"

definition unlock_users :: "web \<Rightarrow> web res" where
  "unlock_users w = bindr (locker_unlock (m_lock w)) (\<lambda>m. Inr (w\<lparr>m_lock := m\<rparr>))"

definition register :: "env \<Rightarrow> string \<Rightarrow> string \<Rightarrow> nat \<Rightarrow> http_conn \<Rightarrow> web \<Rightarrow> (http_conn \<times> web) res" where
  "register e name password url c w =
     bindr (sql_insert name password) (\<lambda>sql.
     if users w name = None then
       bindr (lock_users w) (\<lambda>w.
       bindr (mysql_query e (mysql c) sql) (\<lambda>rc.
       let w = w\<lparr>wb_queries := wb_queries w @ [sql], users := (users w)(name \<mapsto> password)\<rparr> in
       bindr (unlock_users w) (\<lambda>w.
       bindr (set_url (if rc = 0 then ''/log.html'' else ''/registerError.html'') url c) (\<lambda>c.
       Inr (c, w)))))
     else bindr (set_url ''/registerError.html'' url c) (\<lambda>c. Inr (c, w)))"

definition login :: "string \<Rightarrow> string \<Rightarrow> nat \<Rightarrow> http_conn \<Rightarrow> web \<Rightarrow> http_conn res" where
  "login name password url c w =
     set_url (if users w name = Some password then ''/welcome.html'' else ''/logError.html'') url c"

text \<open>The branch for a POST to a target whose last part starts with 2 or 3.\<close>

definition do_form :: "env \<Rightarrow> char \<Rightarrow> nat \<Rightarrow> http_conn \<Rightarrow> web \<Rightarrow> (http_conn \<times> web) res" where
  "do_form e ch url c w =
     bindr (cstr (m_read_buf c) (url + 2)) (\<lambda>rest.
     bindr (strcats (CHR ''/'' # NUL # replicate 198 NUL) [rest]) (\<lambda>url_real.
     bindr (cstr url_real 0) (\<lambda>url_real.
     bindr (strncpy (m_real_file c) (length doc_root) url_real (FILENAME_LEN - length doc_root - 1)) (\<lambda>f.
     let c = c\<lparr>m_real_file := f\<rparr> in
     case m_string c of
       None \<Rightarrow> Inl NullDeref
     | Some s \<Rightarrow>
         bindr (form_fields (m_read_buf c) s) (\<lambda>(name, password).
         if ch = CHR ''3'' then register e name password url c w
         else bindr (login name password url c w) (\<lambda>c. Inr (c, w)))))))"

subsection \<open>The file\<close>

definition page_of :: "char \<Rightarrow> string option" where
  "page_of ch =
     (if ch = CHR ''0'' then Some ''/register.html'' else if ch = CHR ''1'' then Some ''/log.html''
      else if ch = CHR ''5'' then Some ''/picture.html'' else if ch = CHR ''6'' then Some ''/video.html''
      else if ch = CHR ''7'' then Some ''/fans.html'' else None)"

definition set_real_file :: "char \<Rightarrow> nat \<Rightarrow> http_conn \<Rightarrow> http_conn res" where
  "set_real_file ch url c =
     bindr (case page_of ch of
              Some page \<Rightarrow> strncpy (m_real_file c) (length doc_root) page (length page)
            | None \<Rightarrow>
                bindr (cstr (m_read_buf c) url) (\<lambda>s.
                strncpy (m_real_file c) (length doc_root) s (FILENAME_LEN - length doc_root - 1))) (\<lambda>f.
     Inr (c\<lparr>m_real_file := f\<rparr>))"

definition map_file :: "env \<Rightarrow> string \<Rightarrow> file_stat \<Rightarrow> mapping_addr" where
  "map_file e f st =
     (if st_size st = 0 then MAP_FAILED
      else case en_open e f of None \<Rightarrow> MAP_FAILED | Some contents \<Rightarrow> Mapped contents)"

definition open_file :: "env \<Rightarrow> http_conn \<Rightarrow> (HTTP_CODE \<times> http_conn) res" where
  "open_file e c =
     bindr (cstr (m_real_file c) 0) (\<lambda>f.
     case en_stat e f of
       None \<Rightarrow> Inr (NO_RESOURCE, c)
     | Some st \<Rightarrow>
         let c = c\<lparr>m_file_stat := st\<rparr> in
         if and (st_mode st) S_IROTH = 0 then Inr (FORBIDDEN_REQUEST, c)
         else if S_ISDIR (st_mode st) then Inr (BAD_REQUEST, c)
         else Inr (FILE_REQUEST, c\<lparr>m_file_address := Some (map_file e f st)\<rparr>))"

definition do_request :: "env \<Rightarrow> http_conn \<Rightarrow> web \<Rightarrow> (HTTP_CODE \<times> http_conn \<times> web) res" where
  "do_request e c w =
     bindr (strcpy (m_real_file c) doc_root) (\<lambda>f.
     let c = c\<lparr>m_real_file := f\<rparr> in
     case m_url c of
       None \<Rightarrow> Inl NullDeref
     | Some url \<Rightarrow>
         bindr (cstr (m_read_buf c) url) (\<lambda>s.
         case strrchr (CHR ''/'') s of
           None \<Rightarrow> Inl NullDeref
         | Some k \<Rightarrow>
             let p = url + k in
             bindr (rd (m_read_buf c) (int (p + 1))) (\<lambda>ch.
             bindr (if cgi c = 1 \<and> (ch = CHR ''2'' \<or> ch = CHR ''3'')
                    then do_form e ch url c w else Inr (c, w)) (\<lambda>(c, w).
             bindr (rd (m_read_buf c) (int (p + 1))) (\<lambda>ch.
             bindr (set_real_file ch url c) (\<lambda>c.
             bindr (open_file e c) (\<lambda>(ret, c). Inr (ret, c, w))))))))"

definition unmap :: "http_conn \<Rightarrow> http_conn" where
  "unmap c = (case m_file_address c of None \<Rightarrow> c | Some _ \<Rightarrow> c\<lparr>m_file_address := None\<rparr>)"

end
