(* ===== verification/V3_HttpRead.thy ===== *)
theory V3_HttpRead
  imports V3_HttpFile
begin

section \<open>version\_03: process\_read\<close>

text \<open>
  The two state machines of http\_conn.cpp together: \<open>process_read\<close> cuts lines with
  \<open>parse_line\<close> and hands each to the parser of the current state. Its loop ends because
  every line takes at least one character, and the state for the body makes one more turn.
\<close>

subsection \<open>Lines go forward\<close>

text \<open>All \<open>parse_line\<close> changes is the buffer, keeping its length, and the place reached.\<close>

definition line_step :: "http_conn \<Rightarrow> LINE_STATUS \<Rightarrow> http_conn \<Rightarrow> bool" where
  "line_step c st c' =
     (c' = c\<lparr>m_read_buf := m_read_buf c', m_checked_idx := m_checked_idx c'\<rparr>
      \<and> length (m_read_buf c') = length (m_read_buf c) \<and> m_checked_idx c \<le> m_checked_idx c'
      \<and> (st = LINE_OK \<longrightarrow> m_checked_idx c < m_checked_idx c' \<and> m_checked_idx c' \<le> m_read_idx c))"

lemma line_step_move: "line_step (c\<lparr>m_checked_idx := m_checked_idx c + 1\<rparr>) st c' \<Longrightarrow> line_step c st c'"
  unfolding line_step_def by (cases c; cases c'; simp)

lemma parse_line_step: "post (parse_line c) (\<lambda>(st, c'). line_step c st c')"
proof (induction c rule: parse_line.induct)
  case (1 c)
  show ?case
    by (subst parse_line.simps, intro post_rules post_mono [OF "1.IH"])
      (auto simp: line_step_def dest!: wr_length intro: line_step_move)
qed

lemma parse_line_forward:
  assumes "parse_line c = Inr (st, c')"
  shows "m_checked_idx c \<le> m_checked_idx c'" "m_read_idx c' = m_read_idx c"
    "st = LINE_OK \<Longrightarrow> m_checked_idx c < m_checked_idx c' \<and> m_checked_idx c' \<le> m_read_idx c"
    "m_check_state c' = m_check_state c" "m_start_line c' = m_start_line c"
    "length (m_read_buf c') = length (m_read_buf c)"
proof -
  from postD [OF parse_line_step assms] have l: "line_step c st c'" by simp
  then have "c' = c\<lparr>m_read_buf := m_read_buf c', m_checked_idx := m_checked_idx c'\<rparr>"
    by (simp add: line_step_def)
  note e = arg_cong [OF this]
  show "m_read_idx c' = m_read_idx c" using e [of m_read_idx] by simp
  show "m_check_state c' = m_check_state c" using e [of m_check_state] by simp
  show "m_start_line c' = m_start_line c" using e [of m_start_line] by simp
  from l show "m_checked_idx c \<le> m_checked_idx c'" "length (m_read_buf c') = length (m_read_buf c)"
    "st = LINE_OK \<Longrightarrow> m_checked_idx c < m_checked_idx c' \<and> m_checked_idx c' \<le> m_read_idx c"
    by (simp_all add: line_step_def)
qed

lemma cut_at_length: "cut_at b p = Inr (Some (b', q)) \<Longrightarrow> length b' = length b"
  by (auto simp: cut_at_def bindr_eq_Inr dest: wr_length split: option.splits)

text \<open>What the parsers of a line leave alone.\<close>

definition same_place :: "http_conn \<Rightarrow> http_conn \<Rightarrow> bool" where
  "same_place c c' = (m_checked_idx c' = m_checked_idx c \<and> m_read_idx c' = m_read_idx c
     \<and> m_start_line c' = m_start_line c)"

lemma same_place_refl [simp]: "same_place c c"
  by (simp add: same_place_def)

lemma same_placeD:
  "same_place c c' \<Longrightarrow> m_checked_idx c' = m_checked_idx c \<and> m_read_idx c' = m_read_idx c"
  by (simp add: same_place_def)

lemma same_place_upd [simp]:
  "same_place a (c\<lparr>m_url := u\<rparr>) = same_place a c"
  "same_place a (c\<lparr>m_version := u\<rparr>) = same_place a c"
  "same_place a (c\<lparr>m_host := u\<rparr>) = same_place a c"
  "same_place a (c\<lparr>m_read_buf := b\<rparr>) = same_place a c"
  "same_place a (c\<lparr>m_method := m\<rparr>) = same_place a c"
  "same_place a (c\<lparr>cgi := i\<rparr>) = same_place a c"
  "same_place a (c\<lparr>m_check_state := st\<rparr>) = same_place a c"
  "same_place a (c\<lparr>m_linger := l\<rparr>) = same_place a c"
  "same_place a (c\<lparr>m_content_length := i\<rparr>) = same_place a c"
  "same_place a (c\<lparr>m_string := u\<rparr>) = same_place a c"
  by (simp_all add: same_place_def)

lemma take_method_place: "take_method m c = Some c' \<Longrightarrow> same_place a c \<Longrightarrow> same_place a c'"
  unfolding take_method_def same_place_def by (auto split: if_splits)

lemma take_target_place: "same_place a c \<Longrightarrow> post (take_target c) (\<lambda>(r, c'). same_place a c')"
  unfolding take_target_def by (intro post_rules) simp_all

lemma parse_request_line_place: "post (parse_request_line text c) (\<lambda>(r, c'). same_place c c')"
  unfolding parse_request_line_def
  by (intro post_rules take_target_place) (simp_all, (erule take_method_place, simp)+)

lemma parse_headers_place: "post (parse_headers e text c w) (\<lambda>(r, c', w'). same_place c c')"
  unfolding parse_headers_def by (intro post_rules) simp_all

lemma parse_content_place: "post (parse_content text c) (\<lambda>(r, c'). same_place c c')"
  unfolding parse_content_def by (intro post_rules) simp_all

subsection \<open>The loop\<close>

definition get_line_at :: "http_conn \<Rightarrow> nat" where "get_line_at c = nat (m_start_line c)"

definition next_line :: "LINE_STATUS \<Rightarrow> http_conn \<Rightarrow> (LINE_STATUS \<times> http_conn) res" where
  "next_line st c =
     (if m_check_state c = CHECK_STATE_CONTENT \<and> st = LINE_OK then Inr (LINE_OK, c) else parse_line c)"

lemma next_line_forward:
  assumes "next_line st c = Inr (LINE_OK, c')"
  shows "m_read_idx c' = m_read_idx c"
    and "m_checked_idx c < m_checked_idx c' \<and> m_checked_idx c' \<le> m_read_idx c
      \<or> m_check_state c = CHECK_STATE_CONTENT \<and> st = LINE_OK \<and> c' = c"
  using assms parse_line_forward(2,3) [of c LINE_OK c'] by (auto simp: next_line_def split: if_splits)

text \<open>The order in which the loop goes down: what is left to check, then the turn for the body.\<close>

definition loop_rank :: "LINE_STATUS \<Rightarrow> http_conn \<Rightarrow> nat \<times> nat" where
  "loop_rank st c = (nat (m_read_idx c - m_checked_idx c), if st = LINE_OK then 1 else 0)"

lemma loop_rank_less:
  assumes "next_line st c = Inr (LINE_OK, c1)" and "same_place (c1\<lparr>m_start_line := i\<rparr>) c2"
    and "m_check_state c1 \<noteq> CHECK_STATE_CONTENT \<or> st2 = LINE_OPEN"
  shows "(loop_rank st2 c2, loop_rank st c) \<in> less_than <*lex*> less_than"
  using next_line_forward [OF assms(1)] assms(2,3) same_placeD [OF assms(2)]
  by (auto simp: loop_rank_def)

function read_loop :: "env \<Rightarrow> LINE_STATUS \<Rightarrow> http_conn \<Rightarrow> web \<Rightarrow> (HTTP_CODE \<times> http_conn \<times> web) res" where
  "read_loop e st c w =
     bindr (next_line st c) (\<lambda>(st, c).
     if st \<noteq> LINE_OK then Inr (NO_REQUEST, c, w)
     else
       let text = get_line_at c;
           c = c\<lparr>m_start_line := m_checked_idx c\<rparr> in
       bindr (cstr (m_read_buf c) text) (\<lambda>s.
       bindr (LOG_INFO_flush e s w) (\<lambda>w.
       case m_check_state c of
         CHECK_STATE_REQUESTLINE \<Rightarrow>
           bindr (parse_request_line text c) (\<lambda>(ret, c).
           if ret = BAD_REQUEST then Inr (BAD_REQUEST, c, w) else read_loop e LINE_OK c w)
       | CHECK_STATE_HEADER \<Rightarrow>
           bindr (parse_headers e text c w) (\<lambda>(ret, c, w).
           if ret = BAD_REQUEST then Inr (BAD_REQUEST, c, w)
           else if ret = GET_REQUEST then do_request e c w
           else read_loop e LINE_OK c w)
       | CHECK_STATE_CONTENT \<Rightarrow>
           bindr (parse_content text c) (\<lambda>(ret, c).
           if ret = GET_REQUEST then do_request e c w
           else read_loop e LINE_OPEN c w))))"
  by pat_completeness auto

termination
proof (relation "inv_image (less_than <*lex*> less_than) (\<lambda>(e, st, c, w). loop_rank st c)", goal_cases)
  case 1
  then show ?case by auto
next
  case (2 e st c w x st1 c1 t c2 s w1 y ret c3)
  then show ?case
    using loop_rank_less [of st c c1 "m_checked_idx c1" c3 LINE_OK] postD [OF parse_request_line_place [of t c2]]
    by auto
next
  case (3 e st c w x st1 c1 t c2 s w1 y ret z c3 w2)
  then show ?case
    using loop_rank_less [of st c c1 "m_checked_idx c1" c3 LINE_OK] postD [OF parse_headers_place [of e t c2 w1]]
    by auto
next
  case (4 e st c w x st1 c1 t c2 s w1 y ret c3)
  then show ?case
    using loop_rank_less [of st c c1 "m_checked_idx c1" c3 LINE_OPEN] postD [OF parse_content_place [of t c2]]
    by auto
qed

declare read_loop.simps [simp del]

definition process_read :: "env \<Rightarrow> http_conn \<Rightarrow> web \<Rightarrow> (HTTP_CODE \<times> http_conn \<times> web) res" where
  "process_read e c w = read_loop e LINE_OK c w"

end
