(* ===== verification/V3_HttpWrite.thy ===== *)
theory V3_HttpWrite
  imports V3_HttpRead
begin

section \<open>version\_03: the answer\<close>

text \<open>
  The rest of http\_conn.cpp: the pieces of an answer, \<open>process_write\<close>, \<open>write\<close> and
  \<open>process\<close>. \<open>add_headers\<close> is declared with a result and returns none; its callers ignore it.
  \<open>write\<close> sends the header from \<open>m_write_buf\<close> and the file from its mapping with one
  \<open>writev\<close>; how much the kernel takes each time is a list of answers.
\<close>

subsection \<open>Filling the write buffer\<close>

definition add_response :: "env \<Rightarrow> string \<Rightarrow> http_conn \<Rightarrow> web \<Rightarrow> (bool \<times> http_conn \<times> web) res" where
  "add_response e s c w =
     (if m_write_idx c \<ge> int WRITE_BUFFER_SIZE then Inr (False, c, w)
      else
        let room = nat (int WRITE_BUFFER_SIZE - 1 - m_write_idx c) in
        bindr (vsnprintf (m_write_buf c) (nat (m_write_idx c)) room s) (\<lambda>(b, len).
        let c = c\<lparr>m_write_buf := b\<rparr> in
        if len \<ge> room then Inr (False, c, w)
        else
          let c = c\<lparr>m_write_idx := m_write_idx c + int len\<rparr> in
          bindr (cstr b 0) (\<lambda>sofar.
          bindr (LOG_INFO_flush e (''request:'' @ sofar) w) (\<lambda>w. Inr (True, c, w)))))"

definition add_status_line :: "env \<Rightarrow> int \<Rightarrow> string \<Rightarrow> http_conn \<Rightarrow> web \<Rightarrow> (bool \<times> http_conn \<times> web) res" where
  "add_status_line e status title = add_response e (''HTTP/1.1 '' @ dec_int status @ '' '' @ title @ crlf)"

definition add_content_length :: "env \<Rightarrow> int \<Rightarrow> http_conn \<Rightarrow> web \<Rightarrow> (bool \<times> http_conn \<times> web) res" where
  "add_content_length e content_len = add_response e (''Content-Length:'' @ dec_int content_len @ crlf)"

definition add_content_type :: "env \<Rightarrow> http_conn \<Rightarrow> web \<Rightarrow> (bool \<times> http_conn \<times> web) res" where
  "add_content_type e = add_response e (''Content-Type:text/html'' @ crlf)"

definition add_linger :: "env \<Rightarrow> http_conn \<Rightarrow> web \<Rightarrow> (bool \<times> http_conn \<times> web) res" where
  "add_linger e c = add_response e (''Connection:'' @ (if m_linger c then ''keep-alive'' else ''close'') @ crlf) c"

definition add_blank_line :: "env \<Rightarrow> http_conn \<Rightarrow> web \<Rightarrow> (bool \<times> http_conn \<times> web) res" where
  "add_blank_line e = add_response e crlf"

definition add_content :: "env \<Rightarrow> string \<Rightarrow> http_conn \<Rightarrow> web \<Rightarrow> (bool \<times> http_conn \<times> web) res" where
  "add_content e s = add_response e s"

text \<open>\<open>add_headers\<close> ignores the results of the three calls.\<close>

definition add_headers :: "env \<Rightarrow> int \<Rightarrow> http_conn \<Rightarrow> web \<Rightarrow> (http_conn \<times> web) res" where
  "add_headers e content_len c w =
     bindr (add_content_length e content_len c w) (\<lambda>(_, c, w).
     bindr (add_linger e c w) (\<lambda>(_, c, w).
     bindr (add_blank_line e c w) (\<lambda>(_, c, w). Inr (c, w))))"

subsection \<open>process\_write\<close>

definition error_404_form :: string where
  "error_404_form = ''The requested file was not found on this server.'' @ [LF]"
definition error_403_form :: string where
  "error_403_form = ''You do not have permission to get file form this server.'' @ [LF]"
definition error_500_form :: string where
  "error_500_form = ''There was an unusual problem serving the request file.'' @ [LF]"
definition ok_string :: string where "ok_string = ''<html><body></body></html>''"

text \<open>The value of an \<open>int\<close> parameter or variable that is given a larger integer.\<close>

definition to_int :: "int \<Rightarrow> int" where "to_int v = signed_take_bit 31 v"

definition one_iovec :: "http_conn \<Rightarrow> http_conn" where
  "one_iovec c = c\<lparr>m_iv0 := \<lparr>iov_base = In_buf 0, iov_len = m_write_idx c\<rparr>, m_iv_count := 1,
     bytes_to_send := m_write_idx c\<rparr>"

definition error_answer ::
  "env \<Rightarrow> int \<Rightarrow> string \<Rightarrow> string \<Rightarrow> http_conn \<Rightarrow> web \<Rightarrow> (bool \<times> http_conn \<times> web) res"
where
  "error_answer e status title form c w =
     bindr (add_status_line e status title c w) (\<lambda>(_, c, w).
     bindr (add_headers e (int (length form)) c w) (\<lambda>(c, w).
     bindr (add_content e form c w) (\<lambda>(added, c, w).
     if \<not> added then Inr (False, c, w) else Inr (True, one_iovec c, w))))"

text \<open>The case for an empty file has no \<open>break\<close> and runs into \<open>default\<close>.\<close>

definition process_write :: "env \<Rightarrow> HTTP_CODE \<Rightarrow> http_conn \<Rightarrow> web \<Rightarrow> (bool \<times> http_conn \<times> web) res" where
  "process_write e ret c w =
     (case ret of
        INTERNAL_ERROR \<Rightarrow> error_answer e 500 ''Internal Error'' error_500_form c w
      | BAD_REQUEST \<Rightarrow> error_answer e 404 ''Not Found'' error_404_form c w
      | FORBIDDEN_REQUEST \<Rightarrow> error_answer e 403 ''Forbidden'' error_403_form c w
      | FILE_REQUEST \<Rightarrow>
          bindr (add_status_line e 200 ''OK'' c w) (\<lambda>(_, c, w).
          if st_size (m_file_stat c) \<noteq> 0 then
            bindr (add_headers e (to_int (st_size (m_file_stat c))) c w) (\<lambda>(c, w).
            Inr (True, c\<lparr>m_iv0 := \<lparr>iov_base = In_buf 0, iov_len = m_write_idx c\<rparr>,
                         m_iv1 := \<lparr>iov_base = In_file 0, iov_len = st_size (m_file_stat c)\<rparr>,
                         m_iv_count := 2,
                         bytes_to_send := to_int (m_write_idx c + st_size (m_file_stat c))\<rparr>, w))
          else
            bindr (add_headers e (int (length ok_string)) c w) (\<lambda>(c, w).
            bindr (add_content e ok_string c w) (\<lambda>(added, c, w). Inr (False, c, w))))
      | _ \<Rightarrow> Inr (False, c, w))"

subsection \<open>process\<close>

definition process :: "env \<Rightarrow> http_conn \<Rightarrow> web \<Rightarrow> (http_conn \<times> web) res" where
  "process e c w =
     bindr (process_read e c w) (\<lambda>(read_ret, c, w).
     if read_ret = NO_REQUEST then Inr (c, modfd (m_sockfd c) EV_IN w)
     else
       bindr (process_write e read_ret c w) (\<lambda>(write_ret, c, w).
       let (c, w) = (if \<not> write_ret then close_conn True c w else (c, w)) in
       Inr (c, modfd (m_sockfd c) EV_OUT w)))"

subsection \<open>write\<close>

datatype writev_ans = W_took nat | W_again | W_error

text \<open>The bytes an \<open>iovec\<close> stands for; the kernel reads them from the two areas.\<close>

definition slice :: "char list \<Rightarrow> int \<Rightarrow> int \<Rightarrow> string res" where
  "slice b i n =
     (if n = 0 then Inr []
      else if 0 \<le> i \<and> 0 \<le> n \<and> i + n \<le> int (length b) then Inr (take (nat n) (drop (nat i) b))
      else Inl OutOfBounds)"

definition iov_bytes :: "http_conn \<Rightarrow> iovec \<Rightarrow> string res" where
  "iov_bytes c iv =
     (case iov_base iv of
        In_buf i \<Rightarrow> slice (m_write_buf c) i (iov_len iv)
      | In_file i \<Rightarrow>
          if iov_len iv = 0 then Inr []
          else case m_file_address c of
            Some (Mapped f) \<Rightarrow> slice f i (iov_len iv)
          | _ \<Rightarrow> Inl OutOfBounds)"

definition writev_bytes :: "http_conn \<Rightarrow> string res" where
  "writev_bytes c =
     bindr (iov_bytes c (m_iv0 c)) (\<lambda>s.
     if m_iv_count c = 1 then Inr s
     else bindr (iov_bytes c (m_iv1 c)) (\<lambda>t. Inr (s @ t)))"

text \<open>What follows a successful \<open>writev\<close> of \<open>n\<close> bytes.\<close>

definition advance_iov :: "int \<Rightarrow> http_conn \<Rightarrow> http_conn" where
  "advance_iov n c =
     (let c = c\<lparr>bytes_have_send := bytes_have_send c + n, bytes_to_send := bytes_to_send c - n\<rparr> in
      if bytes_have_send c \<ge> iov_len (m_iv0 c) then
        c\<lparr>m_iv0 := (m_iv0 c)\<lparr>iov_len := 0\<rparr>,
          m_iv1 := \<lparr>iov_base = In_file (bytes_have_send c - m_write_idx c), iov_len = bytes_to_send c\<rparr>\<rparr>
      else
        c\<lparr>m_iv0 := \<lparr>iov_base = In_buf (bytes_have_send c), iov_len = iov_len (m_iv0 c) - bytes_have_send c\<rparr>\<rparr>)"

text \<open>
  The loop of \<open>write\<close> over the answers of \<open>writev\<close>; \<open>None\<close> when it still runs after the
  last of them. The first result says whether the call is over and how.
\<close>

fun write_loop ::
  "writev_ans list \<Rightarrow> http_conn \<Rightarrow> web \<Rightarrow> (bool option \<times> http_conn \<times> web) res"
where
  "write_loop [] c w = Inr (None, c, w)"
| "write_loop (a # as) c w =
     bindr (writev_bytes c) (\<lambda>bs.
     case a of
       W_again \<Rightarrow> Inr (Some True, c, modfd (m_sockfd c) EV_OUT w)
     | W_error \<Rightarrow> Inr (Some False, unmap c, w)
     | W_took k \<Rightarrow>
         let n = min k (length bs);
             w = w\<lparr>wb_sent := (wb_sent w)(m_sockfd c := wb_sent w (m_sockfd c) @ take n bs)\<rparr>;
             c = advance_iov (int n) c in
         if bytes_to_send c \<le> 0 then
           let c = unmap c;
               w = modfd (m_sockfd c) EV_IN w in
           if m_linger c then Inr (Some True, http_init0 c, w) else Inr (Some False, c, w)
         else write_loop as c w)"

definition http_write :: "writev_ans list \<Rightarrow> http_conn \<Rightarrow> web \<Rightarrow> (bool option \<times> http_conn \<times> web) res" where
  "http_write as c w =
     (if bytes_to_send c = 0 then Inr (Some True, http_init0 c, modfd (m_sockfd c) EV_IN w)
      else write_loop as c w)"

end
