(* ===== verification/V3_HttpSafe.thy ===== *)
theory V3_HttpSafe
  imports V3_HttpRead
begin

section \<open>version\_03: the parsers stay in the line\<close>

text \<open>
  A line that \<open>parse_line\<close> has cut ends with two NULs. The parser of the request line reads
  and writes nothing behind them: not when it cuts the line into its parts, and not when it
  appends \<open>judge.html\<close> to a lone slash, which just fits over the version and the two NULs.
\<close>

subsection \<open>No access outside an array\<close>

definition safe :: "'a res \<Rightarrow> ('a \<Rightarrow> bool) \<Rightarrow> bool" where
  "safe m P = (case m of Inl e \<Rightarrow> e \<noteq> OutOfBounds | Inr x \<Rightarrow> P x)"

lemma safe_simps [simp]: "safe (Inl e) P \<longleftrightarrow> e \<noteq> OutOfBounds" "safe (Inr x) P = P x"
  by (simp_all add: safe_def)

lemma safe_bindr: "safe m Q \<Longrightarrow> (\<And>x. m = Inr x \<Longrightarrow> Q x \<Longrightarrow> safe (f x) P) \<Longrightarrow> safe (bindr m f) P"
  by (cases m) auto

lemma safe_if: "(b \<Longrightarrow> safe m P) \<Longrightarrow> (\<not> b \<Longrightarrow> safe n P) \<Longrightarrow> safe (if b then m else n) P"
  by simp

lemma safe_mono: "safe m P \<Longrightarrow> (\<And>x. m = Inr x \<Longrightarrow> P x \<Longrightarrow> Q x) \<Longrightarrow> safe m Q"
  by (cases m) auto

lemma safe_post: "safe m P \<Longrightarrow> post m P"
  by (cases m) auto

text \<open>\<open>holds b p s\<close>: the string \<open>s\<close> stands at index \<open>p\<close> of \<open>b\<close>, and a byte follows its NUL.\<close>

definition holds :: "char list \<Rightarrow> nat \<Rightarrow> string \<Rightarrow> bool" where
  "holds b p s = (nul_free s \<and> p + length s + 2 \<le> length b \<and> take (length s + 1) (drop p b) = s @ [NUL])"

lemma holds_split:
  assumes "holds b p s"
  obtains pre z x where "b = pre @ s @ NUL # x # z" "length pre = p" "nul_free s"
proof -
  have d: "take (length s + 1) (drop p b) = s @ [NUL]" and n: "nul_free s"
    and l: "p + length s + 2 \<le> length b"
    using assms by (auto simp: holds_def)
  have "drop p b = (s @ [NUL]) @ drop (length s + 1) (drop p b)"
    using d by (metis append_take_drop_id)
  moreover obtain x z where "drop (length s + 1) (drop p b) = x # z"
    using l by (cases "drop (length s + 1) (drop p b)") auto
  ultimately have "b = take p b @ s @ NUL # x # z" by (metis append.assoc append_Cons append_Nil append_take_drop_id)
  with that [of "take p b" x z] n l show ?thesis by simp
qed

lemma holdsI: "nul_free s \<Longrightarrow> holds (pre @ s @ NUL # x # z) (length pre) s"
  by (simp add: holds_def)

lemma holds_cstr: "holds b p s \<Longrightarrow> cstr b p = Inr s"
  by (elim holds_split) (auto intro: cstr_held_at)

lemma holds_drop:
  assumes "holds b p s" and "k \<le> length s"
  shows "holds b (p + k) (drop k s)"
proof -
  obtain pre x z where b: "b = pre @ s @ NUL # x # z" "length pre = p" "nul_free s"
    using assms(1) by (rule holds_split)
  have "b = (pre @ take k s) @ drop k s @ NUL # x # z" using b(1) by simp
  moreover have "nul_free (drop k s)" using b(3) nul_free_take_drop [of s k] by simp
  ultimately show ?thesis using holdsI [of "drop k s" "pre @ take k s" x z] b(2) assms(2) by simp
qed

lemma skip_at_holds: "holds b p s \<Longrightarrow> skip_at b p = Inr (p + strspn blanks s)"
  by (simp add: skip_at_def holds_cstr)

lemma cut_at_None: "holds b p s \<Longrightarrow> strpbrk blanks s = None \<Longrightarrow> cut_at b p = Inr None"
  by (simp add: cut_at_def holds_cstr)

lemma cut_at_Some:
  assumes "holds b p s" and "strpbrk blanks s = Some k"
  shows "\<exists>b'. cut_at b p = Inr (Some (b', p + k + 1)) \<and> holds b' p (take k s)
    \<and> holds b' (p + k + 1) (drop (k + 1) s) \<and> length b' = length b
    \<and> take p b' = take p b \<and> drop (p + length s + 1) b' = drop (p + length s + 1) b"
proof -
  obtain pre x z where b: "b = pre @ s @ NUL # x # z" "length pre = p" "nul_free s"
    using assms(1) by (rule holds_split)
  obtain u y v where s: "s = u @ y # v" "length u = k" using strpbrk_Some [OF assms(2)] by blast
  define b' where "b' = pre @ u @ NUL # v @ NUL # x # z"
  have "wr b (int (p + k)) NUL = Inr b'"
    using wr_append_mid [of "pre @ u" y "v @ NUL # x # z" NUL] b s by (simp add: b'_def)
  then have 1: "cut_at b p = Inr (Some (b', p + k + 1))"
    by (simp add: cut_at_def holds_cstr [OF assms(1)] assms(2))
  obtain x' z' where "v @ NUL # x # z = x' # z'" by (cases v) auto
  with holdsI [of u pre x' z'] b s have 2: "holds b' p (take k s)" by (simp add: b'_def)
  from holdsI [of v "pre @ u @ [NUL]" x z] b s
  have 3: "holds b' (p + k + 1) (drop (k + 1) s)" by (simp add: b'_def)
  have "take p b' = take p b" "drop (p + length s + 1) b' = drop (p + length s + 1) b" "length b' = length b"
    using b s by (simp_all add: b'_def)
  with 1 2 3 show ?thesis by blast
qed

lemma strncasecmp_eq_le: "strncasecmp_eq s t (length t) \<Longrightarrow> length t \<le> length s"
  unfolding strncasecmp_eq_def by (drule map_eq_imp_length_eq) simp

lemma strchr_bound: "strchr c s = Some k \<Longrightarrow> k < length s"
  by (induction s arbitrary: k) (auto split: if_splits)

text \<open>At string level: what is left of a target after a scheme and its host.\<close>

definition strip_scheme :: "string \<Rightarrow> string \<Rightarrow> string option" where
  "strip_scheme scheme s =
     (if strncasecmp_eq s scheme (length scheme)
      then map_option (\<lambda>k. drop (length scheme + k) s) (strchr (CHR ''/'') (drop (length scheme) s))
      else Some s)"

lemma skip_scheme_holds:
  assumes "holds b p s"
  shows "\<exists>q. skip_scheme scheme b (Some p) = Inr q
    \<and> (case strip_scheme scheme s of None \<Rightarrow> q = None
       | Some t \<Rightarrow> \<exists>k. q = Some (p + k) \<and> k \<le> length s \<and> t = drop k s)"
proof (cases "strncasecmp_eq s scheme (length scheme)")
  case False
  then show ?thesis by (simp add: skip_scheme_def strip_scheme_def holds_cstr [OF assms] exI [of _ 0])
next
  case True
  from holds_drop [OF assms strncasecmp_eq_le [OF True]]
  have c: "cstr b (p + length scheme) = Inr (drop (length scheme) s)" by (rule holds_cstr)
  show ?thesis
  proof (cases "strchr (CHR ''/'') (drop (length scheme) s)")
    case None
    with True c show ?thesis by (simp add: skip_scheme_def strip_scheme_def holds_cstr [OF assms])
  next
    case (Some k)
    from strchr_bound [OF Some] have "length scheme + k \<le> length s" by simp
    with True c Some show ?thesis
      by (auto simp: skip_scheme_def strip_scheme_def holds_cstr [OF assms] intro!: exI [of _ "length scheme + k"])
  qed
qed

subsection \<open>The request line as a string\<close>

definition split_blank :: "string \<Rightarrow> (string \<times> string) option" where
  "split_blank s = map_option (\<lambda>k. (take k s, drop (k + 1) s)) (strpbrk blanks s)"

definition skip_blanks3 :: "string \<Rightarrow> string" where
  "skip_blanks3 s = drop (strspn blanks s) s"

definition method_of :: "string \<Rightarrow> METHOD option" where
  "method_of m = (if strcasecmp_eq m ''GET'' then Some GET
     else if strcasecmp_eq m ''POST'' then Some POST else None)"

text \<open>
  What a request line means: \<open>Inr None\<close> for a bad one, otherwise the method and the target,
  without scheme and host, with the page that stands for a lone slash. A target that starts
  with \<open>http://\<close> and has no slash behind the host makes the code use a null pointer.
\<close>

definition target_path :: "string \<Rightarrow> string option res" where
  "target_path target =
     (case strip_scheme ''http://'' target of
        None \<Rightarrow> Inl NullDeref
      | Some target \<Rightarrow>
          (case strip_scheme ''https://'' target of
             None \<Rightarrow> Inr None
           | Some path \<Rightarrow>
               if path = [] \<or> hd path \<noteq> CHR ''/'' then Inr None
               else Inr (Some (if length path = 1 then ''/judge.html'' else path))))"

definition request_line_of :: "string \<Rightarrow> (METHOD \<times> string) option res" where
  "request_line_of s =
     (case split_blank s of
        None \<Rightarrow> Inr None
      | Some (m, rest) \<Rightarrow>
          (case method_of m of
             None \<Rightarrow> Inr None
           | Some meth \<Rightarrow>
               (case split_blank (skip_blanks3 rest) of
                  None \<Rightarrow> Inr None
                | Some (target, rest) \<Rightarrow>
                    if \<not> strcasecmp_eq (skip_blanks3 rest) ''HTTP/1.1'' then Inr None
                    else bindr (target_path target) (\<lambda>p. Inr (map_option (Pair meth) p)))))"

text \<open>
  The part of the buffer a line from \<open>i\<close> up to \<open>j\<close> may change, and what may be new up to
  its end.
\<close>

definition judge_text :: string where "judge_text = ''judge.html'' @ [NUL]"

definition only_within :: "nat \<Rightarrow> nat \<Rightarrow> char list \<Rightarrow> char list \<Rightarrow> bool" where
  "only_within i j b b' = (length b' = length b \<and> take i b' = take i b \<and> drop j b' = drop j b
     \<and> set (take j b') \<subseteq> set (take j b) \<union> set judge_text)"

lemma only_within_refl [simp]: "only_within i j b b"
  by (auto simp: only_within_def)

lemma drop_mono_eq: "drop i xs = drop i ys \<Longrightarrow> i \<le> j \<Longrightarrow> drop j xs = drop j ys"
  by (metis drop_drop le_add_diff_inverse2)

lemma take_mono_eq:
  assumes "take i xs = take i ys" and "j \<le> i"
  shows "take j xs = take j ys"
proof -
  have "take j (take i xs) = take j (take i ys)" using assms(1) by (rule arg_cong)
  with assms(2) show ?thesis by (simp add: min_absorb1)
qed

lemma take_split: "j \<le> k \<Longrightarrow> take k xs = take j xs @ take (k - j) (drop j xs)"
  by (metis le_add_diff_inverse take_add)

lemma only_within_mono:
  assumes "only_within i j b b'" and "i' \<le> i" and "j \<le> j'"
  shows "only_within i' j' b b'"
proof -
  have "set (take j' b') \<subseteq> set (take j' b) \<union> set judge_text"
    using assms(1) unfolding take_split [OF assms(3)] by (auto simp: only_within_def)
  with assms show ?thesis
    unfolding only_within_def by (auto elim: drop_mono_eq take_mono_eq)
qed

lemma wrs_within:
  assumes "wrs b i s = Inr b'" and "set s \<subseteq> set judge_text"
  shows "only_within i (i + length s) b b'"
proof -
  have b': "b' = take i b @ s @ drop (i + length s) b" "i + length s \<le> length b"
    using assms(1) by (auto simp: wrs_def split: if_splits)
  then have "take (i + length s) b' = take i b @ s" by simp
  moreover have "set (take i b) \<subseteq> set (take (i + length s) b)"
    by (rule set_take_subset_set_take) simp
  ultimately have "set (take (i + length s) b') \<subseteq> set (take (i + length s) b) \<union> set judge_text"
    using assms(2) by auto
  with b' show ?thesis by (simp add: only_within_def)
qed

lemma only_within_trans: "only_within i j a b \<Longrightarrow> only_within i j b c \<Longrightarrow> only_within i j a c"
  unfolding only_within_def by (elim conjE) (intro conjI; (simp; fail)?; blast)

lemma cut_at_within:
  assumes "holds b p s" and "strpbrk blanks s = Some k"
  obtains b' where "cut_at b p = Inr (Some (b', p + k + 1))" "holds b' p (take k s)"
    "holds b' (p + k + 1) (drop (k + 1) s)" "only_within p (p + length s + 1) b b'"
proof -
  obtain b' where b': "cut_at b p = Inr (Some (b', p + k + 1))" "holds b' p (take k s)"
    "holds b' (p + k + 1) (drop (k + 1) s)" "length b' = length b" "take p b' = take p b"
    "drop (p + length s + 1) b' = drop (p + length s + 1) b"
    using cut_at_Some [OF assms] by blast
  from b'(1) have "b' = b[p + k := NUL]"
    by (auto simp: cut_at_def bindr_eq_Inr wr_nat simp flip: of_nat_add split: option.splits if_splits)
  then have "set (take (p + length s + 1) b') \<subseteq> insert NUL (set (take (p + length s + 1) b))"
    by (simp add: take_update_swap set_update_subset_insert)
  also have "insert NUL (set (take (p + length s + 1) b)) \<subseteq> set (take (p + length s + 1) b) \<union> set judge_text"
    by (simp add: judge_text_def subset_insertI2)
  finally have "only_within p (p + length s + 1) b b'"
    using b'(4-6) unfolding only_within_def by (intro conjI)
  with b' that show ?thesis by blast
qed

lemma judge_page:
  assumes "holds b p ''/''" and "p + 12 \<le> length b"
  shows "\<exists>b'. wrs b (p + 1) (''judge.html'' @ [NUL]) = Inr b' \<and> cstr b' p = Inr ''/judge.html''
    \<and> only_within (p + 1) (p + 12) b b'"
proof -
  obtain pre x z where b: "b = pre @ ''/'' @ NUL # x # z" "length pre = p"
    using assms(1) by (rule holds_split)
  define b' where "b' = pre @ ''/judge.html'' @ NUL # drop (p + 12) b"
  have t: "take (p + 1) b = pre @ ''/''" using b by simp
  have l: "p + 1 + length (''judge.html'' @ [NUL]) = p + 12" by simp
  have "wrs b (p + 1) (''judge.html'' @ [NUL]) = Inr (take (p + 1) b @ (''judge.html'' @ [NUL]) @ drop (p + 12) b)"
    using assms(2) unfolding wrs_def l by simp
  also have "take (p + 1) b @ (''judge.html'' @ [NUL]) @ drop (p + 12) b = b'"
    unfolding t b'_def by simp
  finally have w: "wrs b (p + 1) (''judge.html'' @ [NUL]) = Inr b'" .
  moreover have "cstr b' p = Inr ''/judge.html''"
    using cstr_held_at [of "''/judge.html''" pre] b(2) by (simp add: b'_def)
  moreover from wrs_within [OF w] have "only_within (p + 1) (p + 12) b b'"
    unfolding l by (simp add: judge_text_def)
  ultimately show ?thesis by blast
qed

definition target_step :: "http_conn \<Rightarrow> http_conn \<Rightarrow> bool" where
  "target_step c c' = (c' = c\<lparr>m_read_buf := m_read_buf c', m_url := m_url c', m_check_state := m_check_state c'\<rparr>)"

lemma target_step_fields:
  assumes "target_step c c'"
  shows "m_method c' = m_method c" and "cgi c' = cgi c"
  using arg_cong [OF assms [unfolded target_step_def], of m_method]
    arg_cong [OF assms [unfolded target_step_def], of cgi] by simp_all

text \<open>\<open>v\<close> is where the version stands, at least two behind the start of the target's end.\<close>

lemma take_target_spec:
  assumes "holds (m_read_buf c) p s" and "m_url c = Some p"
    and "p + length s + 1 \<le> v" and "v + 10 \<le> j" and "j \<le> length (m_read_buf c)"
  shows "case target_path s of
      Inl e \<Rightarrow> take_target c = Inl e
    | Inr None \<Rightarrow> \<exists>c'. take_target c = Inr (BAD_REQUEST, c') \<and> target_step c c'
        \<and> m_read_buf c' = m_read_buf c
    | Inr (Some path) \<Rightarrow> \<exists>c' q. take_target c = Inr (NO_REQUEST, c') \<and> target_step c c'
        \<and> only_within p j (m_read_buf c) (m_read_buf c') \<and> m_check_state c' = CHECK_STATE_HEADER
        \<and> m_url c' = Some q \<and> cstr (m_read_buf c') q = Inr path \<and> p \<le> q \<and> q + length path < j"
proof -
  let ?b = "m_read_buf c"
  obtain q1 where q1: "skip_scheme ''http://'' ?b (Some p) = Inr q1"
    "case strip_scheme ''http://'' s of None \<Rightarrow> q1 = None
     | Some t \<Rightarrow> \<exists>k. q1 = Some (p + k) \<and> k \<le> length s \<and> t = drop k s"
    using skip_scheme_holds [OF assms(1)] by blast
  show ?thesis
  proof (cases "strip_scheme ''http://'' s")
    case None
    then show ?thesis using q1 assms(2) by (simp add: target_path_def take_target_def skip_scheme_def)
  next
    case (Some t)
    then obtain k where k: "q1 = Some (p + k)" "k \<le> length s" "t = drop k s" using q1(2) by auto
    have ht: "holds ?b (p + k) t" using holds_drop [OF assms(1) k(2)] k(3) by simp
    obtain q2 where q2: "skip_scheme ''https://'' ?b (Some (p + k)) = Inr q2"
      "case strip_scheme ''https://'' t of None \<Rightarrow> q2 = None
       | Some u \<Rightarrow> \<exists>i. q2 = Some (p + k + i) \<and> i \<le> length t \<and> u = drop i t"
      using skip_scheme_holds [OF ht] by blast
    show ?thesis
    proof (cases "strip_scheme ''https://'' t")
      case None
      then have "take_target c = Inr (BAD_REQUEST, c\<lparr>m_url := None\<rparr>)"
        using q1(1) q2 k(1) assms(2) by (simp add: take_target_def)
      then show ?thesis using Some None by (simp add: target_path_def target_step_def)
    next
      case u: (Some u)
      then obtain i where i: "q2 = Some (p + k + i)" "i \<le> length t" "u = drop i t" using q2(2) by auto
      let ?q = "p + k + i"
      have hu: "holds ?b ?q u" using holds_drop [OF ht i(2)] i(3) by simp
      show ?thesis
      proof (cases "u = [] \<or> hd u \<noteq> CHR ''/''")
        case True
        then have "take_target c = Inr (BAD_REQUEST, c\<lparr>m_url := Some ?q\<rparr>)"
          using q1(1) q2(1) k(1) i(1) assms(2) holds_cstr [OF hu] by (simp add: take_target_def)
        then show ?thesis using Some u True by (simp add: target_path_def target_step_def)
      next
        case False
        have tp: "target_path s = Inr (Some (if length u = 1 then ''/judge.html'' else u))"
          using Some u False by (simp add: target_path_def)
        have ex: "\<exists>b'. (if length u = 1 then wrs ?b (?q + 1) (''judge.html'' @ [NUL]) else Inr ?b) = Inr b'
          \<and> cstr b' ?q = Inr (if length u = 1 then ''/judge.html'' else u) \<and> only_within p j ?b b'
          \<and> ?q + length (if length u = 1 then ''/judge.html'' else u) < j"
        proof (cases "length u = 1")
          case True
          with False have "u = ''/''" by (cases u) auto
          moreover have "length s = k + i + 1" using True k(3) i(3) by simp
          ultimately have q: "holds ?b ?q ''/''" "?q + 12 \<le> j" "?q + 12 \<le> length ?b"
            using hu assms(3-5) by simp_all
          obtain b' where "wrs ?b (?q + 1) (''judge.html'' @ [NUL]) = Inr b'"
            "cstr b' ?q = Inr ''/judge.html''" "only_within p j ?b b'"
            using judge_page [OF q(1,3)] q(2) only_within_mono [of "?q + 1" "?q + 12" ?b _ p j] by auto
          then show ?thesis using True q(2) by simp
        next
          case False
          then show ?thesis using holds_cstr [OF hu] assms(3,4) k i by simp
        qed
        then obtain b' where b': "(if length u = 1 then wrs ?b (?q + 1) (''judge.html'' @ [NUL]) else Inr ?b) = Inr b'"
          "cstr b' ?q = Inr (if length u = 1 then ''/judge.html'' else u)" "only_within p j ?b b'"
          "?q + length (if length u = 1 then ''/judge.html'' else u) < j" by blast
        define c' where "c' = c\<lparr>m_url := Some ?q, m_read_buf := b', m_check_state := CHECK_STATE_HEADER\<rparr>"
        have "take_target c = Inr (NO_REQUEST, c')"
          using q1(1) q2(1) k(1) i(1) assms(2) holds_cstr [OF hu] False b'(1)
          by (cases "length u = 1") (simp_all add: take_target_def c'_def)
        moreover have "target_step c c'" "m_check_state c' = CHECK_STATE_HEADER" "m_url c' = Some ?q"
          "m_read_buf c' = b'" by (simp_all add: c'_def target_step_def)
        ultimately show ?thesis using b' unfolding tp sum.case option.case
          by (intro exI [of _ c'] exI [of _ ?q]) simp
      qed
    qed
  qed
qed

subsection \<open>The parser of the request line\<close>

definition line_parsed :: "http_conn \<Rightarrow> http_conn \<Rightarrow> bool" where
  "line_parsed c c' = (c' = c\<lparr>m_read_buf := m_read_buf c', m_url := m_url c', m_version := m_version c',
     m_method := m_method c', cgi := cgi c', m_check_state := m_check_state c'\<rparr>)"

lemma line_parsed_simps [simp]:
  "line_parsed c c"
  "line_parsed c (c'\<lparr>m_read_buf := b\<rparr>) = line_parsed c c'"
  "line_parsed c (c'\<lparr>m_url := u\<rparr>) = line_parsed c c'"
  "line_parsed c (c'\<lparr>m_version := u\<rparr>) = line_parsed c c'"
  "line_parsed c (c'\<lparr>m_method := m\<rparr>) = line_parsed c c'"
  "line_parsed c (c'\<lparr>cgi := i\<rparr>) = line_parsed c c'"
  "line_parsed c (c'\<lparr>m_check_state := st\<rparr>) = line_parsed c c'"
  unfolding line_parsed_def by (cases c; cases c'; simp)+

lemma line_parsed_target: "line_parsed c d \<Longrightarrow> target_step d c' \<Longrightarrow> line_parsed c c'"
  unfolding line_parsed_def target_step_def by (cases c; cases d; cases c'; simp)

lemma take_method_spec:
  "take_method m c = (case method_of m of None \<Rightarrow> None
     | Some meth \<Rightarrow> Some (c\<lparr>m_method := meth, cgi := if meth = POST then 1 else cgi c\<rparr>))"
  by (simp add: take_method_def method_of_def)

text \<open>What the theorem below says of a result of the parser, given what the line means.\<close>

definition line_answered ::
  "nat \<Rightarrow> nat \<Rightarrow> http_conn \<Rightarrow> (HTTP_CODE \<times> http_conn) res \<Rightarrow> (METHOD \<times> string) option res \<Rightarrow> bool"
where
  "line_answered t j c r meaning =
     (case meaning of
        Inl e \<Rightarrow> e = NullDeref \<and> r = Inl NullDeref
      | Inr None \<Rightarrow> \<exists>c'. r = Inr (BAD_REQUEST, c') \<and> line_parsed c c'
          \<and> only_within t j (m_read_buf c) (m_read_buf c')
      | Inr (Some (m, target)) \<Rightarrow> \<exists>c' q. r = Inr (NO_REQUEST, c') \<and> line_parsed c c'
          \<and> only_within t j (m_read_buf c) (m_read_buf c')
          \<and> m_check_state c' = CHECK_STATE_HEADER \<and> m_method c' = m
          \<and> cgi c' = (if m = POST then 1 else cgi c)
          \<and> m_url c' = Some q \<and> cstr (m_read_buf c') q = Inr target \<and> t \<le> q \<and> q + length target < j)"

text \<open>\<open>d\<close> is \<open>c\<close> after the method \<open>meth\<close> has been taken from its line.\<close>

definition cut_so_far :: "nat \<Rightarrow> nat \<Rightarrow> http_conn \<Rightarrow> METHOD \<Rightarrow> http_conn \<Rightarrow> bool" where
  "cut_so_far t j c meth d =
     (line_parsed c d \<and> only_within t j (m_read_buf c) (m_read_buf d)
      \<and> m_method d = meth \<and> cgi d = (if meth = POST then 1 else cgi c))"

lemma cut_so_far_bad: "cut_so_far t j c meth d \<Longrightarrow> line_answered t j c (Inr (BAD_REQUEST, d)) (Inr None)"
  by (simp add: cut_so_far_def line_answered_def)

lemma cut_so_far_upd [simp]:
  "cut_so_far t j c meth (d\<lparr>m_url := x\<rparr>) = cut_so_far t j c meth d"
  "cut_so_far t j c meth (d\<lparr>m_version := x\<rparr>) = cut_so_far t j c meth d"
  by (simp_all add: cut_so_far_def)

lemma cut_so_far_buf:
  "cut_so_far t j c meth d \<Longrightarrow> only_within t j (m_read_buf d) b \<Longrightarrow> cut_so_far t j c meth (d\<lparr>m_read_buf := b\<rparr>)"
  by (auto simp: cut_so_far_def elim: only_within_trans)

lemma answered_target:
  assumes "cut_so_far t j c meth d" and "holds (m_read_buf d) u tg" and "m_url d = Some u" and "t \<le> u"
    and "u + length tg + 1 \<le> v" and "v + 10 \<le> j" and "j \<le> length (m_read_buf d)"
  shows "line_answered t j c (take_target d) (bindr (target_path tg) (\<lambda>p. Inr (map_option (Pair meth) p)))"
proof -
  note spec = take_target_spec [OF assms(2,3,5-7)]
  have lp: "line_parsed c d" and w: "only_within t j (m_read_buf c) (m_read_buf d)"
    using assms(1) by (simp_all add: cut_so_far_def)
  show ?thesis
  proof (cases "target_path tg")
    case (Inl e)
    moreover have "e = NullDeref" using Inl by (auto simp: target_path_def split: option.splits if_splits)
    ultimately show ?thesis using spec by (simp add: line_answered_def)
  next
    case (Inr o1)
    show ?thesis
    proof (cases o1)
      case None
      then show ?thesis using Inr spec w line_parsed_target [OF lp] by (auto simp: line_answered_def)
    next
      case (Some path)
      obtain c' q where c': "take_target d = Inr (NO_REQUEST, c')" "target_step d c'"
        "only_within u j (m_read_buf d) (m_read_buf c')" "m_check_state c' = CHECK_STATE_HEADER"
        "m_url c' = Some q" "cstr (m_read_buf c') q = Inr path" "u \<le> q" "q + length path < j"
        using spec Inr Some by auto
      have "only_within t j (m_read_buf d) (m_read_buf c')"
        using c'(3) by (rule only_within_mono) (simp_all add: assms(4))
      with w have "only_within t j (m_read_buf c) (m_read_buf c')" by (rule only_within_trans)
      then show ?thesis using c' Inr Some line_parsed_target [OF lp c'(2)] assms(1,4)
        by (simp add: line_answered_def target_step_fields cut_so_far_def)
    qed
  qed
qed

text \<open>From the target on: the rest \<open>r\<close> of the line stands at \<open>u\<close>.\<close>

lemma answered_rest:
  assumes d: "cut_so_far t j c meth d" and hv: "holds (m_read_buf d) u r" and url: "m_url d = Some u"
    and j: "t \<le> u" "u + length r + 2 = j"
  shows "line_answered t j c
    (bindr (cut_at (m_read_buf d) u) (\<lambda>x. case x of
       None \<Rightarrow> Inr (BAD_REQUEST, d\<lparr>m_version := None\<rparr>)
     | Some (b, version) \<Rightarrow>
         bindr (skip_at b version) (\<lambda>version.
         let d = d\<lparr>m_read_buf := b, m_version := Some version\<rparr> in
         bindr (cstr b version) (\<lambda>v.
         if \<not> strcasecmp_eq v ''HTTP/1.1'' then Inr (BAD_REQUEST, d) else take_target d))))
    (case split_blank r of
       None \<Rightarrow> Inr None
     | Some (target, rest) \<Rightarrow>
         if \<not> strcasecmp_eq (skip_blanks3 rest) ''HTTP/1.1'' then Inr None
         else bindr (target_path target) (\<lambda>p. Inr (map_option (Pair meth) p)))"
proof (cases "strpbrk blanks r")
  case None
  then show ?thesis using cut_at_None [OF hv] cut_so_far_bad [of t j c meth "d\<lparr>m_version := None\<rparr>"] d
    by (simp add: split_blank_def)
next
  case (Some i)
  let ?tg = "take i r" and ?w = "drop (i + 1) r"
  have i: "i < length r" using strpbrk_Some [OF Some] by auto
  obtain b where b: "cut_at (m_read_buf d) u = Inr (Some (b, u + i + 1))" "holds b u ?tg"
    "holds b (u + i + 1) ?w" "only_within u (u + length r + 1) (m_read_buf d) b"
    using hv Some by (rule cut_at_within)
  have w: "only_within t j (m_read_buf d) b" using b(4) by (rule only_within_mono) (use j in simp_all)
  define v where "v = u + i + 1 + strspn blanks ?w"
  define d' where "d' = d\<lparr>m_read_buf := b, m_version := Some v\<rparr>"
  have d': "cut_so_far t j c meth d'" unfolding d'_def using cut_so_far_buf [OF d w] by simp
  have hw: "holds b v (skip_blanks3 ?w)"
    using holds_drop [OF b(3) strspn_le] by (simp add: v_def skip_blanks3_def)
  have sv: "skip_at b (u + i + 1) = Inr v" using skip_at_holds [OF b(3)] by (simp add: v_def)
  note simps = Some b(1) b(1) [simplified] sv [simplified] holds_cstr [OF hw] split_blank_def d'_def [symmetric]
  show ?thesis
  proof (cases "strcasecmp_eq (skip_blanks3 ?w) ''HTTP/1.1''")
    case False
    then show ?thesis using cut_so_far_bad [OF d'] by (simp add: simps)
  next
    case True
    then have "length (skip_blanks3 ?w) = 8" by (auto dest: strcasecmp_eq_length)
    moreover have "v + length (skip_blanks3 ?w) + 2 = j"
      using i j(2) strspn_le [of blanks ?w] by (simp add: v_def skip_blanks3_def)
    ultimately have "v + 10 \<le> j" by simp
    moreover have "j \<le> length (m_read_buf d')" "holds (m_read_buf d') u ?tg" "m_url d' = Some u"
      using b(2) w hv url j(2) by (simp_all add: d'_def only_within_def holds_def)
    moreover have "u + length ?tg + 1 \<le> v" using i by (simp add: v_def)
    ultimately have "line_answered t j c (take_target d')
        (bindr (target_path ?tg) (\<lambda>p. Inr (map_option (Pair meth) p)))"
      using d' j(1) by (intro answered_target)
    then show ?thesis using True by (simp add: simps)
  qed
qed

lemma parse_request_line_answered:
  assumes "holds (m_read_buf c) t s"
  shows "line_answered t (t + length s + 2) c (parse_request_line t c) (request_line_of s)"
proof (cases "strpbrk blanks s")
  case None
  then show ?thesis using cut_at_None [OF assms]
    by (simp add: request_line_of_def split_blank_def parse_request_line_def line_answered_def)
next
  case (Some k)
  let ?j = "t + length s + 2" and ?r = "drop (k + 1) s"
  have k: "k < length s" using strpbrk_Some [OF Some] by auto
  obtain b where b: "cut_at (m_read_buf c) t = Inr (Some (b, t + k + 1))" "holds b t (take k s)"
    "holds b (t + k + 1) ?r" "only_within t (t + length s + 1) (m_read_buf c) b"
    using assms Some by (rule cut_at_within)
  have w: "only_within t ?j (m_read_buf c) b" using b(4) by (rule only_within_mono) simp_all
  define c1 where "c1 = c\<lparr>m_read_buf := b, m_url := Some (t + k + 1)\<rparr>"
  note simps = b(1) holds_cstr [OF b(2)] Some request_line_of_def split_blank_def
    parse_request_line_def take_method_spec
  show ?thesis
  proof (cases "method_of (take k s)")
    case None
    then show ?thesis using w by (simp add: simps line_answered_def)
  next
    case meth: (Some meth)
    define u where "u = t + k + 1 + strspn blanks ?r"
    define d where "d = c1\<lparr>m_method := meth, cgi := if meth = POST then 1 else cgi c, m_url := Some u\<rparr>"
    have buf: "m_read_buf d = b" by (simp add: c1_def d_def)
    have "cut_so_far t ?j c meth d" using w by (simp add: cut_so_far_def d_def c1_def)
    moreover have "holds (m_read_buf d) u (skip_blanks3 ?r)"
      using holds_drop [OF b(3) strspn_le] by (simp add: u_def skip_blanks3_def buf)
    moreover have "u + length (skip_blanks3 ?r) + 2 = ?j"
      using k strspn_le [of blanks ?r] by (simp add: u_def skip_blanks3_def)
    moreover have "m_url d = Some u" "t \<le> u" by (simp_all add: d_def u_def)
    ultimately have "line_answered t ?j c
      (bindr (cut_at b u) (\<lambda>x. case x of
         None \<Rightarrow> Inr (BAD_REQUEST, d\<lparr>m_version := None\<rparr>)
       | Some (b, version) \<Rightarrow>
           bindr (skip_at b version) (\<lambda>version.
           let d = d\<lparr>m_read_buf := b, m_version := Some version\<rparr> in
           bindr (cstr b version) (\<lambda>v.
           if \<not> strcasecmp_eq v ''HTTP/1.1'' then Inr (BAD_REQUEST, d) else take_target d))))
      (case split_blank (skip_blanks3 ?r) of
         None \<Rightarrow> Inr None
       | Some (target, rest) \<Rightarrow>
           if \<not> strcasecmp_eq (skip_blanks3 rest) ''HTTP/1.1'' then Inr None
           else bindr (target_path target) (\<lambda>p. Inr (map_option (Pair meth) p)))"
      using answered_rest [of t ?j c meth d u] unfolding buf by blast
    moreover have "request_line_of s = (case split_blank (skip_blanks3 ?r) of
         None \<Rightarrow> Inr None
       | Some (target, rest) \<Rightarrow>
           if \<not> strcasecmp_eq (skip_blanks3 rest) ''HTTP/1.1'' then Inr None
           else bindr (target_path target) (\<lambda>p. Inr (map_option (Pair meth) p)))"
      using meth Some unfolding request_line_of_def split_blank_def [of s] by simp
    moreover have "skip_at b (t + k + 1) = Inr u" using skip_at_holds [OF b(3)] by (simp add: u_def)
    then have "parse_request_line t c = bindr (cut_at b u) (\<lambda>x. case x of
         None \<Rightarrow> Inr (BAD_REQUEST, d\<lparr>m_version := None\<rparr>)
       | Some (b, version) \<Rightarrow>
           bindr (skip_at b version) (\<lambda>version.
           let d = d\<lparr>m_read_buf := b, m_version := Some version\<rparr> in
           bindr (cstr b version) (\<lambda>v.
           if \<not> strcasecmp_eq v ''HTTP/1.1'' then Inr (BAD_REQUEST, d) else take_target d)))"
      using meth by (simp add: simps d_def c1_def Let_def cong: option.case_cong if_cong)
    ultimately show ?thesis by simp
  qed
qed

text \<open>
  C13. On a line \<open>s\<close> that ends with two NULs the parser of the request line does what the
  string function \<open>request_line_of\<close> says: it refuses the line, or finds the method and the
  target and goes on to the headers. It changes nothing of the buffer before the line and
  nothing behind its two NULs, and it only fails on the null pointer for a target like
  \<open>http://host\<close>.
\<close>

theorem parse_request_line_refines:
  assumes "holds (m_read_buf c) t s"
  shows "case request_line_of s of
      Inl e \<Rightarrow> e = NullDeref \<and> parse_request_line t c = Inl NullDeref
    | Inr None \<Rightarrow> \<exists>c'. parse_request_line t c = Inr (BAD_REQUEST, c') \<and> line_parsed c c'
        \<and> only_within t (t + length s + 2) (m_read_buf c) (m_read_buf c')
    | Inr (Some (m, target)) \<Rightarrow> \<exists>c' q. parse_request_line t c = Inr (NO_REQUEST, c') \<and> line_parsed c c'
        \<and> only_within t (t + length s + 2) (m_read_buf c) (m_read_buf c')
        \<and> m_check_state c' = CHECK_STATE_HEADER \<and> m_method c' = m
        \<and> cgi c' = (if m = POST then 1 else cgi c)
        \<and> m_url c' = Some q \<and> cstr (m_read_buf c') q = Inr target
        \<and> t \<le> q \<and> q + length target < t + length s + 2"
  using parse_request_line_answered [OF assms] unfolding line_answered_def .

definition slash_line :: string where "slash_line = ''GET / HTTP/1.1''"

lemma request_line_of_slash: "request_line_of slash_line = Inr (Some (GET, ''/judge.html''))"
  by code_simp

lemma parse_request_line_refines_witness:
  "\<exists>c' q. parse_request_line 0 (idle_conn\<lparr>m_read_buf := slash_line @ NUL # NUL # ''Host: a''\<rparr>) = Inr (NO_REQUEST, c')
     \<and> m_url c' = Some q \<and> cstr (m_read_buf c') q = Inr ''/judge.html''
     \<and> drop (length slash_line + 2) (m_read_buf c') = ''Host: a''"
proof -
  let ?c = "idle_conn\<lparr>m_read_buf := slash_line @ NUL # NUL # ''Host: a''\<rparr>"
  have "nul_free slash_line" by (simp add: slash_line_def)
  then have "holds (m_read_buf ?c) 0 slash_line"
    using holdsI [of slash_line "[]" NUL "''Host: a''"] by simp
  from parse_request_line_refines [OF this] request_line_of_slash obtain c' q where
    "parse_request_line 0 ?c = Inr (NO_REQUEST, c')" "m_url c' = Some q"
    "cstr (m_read_buf c') q = Inr ''/judge.html''"
    "only_within 0 (0 + length slash_line + 2) (m_read_buf ?c) (m_read_buf c')" by auto
  moreover from this(4) have "drop (length slash_line + 2) (m_read_buf c') = ''Host: a''"
    by (simp add: only_within_def)
  ultimately show ?thesis by blast
qed

end
