(* ===== verification/V3_HttpLine.thy ===== *)
theory V3_HttpLine
  imports V3_HttpSafe
begin

section \<open>version\_03: lines with more bytes behind them\<close>

text \<open>
  A step of the parsers that gives a result on the bytes that have arrived gives the same one
  when more bytes stand behind them. \<open>parse_line\<close> finds the same line, or, when it stopped
  for want of bytes, goes on from where it stopped as it would have from the start.
\<close>

subsection \<open>More bytes behind the buffer\<close>

definition more :: "char list \<Rightarrow> int \<Rightarrow> http_conn \<Rightarrow> http_conn" where
  "more y i c = c\<lparr>m_read_buf := m_read_buf c @ y, m_read_idx := i\<rparr>"

lemma more_simps [simp]:
  "m_read_buf (more y i c) = m_read_buf c @ y" "m_read_idx (more y i c) = i"
  "m_checked_idx (more y i c) = m_checked_idx c" "m_start_line (more y i c) = m_start_line c"
  "m_check_state (more y i c) = m_check_state c" "m_url (more y i c) = m_url c"
  "m_content_length (more y i c) = m_content_length c" "cgi (more y i c) = cgi c"
  "m_sockfd (more y i c) = m_sockfd c"
  by (simp_all add: more_def)

lemma more_upd [simp]:
  "(more y i c)\<lparr>m_url := u\<rparr> = more y i (c\<lparr>m_url := u\<rparr>)"
  "(more y i c)\<lparr>m_version := u\<rparr> = more y i (c\<lparr>m_version := u\<rparr>)"
  "(more y i c)\<lparr>m_host := u\<rparr> = more y i (c\<lparr>m_host := u\<rparr>)"
  "(more y i c)\<lparr>m_read_buf := b @ y\<rparr> = more y i (c\<lparr>m_read_buf := b\<rparr>)"
  "(more y i c)\<lparr>m_method := m\<rparr> = more y i (c\<lparr>m_method := m\<rparr>)"
  "(more y i c)\<lparr>cgi := k\<rparr> = more y i (c\<lparr>cgi := k\<rparr>)"
  "(more y i c)\<lparr>m_check_state := st\<rparr> = more y i (c\<lparr>m_check_state := st\<rparr>)"
  "(more y i c)\<lparr>m_linger := l\<rparr> = more y i (c\<lparr>m_linger := l\<rparr>)"
  "(more y i c)\<lparr>m_content_length := k\<rparr> = more y i (c\<lparr>m_content_length := k\<rparr>)"
  "(more y i c)\<lparr>m_start_line := k\<rparr> = more y i (c\<lparr>m_start_line := k\<rparr>)"
  "(more y i c)\<lparr>m_checked_idx := k\<rparr> = more y i (c\<lparr>m_checked_idx := k\<rparr>)"
  by (simp_all add: more_def)

lemma rd_more: "rd b i = Inr x \<Longrightarrow> rd (b @ y) i = Inr x"
  by (auto simp: rd_def nth_append split: if_splits)

lemma wr_more: "wr b i x = Inr b' \<Longrightarrow> wr (b @ y) i x = Inr (b' @ y)"
  by (auto simp: wr_def list_update_append split: if_splits)

lemma wrs_more: "wrs b i s = Inr b' \<Longrightarrow> wrs (b @ y) i s = Inr (b' @ y)"
  by (auto simp: wrs_def split: if_splits)

lemma cstr_more:
  assumes "cstr b p = Inr s"
  shows "cstr (b @ y) p = Inr s"
proof -
  obtain r where r: "drop p b = s @ NUL # r" and l: "p + length s < length b" and n: "nul_free s"
    using cstr_split [OF assms] by blast
  have "drop p (b @ y) = s @ NUL # (r @ y)" using r l by simp
  with n show ?thesis by (auto simp: cstr_def nul_free_def intro: takeWhile_append_hit)
qed

lemma skip_at_more: "skip_at b p = Inr q \<Longrightarrow> skip_at (b @ y) p = Inr q"
  by (auto simp: skip_at_def bindr_eq_Inr dest: cstr_more)

lemma cut_at_more:
  assumes "cut_at b p = Inr r"
  shows "cut_at (b @ y) p = Inr (map_option (\<lambda>(b', q). (b' @ y, q)) r)"
proof -
  have "post (cut_at b p) (\<lambda>r. cut_at (b @ y) p = Inr (map_option (\<lambda>(b', q). (b' @ y, q)) r))"
    unfolding cut_at_def [of b] by (intro post_rules) (simp_all add: cut_at_def [of "b @ y"] cstr_more wr_more)
  with assms show ?thesis by simp
qed

lemma skip_scheme_more: "skip_scheme s b u = Inr q \<Longrightarrow> skip_scheme s (b @ y) u = Inr q"
  by (auto simp: skip_scheme_def bindr_eq_Inr split: option.splits if_splits dest: cstr_more)

lemma take_method_more: "take_method m (more y i c) = map_option (more y i) (take_method m c)"
  by (simp add: take_method_def)

text \<open>A step that gives a result gives the same one with more bytes behind the buffer.\<close>

lemmas more_rules = skip_at_more cut_at_more skip_scheme_more cstr_more wr_more wrs_more

lemma take_target_more:
  "post (take_target c) (\<lambda>(r, d). take_target (more y i c) = Inr (r, more y i d))"
  unfolding take_target_def [of c]
  by (intro post_rules) (auto simp: take_target_def [of "more y i c"] more_rules Let_def split: if_splits)

lemma parse_request_line_more:
  "post (parse_request_line t c) (\<lambda>(r, d). parse_request_line t (more y i c) = Inr (r, more y i d))"
  unfolding parse_request_line_def [of t c]
  by (intro post_rules post_mono [OF take_target_more [of _ y i]])
    (simp_all add: parse_request_line_def [of t "more y i c"] more_rules take_method_more Let_def)

lemma parse_headers_more:
  "post (parse_headers e t c w) (\<lambda>(r, d, w'). parse_headers e t (more y i c) w = Inr (r, more y i d, w'))"
  unfolding parse_headers_def [of e t c]
  by (intro post_rules) (simp_all add: parse_headers_def [of e t "more y i c"] more_rules)

subsection \<open>Lines\<close>

text \<open>
  A connection whose buffer is cut behind the bytes read so far, with no line end left in
  what has been checked.
\<close>

definition tight :: "http_conn \<Rightarrow> bool" where
  "tight c = (0 \<le> m_start_line c \<and> m_start_line c \<le> m_checked_idx c \<and> m_checked_idx c \<le> m_read_idx c
     \<and> int (length (m_read_buf c)) = m_read_idx c
     \<and> CR \<notin> set (take (nat (m_checked_idx c)) (m_read_buf c))
     \<and> LF \<notin> set (take (nat (m_checked_idx c)) (m_read_buf c)))"

text \<open>What a run of \<open>parse_line\<close> gives, in the buffer as it was.\<close>

definition line_found :: "http_conn \<Rightarrow> LINE_STATUS \<Rightarrow> http_conn \<Rightarrow> bool" where
  "line_found c st d =
     (\<exists>i. d = (if st = LINE_OK
               then c\<lparr>m_read_buf := (m_read_buf c)[i := NUL, Suc i := NUL], m_checked_idx := int i + 2\<rparr>
               else c\<lparr>m_checked_idx := int i\<rparr>)
       \<and> nat (m_checked_idx c) \<le> i \<and> i \<le> length (m_read_buf c)
       \<and> CR \<notin> set (take i (m_read_buf c)) \<and> LF \<notin> set (take i (m_read_buf c))
       \<and> (st = LINE_OK \<longrightarrow> Suc i < length (m_read_buf c) \<and> m_read_buf c ! i = CR \<and> m_read_buf c ! Suc i = LF))"

lemma take_Suc_notin:
  "i < length b \<Longrightarrow> x \<notin> set (take i b) \<Longrightarrow> b ! i \<noteq> x \<Longrightarrow> x \<notin> set (take (Suc i) b)"
  by (simp add: take_Suc_conv_app_nth)

lemma parse_line_plain:
  "m_checked_idx c < m_read_idx c \<Longrightarrow> rd (m_read_buf c) (m_checked_idx c) = Inr x \<Longrightarrow> x \<noteq> CR \<Longrightarrow> x \<noteq> LF
    \<Longrightarrow> parse_line c = parse_line (c\<lparr>m_checked_idx := m_checked_idx c + 1\<rparr>)"
  by (subst parse_line.simps) simp

lemma parse_line_crlf:
  "m_checked_idx c + 1 < m_read_idx c \<Longrightarrow> rd (m_read_buf c) (m_checked_idx c) = Inr CR
    \<Longrightarrow> rd (m_read_buf c) (m_checked_idx c + 1) = Inr LF
    \<Longrightarrow> parse_line c = bindr (wr (m_read_buf c) (m_checked_idx c) NUL) (\<lambda>b.
          bindr (wr b (m_checked_idx c + 1) NUL) (\<lambda>b.
          Inr (LINE_OK, c\<lparr>m_read_buf := b, m_checked_idx := m_checked_idx c + 2\<rparr>)))"
  by (subst parse_line.simps) simp

lemma parse_line_cr_bad:
  "m_checked_idx c + 1 < m_read_idx c \<Longrightarrow> rd (m_read_buf c) (m_checked_idx c) = Inr CR
    \<Longrightarrow> rd (m_read_buf c) (m_checked_idx c + 1) = Inr x \<Longrightarrow> x \<noteq> LF \<Longrightarrow> parse_line c = Inr (LINE_BAD, c)"
  by (subst parse_line.simps) simp

lemma parse_line_lf_bad:
  "m_checked_idx c < m_read_idx c \<Longrightarrow> rd (m_read_buf c) (m_checked_idx c) = Inr LF
    \<Longrightarrow> 1 < m_checked_idx c \<longrightarrow> (\<exists>x. rd (m_read_buf c) (m_checked_idx c - 1) = Inr x \<and> x \<noteq> CR)
    \<Longrightarrow> parse_line c = Inr (LINE_BAD, c)"
  by (subst parse_line.simps) auto

lemma parse_line_open:
  "m_checked_idx c = m_read_idx c
    \<or> m_checked_idx c + 1 = m_read_idx c \<and> rd (m_read_buf c) (m_checked_idx c) = Inr CR
    \<Longrightarrow> parse_line c = Inr (LINE_OPEN, c)"
  by (subst parse_line.simps) auto

text \<open>The cases of one step on a tight connection.\<close>

lemma tight_step:
  assumes "tight c"
  obtains (at_end) "m_checked_idx c = m_read_idx c
      \<or> m_checked_idx c + 1 = m_read_idx c \<and> rd (m_read_buf c) (m_checked_idx c) = Inr CR"
    | (crlf) "m_checked_idx c + 1 < m_read_idx c" "rd (m_read_buf c) (m_checked_idx c) = Inr CR"
        "rd (m_read_buf c) (m_checked_idx c + 1) = Inr LF"
    | (cr_bad) x where "m_checked_idx c + 1 < m_read_idx c" "rd (m_read_buf c) (m_checked_idx c) = Inr CR"
        "rd (m_read_buf c) (m_checked_idx c + 1) = Inr x" "x \<noteq> LF"
    | (lf_bad) "m_checked_idx c < m_read_idx c" "rd (m_read_buf c) (m_checked_idx c) = Inr LF"
        "1 < m_checked_idx c \<longrightarrow> (\<exists>x. rd (m_read_buf c) (m_checked_idx c - 1) = Inr x \<and> x \<noteq> CR)"
    | (plain) x where "m_checked_idx c < m_read_idx c" "rd (m_read_buf c) (m_checked_idx c) = Inr x"
        "x \<noteq> CR" "x \<noteq> LF" "tight (c\<lparr>m_checked_idx := m_checked_idx c + 1\<rparr>)"
proof -
  let ?b = "m_read_buf c"
  obtain i where i: "m_checked_idx c = int i" "m_read_idx c = int (length ?b)" "i \<le> length ?b"
    "CR \<notin> set (take i ?b)" "LF \<notin> set (take i ?b)"
    using assms by (auto simp: tight_def intro!: that [of "nat (m_checked_idx c)"])
  show thesis
  proof (cases "i < length ?b")
    case False
    then show ?thesis using i that(1) by simp
  next
    case True
    then have rd: "rd ?b (int i) = Inr (?b ! i)" by (simp add: rd_nat)
    consider "?b ! i = CR" "Suc i = length ?b" | "?b ! i = CR" "Suc i < length ?b" | "?b ! i = LF"
      | "?b ! i \<noteq> CR" "?b ! i \<noteq> LF" using True by linarith
    then show ?thesis
    proof cases
      case 1
      then show ?thesis using i rd that(1) by simp
    next
      case 2
      then have "rd ?b (int i + 1) = Inr (?b ! Suc i)" using rd_nat [of ?b "Suc i"] by (simp add: add.commute)
      with 2 show ?thesis using i rd that(2,3) by (cases "?b ! Suc i = LF") simp_all
    next
      case 3
      have "?b ! (i - 1) \<noteq> CR" if "0 < i" using i(3,4) that by (auto simp: in_set_conv_nth)
      with 3 show ?thesis using i rd True rd_nat [of ?b "i - 1"] by (intro that(4)) (auto simp: of_nat_diff)
    next
      case 4
      then have "tight (c\<lparr>m_checked_idx := m_checked_idx c + 1\<rparr>)"
        using assms i True take_Suc_notin [OF True] by (simp add: tight_def nat_add_distrib)
      with 4 show ?thesis using i rd True by (intro that(5)) simp_all
    qed
  qed
qed

lemma parse_line_tight:
  "tight c \<Longrightarrow> \<exists>st d. parse_line c = Inr (st, d) \<and> line_found c st d"
proof (induction c rule: parse_line.induct)
  case (1 c)
  define i where "i = nat (m_checked_idx c)"
  let ?b = "m_read_buf c"
  have t: "m_checked_idx c = int i" "m_read_idx c = int (length ?b)" "i \<le> length ?b"
    "CR \<notin> set (take i ?b)" "LF \<notin> set (take i ?b)"
    using "1.prems" by (auto simp: tight_def i_def)
  have stop: "line_found c st c" if "st \<noteq> LINE_OK" for st
  proof -
    have "c = c\<lparr>m_checked_idx := int i\<rparr>" using t(1) by (cases c) simp
    with t that show ?thesis unfolding line_found_def by (intro exI [of _ i]) simp
  qed
  from "1.prems" show ?case
  proof (cases rule: tight_step)
    case at_end
    then show ?thesis using parse_line_open [of c] stop by blast
  next
    case crlf
    then have l: "Suc i < length ?b" "?b ! i = CR" "?b ! Suc i = LF"
      using t rd_nat [of ?b i] rd_nat [of ?b "Suc i"] by (simp_all add: add.commute)
    then have "parse_line c = Inr (LINE_OK, c\<lparr>m_read_buf := ?b[i := NUL, Suc i := NUL], m_checked_idx := int i + 2\<rparr>)"
      using parse_line_crlf [OF crlf] t wr_nat [of ?b i NUL] wr_nat [of "?b[i := NUL]" "Suc i" NUL]
      by (simp add: add.commute)
    moreover have "line_found c LINE_OK (c\<lparr>m_read_buf := ?b[i := NUL, Suc i := NUL], m_checked_idx := int i + 2\<rparr>)"
      using t l unfolding line_found_def by (intro exI [of _ i]) simp
    ultimately show ?thesis by blast
  next
    case (cr_bad x)
    then show ?thesis using parse_line_cr_bad [of c x] stop by blast
  next
    case lf_bad
    then show ?thesis using parse_line_lf_bad [of c] stop by blast
  next
    case (plain x)
    let ?c = "c\<lparr>m_checked_idx := m_checked_idx c + 1\<rparr>"
    obtain st d where "parse_line ?c = Inr (st, d)" "line_found ?c st d"
      using "1.IH" [OF plain] by blast
    moreover have "line_found c st d" if "line_found ?c st d"
      using that t(1) unfolding line_found_def by auto
    ultimately show ?thesis using parse_line_plain [OF plain(1-4)] by metis
  qed
qed

text \<open>
  With more bytes behind, a finished line is the same line; a run that stopped goes on, from
  where it stopped, as it would have from the start.
\<close>

lemma parse_line_more:
  "tight c \<Longrightarrow> m_read_idx c \<le> j \<Longrightarrow> parse_line c = Inr (st, d) \<Longrightarrow>
    (if st = LINE_OK then parse_line (more y j c) = Inr (LINE_OK, more y j d)
     else parse_line (more y j d) = parse_line (more y j c)
       \<and> parse_line (more y (m_read_idx c) c) = Inr (st, more y (m_read_idx c) d))"
proof (induction c rule: parse_line.induct)
  case (1 c)
  note more = rd_more [of "m_read_buf c" _ _ y]
  from "1.prems"(1) show ?case
  proof (cases rule: tight_step)
    case at_end
    then have "parse_line (more y (m_read_idx c) c) = Inr (LINE_OPEN, more y (m_read_idx c) c)"
      by (intro parse_line_open) (auto simp: more)
    with at_end show ?thesis using parse_line_open [of c] "1.prems"(3) by auto
  next
    case crlf
    from "1.prems"(3) [unfolded parse_line_crlf [OF crlf]] obtain b1 b2 where
      w: "wr (m_read_buf c) (m_checked_idx c) NUL = Inr b1" "wr b1 (m_checked_idx c + 1) NUL = Inr b2"
      and d: "st = LINE_OK" "d = c\<lparr>m_read_buf := b2, m_checked_idx := m_checked_idx c + 2\<rparr>"
      by (elim bindr_InrE) simp
    have "parse_line (more y j c) = Inr (LINE_OK, more y j d)"
      using parse_line_crlf [of "more y j c"] crlf w "1.prems"(2) by (simp add: more wr_more d)
    with d(1) show ?thesis by simp
  next
    case (cr_bad x)
    then have "parse_line (more y (m_read_idx c) c) = Inr (LINE_BAD, more y (m_read_idx c) c)"
      by (intro parse_line_cr_bad) (auto simp: more)
    with cr_bad show ?thesis using parse_line_cr_bad [of c x] "1.prems"(3) by auto
  next
    case lf_bad
    then have "parse_line (more y (m_read_idx c) c) = Inr (LINE_BAD, more y (m_read_idx c) c)"
      by (intro parse_line_lf_bad) (auto simp: more)
    with lf_bad show ?thesis using parse_line_lf_bad [of c] "1.prems"(3) by auto
  next
    case (plain x)
    let ?c = "c\<lparr>m_checked_idx := m_checked_idx c + 1\<rparr>"
    have step: "parse_line (more y k c) = parse_line (more y k ?c)" if "m_read_idx c \<le> k" for k
      using parse_line_plain [of "more y k c" x] plain that by (simp add: more)
    have "parse_line ?c = Inr (st, d)" using parse_line_plain [OF plain(1-4)] "1.prems"(3) by simp
    with "1.IH" [OF plain] "1.prems"(2) step [of j] step [of "m_read_idx c"] show ?thesis
      by (cases "st = LINE_OK") simp_all
  qed
qed

end
