(* ===== verification/V3_HttpHeader.thy ===== *)
theory V3_HttpHeader
  imports V3_HttpLine V3_LogSpec
begin

section \<open>version\_03: a header read line by line\<close>

text \<open>
  How the loop of \<open>process_read\<close> goes through the lines of a well-formed header: the log
  lines it writes, what each header changes, and where it stops.
\<close>

subsection \<open>A log that takes the next lines\<close>

text \<open>The next \<open>k\<close> lines go to the file of today, in the synchronous log the server uses.\<close>

definition log_ready :: "env \<Rightarrow> web \<Rightarrow> nat \<Rightarrow> bool" where
  "log_ready e w k =
     (let lg = wb_log w in
      lg_ok lg \<and> \<not> lg_is_async lg \<and> lg_fp lg \<noteq> None \<and> lg_log_buf_size lg = 2000
      \<and> 0 \<le> lg_count lg \<and> lg_count lg + int k < lg_max_lines lg
      \<and> (\<forall>i. real_time (en_now e i) \<and> tm_mday (en_now e i) = lg_today lg))"

definition same_but_log :: "web \<Rightarrow> web \<Rightarrow> bool" where
  "same_but_log w w' = (w' = w\<lparr>wb_log := wb_log w', wb_clock := wb_clock w'\<rparr>)"

lemma same_but_log_refl [simp]: "same_but_log w w"
  by (simp add: same_but_log_def)

lemma same_but_log_trans: "same_but_log a b \<Longrightarrow> same_but_log b c \<Longrightarrow> same_but_log a c"
  unfolding same_but_log_def by (cases a; cases b; cases c; simp)

lemma same_but_log_simps:
  assumes "same_but_log w w'"
  shows "users w' = users w" "wb_interest w' = wb_interest w" "wb_flags w' = wb_flags w"
    "wb_sent w' = wb_sent w" "m_user_count w' = m_user_count w" "m_lock w' = m_lock w"
    "wb_queries w' = wb_queries w"
  using assms unfolding same_but_log_def by (cases w; cases w'; simp)+

lemma log_ready_mono: "log_ready e w k \<Longrightarrow> j \<le> k \<Longrightarrow> log_ready e w j"
  by (auto simp: log_ready_def Let_def)

lemma write_log_now_ok:
  assumes "log_ready e w (Suc k)" and "nul_free msg" and "length msg \<le> 1962"
  shows "\<exists>w'. write_log_now e level msg w = Inr w' \<and> log_ready e w' k \<and> same_but_log w w' \<and> lg_ok (wb_log w')"
proof -
  let ?lg = "wb_log w" and ?now = "en_now e (wb_clock w)"
  have r: "lg_ok ?lg" "\<not> lg_is_async ?lg" "lg_log_buf_size ?lg = 2000" "0 \<le> lg_count ?lg"
    "lg_count ?lg + int (Suc k) < lg_max_lines ?lg" "real_time ?now" "lg_today ?lg = tm_mday ?now"
    using assms(1) by (auto simp: log_ready_def Let_def)
  obtain f where f: "lg_fp ?lg = Some f" using assms(1) by (auto simp: log_ready_def Let_def)
  have m: "(lg_count ?lg + 1) mod lg_max_lines ?lg \<noteq> 0" using r(4,5) by (intro mod_below) auto
  have cf: "call_fits (lg_log_buf_size ?lg) (?now, level, msg)"
    using r assms(2,3) by (simp add: call_fits_def)
  obtain b where b: "length b = length (lg_buf ?lg)" "write_log (en_fopen e) ?now level msg ?lg
      = emit_line (line_text ?now level msg) (?lg\<lparr>lg_count := lg_count ?lg + 1, lg_buf := b\<rparr>)"
    using write_log_quiet [OF r(1,7) _ m cf, of "en_fopen e"] r(4,5) by auto
  define lg where "lg = ?lg\<lparr>lg_count := lg_count ?lg + 1, lg_buf := b,
    lg_files := (lg_files ?lg)(f := lg_files ?lg f @ line_text ?now level msg)\<rparr>"
  have w: "write_log (en_fopen e) ?now level msg ?lg = Inr lg"
    using b(2) r(1,2) f by (simp add: emit_line_sync lg_ok_def lg_def)
  have ok: "lg_ok lg" using r(1) b(1) by (simp add: lg_ok_def lg_def)
  define w' where "w' = w\<lparr>wb_log := lg, wb_clock := Suc (wb_clock w)\<rparr>"
  have "write_log_now e level msg w = Inr w'" using w by (simp add: write_log_now_def w'_def)
  moreover have "log_ready e w' k"
    using assms(1) ok by (simp add: log_ready_def Let_def w'_def lg_def)
  ultimately show ?thesis using ok by (auto simp: same_but_log_def w'_def)
qed

lemma LOG_INFO_flush_ok:
  assumes "log_ready e w (Suc k)" and "nul_free msg" and "length msg \<le> 1962"
  shows "\<exists>w'. LOG_INFO_flush e msg w = Inr w' \<and> log_ready e w' k \<and> same_but_log w w'"
proof -
  obtain w' where w': "write_log_now e 1 msg w = Inr w'" "log_ready e w' k" "same_but_log w w'" "lg_ok (wb_log w')"
    using write_log_now_ok [OF assms] by blast
  have "log_flush_now w' = Inr w'" using w'(4) by (simp add: log_flush_now_def flush_def lg_ok_def)
  with w' show ?thesis by (auto simp: LOG_INFO_flush_def)
qed

subsection \<open>One line\<close>

definition plain_text :: "string \<Rightarrow> bool" where
  "plain_text s = (nul_free s \<and> CR \<notin> set s \<and> LF \<notin> set s)"

lemma parse_line_at:
  assumes "m_read_buf c = pre @ s @ CR # LF # rest" and "m_checked_idx c = int (length pre)"
    and "int (length pre + length s + 2) \<le> m_read_idx c" and "CR \<notin> set s" and "LF \<notin> set s"
  shows "parse_line c = Inr (LINE_OK, c\<lparr>m_read_buf := pre @ s @ NUL # NUL # rest,
    m_checked_idx := int (length pre + length s + 2)\<rparr>)"
  using assms
proof (induction s arbitrary: pre c)
  case Nil
  have "rd (m_read_buf c) (int (length pre + 1)) = Inr LF"
    using rd_append_mid [of "pre @ [CR]" LF rest] Nil.prems(1) by simp
  moreover have "rd (m_read_buf c) (int (length pre)) = Inr CR" using Nil.prems(1) by simp
  moreover have "wr (m_read_buf c) (int (length pre)) NUL = Inr (pre @ NUL # LF # rest)"
    using Nil.prems(1) by simp
  moreover have "wr (pre @ NUL # LF # rest) (int (length pre + 1)) NUL = Inr (pre @ NUL # NUL # rest)"
    using wr_append_mid [of "pre @ [NUL]" LF rest NUL] by simp
  ultimately show ?case using parse_line_crlf [of c] Nil.prems(2,3) by (simp add: add.commute)
next
  case (Cons x s)
  let ?c = "c\<lparr>m_checked_idx := m_checked_idx c + 1\<rparr>"
  have "parse_line c = parse_line ?c"
    using Cons.prems by (intro parse_line_plain [of c x]) auto
  also have "\<dots> = Inr (LINE_OK, ?c\<lparr>m_read_buf := (pre @ [x]) @ s @ NUL # NUL # rest,
      m_checked_idx := int (length (pre @ [x]) + length s + 2)\<rparr>)"
    using Cons.prems by (intro Cons.IH) auto
  finally show ?case by simp
qed

end
