(* ===== verification/V3_HttpChunk.thy ===== *)
theory V3_HttpChunk
  imports V3_HttpLine V3_LogSpec "HOL-Library.Sublist"
begin

section \<open>version\_03: how a request arrives does not matter\<close>

text \<open>
  \<open>process_read\<close> is called after every \<open>recv\<close> and goes on where it stopped. As long as no
  empty line has come, the outcome after several pieces is that after one piece that holds all
  their bytes. The proof compares a run on the bytes that have arrived with a run on a buffer
  that has something behind them.
\<close>

subsection \<open>The loop\<close>

lemma holds_upto:
  assumes "b ! i = NUL" and "t \<le> i" and "Suc i < length b"
  shows "\<exists>s. holds b t s \<and> t + length s \<le> i"
proof -
  have m: "NUL \<in> set (drop t b)"
    using assms by (auto simp: in_set_conv_nth intro!: exI [of _ "i - t"])
  then obtain s where s: "cstr b t = Inr s" by (simp add: cstr_def)
  obtain r where r: "drop t b = s @ NUL # r" and n: "nul_free s" using cstr_split [OF s] by blast
  have "length s \<le> i - t"
  proof (rule ccontr)
    assume "\<not> length s \<le> i - t"
    then have "drop t b ! (i - t) \<in> set s" using r by (simp add: nth_append)
    moreover have "drop t b ! (i - t) = NUL" using assms by simp
    ultimately show False using n by (simp add: nul_free_def)
  qed
  moreover have "take (length s + 1) (drop t b) = s @ [NUL]" using r by simp
  ultimately show ?thesis using n assms(2,3) by (auto simp: holds_def)
qed

text \<open>A line that was found, as \<open>process_read\<close> hands it on.\<close>

lemma line_taken:
  assumes "tight c" and "line_found c LINE_OK d"
  shows "\<exists>s. holds (m_read_buf d) (nat (m_start_line c)) s
      \<and> int (nat (m_start_line c) + length s + 2) \<le> m_checked_idx d"
    and "tight (d\<lparr>m_start_line := m_checked_idx d\<rparr>)" and "m_start_line d = m_start_line c"
    and "m_checked_idx c < m_checked_idx d" and "m_read_idx d = m_read_idx c"
    and "m_check_state d = m_check_state c"
proof -
  obtain i where d: "d = c\<lparr>m_read_buf := (m_read_buf c)[i := NUL, Suc i := NUL], m_checked_idx := int i + 2\<rparr>"
    and i: "nat (m_checked_idx c) \<le> i" "Suc i < length (m_read_buf c)"
    and n: "CR \<notin> set (take i (m_read_buf c))" "LF \<notin> set (take i (m_read_buf c))"
    using assms(2) by (auto simp: line_found_def)
  have b: "m_read_buf d ! i = NUL" "Suc i < length (m_read_buf d)" using i by (simp_all add: d)
  have c: "0 \<le> m_start_line c" "m_start_line c \<le> m_checked_idx c" using assms(1) by (simp_all add: tight_def)
  then have st: "nat (m_start_line c) \<le> i" using i(1) by linarith
  from holds_upto [OF b(1) st b(2)]
  show "\<exists>s. holds (m_read_buf d) (nat (m_start_line c)) s
      \<and> int (nat (m_start_line c) + length s + 2) \<le> m_checked_idx d" by (auto simp: d)
  have "take (Suc (Suc i)) (m_read_buf d) = take i (m_read_buf c) @ [NUL, NUL]"
    using i(2) by (simp add: d take_Suc_conv_app_nth)
  with n have "CR \<notin> set (take (nat (m_checked_idx d)) (m_read_buf d))"
    "LF \<notin> set (take (nat (m_checked_idx d)) (m_read_buf d))"
    by (simp_all add: d nat_add_distrib)
  then show "tight (d\<lparr>m_start_line := m_checked_idx d\<rparr>)"
    using assms(1) i(2) by (simp add: tight_def d)
  show "m_start_line d = m_start_line c" "m_read_idx d = m_read_idx c" "m_check_state d = m_check_state c"
    by (simp_all add: d)
  show "m_checked_idx c < m_checked_idx d" using i(1) c by (simp add: d)
qed

lemma tight_stop: "tight c \<Longrightarrow> line_found c st d \<Longrightarrow> st \<noteq> LINE_OK \<Longrightarrow> tight d \<and> m_check_state d = m_check_state c"
  by (auto simp: line_found_def tight_def)

lemma tight_within:
  assumes "tight c" and "same_place c c'" and "only_within t j (m_read_buf c) (m_read_buf c')"
    and "int j \<le> m_checked_idx c"
  shows "tight c'"
proof -
  let ?k = "nat (m_checked_idx c)"
  have "only_within t ?k (m_read_buf c) (m_read_buf c')"
    using assms(3,4) by (intro only_within_mono [OF assms(3)]) simp_all
  then have "set (take ?k (m_read_buf c')) \<subseteq> set (take ?k (m_read_buf c)) \<union> set judge_text"
    "length (m_read_buf c') = length (m_read_buf c)" by (auto simp: only_within_def)
  moreover have "CR \<notin> set judge_text" "LF \<notin> set judge_text" by (simp_all add: judge_text_def)
  ultimately show ?thesis using assms(1,2) by (auto simp: tight_def same_place_def)
qed

lemma do_request_final: "post (do_request e c w) (\<lambda>(r, c', w'). r \<noteq> NO_REQUEST)"
proof -
  have f: "post (open_file e c) (\<lambda>(r, c'). r \<noteq> NO_REQUEST)" for c
    unfolding open_file_def by (intro post_rules) simp_all
  show ?thesis unfolding do_request_def
    by (intro post_rules) (auto dest!: postD [OF f])
qed

lemma parse_content_codes: "post (parse_content t c) (\<lambda>(r, c'). m_check_state c' = m_check_state c)"
  unfolding parse_content_def by (intro post_rules) simp_all

lemma content_stays:
  "m_check_state c = CHECK_STATE_CONTENT \<Longrightarrow>
    post (read_loop e st c w) (\<lambda>(r, c1, w1). r = NO_REQUEST \<longrightarrow> m_check_state c1 = CHECK_STATE_CONTENT)"
proof (induction e st c w rule: read_loop.induct)
  case (1 e st c w)
  have st: "m_check_state d = CHECK_STATE_CONTENT" if "next_line st c = Inr (st1, d)" for st1 d
    using that "1.prems" parse_line_forward(4) [of c st1 d] by (auto simp: next_line_def split: if_splits)
  show ?case
  proof (subst read_loop.simps, intro post_rules, goal_cases)
    case (1 x st1 d)
    then show ?case using st by simp
  next
    case (2 x st1 d t d' s w')
    note ih = "1.IH"(3) [OF 2(1) 2(2) [symmetric] 2(3-7)]
    have d': "m_check_state d' = CHECK_STATE_CONTENT" using st [of st1 d] 2(1,2,5) by simp
    have "post (bindr (parse_content t d') (\<lambda>(ret, c).
        if ret = GET_REQUEST then do_request e c w' else read_loop e LINE_OPEN c w'))
      (\<lambda>(r, c1, w1). r = NO_REQUEST \<longrightarrow> m_check_state c1 = CHECK_STATE_CONTENT)"
    proof (intro post_rules, goal_cases)
      case (1 y ret c2)
      then show ?case by (auto intro: post_mono [OF do_request_final])
    next
      case (2 y ret c2)
      then have "m_check_state c2 = CHECK_STATE_CONTENT"
        using d' postD [OF parse_content_codes, of t d' y] by simp
      with 2 show ?case using ih [OF d' 2(1) 2(2) [symmetric]] by simp
    qed
    then show ?case using d' by simp
  qed
qed

lemma next_line_header: "m_check_state c \<noteq> CHECK_STATE_CONTENT \<Longrightarrow> next_line st c = parse_line c"
  by (simp add: next_line_def)

lemma read_loop_same_line:
  "next_line st c = next_line st' c' \<Longrightarrow> read_loop e st c w = read_loop e st' c' w"
  by (subst (1 2) read_loop.simps) simp

text \<open>One turn of the loop on a line of the header, with any bytes behind.\<close>

definition header_turn :: "env \<Rightarrow> nat \<Rightarrow> http_conn \<Rightarrow> web \<Rightarrow> (HTTP_CODE \<times> http_conn \<times> web) res" where
  "header_turn e t c w =
     (if m_check_state c = CHECK_STATE_REQUESTLINE
      then bindr (parse_request_line t c) (\<lambda>(r, c). Inr (r, c, w)) else parse_headers e t c w)"

lemma header_turn_more:
  assumes "header_turn e t c w = Inr (r, d, w')"
  shows "header_turn e t (more y j c) w = Inr (r, more y j d, w')"
proof (cases "m_check_state c = CHECK_STATE_REQUESTLINE")
  case True
  with assms have "parse_request_line t c = Inr (r, d)" "w' = w"
    by (auto simp: header_turn_def elim!: bindr_InrE)
  with True show ?thesis using postD [OF parse_request_line_more [of t c y j]] by (simp add: header_turn_def)
next
  case False
  with assms show ?thesis
    using postD [OF parse_headers_more [of e t c w y j]] by (simp add: header_turn_def)
qed

lemma parse_headers_Inl:
  assumes "cstr (m_read_buf c) t = Inr s" and "parse_headers e t c w = Inl x"
  shows "parse_headers e t (more y j c) w = Inl x"
  using assms cstr_more [OF assms(1), of y]
  by (auto simp: parse_headers_def bindr_eq_Inl split: if_splits)

lemma header_turn_Inl:
  assumes "holds (m_read_buf c) t s" and "header_turn e t c w = Inl x"
  shows "header_turn e t (more y j c) w = Inl x"
proof (cases "m_check_state c = CHECK_STATE_REQUESTLINE")
  case True
  then have p: "parse_request_line t c = Inl x" using assms(2) by (auto simp: header_turn_def bindr_eq_Inl)
  obtain pre z v where b: "m_read_buf c = pre @ s @ NUL # v # z" "length pre = t" "nul_free s"
    using assms(1) by (rule holds_split)
  have "holds (m_read_buf (more y j c)) t s"
    using holdsI [OF b(3), of pre v "z @ y"] b(1,2) by simp
  from parse_request_line_answered [OF assms(1)] parse_request_line_answered [OF this] p
  have "parse_request_line t (more y j c) = Inl NullDeref" "x = NullDeref"
    by (auto simp: line_answered_def split: sum.splits option.splits)
  with True show ?thesis by (simp add: header_turn_def)
next
  case False
  with assms show ?thesis using parse_headers_Inl [OF holds_cstr [OF assms(1)]]
    by (auto simp: header_turn_def)
qed

lemma header_turn_tight:
  assumes "header_turn e t c w = Inr (r, d, w')" and "holds (m_read_buf c) t s"
    and "int (t + length s + 2) \<le> m_checked_idx c" and "tight c"
  shows "tight d" and "same_place c d"
    and "drop (nat (m_checked_idx c)) (m_read_buf d) = drop (nat (m_checked_idx c)) (m_read_buf c)"
proof -
  show pl: "same_place c d"
    using assms(1) postD [OF parse_request_line_place [of t c]] postD [OF parse_headers_place [of e t c w]]
    by (auto simp: header_turn_def elim!: bindr_InrE split: if_splits)
  have w: "only_within t (t + length s + 2) (m_read_buf c) (m_read_buf d)"
  proof (cases "m_check_state c = CHECK_STATE_REQUESTLINE")
    case True
    with assms(1) have "parse_request_line t c = Inr (r, d)"
      by (auto simp: header_turn_def elim!: bindr_InrE)
    with parse_request_line_answered [OF assms(2)] show ?thesis
      by (auto simp: line_answered_def split: sum.splits option.splits)
  next
    case False
    have "post (parse_headers e t c w) (\<lambda>(r, d, w'). m_read_buf d = m_read_buf c)"
      unfolding parse_headers_def by (intro post_rules) simp_all
    with False assms(1) show ?thesis by (simp add: header_turn_def)
  qed
  from tight_within [OF assms(4) pl this assms(3)] show "tight d" .
  have "only_within t (nat (m_checked_idx c)) (m_read_buf c) (m_read_buf d)"
    using assms(3) by (intro only_within_mono [OF w]) linarith+
  then show "drop (nat (m_checked_idx c)) (m_read_buf d) = drop (nat (m_checked_idx c)) (m_read_buf c)"
    by (simp add: only_within_def)
qed

lemma read_loop_line:
  assumes "parse_line c = Inr (LINE_OK, d)" and "m_check_state c \<noteq> CHECK_STATE_CONTENT"
    and "m_check_state d = m_check_state c"
    and "cstr (m_read_buf d) (get_line_at d) = Inr s"
  shows "read_loop e st c w =
    bindr (LOG_INFO_flush e s w) (\<lambda>w.
    bindr (header_turn e (get_line_at d) (d\<lparr>m_start_line := m_checked_idx d\<rparr>) w) (\<lambda>(ret, c, w).
    if ret = BAD_REQUEST then Inr (BAD_REQUEST, c, w)
    else if m_check_state d = CHECK_STATE_HEADER \<and> ret = GET_REQUEST then do_request e c w
    else read_loop e LINE_OK c w))"
proof -
  have "m_check_state d = CHECK_STATE_REQUESTLINE \<or> m_check_state d = CHECK_STATE_HEADER"
    using assms(2,3) by (cases "m_check_state d") auto
  then show ?thesis using assms
    by (subst read_loop.simps)
      (auto simp: next_line_header header_turn_def Let_def bindr_assoc case_prod_unfold intro!: bindr_cong)
qed

text \<open>The same with anything behind the bytes that have arrived.\<close>

lemma read_loop_line_more:
  assumes "tight c" and "m_check_state c \<noteq> CHECK_STATE_CONTENT" and "parse_line c = Inr (LINE_OK, d)"
    and "m_start_line d = m_start_line c" and "m_check_state d = m_check_state c"
    and "holds (m_read_buf d) (nat (m_start_line c)) s" and "m_read_idx c \<le> j"
  shows "read_loop e st (more y j c) w =
    bindr (LOG_INFO_flush e s w) (\<lambda>w.
    bindr (header_turn e (nat (m_start_line c)) (more y j (d\<lparr>m_start_line := m_checked_idx d\<rparr>)) w) (\<lambda>(ret, c', w).
    if ret = BAD_REQUEST then Inr (BAD_REQUEST, c', w)
    else if m_check_state c = CHECK_STATE_HEADER \<and> ret = GET_REQUEST then do_request e c' w
    else read_loop e LINE_OK c' w))"
proof -
  let ?t = "nat (m_start_line c)" and ?d = "d\<lparr>m_start_line := m_checked_idx d\<rparr>"
  have t: "get_line_at d = ?t" using assms(4) by (simp add: get_line_at_def)
  have pm: "parse_line (more y j c) = Inr (LINE_OK, more y j d)"
    using parse_line_more [OF assms(1,7,3), of y] by simp
  have cs: "cstr (m_read_buf (more y j d)) (get_line_at (more y j d)) = Inr s"
    using cstr_more [OF holds_cstr [OF assms(6)]] t by (simp add: get_line_at_def)
  have ms: "m_check_state (more y j d) = m_check_state c" using assms(5) by simp
  have tm: "get_line_at (more y j d) = ?t" using t by (simp add: get_line_at_def)
  have dm: "(more y j d)\<lparr>m_start_line := m_checked_idx (more y j d)\<rparr> = more y j ?d" by simp
  have c2: "m_check_state (more y j c) \<noteq> CHECK_STATE_CONTENT" using assms(2) by simp
  have c3: "m_check_state (more y j d) = m_check_state (more y j c)" using assms(5) by simp
  show ?thesis by (rule read_loop_line [OF pm c2 c3 cs, of e st w, unfolded ms tm dm])
qed

text \<open>
  Bytes in which no line is empty do not end the header. What is asked of them is said of the
  bytes alone: no NUL, no two line ends in a row, and, between two lines of the header, no line
  end in front.
\<close>

definition no_blank_line :: "CHECK_STATE \<Rightarrow> string \<Rightarrow> bool" where
  "no_blank_line st s =
     (nul_free s \<and> \<not> sublist [CR, LF, CR, LF] s \<and> (st = CHECK_STATE_HEADER \<longrightarrow> \<not> prefix [CR, LF] s))"

lemma no_blank_line_prefix: "no_blank_line st (s @ z) \<Longrightarrow> no_blank_line st s"
  by (auto simp: no_blank_line_def nul_free_def sublist_append prefix_append)

lemma no_blank_line_behind:
  "no_blank_line st (s @ CR # LF # z) \<Longrightarrow> no_blank_line st' z"
proof -
  let ?p = "[CR, LF, CR, LF]"
  assume a: "no_blank_line st (s @ CR # LF # z)"
  have no: "\<not> prefix ?p x" if "suffix x (s @ CR # LF # z)" for x
    using a that unfolding no_blank_line_def sublist_altdef' by blast
  have "suffix (CR # LF # z) (s @ CR # LF # z)" by (simp add: suffix_def)
  then have "\<not> prefix ?p (CR # LF # z)" by (rule no)
  moreover have "suffix x (s @ CR # LF # z)" if "suffix x z" for x
    using that suffix_appendI [of x z "s @ [CR, LF]"] by simp
  then have "\<not> sublist ?p z" using no unfolding sublist_altdef' by blast
  ultimately show ?thesis using a by (simp add: no_blank_line_def nul_free_def)
qed

text \<open>On a line that is not empty a turn of the loop refuses the request or stays in the header.\<close>

lemma header_turn_goes_on:
  assumes "header_turn e t c w = Inr (ret, d, w')" and "holds (m_read_buf c) t s"
    and "m_check_state c \<noteq> CHECK_STATE_CONTENT" and "m_check_state c = CHECK_STATE_HEADER \<longrightarrow> s \<noteq> []"
  shows "ret = BAD_REQUEST \<or> ret = NO_REQUEST \<and> m_check_state d = CHECK_STATE_HEADER"
proof (cases "m_check_state c = CHECK_STATE_REQUESTLINE")
  case True
  with assms(1) have "parse_request_line t c = Inr (ret, d)" by (auto simp: header_turn_def elim!: bindr_InrE)
  with parse_request_line_answered [OF assms(2)] show ?thesis
    by (auto simp: line_answered_def split: sum.splits option.splits)
next
  case False
  with assms(3,4) have s: "m_check_state c = CHECK_STATE_HEADER" "s \<noteq> []"
    by (cases "m_check_state c"; simp)+
  have "post (parse_headers e t c w) (\<lambda>(r, d, w'). r = NO_REQUEST \<and> m_check_state d = CHECK_STATE_HEADER)"
    unfolding parse_headers_def using s holds_cstr [OF assms(2)] by (intro post_rules) auto
  with False assms(1) show ?thesis by (simp add: header_turn_def)
qed

text \<open>The bytes of the line that was found, and those behind it.\<close>

lemma line_bytes:
  assumes "tight c" and "line_found c LINE_OK d"
    and "no_blank_line (m_check_state c) (drop (nat (m_start_line c)) (m_read_buf c))"
    and "holds (m_read_buf d) (nat (m_start_line c)) s" and "int (nat (m_start_line c) + length s + 2) \<le> m_checked_idx d"
  shows "m_check_state c = CHECK_STATE_HEADER \<longrightarrow> s \<noteq> []"
    and "no_blank_line st (drop (nat (m_checked_idx d)) (m_read_buf d))"
proof -
  let ?b = "m_read_buf c" and ?t = "nat (m_start_line c)"
  obtain i where d: "d = c\<lparr>m_read_buf := ?b[i := NUL, Suc i := NUL], m_checked_idx := int i + 2\<rparr>"
    and i: "nat (m_checked_idx c) \<le> i" "Suc i < length ?b" "?b ! i = CR" "?b ! Suc i = LF"
    using assms(2) by (auto simp: line_found_def)
  have ti: "?t \<le> i" using assms(1) i(1) unfolding tight_def by linarith
  have "drop i ?b = CR # LF # drop (i + 2) ?b" using i(2-4) by (simp add: Cons_nth_drop_Suc [symmetric])
  then have b: "drop ?t ?b = take (i - ?t) (drop ?t ?b) @ CR # LF # drop (i + 2) ?b"
    using ti by (metis append_take_drop_id drop_drop le_add_diff_inverse2)
  have "no_blank_line (m_check_state c) (take (i - ?t) (drop ?t ?b) @ CR # LF # drop (i + 2) ?b)"
    using assms(3) by (simp only: b [symmetric])
  from no_blank_line_behind [OF this] show "no_blank_line st (drop (nat (m_checked_idx d)) (m_read_buf d))" by (simp add: d nat_add_distrib)
  show "m_check_state c = CHECK_STATE_HEADER \<longrightarrow> s \<noteq> []"
  proof (intro impI notI)
    assume st: "m_check_state c = CHECK_STATE_HEADER" and "s = []"
    have "?t < length (m_read_buf d)" using ti i(2) by (simp add: d)
    with \<open>s = []\<close> assms(4) have nul: "m_read_buf d ! ?t = NUL"
      by (auto simp: holds_def take_Suc hd_drop_conv_nth)
    show False
    proof (cases "?t = i")
      case True
      then have "prefix [CR, LF] (drop ?t ?b)" using b by simp
      with assms(3) st show False by (simp add: no_blank_line_def)
    next
      case False
      then have "?b ! ?t = NUL" using nul ti by (simp add: d)
      moreover have "?b ! ?t \<in> set (drop ?t ?b)" using ti i(2) by (auto simp: in_set_conv_nth intro!: exI [of _ 0])
      ultimately show False using assms(3) by (simp add: no_blank_line_def nul_free_def)
    qed
  qed
qed

text \<open>
  A run on such bytes asks for more, or it has found a line that is refused or stops the
  program, and then it does so with anything behind them as well.
\<close>

lemma read_loop_header:
  assumes "tight c" and "m_check_state c \<noteq> CHECK_STATE_CONTENT"
    and "no_blank_line (m_check_state c) (drop (nat (m_start_line c)) (m_read_buf c))"
  shows "(\<exists>x. \<forall>y j st. m_read_idx c \<le> j \<longrightarrow> read_loop e st (more y j c) w = Inl x)
    \<or> (\<exists>d w1. \<forall>y j st. m_read_idx c \<le> j \<longrightarrow> read_loop e st (more y j c) w = Inr (BAD_REQUEST, more y j d, w1))
    \<or> (\<exists>d w1. m_check_state d \<noteq> CHECK_STATE_CONTENT
        \<and> (\<forall>y st. read_loop e st (more y (m_read_idx c) c) w = Inr (NO_REQUEST, more y (m_read_idx c) d, w1)))"
  using assms
proof (induction "nat (m_read_idx c - m_checked_idx c)" arbitrary: c w rule: less_induct)
  case less
  let ?r = "m_read_idx c"
  obtain st1 d where p: "parse_line c = Inr (st1, d)" and f: "line_found c st1 d"
    using parse_line_tight [OF less.prems(1)] by blast
  show ?case
  proof (cases "st1 = LINE_OK")
    case False
    have td: "m_check_state d = m_check_state c" using tight_stop [OF less.prems(1) f False] by simp
    have "read_loop e st (more y ?r c) w = Inr (NO_REQUEST, more y ?r d, w)" for y st
      using parse_line_more [OF less.prems(1) order_refl p, of y] less.prems(2) False
      by (subst read_loop.simps) (simp add: next_line_header)
    then show ?thesis using td less.prems(2) by metis
  next
    case True
    note lt = line_taken [OF less.prems(1) f [unfolded True]]
    let ?t = "nat (m_start_line c)" and ?d = "d\<lparr>m_start_line := m_checked_idx d\<rparr>"
    obtain s where h: "holds (m_read_buf d) ?t s" "int (?t + length s + 2) \<le> m_checked_idx d"
      using lt(1) by blast
    have hd': "holds (m_read_buf ?d) ?t s" "int (?t + length s + 2) \<le> m_checked_idx ?d" using h by simp_all
    note line = read_loop_line_more [OF less.prems(1,2) p [unfolded True] lt(3,6) h(1), of _ e _ _ w]
    note bytes = line_bytes [OF less.prems(1) f [unfolded True] less.prems(3) h]
    show ?thesis
    proof (cases "LOG_INFO_flush e s w")
      case (Inl x)
      then show ?thesis using line by auto
    next
      case w2: (Inr w2)
      show ?thesis
      proof (cases "header_turn e ?t ?d w2")
        case (Inl x)
        then show ?thesis using line w2 header_turn_Inl [OF hd'(1) Inl] by auto
      next
        case (Inr q)
        then obtain ret c2 w3 where turn: "header_turn e ?t ?d w2 = Inr (ret, c2, w3)" by (cases q) auto
        note tt = header_turn_tight [OF turn hd' lt(2)]
        have run: "read_loop e st' (more y j c) w =
            (if ret = BAD_REQUEST then Inr (BAD_REQUEST, more y j c2, w3)
             else if m_check_state c = CHECK_STATE_HEADER \<and> ret = GET_REQUEST then do_request e (more y j c2) w3
             else read_loop e LINE_OK (more y j c2) w3)" if "?r \<le> j" for y j st'
          using line [OF that] w2 header_turn_more [OF turn, of y j] by simp
        have on: "ret = BAD_REQUEST \<or> ret = NO_REQUEST \<and> m_check_state c2 = CHECK_STATE_HEADER"
          using header_turn_goes_on [OF turn hd'(1)] less.prems(2) bytes(1) lt(6) by simp
        show ?thesis
        proof (cases "ret = BAD_REQUEST")
          case True
          then show ?thesis using run by metis
        next
          case False
          with on have go: "ret = NO_REQUEST" "m_check_state c2 = CHECK_STATE_HEADER" by auto
          have pl: "m_read_idx c2 = ?r" "m_checked_idx c2 = m_checked_idx d" "m_start_line c2 = m_checked_idx d"
            using tt(2) lt(5) by (simp_all add: same_place_def)
          have nb: "no_blank_line (m_check_state c2) (drop (nat (m_start_line c2)) (m_read_buf c2))"
            using tt(3) bytes(2) pl(3) by simp
          have "nat (m_read_idx c2 - m_checked_idx c2) < nat (?r - m_checked_idx c)"
            using pl lt(4) less.prems(1) parse_line_forward(3) [OF p] \<open>st1 = LINE_OK\<close> by simp
          note ih = less.hyps [OF this tt(1) _ nb, of w3]
          have "m_check_state c2 \<noteq> CHECK_STATE_CONTENT" using go(2) by simp
          note ih = ih [OF this]
          define R where "R = (\<lambda>y j. read_loop e LINE_OK (more y j c2) w3)"
          have R: "read_loop e st' (more y j c) w = R y j" if "?r \<le> j" for y j st'
            using run [OF that] go(1) by (simp add: R_def)
          have "(\<exists>x. \<forall>y j. ?r \<le> j \<longrightarrow> R y j = Inl x)
              \<or> (\<exists>d w1. \<forall>y j. ?r \<le> j \<longrightarrow> R y j = Inr (BAD_REQUEST, more y j d, w1))
              \<or> (\<exists>d w1. m_check_state d \<noteq> CHECK_STATE_CONTENT
                  \<and> (\<forall>y. R y ?r = Inr (NO_REQUEST, more y ?r d, w1)))"
            using ih unfolding R_def pl(1) by (elim disjE exE) blast+
          then show ?thesis using R by simp
        qed
      qed
    qed
  qed
qed

text \<open>
  A run that wants more bytes leaves a tight connection from which a run with more bytes is
  the run from the start with more bytes.
\<close>

lemma read_loop_more:
  assumes "tight c" and "m_check_state c \<noteq> CHECK_STATE_CONTENT"
    and "read_loop e st (more y (m_read_idx c) c) w = Inr (NO_REQUEST, c1, w1)"
    and "m_check_state c1 \<noteq> CHECK_STATE_CONTENT"
  shows "\<exists>d. c1 = more y (m_read_idx c) d \<and> tight d \<and> m_read_idx d = m_read_idx c
    \<and> (\<forall>y' j. m_read_idx c \<le> j \<longrightarrow> read_loop e LINE_OK (more y' j d) w1 = read_loop e st (more y' j c) w)"
  using assms
proof (induction "nat (m_read_idx c - m_checked_idx c)" arbitrary: c st w rule: less_induct)
  case less
  let ?r = "m_read_idx c"
  obtain st1 d where p: "parse_line c = Inr (st1, d)" and f: "line_found c st1 d"
    using parse_line_tight [OF less.prems(1)] by blast
  show ?case
  proof (cases "st1 = LINE_OK")
    case False
    have pm: "parse_line (more y' j d) = parse_line (more y' j c)"
      "parse_line (more y' ?r c) = Inr (st1, more y' ?r d)" if "?r \<le> j" for y' j
      using parse_line_more [OF less.prems(1) that p] False by simp_all
    have td: "tight d" "m_check_state d = m_check_state c" "m_read_idx d = ?r"
      using tight_stop [OF less.prems(1) f False] parse_line_forward(2) [OF p] by auto
    have "read_loop e st (more y ?r c) w = Inr (NO_REQUEST, more y ?r d, w)"
      using pm(2) [of ?r y] less.prems(2) False by (subst read_loop.simps) (simp add: next_line_header)
    then have "c1 = more y ?r d" "w1 = w" using less.prems(3) by auto
    moreover have "read_loop e LINE_OK (more y' j d) w = read_loop e st (more y' j c) w" if "?r \<le> j" for y' j
      using pm(1) [OF that] td(2) less.prems(2) by (intro read_loop_same_line) (simp add: next_line_header)
    ultimately show ?thesis using td by blast
  next
    case True
    note lt = line_taken [OF less.prems(1) f [unfolded True]]
    let ?t = "nat (m_start_line c)" and ?d = "d\<lparr>m_start_line := m_checked_idx d\<rparr>"
    obtain s where h: "holds (m_read_buf d) ?t s" "int (?t + length s + 2) \<le> m_checked_idx d"
      using lt(1) by blast
    note line = read_loop_line_more [OF less.prems(1,2) p [unfolded True] lt(3,6) h(1), of _ e _ _ w]
    have "\<exists>w2. LOG_INFO_flush e s w = Inr w2"
      using less.prems(3) line [OF order_refl, of st y] by (cases "LOG_INFO_flush e s w") auto
    then obtain w2 where w2: "LOG_INFO_flush e s w = Inr w2" by blast
    have hd': "holds (m_read_buf ?d) ?t s" "int (?t + length s + 2) \<le> m_checked_idx ?d"
      using h by simp_all
    obtain ret c2 w3 where turn: "header_turn e ?t ?d w2 = Inr (ret, c2, w3)"
    proof (cases "header_turn e ?t ?d w2")
      case (Inl x)
      with header_turn_Inl [OF hd'(1) Inl, of y ?r] less.prems(3) line [OF order_refl, of st y] w2
      show ?thesis by auto
    next
      case (Inr q)
      then show ?thesis using that by (cases q) auto
    qed
    note tt = header_turn_tight [OF turn hd' lt(2)]
    have run: "read_loop e st' (more y' j c) w =
        (if ret = BAD_REQUEST then Inr (BAD_REQUEST, more y' j c2, w3)
         else if m_check_state c = CHECK_STATE_HEADER \<and> ret = GET_REQUEST then do_request e (more y' j c2) w3
         else read_loop e LINE_OK (more y' j c2) w3)" if "?r \<le> j" for y' j st'
      using line [OF that] w2 header_turn_more [OF turn, of y' j] by simp
    have nd: "Inr (NO_REQUEST, c1, w1) \<noteq> do_request e c' w'" for c' w'
      using postD [OF do_request_final, of e c' w' "(NO_REQUEST, c1, w1)"] by auto
    have go: "ret \<noteq> BAD_REQUEST" "\<not> (m_check_state c = CHECK_STATE_HEADER \<and> ret = GET_REQUEST)"
      using run [of ?r st y] less.prems(3) nd by (auto split: if_splits)
    have rd: "m_read_idx c2 = ?r" "m_checked_idx c2 = m_checked_idx d"
      using same_placeD [OF tt(2)] lt(5) by simp_all
    have r: "read_loop e LINE_OK (more y (m_read_idx c2) c2) w3 = Inr (NO_REQUEST, c1, w1)"
      using run [of ?r st y] go less.prems(3) rd by simp
    have "m_check_state c2 \<noteq> CHECK_STATE_CONTENT"
      using postD [OF content_stays r] less.prems(4) by auto
    moreover have "nat (m_read_idx c2 - m_checked_idx c2) < nat (?r - m_checked_idx c)"
      using rd lt(4) less.prems(1) parse_line_forward(3) [OF p] True by simp
    ultimately obtain d' where "c1 = more y ?r d'" "tight d'" "m_read_idx d' = ?r"
      "\<forall>y' j. ?r \<le> j \<longrightarrow> read_loop e LINE_OK (more y' j d') w1 = read_loop e LINE_OK (more y' j c2) w3"
      using less.hyps [OF _ tt(1) _ r less.prems(4)] rd by auto
    moreover have "read_loop e LINE_OK (more y' j c2) w3 = read_loop e st (more y' j c) w" if "?r \<le> j" for y' j
      using run [OF that, of st y'] go by auto
    ultimately show ?thesis by auto
  qed
qed

subsection \<open>Pieces\<close>

text \<open>A connection that is reading a header; what arrives goes behind what it has.\<close>

definition cut_buf :: "http_conn \<Rightarrow> http_conn" where
  "cut_buf c = c\<lparr>m_read_buf := take (nat (m_read_idx c)) (m_read_buf c)\<rparr>"

definition reading :: "http_conn \<Rightarrow> bool" where
  "reading c = (length (m_read_buf c) = READ_BUFFER_SIZE \<and> m_read_idx c \<le> int READ_BUFFER_SIZE
     \<and> tight (cut_buf c) \<and> m_check_state c \<noteq> CHECK_STATE_CONTENT)"

text \<open>One event: \<open>read_once\<close> takes the bytes, then a worker runs \<open>process_read\<close>.\<close>

definition on_bytes :: "env \<Rightarrow> string \<Rightarrow> http_conn \<Rightarrow> web \<Rightarrow> (HTTP_CODE \<times> http_conn \<times> web) res" where
  "on_bytes e a c w =
     bindr (read_once (Some a) c) (\<lambda>(ok, c).
     if ok then process_read e c w else Inr (CLOSED_CONNECTION, c, w))"

fun feed :: "env \<Rightarrow> string list \<Rightarrow> http_conn \<Rightarrow> web \<Rightarrow> (HTTP_CODE \<times> http_conn \<times> web) res" where
  "feed e [] c w = Inr (NO_REQUEST, c, w)"
| "feed e (a # as) c w =
     bindr (on_bytes e a c w) (\<lambda>(ret, c, w).
     if ret = NO_REQUEST \<and> as \<noteq> [] then feed e as c w else Inr (ret, c, w))"

lemma reading_more:
  assumes "tight d" and "m_check_state d \<noteq> CHECK_STATE_CONTENT"
    and "length (m_read_buf d) + length y = READ_BUFFER_SIZE"
  shows "reading (more y (m_read_idx d) d)" and "cut_buf (more y (m_read_idx d) d) = d"
proof -
  have "nat (m_read_idx d) = length (m_read_buf d)" using assms(1) by (auto simp: tight_def)
  then show c: "cut_buf (more y (m_read_idx d) d) = d" by (simp add: cut_buf_def more_def)
  have "m_read_idx d \<le> int READ_BUFFER_SIZE" using assms(1,3) by (simp add: tight_def)
  then show "reading (more y (m_read_idx d) d)" using assms c by (simp add: reading_def)
qed

lemma readingD:
  assumes "reading c"
  shows "0 \<le> m_read_idx c" and "m_read_idx c \<le> int READ_BUFFER_SIZE" and "tight (cut_buf c)"
    and "length (m_read_buf c) = READ_BUFFER_SIZE" and "m_check_state c \<noteq> CHECK_STATE_CONTENT"
proof -
  show "tight (cut_buf c)" using assms by (simp add: reading_def)
  then show "0 \<le> m_read_idx c" by (simp add: tight_def cut_buf_def)
qed (use assms in \<open>simp_all add: reading_def\<close>)

lemma read_once_reading:
  assumes "reading c" and "a \<noteq> []" and "m_read_idx c + int (length a) \<le> int READ_BUFFER_SIZE"
  shows "read_once (Some a) c = Inr (True, more (a @ drop (nat (m_read_idx c) + length a) (m_read_buf c))
    (m_read_idx c + int (length a)) (cut_buf c))"
proof -
  let ?r = "nat (m_read_idx c)"
  note r = readingD(1) [OF assms(1)]
  have "take (READ_BUFFER_SIZE - ?r) a = a" "?r + length a \<le> length (m_read_buf c)"
    using assms(1,3) r by (simp_all add: reading_def)
  moreover have "\<not> m_read_idx c \<ge> int READ_BUFFER_SIZE" using assms(2,3) by (cases a) auto
  ultimately show ?thesis
    using assms(2) r by (simp add: read_once_def wrs_def cut_buf_def more_def Let_def)
qed

lemma on_bytes_reading:
  assumes "reading c" and "a \<noteq> []" and "m_read_idx c + int (length a) \<le> int READ_BUFFER_SIZE"
  shows "on_bytes e a c w = read_loop e LINE_OK
    (more (a @ drop (nat (m_read_idx c) + length a) (m_read_buf c)) (m_read_idx c + int (length a)) (cut_buf c)) w"
  using read_once_reading [OF assms] by (simp add: on_bytes_def process_read_def)

lemma two_pieces:
  assumes "reading c" and "a \<noteq> []" and "b \<noteq> []"
    and "m_read_idx c + int (length a + length b) \<le> int READ_BUFFER_SIZE"
    and "on_bytes e a c w = Inr (NO_REQUEST, c1, w1)" and "m_check_state c1 \<noteq> CHECK_STATE_CONTENT"
  shows "reading c1" and "m_read_idx c1 = m_read_idx c + int (length a)"
    and "on_bytes e b c1 w1 = on_bytes e (a @ b) c w"
proof -
  let ?r = "nat (m_read_idx c)" and ?j = "m_read_idx c + int (length a)"
  define y where "y = drop (?r + length a) (m_read_buf c)"
  define ca where "ca = more a ?j (cut_buf c)"
  have r: "0 \<le> m_read_idx c" "m_read_idx c \<le> int READ_BUFFER_SIZE" "tight (cut_buf c)"
    "length (m_read_buf c) = READ_BUFFER_SIZE" "m_check_state c \<noteq> CHECK_STATE_CONTENT"
    by (fact readingD [OF assms(1)])+
  have ca: "tight ca" "m_check_state ca \<noteq> CHECK_STATE_CONTENT" "m_read_idx ca = ?j"
    "length (m_read_buf ca) = ?r + length a"
    using r by (auto simp: ca_def tight_def cut_buf_def more_def)
  have m: "more (a @ z) i (cut_buf c) = more z i ca" for z i by (simp add: ca_def more_def)
  have "on_bytes e a c w = read_loop e LINE_OK (more y ?j ca) w"
    using on_bytes_reading [OF assms(1,2)] assms(4) m by (simp add: y_def)
  with assms(5) have "read_loop e LINE_OK (more y (m_read_idx ca) ca) w = Inr (NO_REQUEST, c1, w1)"
    using ca(3) by simp
  from read_loop_more [OF ca(1,2) this assms(6)] obtain d where
    d: "c1 = more y ?j d" "tight d" "m_read_idx d = ?j"
    and go: "\<forall>y' i. ?j \<le> i \<longrightarrow> read_loop e LINE_OK (more y' i d) w1 = read_loop e LINE_OK (more y' i ca) w"
    using ca(3) by auto
  have len: "length (m_read_buf d) + length y = READ_BUFFER_SIZE"
  proof -
    have "int (length (m_read_buf d)) = ?j" using d(2,3) by (simp add: tight_def)
    then show ?thesis using r assms(4) by (simp add: y_def)
  qed
  have "m_check_state d \<noteq> CHECK_STATE_CONTENT" using assms(6) d(1) by simp
  from reading_more [OF d(2) this len] d(1,3) show c1: "reading c1" "m_read_idx c1 = ?j" by simp_all
  have cut: "cut_buf c1 = d" using reading_more(2) [OF d(2) _ len] \<open>m_check_state d \<noteq> _\<close> d(1,3) by simp
  have nb: "nat (m_read_idx c1) + length b = length (m_read_buf d) + length b"
    using c1(2) d(2,3) by (auto simp: tight_def)
  have fb: "m_read_idx c1 + int (length b) \<le> int READ_BUFFER_SIZE" using assms(4) c1(2) by simp
  have y': "drop (nat (m_read_idx c1) + length b) (m_read_buf c1) = drop (?r + length (a @ b)) (m_read_buf c)"
    unfolding nb using d(1) by (simp add: y_def add.commute add.left_commute)
  have "on_bytes e b c1 w1 = read_loop e LINE_OK
      (more (b @ drop (?r + length (a @ b)) (m_read_buf c)) (?j + int (length b)) d) w1"
    using on_bytes_reading [OF c1(1) assms(3) fb, of e w1] c1(2) cut y' by simp
  also have "\<dots> = read_loop e LINE_OK
      (more (b @ drop (?r + length (a @ b)) (m_read_buf c)) (?j + int (length b)) ca) w"
    using go by simp
  also have "\<dots> = on_bytes e (a @ b) c w"
    using on_bytes_reading [OF assms(1), of "a @ b" e w] assms(2,4) m
    by (simp add: add.assoc)
  finally show "on_bytes e b c1 w1 = on_bytes e (a @ b) c w" .
qed

text \<open>The bytes of the line that has been begun, and the connection with some more.\<close>

definition unparsed :: "http_conn \<Rightarrow> string" where
  "unparsed c = drop (nat (m_start_line c)) (take (nat (m_read_idx c)) (m_read_buf c))"

definition arrived :: "string \<Rightarrow> http_conn \<Rightarrow> http_conn" where
  "arrived a c = more a (m_read_idx c + int (length a)) (cut_buf c)"

lemma arrived_reading:
  assumes "reading c"
  shows "tight (arrived a c)" and "m_check_state (arrived a c) = m_check_state c"
    and "m_read_idx (arrived a c) = m_read_idx c + int (length a)"
    and "drop (nat (m_start_line (arrived a c))) (m_read_buf (arrived a c)) = unparsed c @ a"
proof -
  show "tight (arrived a c)" "m_check_state (arrived a c) = m_check_state c"
    "m_read_idx (arrived a c) = m_read_idx c + int (length a)"
    using readingD(3) [OF assms] by (auto simp: arrived_def tight_def cut_buf_def)
  have "nat (m_start_line c) \<le> length (take (nat (m_read_idx c)) (m_read_buf c))"
    using readingD(1-4) [OF assms] by (auto simp: tight_def cut_buf_def)
  then show "drop (nat (m_start_line (arrived a c))) (m_read_buf (arrived a c)) = unparsed c @ a"
    by (simp add: arrived_def unparsed_def cut_buf_def)
qed

lemma on_bytes_arrived:
  assumes "reading c" and "a \<noteq> []" and "m_read_idx c + int (length (a @ z)) \<le> int READ_BUFFER_SIZE"
  shows "on_bytes e (a @ z) c w = read_loop e LINE_OK
    (more (z @ drop (nat (m_read_idx c) + length (a @ z)) (m_read_buf c)) (m_read_idx c + int (length (a @ z)))
      (arrived a c)) w"
proof -
  have "more (a @ y) i (cut_buf c) = more y i (arrived a c)" for y i by (simp add: arrived_def more_def)
  then show ?thesis using on_bytes_reading [OF assms(1) _ assms(3)] assms(2) by simp
qed

text \<open>
  Two runs have the same outcome when they give the same, or both refuse the request, with the
  connections alike but for the bytes that have been read.
\<close>

definition same_outcome :: "(HTTP_CODE \<times> http_conn \<times> web) res \<Rightarrow> (HTTP_CODE \<times> http_conn \<times> web) res \<Rightarrow> bool" where
  "same_outcome x y = (x = y \<or> (case (x, y) of
     (Inr (ret, c, w), Inr (ret', c', w')) \<Rightarrow> ret = BAD_REQUEST \<and> ret' = BAD_REQUEST \<and> w' = w
        \<and> c' = c\<lparr>m_read_buf := m_read_buf c', m_read_idx := m_read_idx c'\<rparr>
   | _ \<Rightarrow> False))"

lemma first_piece:
  assumes "reading c" and "a \<noteq> []" and "m_read_idx c + int (length (a @ z)) \<le> int READ_BUFFER_SIZE"
    and "no_blank_line (m_check_state c) (unparsed c @ a)"
  shows "(\<exists>c1 w1. on_bytes e a c w = Inr (NO_REQUEST, c1, w1) \<and> m_check_state c1 \<noteq> CHECK_STATE_CONTENT)
    \<or> same_outcome (on_bytes e a c w) (on_bytes e (a @ z) c w)
      \<and> (\<forall>c1 w1. on_bytes e a c w \<noteq> Inr (NO_REQUEST, c1, w1))"
proof -
  let ?c = "arrived a c"
  note ar = arrived_reading [OF assms(1), of a]
  have fit: "m_read_idx c + int (length (a @ [])) \<le> int READ_BUFFER_SIZE" using assms(3) by simp
  note on = on_bytes_arrived [OF assms(1,2,3), of e w] on_bytes_arrived [OF assms(1,2) fit, of e w]
  have le: "m_read_idx ?c \<le> m_read_idx c + int (length (a @ z))" "m_read_idx ?c \<le> m_read_idx c + int (length (a @ []))"
    using ar(3) by simp_all
  have "m_check_state ?c \<noteq> CHECK_STATE_CONTENT" using ar(2) readingD(5) [OF assms(1)] by simp
  from read_loop_header [OF ar(1) this, of e w] ar(2,4) assms(4) consider
    (fault) x where "\<forall>y j st. m_read_idx ?c \<le> j \<longrightarrow> read_loop e st (more y j ?c) w = Inl x"
  | (bad) d w1 where "\<forall>y j st. m_read_idx ?c \<le> j \<longrightarrow> read_loop e st (more y j ?c) w = Inr (BAD_REQUEST, more y j d, w1)"
  | (on) d w1 where "m_check_state d \<noteq> CHECK_STATE_CONTENT"
      "\<forall>y st. read_loop e st (more y (m_read_idx ?c) ?c) w = Inr (NO_REQUEST, more y (m_read_idx ?c) d, w1)"
    by auto
  then show ?thesis
  proof cases
    case fault
    then have "on_bytes e a c w = Inl x" "on_bytes e (a @ z) c w = Inl x" using on le by auto
    then show ?thesis by (simp add: same_outcome_def)
  next
    case bad
    then obtain y j y' j' where "on_bytes e a c w = Inr (BAD_REQUEST, more y j d, w1)"
      "on_bytes e (a @ z) c w = Inr (BAD_REQUEST, more y' j' d, w1)" using on le by auto
    then show ?thesis by (simp add: same_outcome_def more_def)
  next
    case on': on
    then obtain y j where "on_bytes e a c w = Inr (NO_REQUEST, more y j d, w1)" using on(2) ar(3) by auto
    then show ?thesis using on'(1) by auto
  qed
qed

text \<open>
  C12. However a request is cut into pieces, as long as it fits the buffer and the empty line
  that ends the header does not come before the last piece, the outcome is that of one \<open>recv\<close>
  that brings all the bytes. That is the same fault, or the same answer code, connection and shared
  state; where an early piece already holds a request line that is refused, the rest is not
  waited for, the code and the shared state are the same, and so is the connection but for the
  bytes it has read. What is asked is asked of the bytes: up to the last piece, no NUL and no empty
  line.
\<close>

theorem pieces_do_not_matter:
  assumes "reading c" and "as \<noteq> []" and "[] \<notin> set as"
    and "m_read_idx c + int (length (concat as)) \<le> int READ_BUFFER_SIZE"
    and "no_blank_line (m_check_state c) (unparsed c @ concat (butlast as))"
  shows "same_outcome (feed e as c w) (on_bytes e (concat as) c w)"
  using assms(2-)
proof (induction "length as" arbitrary: as)
  case (Suc n)
  then obtain a as' where as: "as = a # as'" by (cases as) auto
  show ?case
  proof (cases as')
    case Nil
    then show ?thesis by (cases "on_bytes e a c w") (auto simp: as same_outcome_def)
  next
    case (Cons b rest)
    have a: "a \<noteq> []" "b \<noteq> []" using Suc.prems(2) by (auto simp: as Cons)
    have fit: "m_read_idx c + int (length (a @ concat as')) \<le> int READ_BUFFER_SIZE"
      "m_read_idx c + int (length a + length b) \<le> int READ_BUFFER_SIZE"
      using Suc.prems(3) by (simp_all add: as Cons)
    have nb: "no_blank_line (m_check_state c) (unparsed c @ a)"
      using Suc.prems(4) no_blank_line_prefix [of _ "unparsed c @ a"] by (simp add: as Cons)
    from first_piece [OF assms(1) a(1) fit(1) nb, of e w] show ?thesis
    proof (elim disjE exE conjE)
      fix c1 w1 assume 1: "on_bytes e a c w = Inr (NO_REQUEST, c1, w1)" "m_check_state c1 \<noteq> CHECK_STATE_CONTENT"
      have "feed e as c w = feed e ((a @ b) # rest) c w"
        using two_pieces(3) [OF assms(1) a fit(2) 1] 1(1) by (simp add: as Cons)
      moreover have "no_blank_line (m_check_state c) (unparsed c @ concat (butlast ((a @ b) # rest)))"
        using Suc.prems(4) no_blank_line_prefix [of _ "unparsed c"] by (auto simp: as Cons)
      ultimately show ?thesis
        using Suc.hyps(1) [of "(a @ b) # rest"] Suc.hyps(2) Suc.prems(2,3) a by (simp add: as Cons)
    next
      assume 1: "same_outcome (on_bytes e a c w) (on_bytes e (a @ concat as') c w)"
        "\<forall>c1 w1. on_bytes e a c w \<noteq> Inr (NO_REQUEST, c1, w1)"
      then have "feed e as c w = on_bytes e a c w" by (cases "on_bytes e a c w") (auto simp: as)
      with 1(1) show ?thesis by (simp add: as)
    qed
  qed
qed simp

lemma reading_init: "reading (http_init0 c)"
  by (simp add: reading_def tight_def cut_buf_def http_init0_def)

subsection \<open>A small site\<close>

definition hello_page :: string where "hello_page = doc_root @ ''/a.html''"

definition site_env :: env where
  "site_env = \<lparr>en_now = \<lambda>_. may_10, en_fopen = \<lambda>_. True,
     en_stat = \<lambda>f. if f = hello_page then Some \<lparr>st_mode = 0x81A4, st_size = 5\<rparr> else None,
     en_open = \<lambda>f. if f = hello_page then Some ''hello'' else None,
     en_query = \<lambda>_ _. 0\<rparr>"

definition site_web :: web where
  "site_web = \<lparr>wb_flags = (\<lambda>_. None)(7 := Some 0), wb_interest = (\<lambda>_. None)(7 := Some EV_IN),
     wb_sent = \<lambda>_. [], m_user_count = 1, users = (\<lambda>_. None)(''ann'' := Some ''pw''), m_lock = False,
     wb_queries = [], wb_log = log_at_may_10, wb_clock = 0\<rparr>"

definition site_conn :: http_conn where
  "site_conn = http_init0 (idle_conn\<lparr>m_sockfd := 7\<rparr>)"

lemma site_conn_reading: "reading site_conn"
  by (simp add: site_conn_def reading_init)

lemma pieces_do_not_matter_witness:
  "same_outcome (feed site_env [''GET /a.h'', ''tml HTTP/1.1'' @ crlf, crlf] site_conn site_web)
     (on_bytes site_env (''GET /a.html HTTP/1.1'' @ crlf @ crlf) site_conn site_web)"
proof -
  let ?as = "[''GET /a.h'', ''tml HTTP/1.1'' @ crlf, crlf]"
  have c: "m_read_idx site_conn = 0" "m_check_state site_conn = CHECK_STATE_REQUESTLINE" "unparsed site_conn = []"
    by (simp_all add: site_conn_def http_init0_def unparsed_def)
  have "no_blank_line CHECK_STATE_REQUESTLINE (''GET /a.html HTTP/1.1'' @ crlf)"
    by (simp add: no_blank_line_def nul_free_def sublist_code)
  then have "same_outcome (feed site_env ?as site_conn site_web) (on_bytes site_env (concat ?as) site_conn site_web)"
    using c by (intro pieces_do_not_matter site_conn_reading) (simp_all add: READ_BUFFER_SIZE_def)
  then show ?thesis by simp
qed

end
