(* ===== verification/V3_HttpGet.thy ===== *)
theory V3_HttpGet
  imports V3_HttpHeader V3_HttpChunk
begin

section \<open>version\_03: a request from its bytes to \<open>do_request\<close>\<close>

text \<open>
  A well-formed request that is all in the buffer: the loop of \<open>process_read\<close> goes through
  the request line, the headers and the blank line, and calls \<open>do_request\<close> on a connection
  that has the target, whether the connection is kept, and the body.
\<close>

subsection \<open>The headers\<close>

definition hdr_ok :: "string \<Rightarrow> bool" where
  "hdr_ok h = (h \<noteq> [] \<and> plain_text h \<and> length h \<le> 1943)"

definition hdr_apply :: "nat \<Rightarrow> string \<Rightarrow> http_conn \<Rightarrow> http_conn" where
  "hdr_apply t h c =
     (if strncasecmp_eq h ''Connection:'' 11 then
        if strcasecmp_eq (header_value ''Connection:'' h) ''keep-alive'' then c\<lparr>m_linger := True\<rparr> else c
      else if strncasecmp_eq h ''Content-length:'' 15 then
        c\<lparr>m_content_length := int_of_long (atol (header_value ''Content-length:'' h))\<rparr>
      else if strncasecmp_eq h ''Host:'' 5 then c\<lparr>m_host := Some (t + 5 + strspn blanks (drop 5 h))\<rparr>
      else c)"

fun apply_hdrs :: "nat \<Rightarrow> string list \<Rightarrow> http_conn \<Rightarrow> http_conn" where
  "apply_hdrs t [] c = c"
| "apply_hdrs t (h # hs) c = apply_hdrs (t + length h + 2) hs (hdr_apply t h c)"

lemma hdr_apply_upd [simp]:
  "hdr_apply t h (c\<lparr>m_read_buf := b\<rparr>) = (hdr_apply t h c)\<lparr>m_read_buf := b\<rparr>"
  "hdr_apply t h (c\<lparr>m_checked_idx := i\<rparr>) = (hdr_apply t h c)\<lparr>m_checked_idx := i\<rparr>"
  "hdr_apply t h (c\<lparr>m_start_line := i\<rparr>) = (hdr_apply t h c)\<lparr>m_start_line := i\<rparr>"
  by (simp_all add: hdr_apply_def)

lemma apply_hdrs_upd [simp]:
  "apply_hdrs t hs (c\<lparr>m_read_buf := b\<rparr>) = (apply_hdrs t hs c)\<lparr>m_read_buf := b\<rparr>"
  "apply_hdrs t hs (c\<lparr>m_checked_idx := i\<rparr>) = (apply_hdrs t hs c)\<lparr>m_checked_idx := i\<rparr>"
  "apply_hdrs t hs (c\<lparr>m_start_line := i\<rparr>) = (apply_hdrs t hs c)\<lparr>m_start_line := i\<rparr>"
  by (induction hs arbitrary: t c) simp_all

text \<open>A header changes the three members below and no other.\<close>

definition hdr_step :: "http_conn \<Rightarrow> http_conn \<Rightarrow> bool" where
  "hdr_step c c' = (c' = c\<lparr>m_linger := m_linger c', m_content_length := m_content_length c', m_host := m_host c'\<rparr>)"

lemma hdr_step_trans: "hdr_step a b \<Longrightarrow> hdr_step b c \<Longrightarrow> hdr_step a c"
  unfolding hdr_step_def by (cases a; cases b; cases c; simp)

lemma hdr_step_apply: "hdr_step c (apply_hdrs t hs c)"
proof (induction hs arbitrary: t c)
  case (Cons h hs)
  have "hdr_step c (hdr_apply t h c)" by (cases c) (simp add: hdr_apply_def hdr_step_def)
  from hdr_step_trans [OF this Cons.IH] show ?case by simp
qed (simp add: hdr_step_def)

lemma hdr_step_fields:
  assumes "hdr_step c c'"
  shows "m_read_buf c' = m_read_buf c" "m_read_idx c' = m_read_idx c" "m_checked_idx c' = m_checked_idx c"
    "m_start_line c' = m_start_line c" "m_check_state c' = m_check_state c" "m_url c' = m_url c"
    "cgi c' = cgi c" "m_real_file c' = m_real_file c" "m_sockfd c' = m_sockfd c"
    "m_write_buf c' = m_write_buf c" "m_write_idx c' = m_write_idx c" "mysql c' = mysql c"
    "bytes_have_send c' = bytes_have_send c" "m_string c' = m_string c" "m_method c' = m_method c"
proof -
  note e = arg_cong [OF assms [unfolded hdr_step_def]]
  show "m_read_buf c' = m_read_buf c" using e [of m_read_buf] by simp
  show "m_read_idx c' = m_read_idx c" using e [of m_read_idx] by simp
  show "m_checked_idx c' = m_checked_idx c" using e [of m_checked_idx] by simp
  show "m_start_line c' = m_start_line c" using e [of m_start_line] by simp
  show "m_check_state c' = m_check_state c" using e [of m_check_state] by simp
  show "m_url c' = m_url c" using e [of m_url] by simp
  show "cgi c' = cgi c" using e [of cgi] by simp
  show "m_real_file c' = m_real_file c" using e [of m_real_file] by simp
  show "m_sockfd c' = m_sockfd c" using e [of m_sockfd] by simp
  show "m_write_buf c' = m_write_buf c" using e [of m_write_buf] by simp
  show "m_write_idx c' = m_write_idx c" using e [of m_write_idx] by simp
  show "mysql c' = mysql c" using e [of mysql] by simp
  show "bytes_have_send c' = bytes_have_send c" using e [of bytes_have_send] by simp
  show "m_string c' = m_string c" using e [of m_string] by simp
  show "m_method c' = m_method c" using e [of m_method] by simp
qed

lemmas apply_hdrs_fields [simp] = hdr_step_fields [OF hdr_step_apply]

lemma parse_headers_one:
  assumes "cstr (m_read_buf c) t = Inr h" and "hdr_ok h" and "log_ready e w (Suc k)"
  shows "\<exists>w'. parse_headers e t c w = Inr (NO_REQUEST, hdr_apply t h c, w')
    \<and> log_ready e w' k \<and> same_but_log w w'"
proof -
  have h: "h \<noteq> []" "nul_free (''oop!unknow header: '' @ h)" "length (''oop!unknow header: '' @ h) \<le> 1962"
    using assms(2) by (simp_all add: hdr_ok_def plain_text_def)
  obtain w' where w': "LOG_INFO_flush e (''oop!unknow header: '' @ h) w = Inr w'" "log_ready e w' k"
    "same_but_log w w'"
    using LOG_INFO_flush_ok [OF assms(3) h(2,3)] by blast
  have keep: "log_ready e w k" using assms(3) by (rule log_ready_mono) simp
  consider "strncasecmp_eq h ''Connection:'' 11 \<or> strncasecmp_eq h ''Content-length:'' 15 \<or> strncasecmp_eq h ''Host:'' 5"
    | "\<not> strncasecmp_eq h ''Connection:'' 11" "\<not> strncasecmp_eq h ''Content-length:'' 15" "\<not> strncasecmp_eq h ''Host:'' 5"
    by blast
  then show ?thesis
  proof cases
    case 1
    then have "parse_headers e t c w = Inr (NO_REQUEST, hdr_apply t h c, w)"
      using assms(1) h(1) by (auto simp: parse_headers_def hdr_apply_def)
    then show ?thesis using keep by simp
  next
    case 2
    then have "parse_headers e t c w = Inr (NO_REQUEST, hdr_apply t h c, w')"
      using assms(1) h(1) w'(1) by (simp add: parse_headers_def hdr_apply_def)
    then show ?thesis using w' by simp
  qed
qed

text \<open>A connection that has taken the line \<open>s\<close>, which stood behind \<open>pre\<close>.\<close>

definition took_line :: "string \<Rightarrow> string \<Rightarrow> string \<Rightarrow> http_conn \<Rightarrow> http_conn" where
  "took_line pre s rest c = c\<lparr>m_read_buf := pre @ s @ NUL # NUL # rest,
     m_checked_idx := int (length pre + length s + 2), m_start_line := int (length pre + length s + 2)\<rparr>"

definition at_line :: "string \<Rightarrow> string \<Rightarrow> string \<Rightarrow> http_conn \<Rightarrow> bool" where
  "at_line pre s rest c =
     (m_read_buf c = pre @ s @ CR # LF # rest \<and> m_checked_idx c = int (length pre)
      \<and> m_start_line c = int (length pre) \<and> int (length pre + length s + 2) \<le> m_read_idx c \<and> plain_text s)"

lemma read_loop_at_line:
  assumes "at_line pre s rest c" and "m_check_state c \<noteq> CHECK_STATE_CONTENT"
    and "LOG_INFO_flush e s w = Inr w1"
  shows "read_loop e LINE_OK c w =
    bindr (header_turn e (length pre) (took_line pre s rest c) w1) (\<lambda>(ret, c', w).
    if ret = BAD_REQUEST then Inr (BAD_REQUEST, c', w)
    else if m_check_state c = CHECK_STATE_HEADER \<and> ret = GET_REQUEST then do_request e c' w
    else read_loop e LINE_OK c' w)"
proof -
  have a: "m_read_buf c = pre @ s @ CR # LF # rest" "m_checked_idx c = int (length pre)"
    "m_start_line c = int (length pre)" "int (length pre + length s + 2) \<le> m_read_idx c"
    "nul_free s" "CR \<notin> set s" "LF \<notin> set s"
    using assms(1) by (auto simp: at_line_def plain_text_def)
  let ?d = "c\<lparr>m_read_buf := pre @ s @ NUL # NUL # rest, m_checked_idx := int (length pre + length s + 2)\<rparr>"
  have "parse_line c = Inr (LINE_OK, ?d)" using a by (intro parse_line_at)
  moreover have "cstr (m_read_buf ?d) (get_line_at ?d) = Inr s"
    using a(3,5) cstr_held_at [of s pre "NUL # rest"] by (simp add: get_line_at_def)
  moreover have "get_line_at ?d = length pre" using a(3) by (simp add: get_line_at_def)
  moreover have "?d\<lparr>m_start_line := m_checked_idx ?d\<rparr> = took_line pre s rest c"
    by (simp add: took_line_def)
  ultimately show ?thesis
    using read_loop_line [where c = c and d = ?d and s = s and e = e and w = w and st = LINE_OK] assms(2,3) by (simp cong: if_cong)
qed

lemma header_line:
  assumes "at_line pre h rest c" and "m_check_state c = CHECK_STATE_HEADER" and "hdr_ok h"
    and "log_ready e w (Suc (Suc k))"
  shows "\<exists>w'. read_loop e LINE_OK c w
      = read_loop e LINE_OK (took_line pre h rest (hdr_apply (length pre) h c)) w'
    \<and> log_ready e w' k \<and> same_but_log w w'"
proof -
  have h: "nul_free h" "length h \<le> 1962" using assms(3) by (simp_all add: hdr_ok_def plain_text_def)
  obtain w1 where w1: "LOG_INFO_flush e h w = Inr w1" "log_ready e w1 (Suc k)" "same_but_log w w1"
    using LOG_INFO_flush_ok [OF assms(4) h] by blast
  let ?d = "took_line pre h rest c"
  have "cstr (m_read_buf ?d) (length pre) = Inr h"
    using cstr_held_at [OF h(1), of pre "NUL # rest"] by (simp add: took_line_def)
  from parse_headers_one [OF this assms(3) w1(2)] obtain w' where
    w': "parse_headers e (length pre) ?d w1 = Inr (NO_REQUEST, hdr_apply (length pre) h ?d, w')"
    "log_ready e w' k" "same_but_log w1 w'" by blast
  have "header_turn e (length pre) ?d w1
      = Inr (NO_REQUEST, took_line pre h rest (hdr_apply (length pre) h c), w')"
    using w'(1) assms(2) by (simp add: header_turn_def took_line_def)
  with read_loop_at_line [OF assms(1) _ w1(1)] assms(2) w' same_but_log_trans [OF w1(3) w'(3)]
  show ?thesis by auto
qed

lemma blank_line:
  assumes "at_line pre [] rest c" and "m_check_state c = CHECK_STATE_HEADER" and "log_ready e w (Suc k)"
  shows "\<exists>w'. log_ready e w' k \<and> same_but_log w w' \<and> read_loop e LINE_OK c w =
    (if m_content_length c = 0 then do_request e (took_line pre [] rest c) w'
     else read_loop e LINE_OK ((took_line pre [] rest c)\<lparr>m_check_state := CHECK_STATE_CONTENT\<rparr>) w')"
proof -
  obtain w1 where w1: "LOG_INFO_flush e [] w = Inr w1" "log_ready e w1 k" "same_but_log w w1"
    using LOG_INFO_flush_ok [OF assms(3), of "[]"] by auto
  let ?d = "took_line pre [] rest c"
  have "cstr (m_read_buf ?d) (length pre) = Inr []"
    using cstr_held_at [of "[]" pre "NUL # rest"] by (simp add: took_line_def)
  then have "parse_headers e (length pre) ?d w1 = Inr (if m_content_length c = 0 then (GET_REQUEST, ?d, w1)
      else (NO_REQUEST, ?d\<lparr>m_check_state := CHECK_STATE_CONTENT\<rparr>, w1))"
    by (simp add: parse_headers_def took_line_def)
  then show ?thesis using read_loop_at_line [OF assms(1) _ w1(1)] assms(2) w1
    by (auto simp: header_turn_def took_line_def intro!: exI [of _ w1])
qed

text \<open>All headers and the blank line; \<open>cut_lines\<close> is what stands in their place afterwards.\<close>

definition header_lines :: "string list \<Rightarrow> string" where
  "header_lines hs = concat (map (\<lambda>h. h @ crlf) hs)"

definition cut_lines :: "string list \<Rightarrow> string" where
  "cut_lines hs = concat (map (\<lambda>h. h @ [NUL, NUL]) hs)"

lemma length_cut_lines: "length (cut_lines hs) = length (header_lines hs)"
  by (induction hs) (simp_all add: cut_lines_def header_lines_def)

lemma headers_loop:
  assumes "m_read_buf c = pre @ header_lines hs @ crlf @ rest" and "m_checked_idx c = int (length pre)"
    and "m_start_line c = int (length pre)" and "int (length pre + length (header_lines hs) + 2) \<le> m_read_idx c"
    and "m_check_state c = CHECK_STATE_HEADER" and "\<forall>h\<in>set hs. hdr_ok h"
    and "log_ready e w (2 * length hs + 1 + k)"
  shows "\<exists>w'. log_ready e w' k \<and> same_but_log w w' \<and> read_loop e LINE_OK c w =
    (let d = took_line (pre @ cut_lines hs) [] rest (apply_hdrs (length pre) hs c) in
     if m_content_length d = 0 then do_request e d w'
     else read_loop e LINE_OK (d\<lparr>m_check_state := CHECK_STATE_CONTENT\<rparr>) w')"
  using assms
proof (induction hs arbitrary: pre c w)
  case Nil
  then show ?case using blank_line [of pre rest c e w k]
    by (auto simp: at_line_def header_lines_def cut_lines_def plain_text_def took_line_def)
next
  case (Cons h hs)
  let ?rest = "header_lines hs @ crlf @ rest" and ?k = "2 * length hs + 1 + k"
  have h: "hdr_ok h" "plain_text h" using Cons.prems(6) by (simp_all add: hdr_ok_def)
  have "at_line pre h ?rest c"
    using Cons.prems(1-4) h(2) by (simp add: at_line_def header_lines_def)
  moreover have "log_ready e w (Suc (Suc ?k))" using Cons.prems(7) by simp
  ultimately obtain w1 where w1: "read_loop e LINE_OK c w
      = read_loop e LINE_OK (took_line pre h ?rest (hdr_apply (length pre) h c)) w1"
    "log_ready e w1 ?k" "same_but_log w w1"
    using header_line [OF _ Cons.prems(5) h(1)] by blast
  let ?c = "took_line pre h ?rest (hdr_apply (length pre) h c)" and ?pre = "pre @ h @ [NUL, NUL]"
  have f: "m_read_idx ?c = m_read_idx c" "m_check_state ?c = CHECK_STATE_HEADER"
    using apply_hdrs_fields(2,5) [of "length pre" "[h]" c] Cons.prems(5) by (simp_all add: took_line_def)
  have "\<exists>w'. log_ready e w' k \<and> same_but_log w1 w' \<and> read_loop e LINE_OK ?c w1 =
    (let d = took_line (?pre @ cut_lines hs) [] rest (apply_hdrs (length ?pre) hs ?c) in
     if m_content_length d = 0 then do_request e d w'
     else read_loop e LINE_OK (d\<lparr>m_check_state := CHECK_STATE_CONTENT\<rparr>) w')"
  proof (rule Cons.IH)
    show "m_read_buf ?c = ?pre @ header_lines hs @ crlf @ rest" by (simp add: took_line_def)
    show "m_checked_idx ?c = int (length ?pre)" "m_start_line ?c = int (length ?pre)"
      by (simp_all add: took_line_def)
    show "int (length ?pre + length (header_lines hs) + 2) \<le> m_read_idx ?c"
      using Cons.prems(4) f(1) by (simp add: header_lines_def)
  qed (use f Cons.prems(6) w1(2) in simp_all)
  then obtain w' where "log_ready e w' k" "same_but_log w1 w'" "read_loop e LINE_OK ?c w1 =
    (let d = took_line (?pre @ cut_lines hs) [] rest (apply_hdrs (length ?pre) hs ?c) in
     if m_content_length d = 0 then do_request e d w'
     else read_loop e LINE_OK (d\<lparr>m_check_state := CHECK_STATE_CONTENT\<rparr>) w')" by blast
  moreover have "took_line (?pre @ cut_lines hs) [] rest (apply_hdrs (length ?pre) hs ?c)
      = took_line (pre @ cut_lines (h # hs)) [] rest (apply_hdrs (length pre) (h # hs) c)"
    by (simp add: took_line_def cut_lines_def add.assoc)
  ultimately show ?case using w1 same_but_log_trans [OF w1(3)] by (auto simp: Let_def)
qed

subsection \<open>What the headers say\<close>

definition keep_alive_hdr :: "string \<Rightarrow> bool" where
  "keep_alive_hdr h = (strncasecmp_eq h ''Connection:'' 11
     \<and> strcasecmp_eq (header_value ''Connection:'' h) ''keep-alive'')"

definition linger_of :: "string list \<Rightarrow> bool" where
  "linger_of hs = list_ex keep_alive_hdr hs"

fun content_length_of :: "int \<Rightarrow> string list \<Rightarrow> int" where
  "content_length_of n [] = n"
| "content_length_of n (h # hs) =
     content_length_of (if strncasecmp_eq h ''Content-length:'' 15
       then int_of_long (atol (header_value ''Content-length:'' h)) else n) hs"

lemma length_is_not_connection:
  assumes "strncasecmp_eq h ''Content-length:'' 15"
  shows "\<not> strncasecmp_eq h ''Connection:'' 11"
proof
  assume c: "strncasecmp_eq h ''Connection:'' 11"
  have "map tolower (take 11 (take 15 h)) = map tolower (take 11 (take 15 ''Content-length:''))"
    using arg_cong [OF assms [unfolded strncasecmp_eq_def], of "take 11"] by (simp only: take_map)
  with c show False unfolding strncasecmp_eq_def take_take by (simp add: min_def) code_simp
qed

lemma hdr_apply_says:
  "m_linger (hdr_apply t h c) = (keep_alive_hdr h \<or> m_linger c)"
  "m_content_length (hdr_apply t h c) = content_length_of (m_content_length c) [h]"
  using length_is_not_connection [of h] by (auto simp: hdr_apply_def keep_alive_hdr_def)

lemma apply_hdrs_says:
  "m_linger (apply_hdrs t hs c) = (linger_of hs \<or> m_linger c)"
  "m_content_length (apply_hdrs t hs c) = content_length_of (m_content_length c) hs"
  by (induction hs arbitrary: t c) (auto simp: linger_of_def hdr_apply_says)

subsection \<open>The request line and the headers\<close>

text \<open>
  \<open>d\<close> is \<open>c\<close> after the lines of a request have been read: where the body starts, the target
  and what the headers said.
\<close>

definition head_read :: "http_conn \<Rightarrow> string \<Rightarrow> string list \<Rightarrow> METHOD \<Rightarrow> string \<Rightarrow> http_conn \<Rightarrow> bool" where
  "head_read c line hs meth target d =
     (let n = length line + 2 + length (header_lines hs) + 2 in
      m_checked_idx d = int n \<and> m_start_line d = int n \<and> m_read_idx d = m_read_idx c
      \<and> length (m_read_buf d) = length (m_read_buf c) \<and> drop n (m_read_buf d) = drop n (m_read_buf c)
      \<and> (\<exists>q. m_url d = Some q \<and> cstr (m_read_buf d) q = Inr target \<and> q + length target < length line + 2)
      \<and> cgi d = (if meth = POST then 1 else cgi c) \<and> m_method d = meth
      \<and> m_linger d = (linger_of hs \<or> m_linger c)
      \<and> m_content_length d = content_length_of (m_content_length c) hs
      \<and> m_check_state d = CHECK_STATE_HEADER
      \<and> m_real_file d = m_real_file c \<and> m_sockfd d = m_sockfd c \<and> m_string d = m_string c
      \<and> m_write_buf d = m_write_buf c \<and> m_write_idx d = m_write_idx c \<and> mysql d = mysql c
      \<and> bytes_have_send d = bytes_have_send c)"

definition head_in_buffer :: "string \<Rightarrow> string list \<Rightarrow> string \<Rightarrow> http_conn \<Rightarrow> bool" where
  "head_in_buffer line hs rest c =
     (m_read_buf c = line @ crlf @ header_lines hs @ crlf @ rest \<and> m_checked_idx c = 0 \<and> m_start_line c = 0
      \<and> int (length line + 2 + length (header_lines hs) + 2) \<le> m_read_idx c
      \<and> m_check_state c = CHECK_STATE_REQUESTLINE
      \<and> plain_text line \<and> length line \<le> 1962 \<and> (\<forall>h\<in>set hs. hdr_ok h))"

lemma line_parsed_fields:
  assumes "line_parsed c c'"
  shows "m_read_idx c' = m_read_idx c" "m_checked_idx c' = m_checked_idx c" "m_start_line c' = m_start_line c"
    "m_linger c' = m_linger c" "m_content_length c' = m_content_length c" "m_real_file c' = m_real_file c"
    "m_sockfd c' = m_sockfd c" "m_write_buf c' = m_write_buf c" "m_write_idx c' = m_write_idx c"
    "mysql c' = mysql c" "bytes_have_send c' = bytes_have_send c" "m_string c' = m_string c"
proof -
  note e = arg_cong [OF assms [unfolded line_parsed_def]]
  show "m_read_idx c' = m_read_idx c" using e [of m_read_idx] by simp
  show "m_checked_idx c' = m_checked_idx c" using e [of m_checked_idx] by simp
  show "m_start_line c' = m_start_line c" using e [of m_start_line] by simp
  show "m_linger c' = m_linger c" using e [of m_linger] by simp
  show "m_content_length c' = m_content_length c" using e [of m_content_length] by simp
  show "m_real_file c' = m_real_file c" using e [of m_real_file] by simp
  show "m_sockfd c' = m_sockfd c" using e [of m_sockfd] by simp
  show "m_write_buf c' = m_write_buf c" using e [of m_write_buf] by simp
  show "m_write_idx c' = m_write_idx c" using e [of m_write_idx] by simp
  show "mysql c' = mysql c" using e [of mysql] by simp
  show "bytes_have_send c' = bytes_have_send c" using e [of bytes_have_send] by simp
  show "m_string c' = m_string c" using e [of m_string] by simp
qed

lemma cstr_before:
  assumes "cstr (p @ r) q = Inr s" and "q + length s < length p"
  shows "cstr (p @ r') q = Inr s"
proof -
  obtain z where z: "drop q (p @ r) = s @ NUL # z" and n: "nul_free s" using cstr_split [OF assms(1)] by auto
  have "take (length s + 1) (drop q p) = take (length s + 1) (drop q (p @ r))" using assms(2) by simp
  then have "take (length s + 1) (drop q p) = s @ [NUL]" unfolding z by simp
  then have "drop q p = s @ NUL # drop (length s + 1) (drop q p)"
    by (metis append.assoc append_Cons append_Nil append_take_drop_id)
  moreover have "p = take q p @ drop q p" "length (take q p) = q" using assms(2) by simp_all
  ultimately have "p @ r' = take q p @ s @ NUL # drop (length s + 1) (drop q p) @ r'"
    by (metis append.assoc append_Cons)
  then show ?thesis using cstr_held_at [OF n, of "take q p"] \<open>length (take q p) = q\<close> by metis
qed

lemma only_within_split:
  assumes "only_within 0 j (p @ r) b" and "length p = j"
  obtains p' where "b = p' @ r" "length p' = j"
proof
  have "drop j b = r" "length b = length (p @ r)" using assms by (simp_all add: only_within_def)
  then show "b = take j b @ r" "length (take j b) = j"
    using assms(2) append_take_drop_id [of j b] by simp_all
qed

text \<open>The request line is taken, and the rest is as it was.\<close>

lemma request_line_turn:
  assumes h: "head_in_buffer line hs rest c" and r: "request_line_of line = Inr (Some (meth, target))"
    and lg: "log_ready e w (Suc k)"
  shows "\<exists>w1 c1 p q. read_loop e LINE_OK c w = read_loop e LINE_OK c1 w1
    \<and> log_ready e w1 k \<and> same_but_log w w1
    \<and> line_parsed (took_line [] line (header_lines hs @ crlf @ rest) c) c1
    \<and> m_read_buf c1 = p @ header_lines hs @ crlf @ rest \<and> length p = length line + 2
    \<and> m_check_state c1 = CHECK_STATE_HEADER \<and> m_method c1 = meth
    \<and> cgi c1 = (if meth = POST then 1 else cgi c)
    \<and> m_url c1 = Some q \<and> cstr (m_read_buf c1) q = Inr target \<and> q + length target < length line + 2"
proof -
  let ?rest = "header_lines hs @ crlf @ rest"
  have at: "at_line [] line ?rest c" and st: "m_check_state c \<noteq> CHECK_STATE_CONTENT"
    and n: "nul_free line" "length line \<le> 1962" and req: "m_check_state c = CHECK_STATE_REQUESTLINE"
    using h by (simp_all add: head_in_buffer_def at_line_def plain_text_def)
  obtain w1 where w1: "LOG_INFO_flush e line w = Inr w1" "log_ready e w1 k" "same_but_log w w1"
    using LOG_INFO_flush_ok [OF lg n] by blast
  let ?d = "took_line [] line ?rest c"
  have buf: "m_read_buf ?d = (line @ [NUL, NUL]) @ ?rest" by (simp add: took_line_def)
  have "holds (m_read_buf ?d) 0 line"
    using holdsI [OF n(1), of "[]" NUL ?rest] by (simp add: took_line_def)
  from parse_request_line_answered [OF this] r obtain c1 q where
    c1: "parse_request_line 0 ?d = Inr (NO_REQUEST, c1)" "line_parsed ?d c1"
      "only_within 0 (0 + length line + 2) (m_read_buf ?d) (m_read_buf c1)"
      "m_check_state c1 = CHECK_STATE_HEADER" "m_method c1 = meth" "cgi c1 = (if meth = POST then 1 else cgi c)"
      "m_url c1 = Some q" "cstr (m_read_buf c1) q = Inr target" "q + length target < 0 + length line + 2"
    by (auto simp: line_answered_def took_line_def)
  obtain p where p: "m_read_buf c1 = p @ ?rest" "length p = length line + 2"
    using c1(3) unfolding buf by (rule only_within_split [where p = "line @ [NUL, NUL]"]) simp_all
  have "read_loop e LINE_OK c w = read_loop e LINE_OK c1 w1"
    using read_loop_at_line [OF at st w1(1)] c1(1) req by (simp add: header_turn_def took_line_def)
  with w1 c1 p show ?thesis
    by (intro exI [of _ w1] exI [of _ c1] exI [of _ p] exI [of _ q]) simp
qed

lemma head_loop:
  assumes h: "head_in_buffer line hs rest c" and r: "request_line_of line = Inr (Some (meth, target))"
    and lg: "log_ready e w (2 * length hs + 2 + k)"
  shows "\<exists>w' d. log_ready e w' k \<and> same_but_log w w' \<and> head_read c line hs meth target d
    \<and> process_read e c w = (if m_content_length d = 0 then do_request e d w'
       else read_loop e LINE_OK (d\<lparr>m_check_state := CHECK_STATE_CONTENT\<rparr>) w')"
proof -
  let ?rest = "header_lines hs @ crlf @ rest" and ?k = "2 * length hs + 1 + k"
  have "log_ready e w (Suc ?k)" using lg by simp
  from request_line_turn [OF h r this] obtain w1 c1 p q where
    turn: "read_loop e LINE_OK c w = read_loop e LINE_OK c1 w1" "log_ready e w1 ?k" "same_but_log w w1"
    and lp: "line_parsed (took_line [] line ?rest c) c1"
    and buf: "m_read_buf c1 = p @ ?rest" "length p = length line + 2"
    and c1: "m_check_state c1 = CHECK_STATE_HEADER" "m_method c1 = meth"
      "cgi c1 = (if meth = POST then 1 else cgi c)"
    and url: "m_url c1 = Some q" "cstr (m_read_buf c1) q = Inr target" "q + length target < length line + 2"
    by auto
  note f = line_parsed_fields [OF lp]
  have hb: "m_read_buf c = line @ crlf @ ?rest" and hs: "\<forall>h\<in>set hs. hdr_ok h"
    and ri: "int (length line + 2 + length (header_lines hs) + 2) \<le> m_read_idx c"
    using h by (simp_all add: head_in_buffer_def)
  let ?d = "took_line (p @ cut_lines hs) [] rest (apply_hdrs (length p) hs c1)"
  have "\<exists>w'. log_ready e w' k \<and> same_but_log w1 w' \<and> read_loop e LINE_OK c1 w1 =
    (let d = ?d in
     if m_content_length d = 0 then do_request e d w'
     else read_loop e LINE_OK (d\<lparr>m_check_state := CHECK_STATE_CONTENT\<rparr>) w')"
    using buf ri hs c1(1) turn(2) by (intro headers_loop) (simp_all add: f, simp_all add: took_line_def)
  then obtain w' where w': "log_ready e w' k" "same_but_log w1 w'" "read_loop e LINE_OK c1 w1 =
     (if m_content_length ?d = 0 then do_request e ?d w'
     else read_loop e LINE_OK (?d\<lparr>m_check_state := CHECK_STATE_CONTENT\<rparr>) w')"
    by (auto simp: Let_def)
  have "cstr (m_read_buf ?d) q = Inr target"
    using cstr_before [of p ?rest q target "cut_lines hs @ [NUL, NUL] @ rest"] url(2,3) buf
    by (simp add: took_line_def)
  then have "head_read c line hs meth target ?d"
    using url(1,3) buf(2) c1 hb unfolding head_read_def
    by (simp add: Let_def took_line_def apply_hdrs_says length_cut_lines f [unfolded took_line_def] drop_Cons')
  moreover have "same_but_log w w'" using turn(3) w'(2) by (rule same_but_log_trans)
  ultimately show ?thesis using w'(1,3) turn(1) by (auto simp: process_read_def)
qed

end
