(* ===== verification/V3_HttpTarget.thy ===== *)
theory V3_HttpTarget
  imports V3_HttpGet
begin

section \<open>version\_03: from a target to a file\<close>

text \<open>
  What \<open>do_request\<close> does with a target \<open>t\<close> that has a slash: the path of the file, what
  \<open>stat\<close> makes of it, and for the forms the user table and the page that follows.
\<close>

subsection \<open>The path\<close>

definition last_part_char :: "string \<Rightarrow> char" where
  "last_part_char t = (case strrchr (CHR ''/'') t of None \<Rightarrow> NUL | Some k \<Rightarrow> (t @ [NUL]) ! (k + 1))"

definition path_under_root :: "char \<Rightarrow> string \<Rightarrow> string" where
  "path_under_root ch t = (case page_of ch of Some page \<Rightarrow> page | None \<Rightarrow> take 169 t)"

definition file_of :: "string \<Rightarrow> string" where
  "file_of t = doc_root @ path_under_root (last_part_char t) t"

definition file_code :: "env \<Rightarrow> string \<Rightarrow> HTTP_CODE" where
  "file_code e f =
     (case en_stat e f of
        None \<Rightarrow> NO_RESOURCE
      | Some st \<Rightarrow>
          if and (st_mode st) S_IROTH = 0 then FORBIDDEN_REQUEST
          else if S_ISDIR (st_mode st) then BAD_REQUEST else FILE_REQUEST)"

definition opened :: "env \<Rightarrow> string \<Rightarrow> http_conn \<Rightarrow> http_conn" where
  "opened e f c =
     (case en_stat e f of
        None \<Rightarrow> c
      | Some st \<Rightarrow>
          let c = c\<lparr>m_file_stat := st\<rparr> in
          if file_code e f = FILE_REQUEST then c\<lparr>m_file_address := Some (map_file e f st)\<rparr> else c)"

lemma length_doc_root [simp]: "length doc_root = 30"
  by (simp add: doc_root_def)

lemma nul_free_doc_root [simp]: "nul_free doc_root"
  by (simp add: doc_root_def)

lemma page_of_simps: "page_of ch = Some page \<Longrightarrow> length page < 169 \<and> nul_free page"
  by (auto simp: page_of_def split: if_splits)

lemma path_under_root_length: "length (path_under_root ch t) \<le> 169"
  using page_of_simps [of ch] by (auto simp: path_under_root_def split: option.splits)

lemma path_under_root_nul_free: "nul_free t \<Longrightarrow> nul_free (path_under_root ch t)"
  using page_of_simps [of ch] nul_free_take_drop [of t 169] by (auto simp: path_under_root_def split: option.splits)

lemma open_file_run:
  assumes "cstr (m_real_file c) 0 = Inr f"
  shows "open_file e c = Inr (file_code e f, opened e f c)"
  using assms by (simp add: open_file_def file_code_def opened_def Let_def split: option.splits)

lemma strncpy_root:
  assumes "n \<le> 170" and "length x = 170"
  shows "strncpy (doc_root @ x) 30 s n = Inr (doc_root @ take n s @ replicate (n - length s) NUL @ drop n x)"
proof -
  have "length (take n s @ replicate (n - length s) NUL) = n" by simp
  then show ?thesis using assms unfolding strncpy_def wrs_def by simp
qed

lemma set_real_file_run:
  assumes "m_real_file c = doc_root @ x @ [NUL]" and "length x = 169"
    and "page_of ch = None \<or> x = replicate 169 NUL" and "cstr (m_read_buf c) url = Inr t"
  shows "set_real_file ch url c = Inr (c\<lparr>m_real_file := doc_root @ path_under_root ch t
    @ replicate (170 - length (path_under_root ch t)) NUL\<rparr>)"
proof (cases "page_of ch")
  case None
  have "strncpy (doc_root @ x @ [NUL]) 30 t 169 = Inr (doc_root @ take 169 t @ replicate (169 - length t) NUL @ [NUL])"
    using strncpy_root [where s = t and n = 169 and x = "x @ [NUL]"] assms(2) by simp
  moreover have "replicate (169 - length t) NUL @ [NUL] = replicate (170 - min (length t) 169) NUL"
    by (cases "length t \<le> 169", simp add: replicate_append_same flip: replicate_Suc, simp)
  ultimately show ?thesis using None assms
    by (simp add: set_real_file_def path_under_root_def FILENAME_LEN_def)
next
  case (Some page)
  then have x: "x @ [NUL] = replicate 170 NUL" using assms(3) replicate_append_same [of 169 NUL]
    by (simp add: numeral_eq_Suc)
  have p: "length page < 169" using page_of_simps [OF Some] by simp
  then have "strncpy (doc_root @ x @ [NUL]) 30 page (length page)
      = Inr (doc_root @ page @ replicate (170 - length page) NUL)"
    unfolding x using strncpy_root [where s = page and n = "length page" and x = "replicate 170 NUL"] by simp
  then show ?thesis using Some assms(1) by (simp add: set_real_file_def path_under_root_def)
qed

lemma strcpy_root:
  "strcpy (replicate 200 NUL) doc_root = Inr (doc_root @ replicate 169 NUL @ [NUL])"
  by (simp add: strcpy_fits) (simp add: replicate_append_same flip: replicate_Suc)

lemma rd_last_part:
  assumes "cstr b q = Inr t" and "strrchr (CHR ''/'') t = Some k"
  shows "rd b (int (q + k + 1)) = Inr (last_part_char t)"
proof -
  obtain r where r: "drop q b = t @ NUL # r" "q + length t < length b" using cstr_split [OF assms(1)] by auto
  have k: "k < length t" using strrchr_Some [OF assms(2)] by auto
  have "b ! (q + (k + 1)) = drop q b ! (k + 1)" using r(2) k by (simp add: nth_drop)
  also have "\<dots> = (t @ [NUL]) ! (k + 1)"
    using k unfolding r(1) by (cases "k + 1 = length t") (simp_all add: nth_append)
  finally show ?thesis using r(2) k assms(2)
    by (simp add: rd_nat last_part_char_def add.assoc flip: of_nat_add of_nat_Suc)
qed

text \<open>A request that is no form: the file is opened, the web is left alone.\<close>

lemma do_request_plain:
  assumes "m_url d = Some q" and "cstr (m_read_buf d) q = Inr t" and "CHR ''/'' \<in> set t"
    and "m_real_file d = replicate 200 NUL"
    and "cgi d \<noteq> 1 \<or> last_part_char t \<noteq> CHR ''2'' \<and> last_part_char t \<noteq> CHR ''3''"
  shows "do_request e d w = Inr (file_code e (file_of t),
    opened e (file_of t) (d\<lparr>m_real_file := file_of t @ replicate (200 - length (file_of t)) NUL\<rparr>), w)"
proof -
  let ?ch = "last_part_char t" and ?f = "file_of t"
  obtain k where k: "strrchr (CHR ''/'') t = Some k"
    using assms(3) strrchr_None [of "CHR ''/''" t] by (cases "strrchr (CHR ''/'') t") auto
  let ?d = "d\<lparr>m_real_file := doc_root @ replicate 169 NUL @ [NUL]\<rparr>"
  define d2 where "d2 = d\<lparr>m_real_file := ?f @ replicate (200 - length ?f) NUL\<rparr>"
  have "set_real_file ?ch q ?d = Inr (?d\<lparr>m_real_file := doc_root @ path_under_root ?ch t
      @ replicate (170 - length (path_under_root ?ch t)) NUL\<rparr>)"
    using assms(2) by (intro set_real_file_run [where x = "replicate 169 NUL"]) simp_all
  then have s: "set_real_file ?ch q ?d = Inr d2" by (simp add: file_of_def d2_def)
  have "nul_free ?f" using cstr_split(1) [OF assms(2)] by (simp add: file_of_def path_under_root_nul_free)
  moreover have "\<exists>n. 200 - length ?f = Suc n"
    using path_under_root_length [of ?ch t] by (intro not0_implies_Suc) (simp add: file_of_def)
  ultimately have "cstr (m_real_file d2) 0 = Inr ?f" using cstr_held_at [of ?f "[]"] by (auto simp: d2_def)
  from open_file_run [OF this, of e] show ?thesis
    using assms(1,2,4,5) k s rd_last_part [OF assms(2) k] strcpy_root
    by (cases "cgi d = 1") (simp_all add: do_request_def d2_def [symmetric] Let_def)
qed

end
