(* ===== verification/V3_HttpAnswer.thy ===== *)
theory V3_HttpAnswer
  imports V3_HttpWrite V3_HttpTarget
begin

section \<open>version\_03: the bytes of the answers\<close>

text \<open>
  What \<open>process_write\<close> puts into the write buffer for each result of \<open>process_read\<close>, and
  what \<open>write\<close> sends of it.
\<close>

subsection \<open>The write buffer\<close>

text \<open>A connection whose answer so far is \<open>s\<close>; the rest of the buffer is as \<open>init\<close> left it.\<close>

definition with_answer :: "string \<Rightarrow> http_conn \<Rightarrow> http_conn" where
  "with_answer s c = c\<lparr>m_write_buf := s @ replicate (1024 - length s) NUL, m_write_idx := int (length s)\<rparr>"

lemma with_answer_fields [simp]:
  "m_linger (with_answer s c) = m_linger c" "m_file_stat (with_answer s c) = m_file_stat c"
  "m_write_idx (with_answer s c) = int (length s)" "m_sockfd (with_answer s c) = m_sockfd c"
  by (simp_all add: with_answer_def)

lemma add_response_run:
  assumes "nul_free (s @ t)" and "length s + length t < 1023" and "log_ready e w (Suc k)"
  shows "\<exists>w'. add_response e t (with_answer s c) w = Inr (True, with_answer (s @ t) c, w')
    \<and> log_ready e w' k \<and> same_but_log w w'"
proof -
  let ?c = "with_answer s c" and ?n = "1023 - length s"
  have m: "nul_free (''request:'' @ s @ t)" "length (''request:'' @ s @ t) \<le> 1962"
    using assms(1,2) by simp_all
  obtain w' where w': "LOG_INFO_flush e (''request:'' @ s @ t) w = Inr w'" "log_ready e w' k" "same_but_log w w'"
    using LOG_INFO_flush_ok [OF assms(3) m] by blast
  define b where "b = (s @ t) @ replicate (1024 - length (s @ t)) NUL"
  have "NUL # replicate (1023 - length (s @ t)) NUL = replicate (1024 - length (s @ t)) NUL"
    using assms(2) by (simp flip: replicate_Suc)
  then have v: "vsnprintf (m_write_buf ?c) (length s) ?n t = Inr (b, length t)"
    using assms(2) vsnprintf_fits [of t ?n "length s" "m_write_buf ?c"]
    by (simp add: with_answer_def b_def)
  have r: "nat (int WRITE_BUFFER_SIZE - 1 - m_write_idx ?c) = ?n" "nat (m_write_idx ?c) = length s"
    "\<not> int WRITE_BUFFER_SIZE \<le> m_write_idx ?c" "\<not> ?n \<le> length t"
    using assms(2) by (simp_all add: WRITE_BUFFER_SIZE_def nat_diff_distrib')
  have "cstr b 0 = Inr (s @ t)"
    using cstr_held_at [OF assms(1), of "[]"] assms(2) \<open>NUL # _ = _\<close> by (metis append_Nil b_def list.size(3))
  moreover have "?c\<lparr>m_write_buf := b, m_write_idx := m_write_idx ?c + int (length t)\<rparr> = with_answer (s @ t) c"
    by (simp add: with_answer_def b_def)
  ultimately have "add_response e t ?c w = Inr (True, with_answer (s @ t) c, w')"
    using v r w'(1) by (simp add: add_response_def Let_def)
  with w' show ?thesis by blast
qed

subsection \<open>The pieces together\<close>

definition status_text :: "int \<Rightarrow> string \<Rightarrow> string" where
  "status_text status title = ''HTTP/1.1 '' @ dec_int status @ '' '' @ title @ crlf"

definition fields_text :: "int \<Rightarrow> bool \<Rightarrow> string" where
  "fields_text n linger = ''Content-Length:'' @ dec_int n @ crlf
     @ ''Connection:'' @ (if linger then ''keep-alive'' else ''close'') @ crlf @ crlf"

lemma answer_text_facts [simp]:
  "nul_free (fields_text n linger)" "nul_free (status_text status title) = nul_free title"
  "length (status_text status title) = 12 + length (dec_int status) + length title"
  by (auto simp: fields_text_def status_text_def)

lemma length_fields_text: "length (fields_text n linger) \<le> 42 + length (dec_int n)"
  by (simp add: fields_text_def)

lemma with_answer_again [simp]: "with_answer s (with_answer t c) = with_answer s c"
  by (simp add: with_answer_def)

lemma add_status_line_run:
  assumes "nul_free title" and "length (status_text status title) < 1023" and "log_ready e w (Suc k)"
  shows "\<exists>w'. add_status_line e status title (with_answer [] c) w
      = Inr (True, with_answer (status_text status title) c, w') \<and> log_ready e w' k \<and> same_but_log w w'"
  using add_response_run [of "[]" "status_text status title" e w k c] assms
  by (simp add: add_status_line_def status_text_def)

lemma add_headers_run:
  assumes "nul_free s" and "length s + 42 + length (dec_int n) < 1023" and "log_ready e w (k + 3)"
  shows "\<exists>w'. add_headers e n (with_answer s c) w = Inr (with_answer (s @ fields_text n (m_linger c)) c, w')
    \<and> log_ready e w' k \<and> same_but_log w w'"
proof -
  let ?t1 = "''Content-Length:'' @ dec_int n @ crlf"
  let ?t2 = "''Connection:'' @ (if m_linger c then ''keep-alive'' else ''close'') @ crlf"
  have n: "nul_free (s @ ?t1)" "nul_free ((s @ ?t1) @ ?t2)" "nul_free (((s @ ?t1) @ ?t2) @ crlf)"
    "length s + length ?t1 < 1023" "length (s @ ?t1) + length ?t2 < 1023"
    "length ((s @ ?t1) @ ?t2) + length crlf < 1023"
    "log_ready e w (Suc (k + 2))"
    using assms by (simp_all add: eval_nat_numeral)
  obtain w1 where w1: "add_response e ?t1 (with_answer s c) w = Inr (True, with_answer (s @ ?t1) c, w1)"
    "log_ready e w1 (Suc (k + 1))" "same_but_log w w1"
    using add_response_run [OF n(1,4,7)] by auto
  obtain w2 where w2: "add_response e ?t2 (with_answer (s @ ?t1) c) w1 = Inr (True, with_answer ((s @ ?t1) @ ?t2) c, w2)"
    "log_ready e w2 (Suc k)" "same_but_log w1 w2"
    using add_response_run [OF n(2,5) w1(2)] by auto
  obtain w3 where w3: "add_response e crlf (with_answer ((s @ ?t1) @ ?t2) c) w2
      = Inr (True, with_answer (((s @ ?t1) @ ?t2) @ crlf) c, w3)"
    "log_ready e w3 k" "same_but_log w2 w3"
    using add_response_run [OF n(3,6) w2(2)] by auto
  have "same_but_log w w3" using w1(3) w2(3) w3(3) by (blast intro: same_but_log_trans)
  moreover have "add_headers e n (with_answer s c) w = Inr (with_answer (((s @ ?t1) @ ?t2) @ crlf) c, w3)"
    using w1(1) w2(1) w3(1)
    by (simp add: add_headers_def add_content_length_def add_linger_def add_blank_line_def)
  moreover have "((s @ ?t1) @ ?t2) @ crlf = s @ fields_text n (m_linger c)" by (simp add: fields_text_def)
  ultimately show ?thesis using w3(2) by auto
qed

text \<open>One of the three error pages; \<open>error_text\<close> is the whole answer.\<close>

definition error_text :: "int \<Rightarrow> string \<Rightarrow> string \<Rightarrow> bool \<Rightarrow> string" where
  "error_text status title form linger =
     status_text status title @ fields_text (int (length form)) linger @ form"

lemma answer_parts_run:
  assumes "nul_free title" and "nul_free form" and "length title \<le> 20" and "length form < 100"
    and "0 \<le> status" and "status < 1000" and "log_ready e w (k + 5)"
  obtains w1 w2 w3 where
    "add_status_line e status title (with_answer [] c) w = Inr (True, with_answer (status_text status title) c, w1)"
    "add_headers e (int (length form)) (with_answer (status_text status title) c) w1
      = Inr (with_answer (status_text status title @ fields_text (int (length form)) (m_linger c)) c, w2)"
    "add_content e form (with_answer (status_text status title @ fields_text (int (length form)) (m_linger c)) c) w2
      = Inr (True, with_answer (error_text status title form (m_linger c)) c, w3)"
    "log_ready e w3 k" "same_but_log w w3"
proof -
  have d: "length (dec_int status) \<le> 3" "length (dec_int (int (length form))) \<le> 2"
    using assms(4-6) length_dec_int_le [of status 3] length_dec_int_le [of "int (length form)" 2] by simp_all
  let ?s = "status_text status title" and ?f = "fields_text (int (length form)) (m_linger c)"
  have l: "length ?s < 1023" "length ?s + 42 + length (dec_int (int (length form))) < 1023"
    "length (?s @ ?f) + length form < 1023"
    using d assms(3,4) length_fields_text [of "int (length form)" "m_linger c"] by simp_all
  obtain w1 where w1: "add_status_line e status title (with_answer [] c) w = Inr (True, with_answer ?s c, w1)"
    "log_ready e w1 (Suc k + 3)" "same_but_log w w1"
    using add_status_line_run [OF assms(1) l(1), of e w "Suc k + 3" c] assms(7) by (auto simp: eval_nat_numeral)
  obtain w2 where w2: "add_headers e (int (length form)) (with_answer ?s c) w1 = Inr (with_answer (?s @ ?f) c, w2)"
    "log_ready e w2 (Suc k)" "same_but_log w1 w2"
    using add_headers_run [OF _ l(2) w1(2), of c] assms(1) by auto
  have "nul_free ((?s @ ?f) @ form)" using assms(1,2) by simp
  then obtain w3 where w3: "add_response e form (with_answer (?s @ ?f) c) w2
      = Inr (True, with_answer ((?s @ ?f) @ form) c, w3)" "log_ready e w3 k" "same_but_log w2 w3"
    using add_response_run [OF _ l(3) w2(2)] by blast
  have "same_but_log w w3" using w1(3) w2(3) w3(3) by (blast intro: same_but_log_trans)
  then show thesis using w1(1) w2(1) w3 by (intro that) (simp_all add: add_content_def error_text_def)
qed

lemma error_answer_run:
  assumes "nul_free title" and "nul_free form" and "length title \<le> 20" and "length form < 100"
    and "0 \<le> status" and "status < 1000" and "log_ready e w (k + 5)"
  shows "\<exists>w'. error_answer e status title form (with_answer [] c) w
      = Inr (True, one_iovec (with_answer (error_text status title form (m_linger c)) c), w')
    \<and> log_ready e w' k \<and> same_but_log w w'"
  by (rule answer_parts_run [OF assms, of c]) (auto simp: error_answer_def)

text \<open>The answer for a file of \<open>n\<close> bytes, without the file.\<close>

definition ok_header :: "int \<Rightarrow> bool \<Rightarrow> string" where
  "ok_header n linger = status_text 200 ''OK'' @ fields_text n linger"

definition file_answer :: "http_conn \<Rightarrow> http_conn" where
  "file_answer c =
     (let n = st_size (m_file_stat c); h = ok_header n (m_linger c) in
      (with_answer h c)
        \<lparr>m_iv0 := \<lparr>iov_base = In_buf 0, iov_len = int (length h)\<rparr>,
         m_iv1 := \<lparr>iov_base = In_file 0, iov_len = n\<rparr>, m_iv_count := 2,
         bytes_to_send := int (length h) + n\<rparr>)"

definition small_file :: "file_stat \<Rightarrow> bool" where
  "small_file st = (0 < st_size st \<and> st_size st < 2 ^ 31 - 1024)"

lemma signed_id: "- (2 ^ 31) \<le> v \<Longrightarrow> v < 2 ^ 31 \<Longrightarrow> signed_take_bit 31 v = (v::int)"
  by (rule signed_take_bit_int_eq_self) simp_all

lemma ok_header_length: "0 \<le> n \<Longrightarrow> n < 2 ^ 31 \<Longrightarrow> length (ok_header n linger) < 100"
  using length_dec_int_le [of n 10] length_fields_text [of n linger] length_dec_int_le [of 200 3]
  by (simp add: ok_header_def)

lemma process_write_file:
  assumes "small_file (m_file_stat c)" and "log_ready e w (k + 4)"
  shows "\<exists>w'. process_write e FILE_REQUEST (with_answer [] c) w = Inr (True, file_answer c, w')
    \<and> log_ready e w' k \<and> same_but_log w w'"
proof -
  let ?n = "st_size (m_file_stat c)" and ?s = "status_text 200 ''OK''"
  have n: "0 < ?n" "?n < 2 ^ 31 - 1024" using assms(1) by (simp_all add: small_file_def)
  have t: "to_int ?n = ?n" using n by (simp add: to_int_def signed_id)
  have l: "length ?s < 1023" "length ?s + 42 + length (dec_int ?n) < 1023"
    using n length_dec_int_le [of ?n 10] length_dec_int_le [of 200 3] by simp_all
  obtain w1 where w1: "add_status_line e 200 ''OK'' (with_answer [] c) w = Inr (True, with_answer ?s c, w1)"
    "log_ready e w1 (k + 3)" "same_but_log w w1"
    using add_status_line_run [OF _ l(1), of e w "k + 3" c] assms(2) by (auto simp: eval_nat_numeral)
  obtain w2 where w2: "add_headers e ?n (with_answer ?s c) w1 = Inr (with_answer (ok_header ?n (m_linger c)) c, w2)"
    "log_ready e w2 k" "same_but_log w1 w2"
    using add_headers_run [OF _ l(2) w1(2), of c] by (auto simp: ok_header_def)
  have "length (ok_header ?n (m_linger c)) < 100" using n by (intro ok_header_length) simp_all
  then have "to_int (int (length (ok_header ?n (m_linger c))) + ?n) = int (length (ok_header ?n (m_linger c))) + ?n"
    using n by (simp add: to_int_def signed_id)
  then have "process_write e FILE_REQUEST (with_answer [] c) w = Inr (True, file_answer c, w2)"
    using w1(1) w2(1) n(1) t by (simp add: process_write_def file_answer_def Let_def)
  with w2(2) same_but_log_trans [OF w1(3) w2(3)] show ?thesis by blast
qed

end
