(* ===== verification/V3_HttpSend.thy ===== *)
theory V3_HttpSend
  imports V3_HttpAnswer
begin

section \<open>version\_03: sending an answer in pieces\<close>

text \<open>
  \<open>write\<close> keeps in the two \<open>iovec\<close>s what is left to send. When the first \<open>writev\<close> takes the
  whole header the rest is sent exactly, however it is cut; when the header itself goes out
  in more than two pieces the arithmetic of the first \<open>iovec\<close> is wrong.
\<close>

subsection \<open>The rest of a file\<close>

text \<open>\<open>j\<close> bytes of the header \<open>h\<close> and the file \<open>f\<close> are out: none yet, or all of the header.\<close>

definition writing :: "string \<Rightarrow> string \<Rightarrow> nat \<Rightarrow> http_conn \<Rightarrow> bool" where
  "writing h f j c =
     (h \<noteq> [] \<and> j < length h + length f \<and> m_iv_count c = 2 \<and> m_file_address c = Some (Mapped f)
      \<and> m_write_idx c = int (length h) \<and> length h \<le> length (m_write_buf c) \<and> take (length h) (m_write_buf c) = h
      \<and> bytes_have_send c = int j \<and> bytes_to_send c = int (length h + length f) - int j
      \<and> (if j = 0 then m_iv0 c = \<lparr>iov_base = In_buf 0, iov_len = int (length h)\<rparr>
           \<and> m_iv1 c = \<lparr>iov_base = In_file 0, iov_len = int (length f)\<rparr>
         else length h \<le> j \<and> iov_len (m_iv0 c) = 0
           \<and> m_iv1 c = \<lparr>iov_base = In_file (int j - int (length h)), iov_len = int (length h + length f) - int j\<rparr>))"

lemma iov_bytes_none: "iov_len iv = 0 \<Longrightarrow> iov_bytes c iv = Inr []"
  by (simp add: iov_bytes_def slice_def split: iov_base.splits)

lemma writing_bytes:
  assumes "writing h f j c"
  shows "writev_bytes c = Inr (drop j (h @ f))"
proof (cases "j = 0")
  case True
  have "slice (m_write_buf c) 0 (int (length h)) = Inr h" "slice f 0 (int (length f)) = Inr f"
    using assms True by (auto simp: slice_def writing_def)
  then show ?thesis using assms True
    by (simp add: writing_def writev_bytes_def iov_bytes_def)
next
  case False
  then have j: "length h \<le> j" "j < length h + length f" using assms by (simp_all add: writing_def)
  have nz: "int (length h + length f) - int j \<noteq> 0" using j(2) by linarith
  then have "slice f (int j - int (length h)) (int (length h + length f) - int j) = Inr (drop (j - length h) f)"
    using j by (simp add: slice_def nat_diff_distrib')
  then show ?thesis using assms False j nz
    by (simp add: writing_def writev_bytes_def iov_bytes_none) (simp add: iov_bytes_def)
qed

lemma writing_advance:
  assumes "writing h f j c" and "j = 0 \<longrightarrow> length h \<le> k"
  shows "bytes_to_send (advance_iov (int k) c) = int (length h + length f) - int (j + k)"
    and "j + k < length h + length f \<Longrightarrow> writing h f (j + k) (advance_iov (int k) c)"
    and "m_linger (advance_iov (int k) c) = m_linger c" "m_sockfd (advance_iov (int k) c) = m_sockfd c"
  using assms by (auto simp: writing_def advance_iov_def Let_def split: if_splits)

text \<open>What one call of \<open>write\<close> leaves of a connection whose answer is out.\<close>

definition answer_out :: "http_conn \<Rightarrow> string \<Rightarrow> web \<Rightarrow> (bool option \<times> http_conn \<times> web) res \<Rightarrow> bool" where
  "answer_out c s w r =
     (\<exists>c' w'. r = Inr (Some (m_linger c), c', w') \<and> m_sockfd c' = m_sockfd c \<and> m_file_address c' = None
        \<and> (m_linger c \<longrightarrow> http_init0 c' = c')
        \<and> w' = modfd (m_sockfd c) EV_IN (w\<lparr>wb_sent := (wb_sent w)(m_sockfd c := wb_sent w (m_sockfd c) @ s)\<rparr>))"

lemma http_init0_again [simp]: "http_init0 (http_init0 c) = http_init0 c"
  by (simp add: http_init0_def)

lemma http_init0_fields [simp]:
  "m_sockfd (http_init0 c) = m_sockfd c" "m_file_address (http_init0 c) = m_file_address c"
  by (simp_all add: http_init0_def)

lemma unmap_fields [simp]:
  "m_sockfd (unmap c) = m_sockfd c" "m_linger (unmap c) = m_linger c" "m_file_address (unmap c) = None"
  by (simp_all add: unmap_def split: option.splits)

lemma write_last:
  assumes "writev_bytes c = Inr s" and "length s = n" and "n \<le> k"
    and "bytes_to_send (advance_iov (int n) c) \<le> 0"
    and "m_linger (advance_iov (int n) c) = m_linger c"
    and "m_sockfd (advance_iov (int n) c) = m_sockfd c"
  shows "answer_out c s w (write_loop (W_took k # as) c w)"
  using assms by (cases "m_linger c") (auto simp: answer_out_def Let_def)

definition put_out :: "int \<Rightarrow> string \<Rightarrow> web \<Rightarrow> web" where
  "put_out fd s w = w\<lparr>wb_sent := (wb_sent w)(fd := wb_sent w fd @ s)\<rparr>"

lemma put_out_simps [simp]:
  "put_out fd [] w = w" "put_out fd t (put_out fd s w) = put_out fd (s @ t) w"
  "wb_sent (put_out fd s w) fd = wb_sent w fd @ s"
  by (simp_all add: put_out_def)

lemma write_more:
  assumes "writev_bytes c = Inr s" and "k \<le> length s" and "0 < bytes_to_send (advance_iov (int k) c)"
  shows "write_loop (W_took k # as) c w
    = write_loop as (advance_iov (int k) c) (put_out (m_sockfd c) (take k s) w)"
  using assms by (simp add: Let_def put_out_def min_def)

lemma write_pieces:
  assumes "writing h f j c" and "ks \<noteq> [] \<longrightarrow> j = 0 \<longrightarrow> length h \<le> hd ks"
  shows "if j + sum_list ks < length h + length f
    then \<exists>c'. write_loop (map W_took ks @ as) c w
        = write_loop as c' (put_out (m_sockfd c) (take (sum_list ks) (drop j (h @ f))) w)
      \<and> writing h f (j + sum_list ks) c' \<and> m_sockfd c' = m_sockfd c \<and> m_linger c' = m_linger c
    else answer_out c (drop j (h @ f)) w (write_loop (map W_took ks @ as) c w)"
  using assms
proof (induction ks arbitrary: j c w)
  case Nil
  moreover have "j < length h + length f" using Nil by (simp add: writing_def)
  ultimately show ?case by (auto intro!: exI [of _ c])
next
  case (Cons k ks)
  let ?n = "length h + length f"
  have k: "j = 0 \<longrightarrow> length h \<le> k" using Cons.prems(2) by simp
  have b: "writev_bytes c = Inr (drop j (h @ f))" using writing_bytes [OF Cons.prems(1)] .
  show ?case
  proof (cases "j + k < ?n")
    case False
    have "j = 0 \<longrightarrow> length h \<le> ?n - j" by simp
    note a = writing_advance [OF Cons.prems(1) this]
    have len: "length (drop j (h @ f)) = ?n - j" by simp
    have "j < ?n" using Cons.prems(1) by (simp add: writing_def)
    then have "answer_out c (drop j (h @ f)) w (write_loop (W_took k # map W_took ks @ as) c w)"
      using a(1,3,4) False by (intro write_last [OF b len]) simp_all
    then show ?thesis using False by simp
  next
    case True
    let ?c = "advance_iov (int k) c" and ?w = "put_out (m_sockfd c) (take k (drop j (h @ f))) w"
    note a = writing_advance [OF Cons.prems(1) k]
    have st: "write_loop (map W_took (k # ks) @ as) c w = write_loop (map W_took ks @ as) ?c ?w"
      using write_more [OF b, of k "map W_took ks @ as" w] a(1) True by simp
    have j: "j + k \<noteq> 0" using k Cons.prems(1) by (auto simp: writing_def)
    have ih: "if j + k + sum_list ks < ?n
      then \<exists>c'. write_loop (map W_took ks @ as) ?c ?w
          = write_loop as c' (put_out (m_sockfd ?c) (take (sum_list ks) (drop (j + k) (h @ f))) ?w)
        \<and> writing h f (j + k + sum_list ks) c' \<and> m_sockfd c' = m_sockfd ?c \<and> m_linger c' = m_linger ?c
      else answer_out ?c (drop (j + k) (h @ f)) ?w (write_loop (map W_took ks @ as) ?c ?w)"
      using Cons.IH [OF a(2) [OF True], of ?w] j by blast
    show ?thesis
    proof (cases "j + k + sum_list ks < ?n")
      case True
      then obtain c' where c': "write_loop (map W_took ks @ as) ?c ?w
          = write_loop as c' (put_out (m_sockfd ?c) (take (sum_list ks) (drop (j + k) (h @ f))) ?w)"
        "writing h f (j + k + sum_list ks) c'" "m_sockfd c' = m_sockfd c" "m_linger c' = m_linger c"
        using ih a(3,4) by auto
      have "take (sum_list (k # ks)) (drop j (h @ f))
          = take k (drop j (h @ f)) @ take (sum_list ks) (drop (j + k) (h @ f))"
        by (simp only: sum_list.Cons take_add drop_drop add.commute)
      then have "write_loop (map W_took (k # ks) @ as) c w
          = write_loop as c' (put_out (m_sockfd c) (take (sum_list (k # ks)) (drop j (h @ f))) w)"
        using c'(1) unfolding st a(4) by (simp only: put_out_simps)
      moreover have "writing h f (j + sum_list (k # ks)) c'" "j + sum_list (k # ks) < ?n"
        using c'(2) True by (simp_all add: add.assoc)
      ultimately show ?thesis using c'(3,4) by (simp only: if_True) blast
    next
      case False
      then have out: "answer_out ?c (drop (j + k) (h @ f)) ?w (write_loop (map W_took ks @ as) ?c ?w)"
        using ih by simp
      have "take k (drop j (h @ f)) @ drop (j + k) (h @ f) = drop j (h @ f)"
        by (metis append_take_drop_id drop_drop add.commute)
      then have "answer_out c (drop j (h @ f)) w (write_loop (map W_took ks @ as) ?c ?w)"
        using out a(3,4) by (simp add: answer_out_def put_out_def del: drop_append take_append)
      then show ?thesis using False st by (simp add: add.assoc del: drop_append take_append write_loop.simps)
    qed
  qed
qed

subsection \<open>One or several calls of \<open>write\<close>\<close>

text \<open>The calls that take the last byte.\<close>

lemma all_pieces_sent:
  assumes "writing h f j c" and "ks \<noteq> [] \<longrightarrow> j = 0 \<longrightarrow> length h \<le> hd ks"
    and "\<not> j + sum_list ks < length h + length f"
  shows "\<exists>c'. http_write (map W_took ks) c w
        = Inr (Some (m_linger c), c', modfd (m_sockfd c) EV_IN
            (put_out (m_sockfd c) (drop j (h @ f)) w))
      \<and> m_file_address c' = None \<and> (m_linger c \<longrightarrow> http_init0 c' = c')"
proof -
  have b: "bytes_to_send c \<noteq> 0" using assms(1) by (auto simp: writing_def)
  have "answer_out c (drop j (h @ f)) w (write_loop (map W_took ks) c w)"
    using write_pieces [OF assms(1,2), of "[]" w] assms(3) by simp
  then show ?thesis using b by (auto simp: answer_out_def http_write_def put_out_def)
qed

text \<open>
  C8. Once the header has gone out in one piece, what is left of an answer with a file is sent
  exactly, however \<open>writev\<close> cuts it and whenever it has to wait: a call that runs into
  \<open>EAGAIN\<close> has sent what the kernel took, waits for writing, and leaves the connection so that
  the next call goes on there; the call that takes the last byte ends the answer, removes the
  mapping and waits for the next request, or asks to be closed.
\<close>

theorem file_is_sent:
  assumes "writing h f j c" and "ks \<noteq> [] \<longrightarrow> j = 0 \<longrightarrow> length h \<le> hd ks"
  shows "if j + sum_list ks < length h + length f
    then \<exists>c'. http_write (map W_took ks @ [W_again]) c w
        = Inr (Some True, c', modfd (m_sockfd c) EV_OUT
            (put_out (m_sockfd c) (take (sum_list ks) (drop j (h @ f))) w))
      \<and> writing h f (j + sum_list ks) c' \<and> m_linger c' = m_linger c
    else \<exists>c'. http_write (map W_took ks) c w
        = Inr (Some (m_linger c), c', modfd (m_sockfd c) EV_IN
            (put_out (m_sockfd c) (drop j (h @ f)) w))
      \<and> m_file_address c' = None \<and> (m_linger c \<longrightarrow> http_init0 c' = c')"
proof (cases "j + sum_list ks < length h + length f")
  case True
  have b: "bytes_to_send c \<noteq> 0" using assms(1) by (auto simp: writing_def)
  obtain c' where c': "write_loop (map W_took ks @ [W_again]) c w
      = write_loop [W_again] c' (put_out (m_sockfd c) (take (sum_list ks) (drop j (h @ f))) w)"
    "writing h f (j + sum_list ks) c'" "m_sockfd c' = m_sockfd c" "m_linger c' = m_linger c"
    using write_pieces [OF assms, of "[W_again]" w] True by auto
  have "http_write (map W_took ks @ [W_again]) c w = Inr (Some True, c', modfd (m_sockfd c) EV_OUT
      (put_out (m_sockfd c) (take (sum_list ks) (drop j (h @ f))) w))"
    using b c'(1,3) writing_bytes [OF c'(2)] by (simp add: http_write_def)
  with c'(2,4) True show ?thesis by (simp del: take_append drop_append)
next
  case False
  then show ?thesis using all_pieces_sent [OF assms False, of w] by simp
qed

text \<open>
  The length left in the first \<open>iovec\<close> is reduced by all bytes sent so far each time, not
  by those of the last call. If the header goes out in three pieces, and the first two bring
  what is left in the \<open>iovec\<close> down to what has been sent, the third \<open>writev\<close> reads in
  front of the mapped file.
\<close>

theorem header_in_three_pieces:
  assumes "writing h f 0 c" and "n1 + n2 < length h" and "length h \<le> 2 * n1 + n2"
  shows "http_write (W_took n1 # W_took n2 # a # as) c w = Inl OutOfBounds"
proof -
  let ?L = "int (length h)" and ?t = "int (length h + length f)"
  have c: "m_iv_count c = 2" "m_file_address c = Some (Mapped f)" "m_write_idx c = ?L"
    "length h \<le> length (m_write_buf c)" "bytes_have_send c = 0" "bytes_to_send c = ?t"
    "m_iv0 c = \<lparr>iov_base = In_buf 0, iov_len = ?L\<rparr>" "m_iv1 c = \<lparr>iov_base = In_file 0, iov_len = int (length f)\<rparr>"
    using assms(1) by (simp_all add: writing_def)
  let ?c1 = "advance_iov (int n1) c"
  let ?s = "take (length h - n1) (drop n1 (m_write_buf c)) @ f"
  have 1: "writev_bytes c = Inr (h @ f)" using writing_bytes [OF assms(1)] by simp
  have iv: "\<not> ?L \<le> int n1" "0 \<le> int n1" using assms(2) by simp_all
  have f1: "?c1 = c\<lparr>bytes_have_send := int n1, bytes_to_send := ?t - int n1,
      m_iv0 := \<lparr>iov_base = In_buf (int n1), iov_len = ?L - int n1\<rparr>\<rparr>"
    using c iv by (simp add: advance_iov_def Let_def)
  have "slice (m_write_buf c) (int n1) (?L - int n1) = Inr (take (length h - n1) (drop n1 (m_write_buf c)))"
    using c(4) assms(2) by (simp add: slice_def nat_diff_distrib')
  moreover have "slice f 0 (int (length f)) = Inr f" by (auto simp: slice_def)
  ultimately have 2: "writev_bytes ?c1 = Inr ?s"
    using c by (simp add: writev_bytes_def iov_bytes_def f1)
  let ?c2 = "advance_iov (int n2) ?c1"
  have "?L - int n1 \<le> int n1 + int n2" using assms(3) by simp
  then have f2: "m_iv0 ?c2 = \<lparr>iov_base = In_buf (int n1), iov_len = 0\<rparr>"
    "m_iv1 ?c2 = \<lparr>iov_base = In_file (int n1 + int n2 - ?L), iov_len = ?t - int n1 - int n2\<rparr>"
    "m_iv_count ?c2 = 2" "m_file_address ?c2 = Some (Mapped f)" "bytes_to_send ?c2 = ?t - int n1 - int n2"
    using c by (simp_all add: advance_iov_def [of "int n2"] f1 Let_def)
  have neg: "int n1 + int n2 - ?L < 0" "?t - int n1 - int n2 \<noteq> 0" using assms(2) by simp_all
  then have 3: "writev_bytes ?c2 = Inl OutOfBounds"
    using f2 by (simp add: writev_bytes_def iov_bytes_none) (simp add: iov_bytes_def slice_def)
  have "write_loop (W_took n1 # W_took n2 # a # as) c w = Inl OutOfBounds"
    using write_more [OF 1, of n1] write_more [OF 2, of n2] assms(2) c(4) f1 f2(5) 3
    by (simp del: write_loop.simps(2) add: write_loop.simps(2) [of a])
  then show ?thesis using c(6) assms(2) by (auto simp: http_write_def)
qed

text \<open>An error page \<open>s\<close> that waits to be sent.\<close>

definition page_waits :: "string \<Rightarrow> http_conn \<Rightarrow> bool" where
  "page_waits s c =
     (m_iv_count c = 1 \<and> m_iv0 c = \<lparr>iov_base = In_buf 0, iov_len = int (length s)\<rparr>
      \<and> m_write_idx c = int (length s) \<and> length s \<le> length (m_write_buf c) \<and> take (length s) (m_write_buf c) = s
      \<and> bytes_have_send c = 0 \<and> bytes_to_send c = int (length s))"

text \<open>With nothing in the one \<open>iovec\<close> and bytes still to send, \<open>writev\<close> of nothing goes on.\<close>

lemma empty_iovec_loops:
  assumes "m_iv_count c = 1" and "iov_len (m_iv0 c) = 0" and "0 < bytes_to_send c" and "0 \<le> bytes_have_send c"
  shows "\<exists>c'. write_loop (map W_took ks) c w = Inr (None, c', w)"
  using assms
proof (induction ks arbitrary: c)
  case (Cons k ks)
  have b: "writev_bytes c = Inr []" using Cons.prems(1,2) by (simp add: writev_bytes_def iov_bytes_none)
  let ?c = "advance_iov 0 c"
  have "m_iv_count ?c = 1" "iov_len (m_iv0 ?c) = 0" "0 < bytes_to_send ?c" "0 \<le> bytes_have_send ?c"
    using Cons.prems by (simp_all add: advance_iov_def)
  moreover from this have "write_loop (map W_took (k # ks)) c w = write_loop (map W_took ks) ?c w"
    using b by (simp add: Let_def)
  ultimately show ?case using Cons.IH by metis
qed simp

text \<open>
  C33. The same arithmetic never lets a call end: when an error page goes out in three pieces
  and the first two bring what is left in the \<open>iovec\<close> down to what has been sent, the page
  counts as sent although bytes are missing, and the loop of \<open>write\<close> calls \<open>writev\<close> with
  nothing to send for ever; after any number of further calls it still runs and has sent
  nothing more.
\<close>

theorem cut_page_never_ends:
  assumes "page_waits s c" and "n1 + n2 < length s" and "length s \<le> 2 * n1 + n2"
  shows "\<exists>c'. http_write (W_took n1 # W_took n2 # map W_took ks) c w
    = Inr (None, c', put_out (m_sockfd c) (take (n1 + n2) s) w)"
proof -
  let ?L = "int (length s)" and ?b = "m_write_buf c"
  have c: "m_iv_count c = 1" "m_write_idx c = ?L" "length s \<le> length ?b" "take (length s) ?b = s"
    "bytes_have_send c = 0" "bytes_to_send c = ?L" "m_iv0 c = \<lparr>iov_base = In_buf 0, iov_len = ?L\<rparr>"
    using assms(1) by (simp_all add: page_waits_def)
  have "slice ?b 0 ?L = Inr s" using c(3,4) by (auto simp: slice_def)
  then have 1: "writev_bytes c = Inr s" using c by (simp add: writev_bytes_def iov_bytes_def)
  let ?c1 = "advance_iov (int n1) c"
  have f1: "?c1 = c\<lparr>bytes_have_send := int n1, bytes_to_send := ?L - int n1,
      m_iv0 := \<lparr>iov_base = In_buf (int n1), iov_len = ?L - int n1\<rparr>\<rparr>"
    using c assms(2) by (simp add: advance_iov_def Let_def)
  have "take (length s - n1) (drop n1 ?b) = drop n1 s"
    using c(4) by (metis drop_take)
  then have "slice ?b (int n1) (?L - int n1) = Inr (drop n1 s)"
    using c(3) assms(2) by (simp add: slice_def nat_diff_distrib')
  then have 2: "writev_bytes ?c1 = Inr (drop n1 s)"
    using c by (simp add: writev_bytes_def iov_bytes_def f1)
  let ?c2 = "advance_iov (int n2) ?c1" and ?w1 = "put_out (m_sockfd c) (take n1 s) w"
  have "?L - int n1 \<le> int n1 + int n2" using assms(3) by simp
  then have f2: "m_iv_count ?c2 = 1" "iov_len (m_iv0 ?c2) = 0" "bytes_to_send ?c2 = ?L - int n1 - int n2"
    "bytes_have_send ?c2 = int n1 + int n2"
    using c by (simp_all add: advance_iov_def [of "int n2"] f1 Let_def)
  moreover have "0 < ?L - int n1 - int n2" using assms(2) by simp
  ultimately obtain c' where c': "write_loop (map W_took ks) ?c2 (put_out (m_sockfd c) (take (n1 + n2) s) w)
      = Inr (None, c', put_out (m_sockfd c) (take (n1 + n2) s) w)"
    using empty_iovec_loops [of ?c2 ks "put_out (m_sockfd c) (take (n1 + n2) s) w"] by auto
  have "write_loop (W_took n1 # W_took n2 # map W_took ks) c w
      = write_loop (W_took n2 # map W_took ks) ?c1 ?w1"
    using assms(2) by (intro write_more [OF 1]) (simp_all add: f1)
  also have "\<dots> = write_loop (map W_took ks) ?c2 (put_out (m_sockfd ?c1) (take n2 (drop n1 s)) ?w1)"
    using assms(2) f2(3) by (intro write_more [OF 2]) simp_all
  also have "put_out (m_sockfd ?c1) (take n2 (drop n1 s)) ?w1 = put_out (m_sockfd c) (take (n1 + n2) s) w"
    unfolding take_add by (simp add: f1)
  finally show ?thesis using c' c(6) assms(2) by (auto simp: http_write_def)
qed

subsection \<open>Examples\<close>

lemma file_answer_writing:
  assumes "small_file (m_file_stat c)" and "m_file_address c = Some (Mapped f)"
    and "int (length f) = st_size (m_file_stat c)" and "bytes_have_send c = 0"
  shows "writing (ok_header (st_size (m_file_stat c)) (m_linger c)) f 0 (file_answer c)"
proof -
  let ?h = "ok_header (st_size (m_file_stat c)) (m_linger c)"
  have "?h \<noteq> []" by (simp add: ok_header_def status_text_def)
  then show ?thesis
    using assms by (simp add: writing_def file_answer_def Let_def with_answer_def)
qed

definition hello_conn :: http_conn where
  "hello_conn = http_init0 (idle_conn\<lparr>m_sockfd := 7, m_file_stat := \<lparr>st_mode = 0x81A4, st_size = 5\<rparr>,
     m_file_address := Some (Mapped ''hello'')\<rparr>)"

lemma hello_conn_writing: "writing (ok_header 5 False) ''hello'' 0 (file_answer hello_conn)"
  using file_answer_writing [of hello_conn "''hello''"]
  by (simp add: hello_conn_def http_init0_def small_file_def)

lemma length_ok_header_5: "length (ok_header 5 False) = 55"
  by code_simp

lemma hello_sockfd: "m_sockfd (file_answer hello_conn) = 7" "m_linger (file_answer hello_conn) = False"
  by (simp_all add: file_answer_def Let_def with_answer_def hello_conn_def http_init0_def)

lemma file_is_sent_witness:
  "\<exists>c'. http_write (map W_took [57] @ [W_again]) (file_answer hello_conn) site_web
      = Inr (Some True, c', modfd 7 EV_OUT (put_out 7 (take 57 (ok_header 5 False @ ''hello'')) site_web))
    \<and> writing (ok_header 5 False) ''hello'' 57 c'"
  using file_is_sent [OF hello_conn_writing, of "[57]" site_web]
  by (simp add: length_ok_header_5 hello_sockfd) blast

lemma header_in_three_pieces_witness:
  "http_write [W_took 30, W_took 10, W_took 100] (file_answer hello_conn) site_web = Inl OutOfBounds"
  by (rule header_in_three_pieces [OF hello_conn_writing]) (simp_all add: length_ok_header_5)

lemma error_page_waits: "page_waits s (one_iovec (with_answer s c)) = (bytes_have_send c = 0)"
  by (auto simp: page_waits_def one_iovec_def with_answer_def)

lemma cut_page_never_ends_witness:
  "\<exists>c'. http_write (W_took 60 # W_took 10 # map W_took [1, 2])
      (one_iovec (with_answer (error_text 403 ''Forbidden'' error_403_form False) site_conn)) site_web
    = Inr (None, c', put_out 7 (take 70 (error_text 403 ''Forbidden'' error_403_form False)) site_web)"
proof -
  let ?s = "error_text 403 ''Forbidden'' error_403_form False"
  let ?c = "one_iovec (with_answer ?s site_conn)"
  have "length ?s = 120" by code_simp
  moreover have "m_sockfd ?c = 7" by (simp add: one_iovec_def with_answer_def site_conn_def idle_conn_def)
  moreover have "bytes_have_send site_conn = 0" by (simp add: site_conn_def http_init0_def)
  then have "page_waits ?s ?c" by (simp add: error_page_waits)
  ultimately show ?thesis using cut_page_never_ends [of ?s ?c 60 10 "[1, 2]" site_web] by simp
qed

end
