(* ===== verification/V3_HttpShape.thy ===== *)
theory V3_HttpShape
  imports V3_HttpWrite V3_HttpHeader
begin

section \<open>version\_03: what every call keeps\<close>

text \<open>
  The arrays of a connection keep their lengths, the line being read starts before what has been
  checked, that is before what has been read, that is before the end of \<open>m_read_buf\<close>, and
  \<open>m_write_idx\<close> stays before the last byte of \<open>m_write_buf\<close>, whatever the client sends, the
  kernel answers and the worker makes of it. On such a connection reading, cutting lines and
  writing the answer never leave an array.
\<close>

definition indices_ok :: "http_conn \<Rightarrow> bool" where
  "indices_ok c = (0 \<le> m_start_line c \<and> m_start_line c \<le> m_checked_idx c \<and> m_checked_idx c \<le> m_read_idx c)"

definition well_shaped :: "http_conn \<Rightarrow> bool" where
  "well_shaped c = (length (m_read_buf c) = READ_BUFFER_SIZE \<and> length (m_write_buf c) = WRITE_BUFFER_SIZE
     \<and> length (m_real_file c) = FILENAME_LEN \<and> indices_ok c \<and> m_read_idx c \<le> int READ_BUFFER_SIZE
     \<and> 0 \<le> m_write_idx c \<and> m_write_idx c < int WRITE_BUFFER_SIZE - 1)"

text \<open>What the parsers and \<open>do_request\<close> do not change.\<close>

definition shape :: "http_conn \<Rightarrow> nat \<times> nat \<times> nat \<times> int \<times> int \<times> int \<times> string" where
  "shape c = (length (m_read_buf c), length (m_write_buf c), length (m_real_file c), m_read_idx c, m_write_idx c,
     m_sockfd c, m_address c)"

lemma shape_sockfd: "shape c' = shape c \<Longrightarrow> m_sockfd c' = m_sockfd c"
  by (simp add: shape_def)

lemma shape_address: "shape c' = shape c \<Longrightarrow> m_address c' = m_address c"
  by (simp add: shape_def)

lemma shape_ok: "shape c' = shape c \<Longrightarrow> indices_ok c' \<Longrightarrow> well_shaped c \<Longrightarrow> well_shaped c'"
  by (simp add: shape_def well_shaped_def)

text \<open>The same with the places in the buffer.\<close>

definition frame :: "http_conn \<Rightarrow> http_conn \<Rightarrow> bool" where
  "frame c c' = (shape c' = shape c \<and> same_place c c')"

lemma frame_refl [simp]: "frame c c"
  by (simp add: frame_def)

lemma frame_indices: "frame c c' \<Longrightarrow> indices_ok c' = indices_ok c"
  by (simp add: frame_def same_place_def indices_ok_def)

lemma frame_shape: "frame c c' \<Longrightarrow> shape c' = shape c"
  by (simp add: frame_def)

lemma shape_upd [simp]:
  "shape (c\<lparr>m_url := u\<rparr>) = shape c" "shape (c\<lparr>m_version := u\<rparr>) = shape c" "shape (c\<lparr>m_host := u\<rparr>) = shape c"
  "shape (c\<lparr>m_string := u\<rparr>) = shape c" "shape (c\<lparr>m_check_state := st\<rparr>) = shape c"
  "shape (c\<lparr>m_method := m\<rparr>) = shape c" "shape (c\<lparr>cgi := i\<rparr>) = shape c" "shape (c\<lparr>m_linger := l\<rparr>) = shape c"
  "shape (c\<lparr>m_content_length := i\<rparr>) = shape c" "shape (c\<lparr>m_start_line := i\<rparr>) = shape c"
  "shape (c\<lparr>m_checked_idx := i\<rparr>) = shape c" "shape (c\<lparr>m_file_stat := st3\<rparr>) = shape c"
  "shape (c\<lparr>m_file_address := a\<rparr>) = shape c" "shape (c\<lparr>bytes_to_send := i\<rparr>) = shape c"
  "shape (c\<lparr>bytes_have_send := i\<rparr>) = shape c" "shape (c\<lparr>m_iv0 := v\<rparr>) = shape c"
  "shape (c\<lparr>m_iv1 := v\<rparr>) = shape c" "shape (c\<lparr>m_iv_count := i\<rparr>) = shape c"
  by (simp_all add: shape_def)

lemma shape_buf [simp]: "length b = length (m_read_buf c) \<Longrightarrow> shape (c\<lparr>m_read_buf := b\<rparr>) = shape c"
  by (simp add: shape_def)

lemma shape_file [simp]: "length b = length (m_real_file c) \<Longrightarrow> shape (c\<lparr>m_real_file := b\<rparr>) = shape c"
  by (simp add: shape_def)

lemma frame_buf [simp]: "length b = length (m_read_buf c) \<Longrightarrow> frame a (c\<lparr>m_read_buf := b\<rparr>) = frame a c"
  by (simp add: frame_def)

lemma frame_file [simp]: "length b = length (m_real_file c) \<Longrightarrow> frame a (c\<lparr>m_real_file := b\<rparr>) = frame a c"
  by (simp add: frame_def same_place_def)

lemma frame_file_left [simp]: "length b = length (m_real_file a) \<Longrightarrow> frame (a\<lparr>m_real_file := b\<rparr>) c = frame a c"
  by (simp add: frame_def same_place_def)

lemma frame_upd [simp]:
  "frame a (c\<lparr>m_file_stat := st3\<rparr>) = frame a c" "frame a (c\<lparr>m_file_address := ad\<rparr>) = frame a c"
  by (simp_all add: frame_def same_place_def)

lemma frame_trans: "frame a b \<Longrightarrow> frame b c \<Longrightarrow> frame a c"
  by (simp add: frame_def same_place_def)

subsection \<open>Reading and parsing\<close>

lemma parse_line_shape: "parse_line c = Inr (st, c') \<Longrightarrow> shape c' = shape c"
proof -
  assume "parse_line c = Inr (st, c')"
  from postD [OF parse_line_step this] have l: "line_step c st c'" by simp
  then have "c' = c\<lparr>m_read_buf := m_read_buf c', m_checked_idx := m_checked_idx c'\<rparr>"
    by (simp add: line_step_def)
  from arg_cong [OF this, of shape] l show ?thesis by (simp add: line_step_def)
qed

lemma take_method_shape: "take_method m c = Some c' \<Longrightarrow> shape c' = shape c"
  by (auto simp: take_method_def split: if_splits)

lemma take_target_shape: "post (take_target c) (\<lambda>(r, c'). shape c' = shape c)"
  unfolding take_target_def by (intro post_rules) (auto dest: wrs_length split: if_splits)

lemma parse_request_line_shape: "post (parse_request_line t c) (\<lambda>(r, c'). shape c' = shape c)"
  unfolding parse_request_line_def
  by (intro post_rules post_mono [OF take_target_shape])
    (auto dest!: cut_at_length take_method_shape simp: shape_def)

lemma parse_headers_shape: "post (parse_headers e t c w) (\<lambda>(r, c', w'). shape c' = shape c)"
  unfolding parse_headers_def by (intro post_rules) simp_all

lemma parse_content_shape: "post (parse_content t c) (\<lambda>(r, c'). shape c' = shape c)"
  unfolding parse_content_def by (intro post_rules) (auto dest: wr_length)

subsection \<open>\<open>do_request\<close>\<close>

lemma set_url_frame: "post (set_url s url c) (\<lambda>c'. frame c c')"
  unfolding set_url_def by (intro post_rules) (auto dest: wrs_length)

lemma register_frame: "post (register e name password url c w) (\<lambda>(c', w'). frame c c')"
  unfolding register_def by (intro post_rules) (auto dest: postD [OF set_url_frame])

lemma login_frame: "post (login name password url c w) (\<lambda>c'. frame c c')"
  unfolding login_def by (rule set_url_frame)

lemma do_form_frame: "post (do_form e ch url c w) (\<lambda>(c', w'). frame c c')"
  unfolding do_form_def
  by (intro post_rules post_mono [OF register_frame])
    (auto dest!: strncpy_length postD [OF login_frame] intro: frame_trans [rotated])

lemma set_real_file_frame: "post (set_real_file ch url c) (\<lambda>c'. frame c c')"
  unfolding set_real_file_def
  by (intro post_rules) (auto dest!: strncpy_length simp: bindr_eq_Inr split: option.splits)

lemma open_file_frame: "post (open_file e c) (\<lambda>(r, c'). frame c c')"
  unfolding open_file_def by (intro post_rules) simp_all

lemma strcpy_length: "strcpy b s = Inr b' \<Longrightarrow> length b' = length b"
  by (auto simp: strcpy_def dest: wrs_length)

lemma do_request_frame: "post (do_request e c w) (\<lambda>(r, c', w'). frame c c')"
  unfolding do_request_def
  by (intro post_rules)
    (auto dest!: strcpy_length postD [OF set_real_file_frame] postD [OF open_file_frame] postD [OF do_form_frame]
      intro: frame_trans [rotated] split: if_splits)

lemma do_request_shape: "post (do_request e c w) (\<lambda>(r, c', w'). shape c' = shape c)"
  by (rule post_mono [OF do_request_frame]) (auto dest: frame_shape)

lemma next_line_shape: "next_line st c = Inr (st', c') \<Longrightarrow> shape c' = shape c"
  by (auto simp: next_line_def dest: parse_line_shape split: if_splits)

lemma post_CHECK_STATE:
  "(st = CHECK_STATE_REQUESTLINE \<Longrightarrow> post m P) \<Longrightarrow> (st = CHECK_STATE_HEADER \<Longrightarrow> post n P)
    \<Longrightarrow> (st = CHECK_STATE_CONTENT \<Longrightarrow> post k P)
    \<Longrightarrow> post (case st of CHECK_STATE_REQUESTLINE \<Rightarrow> m | CHECK_STATE_HEADER \<Rightarrow> n | CHECK_STATE_CONTENT \<Rightarrow> k) P"
  by (cases st) auto

lemma shape_chain: "post m (\<lambda>(r, c', w'). shape c' = shape d) \<Longrightarrow> shape d = shape c
    \<Longrightarrow> post m (\<lambda>(r, c', w'). shape c' = shape c)"
  by (rule post_mono) auto

lemma read_loop_shape: "post (read_loop e st c w) (\<lambda>(r, c', w'). shape c' = shape c)"
proof (induction e st c w rule: read_loop.induct)
  case (1 e st c w)
  note steps = next_line_shape postD [OF parse_request_line_shape] postD [OF parse_headers_shape]
    postD [OF parse_content_shape]
  show ?case
    by (subst read_loop.simps, intro post_rules post_CHECK_STATE shape_chain [OF do_request_shape]
        shape_chain [OF "1.IH"(1)] shape_chain [OF "1.IH"(2)] shape_chain [OF "1.IH"(3)])
      (auto dest!: steps)
qed

text \<open>
  A line is cut inside the bytes that have been read: \<open>parse_line\<close> never reads or writes outside
  of them, and what it has checked stays before their end.
\<close>

lemma parse_line_inside:
  assumes "0 \<le> m_checked_idx c" and "m_checked_idx c \<le> m_read_idx c" and "m_read_idx c \<le> int (length (m_read_buf c))"
  shows "\<exists>st c'. parse_line c = Inr (st, c') \<and> m_checked_idx c' \<le> m_read_idx c"
  using assms
proof (induction c rule: parse_line.induct)
  case (1 c)
  let ?i = "m_checked_idx c" and ?b = "m_read_buf c"
  have rd: "\<exists>x. rd ?b k = Inr x" if "0 \<le> k" "k < m_read_idx c" for k
    using that "1.prems"(3) by (simp add: rd_def)
  have wr: "\<exists>b'. wr b k NUL = Inr b'" if "0 \<le> k" "k < m_read_idx c" "length b = length ?b" for k b
    using that "1.prems"(3) by (simp add: wr_def)
  have two: "\<exists>b1 b2. wr ?b i NUL = Inr b1 \<and> wr b1 j NUL = Inr b2"
    if "0 \<le> i" "i < m_read_idx c" "0 \<le> j" "j < m_read_idx c" for i j
    using wr [of i ?b] wr [of j] that wr_length [of ?b i NUL] by metis
  show ?case
  proof (cases "?i < m_read_idx c")
    case False
    then show ?thesis using "1.prems" by (subst parse_line.simps) simp
  next
    case True
    obtain x where x: "rd ?b ?i = Inr x" using rd True "1.prems"(1) by blast
    consider "x = CR" "?i + 1 = m_read_idx c" | "x = CR" "?i + 1 < m_read_idx c" | "x = LF" | "x \<noteq> CR" "x \<noteq> LF"
      using True by linarith
    then show ?thesis
    proof cases
      case 1
      then show ?thesis using True x by (subst parse_line.simps) simp
    next
      case 2
      then obtain y where "rd ?b (?i + 1) = Inr y" using rd [of "?i + 1"] "1.prems"(1) by auto
      moreover obtain b1 b2 where "wr ?b ?i NUL = Inr b1" "wr b1 (?i + 1) NUL = Inr b2"
        using two [of ?i "?i + 1"] 2 True "1.prems"(1) by auto
      ultimately show ?thesis using 2 True x by (subst parse_line.simps) auto
    next
      case 3
      show ?thesis
      proof (cases "1 < ?i")
        case True
        with \<open>?i < m_read_idx c\<close> obtain y where "rd ?b (?i - 1) = Inr y" using rd [of "?i - 1"] by auto
        moreover obtain b1 b2 where "wr ?b (?i - 1) NUL = Inr b1" "wr b1 ?i NUL = Inr b2"
          using two [of "?i - 1" ?i] True \<open>?i < m_read_idx c\<close> by auto
        ultimately show ?thesis using 3 True x \<open>?i < m_read_idx c\<close> by (subst parse_line.simps) auto
      next
        case False
        then show ?thesis using 3 x \<open>?i < m_read_idx c\<close> by (subst parse_line.simps) simp
      qed
    next
      case 4
      then show ?thesis using "1.IH" [OF True x] True x "1.prems" by (subst parse_line.simps) simp
    qed
  qed
qed

lemma parse_line_shaped:
  assumes "well_shaped c"
  shows "\<exists>st c'. parse_line c = Inr (st, c') \<and> well_shaped c'"
proof -
  have i: "0 \<le> m_checked_idx c" "m_checked_idx c \<le> m_read_idx c" "m_read_idx c \<le> int (length (m_read_buf c))"
    "0 \<le> m_start_line c" "m_start_line c \<le> m_checked_idx c"
    using assms by (simp_all add: well_shaped_def indices_ok_def)
  obtain st c' where p: "parse_line c = Inr (st, c')" "m_checked_idx c' \<le> m_read_idx c"
    using parse_line_inside [OF i(1-3)] by blast
  have "indices_ok c'" using p(2) i parse_line_forward(1,2,5) [OF p(1)] by (simp add: indices_ok_def)
  then show ?thesis using p(1) shape_ok [OF parse_line_shape [OF p(1)]] assms by blast
qed

lemma next_line_shaped:
  assumes "next_line st c = Inr (st', c')" and "well_shaped c"
  shows "well_shaped c'" and "well_shaped (c'\<lparr>m_start_line := m_checked_idx c'\<rparr>)"
proof -
  show 1: "well_shaped c'"
    using assms parse_line_shaped [of c] by (auto simp: next_line_def split: if_splits)
  then show "well_shaped (c'\<lparr>m_start_line := m_checked_idx c'\<rparr>)" by (simp add: well_shaped_def indices_ok_def)
qed

lemma frame_shaped: "frame c c' \<Longrightarrow> well_shaped c \<Longrightarrow> well_shaped c'"
  using shape_ok [of c' c] frame_indices [of c c'] by (simp add: frame_def well_shaped_def)

lemma parsers_frame:
  "post (parse_request_line t c) (\<lambda>(r, c'). frame c c')"
  "post (parse_headers e t c w) (\<lambda>(r, c', w'). frame c c')"
  "post (parse_content t c) (\<lambda>(r, c'). frame c c')"
proof -
  have both: "post m P \<Longrightarrow> post m Q \<Longrightarrow> post m (\<lambda>x. P x \<and> Q x)" for m :: "'z res" and P Q by (cases m) auto
  show "post (parse_request_line t c) (\<lambda>(r, c'). frame c c')"
    by (rule post_mono [OF both [OF parse_request_line_shape parse_request_line_place]]) (auto simp: frame_def)
  show "post (parse_headers e t c w) (\<lambda>(r, c', w'). frame c c')"
    by (rule post_mono [OF both [OF parse_headers_shape parse_headers_place]]) (auto simp: frame_def)
  show "post (parse_content t c) (\<lambda>(r, c'). frame c c')"
    by (rule post_mono [OF both [OF parse_content_shape parse_content_place]]) (auto simp: frame_def)
qed

lemma read_loop_shaped: "well_shaped c \<Longrightarrow> post (read_loop e st c w) (\<lambda>(r, c', w'). well_shaped c')"
proof (induction e st c w rule: read_loop.induct)
  case (1 e st c w)
  have dr: "post (do_request e d v) (\<lambda>(r, c', w'). well_shaped c')" if "well_shaped d" for d v
    by (rule post_mono [OF do_request_frame]) (use that in \<open>auto dest: frame_shaped\<close>)
  note steps = postD [OF parsers_frame(1)] postD [OF parsers_frame(2)] postD [OF parsers_frame(3)]
  show ?case using "1.prems"
    by (subst read_loop.simps, intro post_rules post_CHECK_STATE dr "1.IH")
      (auto dest!: steps dest: next_line_shaped frame_shaped)
qed

subsection \<open>The answer\<close>

lemma well_shaped_upd [simp]:
  "well_shaped (c\<lparr>bytes_to_send := i\<rparr>) = well_shaped c" "well_shaped (c\<lparr>bytes_have_send := i\<rparr>) = well_shaped c"
  "well_shaped (c\<lparr>m_iv0 := v\<rparr>) = well_shaped c" "well_shaped (c\<lparr>m_iv1 := v\<rparr>) = well_shaped c"
  "well_shaped (c\<lparr>m_iv_count := i\<rparr>) = well_shaped c" "well_shaped (c\<lparr>m_sockfd := i\<rparr>) = well_shaped c"
  "well_shaped (c\<lparr>m_file_address := a\<rparr>) = well_shaped c"
  by (simp_all add: well_shaped_def indices_ok_def)

lemma indices_ok_upd [simp]:
  "indices_ok (c\<lparr>m_write_buf := b\<rparr>) = indices_ok c" "indices_ok (c\<lparr>m_write_idx := i\<rparr>) = indices_ok c"
  by (simp_all add: indices_ok_def)

lemma post_seq: "post m P \<Longrightarrow> (\<And>x. P x \<Longrightarrow> post (f x) Q) \<Longrightarrow> post (bindr m f) Q"
  by (cases m) auto

text \<open>
  What is answered fits \<open>m_write_buf\<close>: a piece is stored or refused, and with room in the log for
  each of the lines that are written about it the answer is put together for every result.
\<close>

definition answered :: "env \<Rightarrow> nat \<Rightarrow> ('a \<times> http_conn \<times> web) res \<Rightarrow> bool" where
  "answered e k m = (\<exists>r c w. m = Inr (r, c, w) \<and> well_shaped c \<and> log_ready e w k)"

lemma answeredI: "well_shaped c \<Longrightarrow> log_ready e w k \<Longrightarrow> answered e k (Inr (r, c, w))"
  by (simp add: answered_def)

lemma answered_seq:
  "answered e j m \<Longrightarrow> (\<And>r c w. well_shaped c \<Longrightarrow> log_ready e w j \<Longrightarrow> answered e k (f (r, c, w))) \<Longrightarrow> answered e k (bindr m f)"
  by (auto simp: answered_def)

lemma add_response_answers:
  assumes "well_shaped c" and "log_ready e w (Suc k)"
  shows "answered e k (add_response e s c w)"
proof -
  let ?n = "nat (m_write_idx c)" and ?room = "nat (int WRITE_BUFFER_SIZE - 1 - m_write_idx c)"
  have c: "length (m_write_buf c) = 1024" "0 \<le> m_write_idx c" "m_write_idx c < 1023"
    using assms(1) by (simp_all add: well_shaped_def WRITE_BUFFER_SIZE_def)
  then have room: "?room = 1023 - ?n" "0 < ?room" by (simp_all add: WRITE_BUFFER_SIZE_def)
  let ?t = "take (?room - 1) s @ [NUL]"
  obtain b where b: "wrs (m_write_buf c) ?n ?t = Inr b" "length b = 1024" "NUL \<in> set b"
  proof
    have l: "?n + length ?t \<le> length (m_write_buf c)" using c room by simp
    show "wrs (m_write_buf c) ?n ?t = Inr (take ?n (m_write_buf c) @ ?t @ drop (?n + length ?t) (m_write_buf c))"
      using l by (simp only: wrs_def if_True)
    then show "length (take ?n (m_write_buf c) @ ?t @ drop (?n + length ?t) (m_write_buf c)) = 1024"
      using wrs_length c(1) by metis
  qed simp
  have k: "log_ready e w k" using assms(2) by (rule log_ready_mono) simp
  have v: "vsnprintf (m_write_buf c) ?n ?room s = Inr (b, length s)" using b(1) room(2) by (simp add: vsnprintf_def)
  have shaped: "well_shaped (c\<lparr>m_write_buf := b\<rparr>)" using assms(1) b(2) by (simp add: well_shaped_def WRITE_BUFFER_SIZE_def)
  show ?thesis
  proof (cases "?room \<le> length s")
    case True
    then show ?thesis using c v k shaped by (simp add: add_response_def Let_def WRITE_BUFFER_SIZE_def answeredI)
  next
    case False
    obtain z where z: "cstr b 0 = Inr z" using b(3) by (simp add: cstr_def)
    then have "nul_free z" "length z < 1024" using cstr_split [OF z] b(2) by auto
    then obtain w' where "LOG_INFO_flush e (''request:'' @ z) w = Inr w'" "log_ready e w' k"
      using LOG_INFO_flush_ok [OF assms(2), of "''request:'' @ z"] by auto
    moreover have "well_shaped (c\<lparr>m_write_buf := b, m_write_idx := m_write_idx c + int (length s)\<rparr>)"
      using shaped False c room by (simp add: well_shaped_def WRITE_BUFFER_SIZE_def)
    ultimately show ?thesis
      using c v z False by (simp add: add_response_def Let_def WRITE_BUFFER_SIZE_def answeredI)
  qed
qed

lemma add_headers_answers:
  assumes "well_shaped c" and "log_ready e w (Suc (Suc (Suc k)))"
  shows "\<exists>d v. add_headers e n c w = Inr (d, v) \<and> well_shaped d \<and> log_ready e v k"
proof -
  have "answered e k (bindr (add_content_length e n c w) (\<lambda>(_, c, w). bindr (add_linger e c w) (\<lambda>(_, c, w). add_blank_line e c w)))"
    using assms unfolding add_content_length_def add_linger_def add_blank_line_def
    by (intro answered_seq [OF add_response_answers]) (auto intro!: answered_seq [OF add_response_answers] add_response_answers)
  then show ?thesis by (auto simp: answered_def add_headers_def bindr_eq_Inr)
qed

lemma error_answer_answers:
  assumes "well_shaped c" and "log_ready e w (k + 5)"
  shows "answered e k (error_answer e n t f c w)"
  unfolding error_answer_def add_status_line_def
proof (rule answered_seq [OF add_response_answers])
  show "well_shaped c" "log_ready e w (Suc (k + 4))" using assms by (simp_all add: add.commute)
  fix r c w assume c: "well_shaped c" "log_ready e w (k + 4)"
  have "log_ready e w (Suc (Suc (Suc (Suc k))))" using c(2) by (simp add: eval_nat_numeral)
  then obtain d v where "add_headers e (int (length f)) c w = Inr (d, v)" "well_shaped d" "log_ready e v (Suc k)"
    using add_headers_answers [OF c(1), of e w "Suc k"] by blast
  then show "answered e k (case (r, c, w) of (_, c, w) \<Rightarrow> bindr (add_headers e (int (length f)) c w) (\<lambda>(c, w).
      bindr (add_content e f c w) (\<lambda>(added, c, w).
      if \<not> added then Inr (False, c, w) else Inr (True, one_iovec c, w))))"
    by (auto simp: add_content_def one_iovec_def intro!: answered_seq [OF add_response_answers] answeredI)
qed

lemma process_write_answers:
  assumes "well_shaped c" and "log_ready e w (k + 5)"
  shows "answered e k (process_write e ret c w)"
proof (cases "ret = FILE_REQUEST")
  case False
  have "log_ready e w k" using assms(2) by (rule log_ready_mono) simp
  with False assms show ?thesis
    by (cases ret) (auto simp: process_write_def intro: error_answer_answers answeredI)
next
  case True
  show ?thesis unfolding process_write_def True HTTP_CODE.case add_status_line_def
  proof (rule answered_seq [OF add_response_answers])
    show "well_shaped c" "log_ready e w (Suc (k + 4))" using assms by (simp_all add: add.commute)
    fix r c w assume c: "well_shaped c" "log_ready e w (k + 4)"
    have h: "\<exists>d v. add_headers e n c w = Inr (d, v) \<and> well_shaped d \<and> log_ready e v (Suc k)" for n
      using add_headers_answers [OF c(1), of e w "Suc k"] c(2) by (auto simp: eval_nat_numeral)
    obtain d v where d: "add_headers e (to_int (st_size (m_file_stat c))) c w = Inr (d, v)" "well_shaped d"
      "log_ready e v k" using h log_ready_mono [of e _ "Suc k" k] by (meson Suc_n_not_le_n nat_le_linear)
    obtain d' v' where d': "add_headers e (int (length ok_string)) c w = Inr (d', v')" "well_shaped d'"
      "log_ready e v' (Suc k)" using h by blast
    have "answered e k (bindr (add_content e ok_string d' v') (\<lambda>(added, c, w). Inr (False, c, w)))"
      unfolding add_content_def
      by (rule answered_seq [OF add_response_answers [OF d'(2,3)]]) (simp add: answeredI)
    with d d'(1) show "answered e k (case (r, c, w) of (_, c, w) \<Rightarrow>
        if st_size (m_file_stat c) \<noteq> 0 then
          bindr (add_headers e (to_int (st_size (m_file_stat c))) c w) (\<lambda>(c, w).
          Inr (True, c\<lparr>m_iv0 := \<lparr>iov_base = In_buf 0, iov_len = m_write_idx c\<rparr>,
                       m_iv1 := \<lparr>iov_base = In_file 0, iov_len = st_size (m_file_stat c)\<rparr>,
                       m_iv_count := 2,
                       bytes_to_send := to_int (m_write_idx c + st_size (m_file_stat c))\<rparr>, w))
        else
          bindr (add_headers e (int (length ok_string)) c w) (\<lambda>(c, w).
          bindr (add_content e ok_string c w) (\<lambda>(added, c, w). Inr (False, c, w))))"
      by (auto intro!: answeredI)
  qed
qed

text \<open>Whether the log takes its lines or not, the connection that is left is well shaped.\<close>

lemma add_response_ok: "well_shaped c \<Longrightarrow> post (add_response e s c w) (\<lambda>(r, c', w'). well_shaped c')"
  unfolding add_response_def
  by (intro post_rules) (auto dest!: vsnprintf_length simp: well_shaped_def WRITE_BUFFER_SIZE_def)

lemma add_status_line_ok: "well_shaped c \<Longrightarrow> post (add_status_line e n t c w) (\<lambda>(r, c', w'). well_shaped c')"
  unfolding add_status_line_def by (rule add_response_ok)

lemma add_content_ok: "well_shaped c \<Longrightarrow> post (add_content e s c w) (\<lambda>(r, c', w'). well_shaped c')"
  unfolding add_content_def by (rule add_response_ok)

lemma add_headers_ok: "well_shaped c \<Longrightarrow> post (add_headers e n c w) (\<lambda>(c', w'). well_shaped c')"
  unfolding add_headers_def add_content_length_def add_linger_def add_blank_line_def
  by (intro post_seq [OF add_response_ok] post_prod) auto

lemma error_answer_ok: "well_shaped c \<Longrightarrow> post (error_answer e n t f c w) (\<lambda>(r, c', w'). well_shaped c')"
  unfolding error_answer_def one_iovec_def
  by (intro post_seq [OF add_status_line_ok] post_seq [OF add_headers_ok] post_seq [OF add_content_ok]
      post_prod post_if) auto

lemma process_write_ok: "well_shaped c \<Longrightarrow> post (process_write e ret c w) (\<lambda>(r, c', w'). well_shaped c')"
proof (cases "ret = FILE_REQUEST")
  case True
  assume "well_shaped c"
  then show ?thesis unfolding process_write_def True HTTP_CODE.case
    by (intro post_seq [OF add_status_line_ok] post_seq [OF add_headers_ok] post_seq [OF add_content_ok]
        post_prod post_if) auto
next
  case False
  assume "well_shaped c"
  with False show ?thesis by (cases ret) (auto simp: process_write_def intro: error_answer_ok)
qed

lemma close_well_shaped: "well_shaped c \<Longrightarrow> well_shaped (fst (close_conn b c w))"
  by (simp add: close_conn_def Let_def)

lemma closed_ok: "(c', w') = close_conn b c w \<Longrightarrow> well_shaped c \<Longrightarrow> well_shaped c'"
  using close_well_shaped [of c b w] by (metis fst_conv)

lemma process_read_ok: "well_shaped c \<Longrightarrow> post (process_read e c w) (\<lambda>(r, c', w'). well_shaped c')"
  unfolding process_read_def by (rule read_loop_shaped)

lemma http_init0_ok: "well_shaped (http_init0 c)"
  by (simp add: http_init0_def well_shaped_def indices_ok_def READ_BUFFER_SIZE_def WRITE_BUFFER_SIZE_def FILENAME_LEN_def)

lemma advance_iov_ok: "well_shaped c \<Longrightarrow> well_shaped (advance_iov n c)"
  by (simp add: advance_iov_def Let_def)

lemma unmap_ok: "well_shaped (unmap c) = well_shaped c"
  by (simp add: unmap_def split: option.split)

lemma write_loop_ok: "well_shaped c \<Longrightarrow> post (write_loop as c w) (\<lambda>(r, c', w'). well_shaped c')"
proof (induction as arbitrary: c w)
  case (Cons a as)
  have step: "post (write_loop as (advance_iov n c) v) (\<lambda>(r, c', w'). well_shaped c')" for n v
    using Cons.IH advance_iov_ok [OF Cons.prems] .
  show ?case using Cons.prems step
    by (cases a) (auto simp: Let_def unmap_ok advance_iov_ok http_init0_ok intro!: post_bindr)
qed simp

lemma process_ok: "well_shaped c \<Longrightarrow> post (process e c w) (\<lambda>(c', w'). well_shaped c')"
  unfolding process_def
  by (intro post_seq [OF process_read_ok] post_seq [OF process_write_ok] post_prod post_if post_let)
    (auto dest: closed_ok split: if_splits prod.splits)

lemma http_write_ok: "well_shaped c \<Longrightarrow> post (http_write as c w) (\<lambda>(r, c', w'). well_shaped c')"
  unfolding http_write_def using write_loop_ok http_init0_ok by simp

lemma http_init_ok: "well_shaped (fst (http_init fd addr d w))"
  by (simp add: http_init_def Let_def http_init0_ok)

text \<open>
  What one \<open>recv\<close> leaves: more bytes in the buffer, never more than it has room for, or, when there
  is none, the connection is over or the buffer full, the connection as it was but for
  \<open>m_read_idx\<close>, to which -1 is added when \<open>recv\<close> fails.
\<close>

definition read_left :: "http_conn \<Rightarrow> bool \<Rightarrow> http_conn \<Rightarrow> bool" where
  "read_left c ok c' =
     (if ok then well_shaped c' \<and> m_read_idx c < m_read_idx c'
      else c' = c\<lparr>m_read_idx := m_read_idx c'\<rparr> \<and> m_read_idx c' \<in> {m_read_idx c - 1, m_read_idx c})"

lemma read_once_shaped:
  assumes "well_shaped c"
  shows "\<exists>ok c'. read_once ans c = Inr (ok, c') \<and> read_left c ok c'"
proof (cases "m_read_idx c \<ge> int READ_BUFFER_SIZE \<or> ans = None")
  case True
  then show ?thesis by (cases ans) (auto simp: read_once_def read_left_def)
next
  case False
  then obtain bs where bs: "ans = Some bs" by auto
  let ?i = "nat (m_read_idx c)"
  let ?bs = "take (READ_BUFFER_SIZE - ?i) bs"
  have c: "0 \<le> m_read_idx c" "length (m_read_buf c) = READ_BUFFER_SIZE" "?i < READ_BUFFER_SIZE"
    using assms False by (auto simp: well_shaped_def indices_ok_def)
  have fits: "?i + length ?bs \<le> READ_BUFFER_SIZE" using c(3) by simp
  then obtain b where b: "wrs (m_read_buf c) ?i ?bs = Inr b"
    "b = take ?i (m_read_buf c) @ ?bs @ drop (?i + length ?bs) (m_read_buf c)"
    using c(2) by (simp add: wrs_def)
  let ?c = "c\<lparr>m_read_buf := b, m_read_idx := m_read_idx c + int (length ?bs)\<rparr>"
  have r: "read_once ans c = Inr (?bs \<noteq> [], ?c)" using False c(1) bs b(1) by (simp add: read_once_def Let_def)
  show ?thesis
  proof (cases "?bs = []")
    case True
    then have "b = m_read_buf c" using b(2) by (metis add.right_neutral append.left_neutral append_take_drop_id list.size(3))
    moreover have "int (length ?bs) = 0" using True by (simp only: list.size)
    ultimately have "?c = c" by (simp only: add_0_right) simp
    then have "read_once ans c = Inr (False, c)" using r True by (simp only: HOL.simp_thms)
    then show ?thesis by (auto simp: read_left_def)
  next
    case ne: False
    have "length b = READ_BUFFER_SIZE" using wrs_length [OF b(1)] c(2) by simp
    moreover have "m_read_idx ?c \<le> int READ_BUFFER_SIZE" using fits c(1) by simp
    moreover have "0 < length ?bs" using ne by blast
    ultimately have "read_left c True ?c"
      using assms by (simp add: read_left_def well_shaped_def indices_ok_def del: length_take)
    with r ne show ?thesis by auto
  qed
qed

text \<open>
  C36. On a connection with its arrays at their lengths and its indices in order and within them,
  \<open>read_once\<close> never leaves \<open>m_read_buf\<close>, with any answer of \<open>recv\<close>; \<open>parse_line\<close> never leaves the
  bytes that have been read, whatever they are; \<open>process_write\<close> puts together the answer to any
  result without leaving \<open>m_write_buf\<close>, if the log has room for its lines. They leave such a
  connection again, as do \<open>close_conn\<close> and \<open>init\<close>, and, when they return, the worker's whole
  \<open>process\<close>, with any file system and database, and \<open>write\<close>, with any answers of \<open>writev\<close>. A
  \<open>read_once\<close> that fails leaves all but \<open>m_read_idx\<close>, which it may set to -1, as it was: the
  caller then closes the connection.
\<close>

theorem connection_keeps_its_shape:
  assumes "well_shaped c"
  shows "(\<exists>ok c'. read_once ans c = Inr (ok, c') \<and> read_left c ok c')
    \<and> (\<exists>st c'. parse_line c = Inr (st, c') \<and> well_shaped c')
    \<and> (log_ready e w 5 \<longrightarrow> (\<exists>r c' w'. process_write e ret c w = Inr (r, c', w') \<and> well_shaped c'))
    \<and> post (process e c w) (\<lambda>(c', w'). well_shaped c')
    \<and> post (http_write as c w) (\<lambda>(r, c', w'). well_shaped c')
    \<and> well_shaped (fst (close_conn True c w)) \<and> well_shaped (fst (http_init fd addr d w))"
proof (intro conjI impI)
  show "\<exists>ok c'. read_once ans c = Inr (ok, c') \<and> read_left c ok c'" by (rule read_once_shaped [OF assms])
  show "\<exists>st c'. parse_line c = Inr (st, c') \<and> well_shaped c'" by (rule parse_line_shaped [OF assms])
  show "\<exists>r c' w'. process_write e ret c w = Inr (r, c', w') \<and> well_shaped c'" if "log_ready e w 5"
    using process_write_answers [OF assms, of e w 0 ret] that by (auto simp: answered_def)
  show "post (process e c w) (\<lambda>(c', w'). well_shaped c')" by (rule process_ok [OF assms])
  show "post (http_write as c w) (\<lambda>(r, c', w'). well_shaped c')" by (rule http_write_ok [OF assms])
  show "well_shaped (fst (close_conn True c w))" using assms by (rule close_well_shaped)
  show "well_shaped (fst (http_init fd addr d w))" by (rule http_init_ok)
qed

lemma connection_keeps_its_shape_witness:
  "(\<exists>c'. read_once (Some ''GET'') (http_init0 idle_conn) = Inr (True, c') \<and> well_shaped c' \<and> 0 < m_read_idx c')
    \<and> (\<exists>st c'. parse_line (http_init0 idle_conn) = Inr (st, c') \<and> well_shaped c')"
proof -
  have i: "m_read_idx (http_init0 idle_conn) = 0" by (simp add: http_init0_def)
  have k: "(\<exists>ok c'. read_once (Some ''GET'') (http_init0 idle_conn) = Inr (ok, c') \<and> read_left (http_init0 idle_conn) ok c')
    \<and> (\<exists>st c'. parse_line (http_init0 idle_conn) = Inr (st, c') \<and> well_shaped c')"
    using connection_keeps_its_shape [OF http_init0_ok] by blast
  then obtain ok c' where r: "read_once (Some ''GET'') (http_init0 idle_conn) = Inr (ok, c')"
    "read_left (http_init0 idle_conn) ok c'" by blast
  moreover have "ok"
    using r(1) i by (auto simp: read_once_def READ_BUFFER_SIZE_def Let_def bindr_eq_Inr)
  ultimately show ?thesis using k i by (auto simp: read_left_def)
qed

end
