(* ===== verification/V3_HttpServe.thy ===== *)
theory V3_HttpServe
  imports V3_HttpSend V3_HttpShape
begin

section \<open>version\_03: requests and their answers\<close>

text \<open>
  From the bytes of a request on a fresh connection to the bytes of the answer: \<open>read_once\<close>,
  \<open>process\<close> and \<open>write\<close> together.
\<close>

subsection \<open>A request in the buffer\<close>

definition request_bytes :: "string \<Rightarrow> string list \<Rightarrow> string \<Rightarrow> string" where
  "request_bytes line hs body = line @ crlf @ header_lines hs @ crlf @ body"

definition request_fits :: "string \<Rightarrow> string list \<Rightarrow> string \<Rightarrow> bool" where
  "request_fits line hs body =
     (plain_text line \<and> length line \<le> 1962 \<and> (\<forall>h\<in>set hs. hdr_ok h)
      \<and> length (request_bytes line hs body) \<le> READ_BUFFER_SIZE)"

text \<open>A connection as \<open>init\<close> leaves it; a worker may have given it a database connection.\<close>

definition fresh :: "http_conn \<Rightarrow> bool" where "fresh c = (http_init0 c = c\<lparr>mysql := None\<rparr>)"

lemma fresh_init [simp]: "fresh (http_init0 c)"
  by (simp add: fresh_def http_init0_def)

lemma fresh_if_init: "http_init0 c = c \<Longrightarrow> fresh c"
  by (metis fresh_init)

lemma fresh_mysql [simp]: "fresh (c\<lparr>mysql := my\<rparr>) = fresh c"
  by (cases c) (simp add: fresh_def http_init0_def)

lemma fresh_fields:
  assumes "fresh c"
  shows "m_read_buf c = replicate 2048 NUL" "m_read_idx c = 0" "m_checked_idx c = 0" "m_start_line c = 0"
    "m_check_state c = CHECK_STATE_REQUESTLINE" "m_write_buf c = replicate 1024 NUL" "m_write_idx c = 0"
    "m_real_file c = replicate 200 NUL" "cgi c = 0" "m_linger c = False" "m_content_length c = 0"
    "bytes_have_send c = 0" "bytes_to_send c = 0"
proof -
  note f = arg_cong [OF assms [unfolded fresh_def http_init0_def], symmetric]
  show "m_read_buf c = replicate 2048 NUL" using f [of m_read_buf] by (simp add: READ_BUFFER_SIZE_def)
  show "m_read_idx c = 0" using f [of m_read_idx] by simp
  show "m_checked_idx c = 0" using f [of m_checked_idx] by simp
  show "m_start_line c = 0" using f [of m_start_line] by simp
  show "m_check_state c = CHECK_STATE_REQUESTLINE" using f [of m_check_state] by simp
  show "m_write_buf c = replicate 1024 NUL" using f [of m_write_buf] by (simp add: WRITE_BUFFER_SIZE_def)
  show "m_write_idx c = 0" using f [of m_write_idx] by simp
  show "m_real_file c = replicate 200 NUL" using f [of m_real_file] by (simp add: FILENAME_LEN_def)
  show "cgi c = 0" using f [of cgi] by simp
  show "m_linger c = False" using f [of m_linger] by simp
  show "m_content_length c = 0" using f [of m_content_length] by simp
  show "bytes_have_send c = 0" using f [of bytes_have_send] by simp
  show "bytes_to_send c = 0" using f [of bytes_to_send] by simp
qed

definition with_bytes :: "string \<Rightarrow> http_conn \<Rightarrow> http_conn" where
  "with_bytes s c = c\<lparr>m_read_buf := s @ replicate (2048 - length s) NUL, m_read_idx := int (length s)\<rparr>"

lemma with_bytes_mysql: "(with_bytes s c)\<lparr>mysql := my\<rparr> = with_bytes s (c\<lparr>mysql := my\<rparr>)"
  by (simp add: with_bytes_def)

lemma read_once_fresh:
  assumes "fresh c" and "length s \<le> READ_BUFFER_SIZE" and "s \<noteq> []"
  shows "read_once (Some s) c = Inr (True, with_bytes s c)"
  using assms(2,3) fresh_fields [OF assms(1)]
  by (simp add: read_once_def with_bytes_def READ_BUFFER_SIZE_def wrs_def)

lemma request_in_buffer:
  assumes "fresh c" and "request_fits line hs body"
  shows "head_in_buffer line hs (body @ replicate (2048 - length (request_bytes line hs body)) NUL)
    (with_bytes (request_bytes line hs body) c)"
  using assms fresh_fields [OF assms(1)]
  by (simp add: head_in_buffer_def with_bytes_def request_fits_def request_bytes_def)

lemma with_answer_Nil: "m_write_buf c = replicate 1024 NUL \<Longrightarrow> m_write_idx c = 0 \<Longrightarrow> with_answer [] c = c"
  unfolding with_answer_def by (cases c) simp

lemma request_line_target:
  assumes "request_line_of s = Inr (Some (m, t))"
  shows "t \<noteq> []" "hd t = CHR ''/''" "CHR ''/'' \<in> set t"
proof -
  obtain tg where "target_path tg = Inr (Some t)"
    using assms by (auto simp: request_line_of_def bindr_eq_Inr split: option.splits if_splits)
  then show 1: "t \<noteq> []" and 2: "hd t = CHR ''/''"
    by (auto simp: target_path_def split: option.splits if_splits)
  from hd_in_set [OF 1] show "CHR ''/'' \<in> set t" unfolding 2 .
qed

text \<open>The head of a request on a fresh connection, up to \<open>do_request\<close> or to the body.\<close>

lemma process_read_fresh:
  assumes "fresh c" and "request_fits line hs body" and "request_line_of line = Inr (Some (meth, t))"
    and "log_ready e w (2 * length hs + 2 + k)"
  obtains w' d q where "log_ready e w' k" "same_but_log w w'"
    "head_read (with_bytes (request_bytes line hs body) c) line hs meth t d"
    "process_read e (with_bytes (request_bytes line hs body) c) w
      = (if content_length_of 0 hs = 0 then do_request e d w'
         else read_loop e LINE_OK (d\<lparr>m_check_state := CHECK_STATE_CONTENT\<rparr>) w')"
    "m_url d = Some q" "cstr (m_read_buf d) q = Inr t" "q + length t < length line + 2"
    "cgi d = (if meth = POST then 1 else 0)" "m_linger d = linger_of hs"
    "m_content_length d = content_length_of 0 hs" "m_real_file d = replicate 200 NUL"
    "m_write_buf d = replicate 1024 NUL" "m_write_idx d = 0" "m_sockfd d = m_sockfd c"
    "bytes_have_send d = 0" "m_string d = m_string c" "mysql d = mysql c"
proof -
  let ?c = "with_bytes (request_bytes line hs body) c"
  obtain w' d where d: "log_ready e w' k" "same_but_log w w'" "head_read ?c line hs meth t d"
    "process_read e ?c w = (if m_content_length d = 0 then do_request e d w'
       else read_loop e LINE_OK (d\<lparr>m_check_state := CHECK_STATE_CONTENT\<rparr>) w')"
    using head_loop [OF request_in_buffer [OF assms(1,2)] assms(3,4)] by blast
  moreover from d(3) obtain q where "m_url d = Some q" "cstr (m_read_buf d) q = Inr t"
    "q + length t < length line + 2" by (auto simp: head_read_def Let_def)
  moreover have "cgi d = (if meth = POST then 1 else 0)" "m_linger d = linger_of hs"
    "m_content_length d = content_length_of 0 hs" "m_real_file d = replicate 200 NUL"
    "m_write_buf d = replicate 1024 NUL" "m_write_idx d = 0" "m_sockfd d = m_sockfd c"
    "bytes_have_send d = 0" "m_string d = m_string c" "mysql d = mysql c"
    using d(3) fresh_fields [OF assms(1)] unfolding head_read_def by (simp_all add: Let_def with_bytes_def)
  ultimately show thesis by (intro that [of w' d q]) simp_all
qed

lemma opened_fields [simp]:
  "m_write_buf (opened e f c) = m_write_buf c" "m_write_idx (opened e f c) = m_write_idx c"
  "m_linger (opened e f c) = m_linger c" "m_sockfd (opened e f c) = m_sockfd c"
  "bytes_have_send (opened e f c) = bytes_have_send c" "bytes_to_send (opened e f c) = bytes_to_send c"
  by (simp_all add: opened_def Let_def split: option.splits)

lemma opened_file:
  assumes "file_code e f = FILE_REQUEST" and "en_stat e f = Some st"
  shows "m_file_stat (opened e f c) = st" "m_file_address (opened e f c) = Some (map_file e f st)"
  using assms by (simp_all add: opened_def)

text \<open>A request without a body that is no form: the file decides.\<close>

lemma process_read_plain:
  assumes "fresh c" and "request_fits line hs body" and "request_line_of line = Inr (Some (meth, t))"
    and "log_ready e w (2 * length hs + 2 + k)" and "content_length_of 0 hs = 0"
    and "meth \<noteq> POST \<or> last_part_char t \<noteq> CHR ''2'' \<and> last_part_char t \<noteq> CHR ''3''"
  obtains w' d where "log_ready e w' k" "same_but_log w w'"
    "process_read e (with_bytes (request_bytes line hs body) c) w
      = Inr (file_code e (file_of t), opened e (file_of t) d, w')"
    "with_answer [] (opened e (file_of t) d) = opened e (file_of t) d"
    "m_linger d = linger_of hs" "m_sockfd d = m_sockfd c" "bytes_have_send d = 0"
proof -
  obtain w' d q where d: "log_ready e w' k" "same_but_log w w'"
    "process_read e (with_bytes (request_bytes line hs body) c) w
      = (if content_length_of 0 hs = 0 then do_request e d w'
         else read_loop e LINE_OK (d\<lparr>m_check_state := CHECK_STATE_CONTENT\<rparr>) w')"
    "m_url d = Some q" "cstr (m_read_buf d) q = Inr t"
    "cgi d = (if meth = POST then 1 else 0)" "m_linger d = linger_of hs" "m_real_file d = replicate 200 NUL"
    "m_write_buf d = replicate 1024 NUL" "m_write_idx d = 0" "m_sockfd d = m_sockfd c" "bytes_have_send d = 0"
    using process_read_fresh [OF assms(1-4)] by metis
  let ?d = "d\<lparr>m_real_file := file_of t @ replicate (200 - length (file_of t)) NUL\<rparr>"
  have "do_request e d w' = Inr (file_code e (file_of t), opened e (file_of t) ?d, w')"
    using d(6,8) assms(6) request_line_target(3) [OF assms(3)]
    by (intro do_request_plain [OF d(4,5)]) auto
  moreover have "with_answer [] (opened e (file_of t) ?d) = opened e (file_of t) ?d"
    using d(9,10) by (intro with_answer_Nil) simp_all
  ultimately show thesis using that [of w' ?d] d assms(5) by simp
qed

definition registered :: "int \<Rightarrow> web \<Rightarrow> bool" where
  "registered fd w = (wb_flags w fd \<noteq> None \<and> wb_interest w fd \<noteq> None)"

lemma modfd_registered:
  "registered fd w \<Longrightarrow> wb_interest (modfd fd ev w) fd = Some (or ev (or EV_ONESHOT EV_RDHUP))"
  "registered fd w \<Longrightarrow> registered fd (modfd fd ev w)"
  "registered fd (put_out fd s w) = registered fd w"
  by (simp_all add: modfd_def registered_def put_out_def)

lemma modfd_sent [simp]: "wb_sent (modfd fd ev w) = wb_sent w"
  by (simp add: modfd_def)

lemma same_but_log_registered: "same_but_log w w' \<Longrightarrow> registered fd w' = registered fd w"
  by (simp add: registered_def same_but_log_simps)

text \<open>A worker prepares the answer to a GET.\<close>

lemma get_is_prepared:
  assumes "fresh c" and "request_fits line hs body" and "request_line_of line = Inr (Some (GET, t))"
    and "content_length_of 0 hs = 0" and lg: "log_ready e w (2 * length hs + 6 + k)"
    and "file_code e (file_of t) = FILE_REQUEST" and "en_stat e (file_of t) = Some st" and "small_file st"
    and "en_open e (file_of t) = Some f" and "int (length f) = st_size st"
  obtains c2 w1 where "process e ((with_bytes (request_bytes line hs body) c)\<lparr>mysql := my\<rparr>) w
      = Inr (c2, modfd (m_sockfd c) EV_OUT w1)"
    and "same_but_log w w1" and "log_ready e w1 k" and "writing (ok_header (st_size st) (linger_of hs)) f 0 c2"
    and "m_sockfd c2 = m_sockfd c" and "m_linger c2 = linger_of hs" and "m_address c2 = m_address c"
proof -
  let ?c = "c\<lparr>mysql := my\<rparr>" and ?fd = "m_sockfd c" and ?s = "request_bytes line hs body"
  have l: "log_ready e w (2 * length hs + 2 + (k + 4))" using lg by (simp add: eval_nat_numeral ac_simps)
  obtain w' d where d: "log_ready e w' (k + 4)" "same_but_log w w'"
    "process_read e (with_bytes ?s ?c) w = Inr (FILE_REQUEST, opened e (file_of t) d, w')"
    "with_answer [] (opened e (file_of t) d) = opened e (file_of t) d"
    "m_linger d = linger_of hs" "m_sockfd d = ?fd" "bytes_have_send d = 0"
    by (rule process_read_plain [OF _ assms(2,3) l assms(4), of ?c]) (simp_all add: assms(1,6))
  let ?d = "opened e (file_of t) d"
  have st: "m_file_stat ?d = st" "m_file_address ?d = Some (Mapped f)" "m_linger ?d = linger_of hs"
    using opened_file [OF assms(6,7)] assms(8,9) d(5) by (simp_all add: map_file_def small_file_def)
  obtain w1 where w1: "process_write e FILE_REQUEST ?d w' = Inr (True, file_answer ?d, w1)" "log_ready e w1 k"
    "same_but_log w' w1" using process_write_file [of ?d e w' k] d(1,4) assms(8) st(1) by auto
  have "shape ?d = shape (with_bytes ?s ?c)"
    using postD [OF read_loop_shape d(3) [unfolded process_read_def]] by simp
  from shape_address [OF this] have "m_address ?d = m_address c" by (simp add: with_bytes_def)
  then have fa: "m_sockfd (file_answer ?d) = ?fd" "m_linger (file_answer ?d) = linger_of hs" "m_address (file_answer ?d) = m_address c"
    using d(5,6) by (simp_all add: file_answer_def with_answer_def Let_def)
  have "process e ((with_bytes ?s c)\<lparr>mysql := my\<rparr>) w = Inr (file_answer ?d, modfd ?fd EV_OUT w1)"
    using d(3) w1(1) fa(1) by (simp add: process_def with_bytes_mysql)
  moreover have "same_but_log w w1" using d(2) w1(3) by (rule same_but_log_trans)
  moreover have "writing (ok_header (st_size st) (linger_of hs)) f 0 (file_answer ?d)"
    using file_answer_writing [of ?d f] assms(8,10) d(7) st by simp
  ultimately show thesis using that fa w1(2) by blast
qed

lemma request_read_once:
  assumes "fresh c" and "request_fits line hs body"
  shows "read_once (Some (request_bytes line hs body)) c = Inr (True, with_bytes (request_bytes line hs body) c)"
  using assms(2) by (intro read_once_fresh [OF assms(1)]) (simp_all add: request_bytes_def request_fits_def)

text \<open>
  C4. A GET for a file below the root that others may read: its bytes, read at once by a fresh
  connection to which a worker gives a database connection, make \<open>process\<close> prepare the answer and wait for writing, and the \<open>write\<close> that
  follows sends the header with the length of the file and whether the connection is kept,
  and the file, and waits for the next request or asks to be closed. The file is the target
  under the root, cut after 169 characters, or the page a digit behind the last slash stands
  for; nothing removes \<open>..\<close> from it. Bytes behind the request are dropped with the buffer.
\<close>

theorem get_page_is_served:
  assumes "fresh c" and "request_fits line hs body" and "request_line_of line = Inr (Some (GET, t))"
    and "content_length_of 0 hs = 0" and "log_ready e w (2 * length hs + 6)"
    and "file_code e (file_of t) = FILE_REQUEST" and "en_stat e (file_of t) = Some st" and "small_file st"
    and "en_open e (file_of t) = Some f" and "int (length f) = st_size st"
    and "registered (m_sockfd c) w"
    and "length (ok_header (st_size st) (linger_of hs)) + length f \<le> n"
  shows "\<exists>c1 c2 c3 w1 w2.
    read_once (Some (request_bytes line hs body)) c = Inr (True, c1)
    \<and> process e (c1\<lparr>mysql := my\<rparr>) w = Inr (c2, modfd (m_sockfd c) EV_OUT w1) \<and> same_but_log w w1
    \<and> http_write [W_took n] c2 (modfd (m_sockfd c) EV_OUT w1) = Inr (Some (linger_of hs), c3, w2)
    \<and> wb_sent w2 (m_sockfd c) = wb_sent w (m_sockfd c) @ ok_header (st_size st) (linger_of hs) @ f
    \<and> wb_interest w2 (m_sockfd c) = Some (or EV_IN (or EV_ONESHOT EV_RDHUP))
    \<and> (linger_of hs \<longrightarrow> fresh c3)"
proof -
  let ?fd = "m_sockfd c" and ?h = "ok_header (st_size st) (linger_of hs)" and ?s = "request_bytes line hs body"
  have lg: "log_ready e w (2 * length hs + 6 + 0)" using assms(5) by simp
  obtain c2 w1 where p: "process e ((with_bytes ?s c)\<lparr>mysql := my\<rparr>) w = Inr (c2, modfd ?fd EV_OUT w1)"
    "same_but_log w w1" "writing ?h f 0 c2" "m_sockfd c2 = ?fd" "m_linger c2 = linger_of hs"
    using get_is_prepared [OF assms(1-4) lg assms(6-10), of my] by blast
  from all_pieces_sent [OF p(3), of "[n]" "modfd ?fd EV_OUT w1"] assms(12) p(4,5)
  obtain c3 where c3: "http_write [W_took n] c2 (modfd ?fd EV_OUT w1)
      = Inr (Some (linger_of hs), c3, modfd ?fd EV_IN (put_out ?fd (?h @ f) (modfd ?fd EV_OUT w1)))"
    "linger_of hs \<longrightarrow> fresh c3" by (auto intro: fresh_if_init)
  have "registered ?fd (put_out ?fd (?h @ f) (modfd ?fd EV_OUT w1))"
    using assms(11) same_but_log_registered [OF p(2)] by (simp add: modfd_registered)
  moreover have "wb_sent w1 = wb_sent w" using p(2) by (simp add: same_but_log_simps)
  ultimately show ?thesis
    using request_read_once [OF assms(1,2)] p(1,2) c3
    by (intro exI [of _ "with_bytes ?s c"] exI [of _ c2] exI [of _ c3] exI [of _ w1] exI)
      (auto simp: modfd_registered)
qed

subsection \<open>An example\<close>

definition get_a :: string where "get_a = ''GET /a.html HTTP/1.1''"

definition a_headers :: "string list" where "a_headers = [''Host: a'', ''Connection: keep-alive'']"

lemma log_ready_site:
  assumes "k < 799999"
  shows "log_ready site_env site_web k"
proof -
  note st = log_start_sync [OF log_at_may_10_start]
  show ?thesis using assms st(1-7)
    by (auto simp: log_ready_def site_env_def site_web_def real_time_def may_10_def)
qed

lemma get_a_fits: "request_fits get_a a_headers []"
  by code_simp

lemma get_a_means: "request_line_of get_a = Inr (Some (GET, ''/a.html''))" "content_length_of 0 a_headers = 0"
  "linger_of a_headers" "file_of ''/a.html'' = hello_page" "length (ok_header 5 True) = 60"
  by code_simp+

lemma get_page_is_served_witness:
  "\<exists>c1 c2 c3 w1 w2. read_once (Some (request_bytes get_a a_headers [])) site_conn = Inr (True, c1)
    \<and> process site_env (c1\<lparr>mysql := Some 0\<rparr>) site_web = Inr (c2, modfd 7 EV_OUT w1)
    \<and> http_write [W_took 100] c2 (modfd 7 EV_OUT w1) = Inr (Some True, c3, w2)
    \<and> wb_sent w2 7 = ok_header 5 True @ ''hello'' \<and> fresh c3"
proof -
  let ?st = "\<lparr>st_mode = 0x81A4, st_size = 5\<rparr>"
  have c: "fresh site_conn" "m_sockfd site_conn = 7" by (simp_all add: site_conn_def idle_conn_def)
  have f: "en_stat site_env (file_of ''/a.html'') = Some ?st" "en_open site_env (file_of ''/a.html'') = Some ''hello''"
    by (simp_all add: site_env_def get_a_means)
  then have "file_code site_env (file_of ''/a.html'') = FILE_REQUEST"
    by (simp add: file_code_def S_IROTH_def S_ISDIR_def)
  moreover have "registered (m_sockfd site_conn) site_web" by (simp add: c registered_def site_web_def)
  moreover have "small_file ?st" by (simp add: small_file_def)
  moreover have "log_ready site_env site_web (2 * length a_headers + 6)"
    by (rule log_ready_site) (simp add: a_headers_def)
  moreover have "wb_sent site_web 7 = []" by (simp add: site_web_def)
  ultimately show ?thesis
    using get_page_is_served [OF c(1) get_a_fits get_a_means(1,2), of site_env site_web ?st "''hello''" 100 "Some 0"] f
    by (simp add: c get_a_means) blast
qed

end
