(* ===== verification/V3_HttpForm.thy ===== *)
theory V3_HttpForm
  imports V3_HttpServe
begin

section \<open>version\_03: login and registration\<close>

text \<open>
  A POST to a target \<open>/2...\<close> or \<open>/3...\<close> with the form of the pages in its body: how the form
  is taken apart, what becomes of the table of users, and the page that follows.
\<close>

subsection \<open>Taking the form apart\<close>

lemma drop_eq_ConsD: "drop i b = x # xs \<Longrightarrow> i < length b \<and> b ! i = x \<and> drop (i + 1) b = xs"
  by (metis Suc_eq_plus1 drop_Suc drop_all leI list.discI list.sel(3) nth_via_drop tl_drop)

lemma copy_until_run:
  assumes "drop i b = s @ stop # r" and "stop \<notin> set s" and "k + length s \<le> length dst"
  shows "copy_until stop b i dst k = Inr (i + length s, take k dst @ s @ drop (k + length s) dst, k + length s)"
  using assms
proof (induction s arbitrary: i dst k)
  case Nil
  then show ?case using drop_eq_ConsD [of i b stop r] by (subst copy_until.simps) simp
next
  case (Cons x s)
  have k: "k < length dst" using Cons.prems(3) by simp
  have i: "i < length b" "b ! i = x" "drop (i + 1) b = s @ stop # r" "x \<noteq> stop"
    using Cons.prems(1,2) drop_eq_ConsD [of i b x "s @ stop # r"] by auto
  have "copy_until stop b i dst k = copy_until stop b (i + 1) (dst[k := x]) (k + 1)"
    using i(1,2,4) k by (subst copy_until.simps) (simp add: wr_nat)
  also have "\<dots> = Inr (i + 1 + length s,
      take (k + 1) (dst[k := x]) @ s @ drop (k + 1 + length s) (dst[k := x]), k + 1 + length s)"
    using Cons.prems i(3) by (intro Cons.IH) simp_all
  finally show ?case using k by (simp add: take_Suc_update drop_update_lt)
qed

lemma copy_until_overflow:
  assumes "drop i b = s @ r" and "stop \<notin> set s" and "length dst < k + length s" and "k \<le> length dst"
  shows "copy_until stop b i dst k = Inl OutOfBounds"
  using assms
proof (induction s arbitrary: i dst k)
  case (Cons x s)
  have i: "i < length b" "b ! i = x" "drop (i + 1) b = s @ r" "x \<noteq> stop"
    using Cons.prems(1,2) drop_eq_ConsD [of i b x "s @ r"] by auto
  show ?case
  proof (cases "k < length dst")
    case False
    then show ?thesis using i(1,2,4) Cons.prems(4) by (subst copy_until.simps) (simp add: wr_def)
  next
    case True
    have "copy_until stop b i dst k = copy_until stop b (i + 1) (dst[k := x]) (k + 1)"
      using i(1,2,4) True by (subst copy_until.simps) (simp add: wr_nat)
    also have "\<dots> = Inl OutOfBounds" using Cons.prems(2,3) i(3) True by (intro Cons.IH) simp_all
    finally show ?thesis .
  qed
qed simp

text \<open>One of the two arrays of 100 characters: copied and terminated, or overrun.\<close>

lemma copy_field:
  assumes "drop i b = s @ stop # r" and "stop \<notin> set s"
  shows "bindr (copy_until stop b i (replicate 100 NUL) 0) (\<lambda>(i, a, k). bindr (wr a (int k) NUL) (\<lambda>a. g i a))
    = (if length s < 100 then g (i + length s) (s @ NUL # replicate (99 - length s) NUL) else Inl OutOfBounds)"
proof (cases "length s \<le> 100")
  case False
  then have "copy_until stop b i (replicate 100 NUL) 0 = Inl OutOfBounds"
    using assms by (intro copy_until_overflow [of i b s "stop # r"]) simp_all
  then show ?thesis using False by simp
next
  case True
  have c: "copy_until stop b i (replicate 100 NUL) 0
      = Inr (i + length s, s @ replicate (100 - length s) NUL, length s)"
    using copy_until_run [OF assms, of 0 "replicate 100 NUL"] True by simp
  show ?thesis
  proof (cases "length s = 100")
    case True
    then show ?thesis using c by (simp add: wr_def)
  next
    case False
    then have l: "length s < 100" using True by simp
    then have "replicate (100 - length s) NUL = NUL # replicate (99 - length s) NUL"
      by (simp flip: replicate_Suc)
    then show ?thesis using c l by simp
  qed
qed

definition form_body :: "string \<Rightarrow> string \<Rightarrow> string" where
  "form_body name password = ''user='' @ name @ ''&password='' @ password"

definition form_ok :: "string \<Rightarrow> string \<Rightarrow> bool" where
  "form_ok name password = (nul_free name \<and> nul_free password \<and> CHR ''&'' \<notin> set name)"

lemma form_fields_run:
  assumes "drop t b = form_body name password @ NUL # z" and "form_ok name password"
  shows "form_fields b t = (if length name < 100 \<and> length password < 100 then Inr (name, password) else Inl OutOfBounds)"
proof -
  have n: "CHR ''&'' \<notin> set name" "NUL \<notin> set password" "nul_free name" "nul_free password"
    using assms(2) by (auto simp: form_ok_def nul_free_def)
  have d1: "drop (t + 5) b = name @ CHR ''&'' # (''password='' @ password @ NUL # z)"
    using arg_cong [OF assms(1), of "drop 5"] by (simp add: form_body_def drop_Cons' add.commute)
  have "drop (t + 5 + length name + 10) b = drop 10 (drop (length name) (drop (t + 5) b))"
    by (simp add: add.commute add.left_commute)
  also have "\<dots> = password @ NUL # z" unfolding d1 by (simp add: drop_Cons')
  finally have d2: "drop (t + 5 + length name + 10) b = password @ NUL # z" .
  show ?thesis
    unfolding form_fields_def copy_field [OF d1 n(1)] copy_field [OF d2 n(2)]
    using cstr_held [OF n(3)] cstr_held [OF n(4)] by simp
qed

subsection \<open>The body\<close>

text \<open>The turn of the loop for a body that is all there.\<close>

lemma content_turn:
  assumes "m_check_state c = CHECK_STATE_CONTENT" and "m_checked_idx c = int n" and "m_start_line c = int n"
    and "drop n (m_read_buf c) = body @ NUL # z" and "nul_free body" and "length body \<le> 1962"
    and "m_content_length c = int (length body)" and "m_read_idx c = int (n + length body)"
    and "n + length body < 2048" and "log_ready e w (Suc k)"
  shows "\<exists>w'. read_loop e LINE_OK c w = do_request e (c\<lparr>m_string := Some n\<rparr>) w'
    \<and> log_ready e w' k \<and> same_but_log w w'"
proof -
  obtain w' where w': "LOG_INFO_flush e body w = Inr w'" "log_ready e w' k" "same_but_log w w'"
    using LOG_INFO_flush_ok [OF assms(10,5,6)] by blast
  have cs: "c\<lparr>m_start_line := int n\<rparr> = c" using assms(3) by (cases c) simp
  have n: "n \<le> length (m_read_buf c)" using assms(4) by (metis append_is_Nil_conv drop_all linorder_le_cases list.discI)
  then have b: "m_read_buf c = take n (m_read_buf c) @ body @ NUL # z"
    using assms(4) append_take_drop_id [of n "m_read_buf c"] by simp
  have "cstr (m_read_buf c) n = Inr body"
    using cstr_held_at [OF assms(5), of "take n (m_read_buf c)"] b n by (metis length_take min_absorb2)
  moreover have "get_line_at c = n" using assms(3) by (simp add: get_line_at_def)
  moreover have "wr (m_read_buf c) (int n + m_content_length c) NUL = Inr (m_read_buf c)"
    using wr_append_mid [of "take n (m_read_buf c) @ body" NUL z NUL] b n assms(7) by (simp add: min_absorb2)
  moreover have "c\<lparr>m_read_buf := m_read_buf c\<rparr> = c" by simp
  moreover have "add_int (m_content_length c) (m_checked_idx c) = Inr (m_read_idx c)"
    using assms(2,7-9) by (simp add: add_int_def)
  ultimately have "read_loop e LINE_OK c w = do_request e (c\<lparr>m_string := Some n\<rparr>) w'"
    using assms(1,2) w'(1) cs
    by (subst read_loop.simps) (simp add: next_line_def parse_content_def Let_def)
  with w' show ?thesis by blast
qed

subsection \<open>The table of users\<close>

text \<open>What a form does to the table and the database, and the page that follows.\<close>

definition insert_text :: "string \<Rightarrow> string \<Rightarrow> string" where
  "insert_text name password = ''INSERT INTO user(username, passwd) VALUES('' @ [CHR 0x27] @ name
     @ [CHR 0x27] @ '', '' @ [CHR 0x27] @ password @ [CHR 0x27] @ '')''"

definition login_page :: "string \<Rightarrow> string \<Rightarrow> web \<Rightarrow> string" where
  "login_page name password w = (if users w name = Some password then ''/welcome.html'' else ''/logError.html'')"

definition registers :: "string \<Rightarrow> web \<Rightarrow> bool" where "registers name w = (users w name = None)"

definition register_web :: "string \<Rightarrow> string \<Rightarrow> web \<Rightarrow> web" where
  "register_web name password w =
     (if registers name w
      then w\<lparr>wb_queries := wb_queries w @ [insert_text name password], users := (users w)(name \<mapsto> password)\<rparr>
      else w)"

definition register_page :: "env \<Rightarrow> nat option \<Rightarrow> string \<Rightarrow> string \<Rightarrow> web \<Rightarrow> string" where
  "register_page e my name password w =
     (if registers name w \<and> mysql_query e my (insert_text name password) = Inr 0 then ''/log.html''
      else ''/registerError.html'')"

lemma strcat_zeros:
  assumes "nul_free s" and "nul_free t" and "length s + length t < n"
  shows "strcat (s @ replicate (n - length s) NUL) t = Inr ((s @ t) @ replicate (n - length (s @ t)) NUL)"
proof -
  obtain m where m: "n - length s = Suc (length t + m)" using assms(3)
    by (metis add_Suc_right diff_add_inverse less_imp_Suc_add add.assoc)
  have "cstr (s @ replicate (n - length s) NUL) 0 = Inr s" using cstr_held [OF assms(1)] m by simp
  moreover have "n - length (s @ t) = Suc m" using m by simp
  moreover have "replicate (Suc (length t + m)) NUL = replicate (length t + 1) NUL @ replicate m NUL"
    by (simp flip: replicate_add)
  ultimately show ?thesis using m by (simp add: strcat_def wrs_def)
qed

lemma strcats_zeros:
  assumes "nul_free s" and "\<forall>t\<in>set ts. nul_free t" and "length s + length (concat ts) < n"
  shows "strcats (s @ replicate (n - length s) NUL) ts
    = Inr ((s @ concat ts) @ replicate (n - length (s @ concat ts)) NUL)"
  using assms
proof (induction ts arbitrary: s)
  case (Cons t ts)
  have "strcat (s @ replicate (n - length s) NUL) t = Inr ((s @ t) @ replicate (n - length (s @ t)) NUL)"
    using Cons.prems by (intro strcat_zeros) simp_all
  moreover have "strcats ((s @ t) @ replicate (n - length (s @ t)) NUL) ts
      = Inr (((s @ t) @ concat ts) @ replicate (n - length ((s @ t) @ concat ts)) NUL)"
    using Cons.prems by (intro Cons.IH) simp_all
  ultimately show ?case by simp
qed simp

lemma cstr_zeros: "nul_free s \<Longrightarrow> length s < n \<Longrightarrow> cstr (s @ replicate (n - length s) NUL) 0 = Inr s"
  using cstr_held [of s "replicate (n - length s - 1) NUL"] by (cases "n - length s") simp_all

lemma sql_insert_run:
  assumes "nul_free name" and "nul_free password" and "length (insert_text name password) < 200"
  shows "sql_insert name password = Inr (insert_text name password)"
proof -
  let ?s = "''INSERT INTO user(username, passwd) VALUES(''"
  let ?ts = "[[CHR 0x27], name, [CHR 0x27] @ '', '' @ [CHR 0x27], password, [CHR 0x27] @ '')'']"
  have t: "insert_text name password = ?s @ concat ?ts" by (simp add: insert_text_def)
  have "strcpy (replicate 200 NUL) ?s = Inr (?s @ replicate (200 - length ?s) NUL)"
    by (simp add: strcpy_fits flip: replicate_Suc)
  moreover have "strcats (?s @ replicate (200 - length ?s) NUL) ?ts
      = Inr ((?s @ concat ?ts) @ replicate (200 - length (?s @ concat ?ts)) NUL)"
    using assms by (intro strcats_zeros) (simp_all add: insert_text_def)
  moreover have "cstr ((?s @ concat ?ts) @ replicate (200 - length (?s @ concat ?ts)) NUL) 0 = Inr (?s @ concat ?ts)"
    using assms by (intro cstr_zeros) (simp_all add: insert_text_def)
  ultimately show ?thesis unfolding t sql_insert_def by simp
qed

lemma strcats_overflow:
  assumes "nul_free s" and "\<forall>t\<in>set ts. nul_free t" and "length s < n" and "n \<le> length s + length (concat ts)"
  shows "strcats (s @ replicate (n - length s) NUL) ts = Inl OutOfBounds"
  using assms
proof (induction ts arbitrary: s)
  case (Cons t ts)
  show ?case
  proof (cases "length s + length t < n")
    case True
    then have "strcat (s @ replicate (n - length s) NUL) t = Inr ((s @ t) @ replicate (n - length (s @ t)) NUL)"
      using Cons.prems by (intro strcat_zeros) simp_all
    moreover have "strcats ((s @ t) @ replicate (n - length (s @ t)) NUL) ts = Inl OutOfBounds"
      using Cons.prems True by (intro Cons.IH) simp_all
    ultimately show ?thesis by simp
  next
    case False
    then show ?thesis using cstr_zeros [OF Cons.prems(1,3)] Cons.prems(3)
      by (simp add: strcat_def wrs_def)
  qed
qed simp

lemma sql_insert_overflow:
  assumes "nul_free name" and "nul_free password" and "200 \<le> length (insert_text name password)"
  shows "sql_insert name password = Inl OutOfBounds"
proof -
  let ?s = "''INSERT INTO user(username, passwd) VALUES(''"
  have "strcpy (replicate 200 NUL) ?s = Inr (?s @ replicate (200 - length ?s) NUL)"
    by (simp add: strcpy_fits flip: replicate_Suc)
  moreover have "strcats (?s @ replicate (200 - length ?s) NUL)
      [[CHR 0x27], name, [CHR 0x27] @ '', '' @ [CHR 0x27], password, [CHR 0x27] @ '')''] = Inl OutOfBounds"
    using assms by (intro strcats_overflow) (simp_all add: insert_text_def)
  ultimately show ?thesis unfolding sql_insert_def by simp
qed

text \<open>The new target stands where the old one stood.\<close>

definition has_url :: "string \<Rightarrow> nat \<Rightarrow> http_conn \<Rightarrow> http_conn" where
  "has_url s url c = c\<lparr>m_read_buf := take url (m_read_buf c) @ s @ NUL # drop (url + length s + 1) (m_read_buf c)\<rparr>"

lemma set_url_run: "url + length s < length (m_read_buf c) \<Longrightarrow> set_url s url c = Inr (has_url s url c)"
  by (simp add: set_url_def wrs_def has_url_def)

lemma has_url_cstr:
  assumes "nul_free s" and "url + length s < length (m_read_buf c)"
  shows "cstr (m_read_buf (has_url s url c)) url = Inr s"
  using cstr_held_at [OF assms(1), of "take url (m_read_buf c)"] assms(2)
  by (simp add: has_url_def min_absorb2)

definition form_page :: "env \<Rightarrow> char \<Rightarrow> nat option \<Rightarrow> string \<Rightarrow> string \<Rightarrow> web \<Rightarrow> string" where
  "form_page e x my name password w =
     (if x = CHR ''3'' then register_page e my name password w else login_page name password w)"

definition form_web :: "char \<Rightarrow> string \<Rightarrow> string \<Rightarrow> web \<Rightarrow> web" where
  "form_web x name password w = (if x = CHR ''3'' then register_web name password w else w)"

lemma form_page_facts:
  "nul_free (form_page e x my name password w)" "length (form_page e x my name password w) \<le> 19"
  "form_page e x my name password w ! 1 \<notin> {CHR ''0'', CHR ''1'', CHR ''5'', CHR ''6'', CHR ''7''}"
  "1 < length (form_page e x my name password w)"
  by (auto simp: form_page_def register_page_def login_page_def)

text \<open>A registration of a new name reaches the database, so the worker must have a connection.\<close>

definition lacks_db :: "char \<Rightarrow> nat option \<Rightarrow> string \<Rightarrow> web \<Rightarrow> bool" where
  "lacks_db x my name w = (x = CHR ''3'' \<and> registers name w \<and> my = None)"

text \<open>The name, the password and the statement fit the arrays of the code.\<close>

definition form_fits :: "char \<Rightarrow> string \<Rightarrow> string \<Rightarrow> bool" where
  "form_fits x name password = (length name < 100 \<and> length password < 100
     \<and> (x = CHR ''3'' \<longrightarrow> length (insert_text name password) < 200))"

lemma form_result:
  assumes "form_ok name password" and "form_fits x name password" and "\<not> m_lock w"
    and "url + 19 < length (m_read_buf c)"
  shows "(if x = CHR ''3'' then register e name password url c w
      else bindr (login name password url c w) (\<lambda>c. Inr (c, w)))
    = (if lacks_db x (mysql c) name w then Inl NullDeref
       else Inr (has_url (form_page e x (mysql c) name password w) url c, form_web x name password w))"
proof -
  have u: "set_url s url c = Inr (has_url s url c)" if "length s \<le> 19" for s
    using assms(4) that by (intro set_url_run) simp
  show ?thesis
  proof (cases "x = CHR ''3''")
    case False
    then show ?thesis using u by (simp add: login_def form_page_def login_page_def form_web_def lacks_db_def)
  next
    case True
    have sql: "sql_insert name password = Inr (insert_text name password)"
      using assms(1,2) True by (intro sql_insert_run) (simp_all add: form_ok_def form_fits_def)
    have m: "m_lock w = False" using assms(3) by simp
    have w: "w\<lparr>m_lock := False, wb_queries := q, users := us\<rparr> = w\<lparr>wb_queries := q, users := us\<rparr>" for q us
      using m by (cases w) simp
    show ?thesis
    proof (cases "users w name")
      case (Some p)
      then show ?thesis using True sql u
        by (simp add: register_def form_page_def register_page_def form_web_def register_web_def registers_def
            lacks_db_def)
    next
      case None
      show ?thesis using True sql None u m w
        by (cases "mysql c") (simp_all add: register_def lock_users_def unlock_users_def form_page_def register_page_def
            form_web_def register_web_def registers_def lacks_db_def mysql_query_def Let_def)
    qed
  qed
qed

subsection \<open>\<open>do_request\<close> for a form\<close>

definition form_target :: "char \<Rightarrow> string \<Rightarrow> string \<Rightarrow> bool" where
  "form_target x r t = (t = CHR ''/'' # x # r \<and> x \<in> {CHR ''2'', CHR ''3''} \<and> CHR ''/'' \<notin> set r
     \<and> nul_free r \<and> length r < 199)"

lemma form_target_facts:
  assumes "form_target x r t"
  shows "strrchr (CHR ''/'') t = Some 0" "last_part_char t = x" "x = CHR ''2'' \<or> x = CHR ''3''"
proof -
  have "CHR ''/'' \<notin> set (x # r)" using assms by (auto simp: form_target_def)
  from strrchr_append [OF this, of "[]"] assms show 1: "strrchr (CHR ''/'') t = Some 0"
    by (simp add: form_target_def)
  show "last_part_char t = x" using assms unfolding last_part_char_def 1 by (simp add: form_target_def)
  show "x = CHR ''2'' \<or> x = CHR ''3''" using assms by (simp add: form_target_def)
qed

text \<open>The connection after the first lines of the branch: the file name gets the rest of the target.\<close>

definition form_file :: "string \<Rightarrow> string" where
  "form_file r = take 169 (CHR ''/'' # r) @ replicate (169 - length (CHR ''/'' # r)) NUL"

lemma do_form_start:
  assumes "cstr (m_read_buf c) url = Inr t" and "form_target x r t"
    and "m_real_file c = doc_root @ replicate 169 NUL @ [NUL]" and "m_string c = Some s"
  shows "do_form e x url c w = bindr (form_fields (m_read_buf c) s) (\<lambda>(name, password).
     let d = c\<lparr>m_real_file := doc_root @ form_file r @ [NUL]\<rparr> in
     if x = CHR ''3'' then register e name password url d w
     else bindr (login name password url d w) (\<lambda>c. Inr (c, w)))"
proof -
  have r: "nul_free r" "length r < 199" "t = CHR ''/'' # x # r" using assms(2) by (simp_all add: form_target_def)
  obtain z where "drop url (m_read_buf c) = t @ NUL # z" using cstr_split(2) [OF assms(1)] by blast
  then have "drop (url + 2) (m_read_buf c) = r @ NUL # z"
    using r(3) by (metis append_Cons drop_drop add.commute drop_Suc_Cons drop_0 numeral_2_eq_2)
  then have rest: "cstr (m_read_buf c) (url + 2) = Inr r"
    using r(1) by (auto simp: cstr_def nul_free_def intro: takeWhile_append_hit)
  have "strcats (''/'' @ replicate (200 - length ''/'') NUL) [r]
      = Inr ((''/'' @ concat [r]) @ replicate (200 - length (''/'' @ concat [r])) NUL)"
    using r by (intro strcats_zeros) simp_all
  then have cat: "strcats (CHR ''/'' # NUL # replicate 198 NUL) [r]
      = Inr ((CHR ''/'' # r) @ replicate (200 - length (CHR ''/'' # r)) NUL)"
    by (simp flip: replicate_Suc)
  have url_real: "cstr ((CHR ''/'' # r) @ replicate (200 - length (CHR ''/'' # r)) NUL) 0 = Inr (CHR ''/'' # r)"
    using r by (intro cstr_zeros) simp_all
  have "strncpy (doc_root @ replicate 169 NUL @ [NUL]) 30 (CHR ''/'' # r) 169
      = Inr (doc_root @ take 169 (CHR ''/'' # r) @ replicate (169 - length (CHR ''/'' # r)) NUL
          @ drop 169 (replicate 169 NUL @ [NUL]))"
    by (rule strncpy_root) simp_all
  then have cpy: "strncpy (m_real_file c) (length doc_root) (CHR ''/'' # r) (FILENAME_LEN - length doc_root - 1)
      = Inr (doc_root @ form_file r @ [NUL])"
    by (simp only: assms(3) FILENAME_LEN_def length_doc_root form_file_def) simp
  show ?thesis
    unfolding do_form_def rest bindr_Inr cat url_real cpy using assms(4) by (simp add: Let_def)
qed

lemma do_request_form:
  assumes "m_url d = Some url" and "cstr (m_read_buf d) url = Inr t" and "form_target x r t"
    and "m_real_file d = replicate 200 NUL" and "cgi d = 1" and "m_string d = Some s"
    and "drop s (m_read_buf d) = form_body name password @ NUL # z" and "form_ok name password"
    and "form_fits x name password" and "\<not> m_lock w" and "url + 19 < length (m_read_buf d)"
    and "\<not> lacks_db x (mysql d) name w"
  shows "\<exists>b. do_request e d w =
    (let page = form_page e x (mysql d) name password w; f = doc_root @ page in
     Inr (file_code e f, opened e f (d\<lparr>m_read_buf := b, m_real_file := f @ replicate (200 - length f) NUL\<rparr>),
          form_web x name password w))"
proof -
  let ?page = "form_page e x (mysql d) name password w" and ?d = "d\<lparr>m_real_file := doc_root @ replicate 169 NUL @ [NUL]\<rparr>"
  let ?f = "doc_root @ ?page"
  define d1 where "d1 = d\<lparr>m_real_file := doc_root @ form_file r @ [NUL]\<rparr>"
  define d2 where "d2 = has_url ?page url d1"
  note ft = form_target_facts [OF assms(3)] and pg = form_page_facts [of e x "mysql d" name password w]
  have len: "url + length ?page < length (m_read_buf d)" using assms(11) pg(2) by simp
  have fields: "form_fields (m_read_buf d) s = Inr (name, password)"
    using form_fields_run [OF assms(7,8)] assms(9) by (simp add: form_fits_def)
  have "do_form e x url ?d w = (if x = CHR ''3'' then register e name password url d1 w
     else bindr (login name password url d1 w) (\<lambda>c. Inr (c, w)))"
    using do_form_start [of ?d url t x r s e w] assms(2,3,6) fields
    by (simp add: d1_def Let_def)
  also have "\<dots> = Inr (d2, form_web x name password w)"
    using form_result [OF assms(8-10), of url d1 e] assms(11,12) by (simp add: d2_def d1_def)
  finally have form: "do_form e x url ?d w = Inr (d2, form_web x name password w)" .
  have c2: "cstr (m_read_buf d2) url = Inr ?page"
    unfolding d2_def using len by (intro has_url_cstr pg(1)) (simp add: d1_def)
  have "m_read_buf d2 = take url (m_read_buf d) @ ?page @ NUL # drop (url + length ?page + 1) (m_read_buf d)"
    by (simp add: d2_def has_url_def d1_def)
  then have ch: "rd (m_read_buf d2) (int (url + 1)) = Inr (?page ! 1)"
    using len pg(4) by (simp add: rd_nat nth_append min_absorb2 del: of_nat_Suc)
  have "page_of (?page ! 1) = None" using pg(3) by (simp add: page_of_def)
  then have path: "path_under_root (?page ! 1) ?page = ?page" using pg(2) by (simp add: path_under_root_def)
  have "set_real_file (?page ! 1) url d2 = Inr (d2\<lparr>m_real_file := doc_root @ path_under_root (?page ! 1) ?page
      @ replicate (170 - length (path_under_root (?page ! 1) ?page)) NUL\<rparr>)"
    using c2 \<open>page_of _ = None\<close>
    by (intro set_real_file_run [where x = "form_file r"]) (simp_all add: d2_def has_url_def d1_def form_file_def)
  then have set: "set_real_file (?page ! 1) url d2 = Inr (d2\<lparr>m_real_file := ?f @ replicate (200 - length ?f) NUL\<rparr>)"
    unfolding path by simp
  have "nul_free ?f" "length ?f < 200" using pg(1,2) by simp_all
  then have "cstr (?f @ replicate (200 - length ?f) NUL) 0 = Inr ?f" by (rule cstr_zeros)
  then have opn: "open_file e (d2\<lparr>m_real_file := ?f @ replicate (200 - length ?f) NUL\<rparr>)
      = Inr (file_code e ?f, opened e ?f (d2\<lparr>m_real_file := ?f @ replicate (200 - length ?f) NUL\<rparr>))"
    by (intro open_file_run) simp
  have ch0: "rd (m_read_buf d) (int (url + 1)) = Inr x"
    using rd_last_part [OF assms(2) ft(1)] ft(2) by simp
  have strcpy: "strcpy (m_real_file d) doc_root = Inr (doc_root @ replicate 169 NUL @ [NUL])"
    unfolding assms(4) by (rule strcpy_root)
  have upd: "d2\<lparr>m_real_file := ?f @ replicate (200 - length ?f) NUL\<rparr>
      = d\<lparr>m_read_buf := m_read_buf d2, m_real_file := ?f @ replicate (200 - length ?f) NUL\<rparr>"
    by (simp add: d2_def has_url_def d1_def)
  have "do_request e d w = Inr (file_code e ?f, opened e ?f (d2\<lparr>m_real_file := ?f @ replicate (200 - length ?f) NUL\<rparr>),
      form_web x name password w)"
    using assms(1,2,5) ft form ch ch0 set opn
    unfolding do_request_def strcpy bindr_Inr Let_def by simp
  then show ?thesis unfolding upd Let_def by blast
qed

text \<open>A fault of the branch is one of \<open>do_request\<close>.\<close>

lemma do_request_fault:
  assumes "m_url d = Some url" and "cstr (m_read_buf d) url = Inr t" and "form_target x r t"
    and "m_real_file d = replicate 200 NUL" and "cgi d = 1"
    and "do_form e x url (d\<lparr>m_real_file := doc_root @ replicate 169 NUL @ [NUL]\<rparr>) w = Inl z"
  shows "do_request e d w = Inl z"
proof -
  note ft = form_target_facts [OF assms(3)]
  have "rd (m_read_buf d) (int (url + 1)) = Inr x" using rd_last_part [OF assms(2) ft(1)] ft(2) by simp
  moreover have "strcpy (m_real_file d) doc_root = Inr (doc_root @ replicate 169 NUL @ [NUL])"
    unfolding assms(4) by (rule strcpy_root)
  ultimately show ?thesis using assms(1,2,5,6) ft by (simp add: do_request_def Let_def)
qed

text \<open>The worker has no connection for the statement.\<close>

lemma do_request_no_db:
  assumes "m_url d = Some url" and "cstr (m_read_buf d) url = Inr t" and "form_target x r t"
    and "m_real_file d = replicate 200 NUL" and "cgi d = 1" and "m_string d = Some s"
    and "drop s (m_read_buf d) = form_body name password @ NUL # z" and "form_ok name password"
    and "form_fits x name password" and "\<not> m_lock w" and "url + 19 < length (m_read_buf d)"
    and "lacks_db x (mysql d) name w"
  shows "do_request e d w = Inl NullDeref"
proof -
  let ?d = "d\<lparr>m_real_file := doc_root @ replicate 169 NUL @ [NUL]\<rparr>"
  have "form_fields (m_read_buf d) s = Inr (name, password)"
    using form_fields_run [OF assms(7,8)] assms(9) by (simp add: form_fits_def)
  then have "do_form e x url ?d w = Inl NullDeref"
    using do_form_start [of ?d url t x r s e w] assms(2,3,6,11,12)
      form_result [OF assms(8-10), of url "d\<lparr>m_real_file := doc_root @ form_file r @ [NUL]\<rparr>" e]
    by (simp add: Let_def)
  from do_request_fault [OF assms(1-5) this] show ?thesis .
qed

text \<open>The form does not fit the arrays of the code.\<close>

lemma do_request_overflow:
  assumes "m_url d = Some url" and "cstr (m_read_buf d) url = Inr t" and "form_target x r t"
    and "m_real_file d = replicate 200 NUL" and "cgi d = 1" and "m_string d = Some s"
    and "drop s (m_read_buf d) = form_body name password @ NUL # z" and "form_ok name password"
    and "\<not> form_fits x name password"
  shows "do_request e d w = Inl OutOfBounds"
proof -
  let ?d = "d\<lparr>m_real_file := doc_root @ replicate 169 NUL @ [NUL]\<rparr>"
  have "register e name password url c w = Inl OutOfBounds" if "200 \<le> length (insert_text name password)" for c
    using sql_insert_overflow [OF _ _ that] assms(8) by (simp add: register_def form_ok_def)
  then have "do_form e x url ?d w = Inl OutOfBounds"
    using do_form_start [of ?d url t x r s e w] assms(2,3,6,9) form_fields_run [OF assms(7,8)]
    by (auto simp: form_fits_def)
  from do_request_fault [OF assms(1-5) this] show ?thesis .
qed

end
