(* ===== verification/V3_HttpPost.thy ===== *)
theory V3_HttpPost
  imports V3_HttpForm
begin

section \<open>version\_03: a POST from its bytes to the next page\<close>

text \<open>
  The forms of the pages as requests: the whole request read at once by a fresh connection
  that a worker has given a database connection, and a request whose body comes in pieces.
\<close>

subsection \<open>The request\<close>

text \<open>A worker of the pool sets \<open>mysql\<close> before it calls \<open>process\<close>.\<close>

definition given :: "nat option \<Rightarrow> string \<Rightarrow> http_conn \<Rightarrow> http_conn" where
  "given my s c = (with_bytes s c)\<lparr>mysql := my\<rparr>"

definition post_request :: "string \<Rightarrow> string list \<Rightarrow> string \<Rightarrow> char \<Rightarrow> string \<Rightarrow> bool" where
  "post_request line hs body x r =
     (request_fits line hs body \<and> length (request_bytes line hs body) < READ_BUFFER_SIZE
      \<and> nul_free body \<and> length body \<le> 1962 \<and> body \<noteq> []
      \<and> content_length_of 0 hs = int (length body)
      \<and> (\<exists>t. request_line_of line = Inr (Some (POST, t)) \<and> form_target x r t))"

text \<open>The loop reaches \<open>do_request\<close> with the body in \<open>m_string\<close>.\<close>

lemma process_read_post:
  assumes "fresh c" and "post_request line hs body x r" and "log_ready e w (2 * length hs + 3 + k)"
  obtains w' d t q s z where "log_ready e w' k" "same_but_log w w'"
    "process_read e (given my (request_bytes line hs body) c) w = do_request e d w'"
    "form_target x r t" "m_url d = Some q" "cstr (m_read_buf d) q = Inr t"
    "q + 19 < length (m_read_buf d)" "cgi d = 1" "m_string d = Some s"
    "drop s (m_read_buf d) = body @ NUL # z" "m_linger d = linger_of hs" "m_real_file d = replicate 200 NUL"
    "m_write_buf d = replicate 1024 NUL" "m_write_idx d = 0" "m_sockfd d = m_sockfd c"
    "bytes_have_send d = 0" "mysql d = my"
proof -
  let ?s = "request_bytes line hs body" and ?c = "given my (request_bytes line hs body) c"
  let ?n = "length line + 2 + length (header_lines hs) + 2"
  note p = assms(2) [unfolded post_request_def]
  obtain t where t: "request_line_of line = Inr (Some (POST, t))" "form_target x r t" using p by blast
  have fits: "request_fits line hs body" and len: "length ?s < 2048" and nb: "nul_free body" "length body \<le> 1962"
    and cl: "content_length_of 0 hs = int (length body)" "body \<noteq> []"
    using p by (simp_all add: READ_BUFFER_SIZE_def)
  note f = fresh_fields [OF assms(1)]
  have hd: "head_in_buffer line hs (body @ replicate (2048 - length ?s) NUL) ?c"
    using request_in_buffer [OF assms(1) fits] by (simp add: given_def head_in_buffer_def)
  have lg: "log_ready e w (2 * length hs + 2 + Suc k)" using assms(3) by (simp add: eval_nat_numeral)
  obtain w1 d where d: "log_ready e w1 (Suc k)" "same_but_log w w1" "head_read ?c line hs POST t d"
    "process_read e ?c w = (if m_content_length d = 0 then do_request e d w1
       else read_loop e LINE_OK (d\<lparr>m_check_state := CHECK_STATE_CONTENT\<rparr>) w1)"
    using head_loop [OF hd t(1) lg] by blast
  have clen: "m_content_length d = int (length body)"
    using d(3) cl f(11) by (simp add: head_read_def Let_def given_def with_bytes_def)
  obtain q where q: "m_url d = Some q" "cstr (m_read_buf d) q = Inr t" "q + length t < length line + 2"
    using d(3) by (auto simp: head_read_def Let_def)
  have n: "?n + length body = length ?s" by (simp add: request_bytes_def)
  have "drop ?n (m_read_buf ?c) = body @ replicate (2048 - length ?s) NUL"
    by (simp add: given_def with_bytes_def request_bytes_def drop_Cons')
  also have "\<dots> = body @ NUL # replicate (2047 - length ?s) NUL" using len by (simp flip: replicate_Suc)
  finally have body: "drop ?n (m_read_buf d) = body @ NUL # replicate (2047 - length ?s) NUL"
    using d(3) by (simp add: head_read_def Let_def)
  let ?d = "d\<lparr>m_check_state := CHECK_STATE_CONTENT\<rparr>"
  have "\<exists>w'. read_loop e LINE_OK ?d w1 = do_request e (?d\<lparr>m_string := Some ?n\<rparr>) w'
      \<and> log_ready e w' k \<and> same_but_log w1 w'"
  proof (rule content_turn)
    show "drop ?n (m_read_buf ?d) = body @ NUL # replicate (2047 - length ?s) NUL" using body by simp
    show "m_checked_idx ?d = int ?n" "m_start_line ?d = int ?n"
      using d(3) by (simp_all add: head_read_def Let_def)
    show "m_read_idx ?d = int (?n + length body)"
      using d(3) n by (simp add: head_read_def Let_def given_def with_bytes_def)
    show "?n + length body < 2048" using n len by simp
  qed (use nb clen d(1) in simp_all)
  then obtain w' where w': "read_loop e LINE_OK ?d w1 = do_request e (?d\<lparr>m_string := Some ?n\<rparr>) w'"
    "log_ready e w' k" "same_but_log w1 w'" by blast
  have "length line \<le> 1962" using fits by (simp add: request_fits_def)
  moreover have "length (m_read_buf d) = 2048"
    using d(3) len by (simp add: head_read_def Let_def given_def with_bytes_def)
  ultimately have "q + 19 < length (m_read_buf d)" using q(3) by simp
  moreover have "cgi d = 1" "m_linger d = linger_of hs" "m_real_file d = replicate 200 NUL"
    "m_write_buf d = replicate 1024 NUL" "m_write_idx d = 0" "m_sockfd d = m_sockfd c"
    "bytes_have_send d = 0" "mysql d = my"
    using d(3) f by (simp_all add: head_read_def Let_def given_def with_bytes_def)
  moreover have "process_read e ?c w = do_request e (?d\<lparr>m_string := Some ?n\<rparr>) w'"
    using d(4) clen cl(2) w'(1) by simp
  ultimately show thesis
    using that [of w' "?d\<lparr>m_string := Some ?n\<rparr>" t q ?n] w'(2) same_but_log_trans [OF d(2) w'(3)] t(2) q body
    by simp
qed

text \<open>
  C9. A POST of a form to \<open>/2...\<close> or \<open>/3...\<close>, read at once: the name and the password are the
  ones between \<open>user=\<close>, \<open>&password=\<close> and the end. A login (2) leads to the welcome page exactly
  when the table has the name with this password. A registration (3) of a name that is not
  in the table enters it, whatever the database says, and gives MySQL the statement with
  name and password between its quotes as they were sent; it leads to the login page exactly
  when MySQL took the statement; a worker that has no connection to the database follows a null
  pointer there. Nothing else that is shared changes but the log.
\<close>

theorem form_is_answered:
  assumes "fresh c" and "post_request line hs (form_body name password) x r" and "form_ok name password"
    and "form_fits x name password" and "\<not> m_lock w" and "log_ready e w (2 * length hs + 3)"
  shows "\<exists>w' d. same_but_log w w' \<and> m_linger d = linger_of hs \<and> m_sockfd d = m_sockfd c \<and>
    process_read e (given my (request_bytes line hs (form_body name password)) c) w =
      (if x = CHR ''3'' \<and> users w name = None \<and> my = None then Inl NullDeref else
       let page = (if x = CHR ''2'' then
                     if users w name = Some password then ''/welcome.html'' else ''/logError.html''
                   else if users w name = None \<and> mysql_query e my (insert_text name password) = Inr 0
                   then ''/log.html'' else ''/registerError.html'');
           f = doc_root @ page in
       Inr (file_code e f, opened e f d,
         if x = CHR ''3'' \<and> users w name = None
         then w'\<lparr>wb_queries := wb_queries w @ [insert_text name password], users := (users w)(name \<mapsto> password)\<rparr>
         else w'))"
proof -
  have lg: "log_ready e w (2 * length hs + 3 + 0)" using assms(6) by simp
  obtain w' d t q s z where d: "same_but_log w w'"
    "process_read e (given my (request_bytes line hs (form_body name password)) c) w = do_request e d w'"
    "form_target x r t" "m_url d = Some q" "cstr (m_read_buf d) q = Inr t"
    "q + 19 < length (m_read_buf d)" "cgi d = 1" "m_string d = Some s"
    "drop s (m_read_buf d) = form_body name password @ NUL # z" "m_linger d = linger_of hs"
    "m_real_file d = replicate 200 NUL" "m_sockfd d = m_sockfd c" "mysql d = my"
    using process_read_post [OF assms(1,2) lg, of my] by metis
  have lock: "\<not> m_lock w'" using assms(5) d(1) by (simp add: same_but_log_simps)
  have same: "users w' = users w" "wb_queries w' = wb_queries w" using d(1) by (simp_all add: same_but_log_simps)
  obtain b where b: "\<not> lacks_db x (mysql d) name w' \<Longrightarrow> do_request e d w' =
    (let page = form_page e x (mysql d) name password w'; f = doc_root @ page in
     Inr (file_code e f, opened e f (d\<lparr>m_read_buf := b, m_real_file := f @ replicate (200 - length f) NUL\<rparr>),
          form_web x name password w'))"
    using do_request_form [OF d(4,5,3,11,7,8,9) assms(3,4) lock d(6), of e] by blast
  have null: "do_request e d w' = Inl NullDeref" if "lacks_db x my name w"
    using do_request_no_db [OF d(4,5,3,11,7,8,9) assms(3,4) lock d(6), of e] that d(13) same
    by (simp add: lacks_db_def registers_def)
  let ?page = "form_page e x my name password w'"
  let ?d = "d\<lparr>m_read_buf := b, m_real_file := (doc_root @ ?page) @ replicate (200 - length (doc_root @ ?page)) NUL\<rparr>"
  have x: "x = CHR ''2'' \<or> x = CHR ''3''" using form_target_facts(3) [OF d(3)] .
  have f: "m_linger ?d = linger_of hs" "m_sockfd ?d = m_sockfd c" using d(10,12) by simp_all
  have pr: "process_read e (given my (request_bytes line hs (form_body name password)) c) w
      = Inr (file_code e (doc_root @ ?page), opened e (doc_root @ ?page) ?d, form_web x name password w')"
    if "\<not> lacks_db x my name w"
    using d(2,13) b that by (simp add: Let_def lacks_db_def registers_def same)
  have page_eq: "?page = (if x = CHR ''2'' then
         if users w name = Some password then ''/welcome.html'' else ''/logError.html''
       else if users w name = None \<and> mysql_query e my (insert_text name password) = Inr 0
       then ''/log.html'' else ''/registerError.html'')"
    using x by (auto simp: form_page_def login_page_def register_page_def registers_def same)
  have web_eq: "form_web x name password w' = (if x = CHR ''3'' \<and> users w name = None
       then w'\<lparr>wb_queries := wb_queries w @ [insert_text name password], users := (users w)(name \<mapsto> password)\<rparr>
       else w')"
    by (simp add: form_web_def register_web_def registers_def same)
  have lacks: "x = CHR ''3'' \<and> users w name = None \<and> my = None \<longleftrightarrow> lacks_db x my name w"
    by (simp add: lacks_db_def registers_def)
  show ?thesis
    unfolding page_eq [symmetric] Let_def lacks
    by (intro exI [of _ w'] exI [of _ ?d] conjI d(1) f) (unfold web_eq [symmetric], use d(2) pr null in simp)
qed

text \<open>
  C34. The two fields are copied into arrays of 100 characters and the statement into one of 200
  without a test: a longer one of them is written past its array.
\<close>

theorem long_form_overflows:
  assumes "fresh c" and "post_request line hs (form_body name password) x r" and "form_ok name password"
    and "log_ready e w (2 * length hs + 3)"
    and "100 \<le> length name \<or> 100 \<le> length password
      \<or> x = CHR ''3'' \<and> 200 \<le> length (insert_text name password)"
  shows "process_read e (given my (request_bytes line hs (form_body name password)) c) w = Inl OutOfBounds"
proof -
  have lg: "log_ready e w (2 * length hs + 3 + 0)" using assms(4) by simp
  obtain w' d t q s z where d:
    "process_read e (given my (request_bytes line hs (form_body name password)) c) w = do_request e d w'"
    "form_target x r t" "m_url d = Some q" "cstr (m_read_buf d) q = Inr t" "cgi d = 1" "m_string d = Some s"
    "drop s (m_read_buf d) = form_body name password @ NUL # z" "m_real_file d = replicate 200 NUL"
    using process_read_post [OF assms(1,2) lg, of my] by metis
  have "\<not> form_fits x name password" using assms(5) by (auto simp: form_fits_def)
  with do_request_overflow [OF d(3,4,2,8,5,6,7) assms(3)] d(1) show ?thesis by simp
qed

subsection \<open>Examples\<close>

definition login_line :: string where "login_line = ''POST /2log HTTP/1.1''"

definition register_line :: string where "register_line = ''POST /3reg HTTP/1.1''"

lemma login_request:
  "post_request login_line [''Content-length:  25''] (form_body ''ann'' ''letmein'') (CHR ''2'') ''log''"
  unfolding post_request_def by (intro conjI exI [of _ "''/2log''"]) code_simp+

lemma register_request:
  "post_request register_line [''Content-length:  25''] (form_body ''bob'' ''letmein'') (CHR ''3'') ''reg''"
  unfolding post_request_def by (intro conjI exI [of _ "''/3reg''"]) code_simp+

lemma form_is_answered_witness:
  "\<exists>w' d. same_but_log site_web w' \<and>
    process_read site_env (given (Some 0) (request_bytes register_line [''Content-length:  25'']
        (form_body ''bob'' ''letmein'')) site_conn) site_web
    = Inr (NO_RESOURCE, opened site_env (doc_root @ ''/log.html'') d,
        w'\<lparr>wb_queries := [insert_text ''bob'' ''letmein''],
           users := (users site_web)(''bob'' \<mapsto> ''letmein'')\<rparr>)"
proof -
  have c: "fresh site_conn" by (simp add: site_conn_def)
  have f: "form_ok ''bob'' ''letmein''" "form_fits (CHR ''3'') ''bob'' ''letmein''" by code_simp+
  have w: "\<not> m_lock site_web" "users site_web ''bob'' = None" "wb_queries site_web = []"
    by (simp_all add: site_web_def)
  have e: "mysql_query site_env (Some 0) (insert_text ''bob'' ''letmein'') = Inr 0"
    by (simp add: site_env_def mysql_query_def)
  have "doc_root @ ''/log.html'' \<noteq> hello_page" by code_simp
  then have "file_code site_env (doc_root @ ''/log.html'') = NO_RESOURCE"
    by (simp add: file_code_def site_env_def)
  moreover have "log_ready site_env site_web (2 * length [''Content-length:  25''] + 3)"
    by (rule log_ready_site) simp
  ultimately show ?thesis
    using form_is_answered [OF c register_request f w(1), of site_env "Some 0"] w(2,3) e by (simp add: Let_def) blast
qed

definition long_name :: string where "long_name = replicate 100 (CHR ''x'')"

lemma long_form_overflows_witness:
  "process_read site_env (given (Some 0) (request_bytes login_line [''Content-length: 122'']
      (form_body long_name ''letmein'')) site_conn) site_web = Inl OutOfBounds"
proof -
  have c: "fresh site_conn" by (simp add: site_conn_def)
  have "post_request login_line [''Content-length: 122''] (form_body long_name ''letmein'') (CHR ''2'') ''log''"
    unfolding post_request_def by (intro conjI exI [of _ "''/2log''"]) code_simp+
  moreover have "form_ok long_name ''letmein''" by code_simp
  moreover have "log_ready site_env site_web (2 * length [''Content-length: 122''] + 3)"
    by (rule log_ready_site) simp
  moreover have "100 \<le> length long_name" by (simp add: long_name_def)
  ultimately show ?thesis using long_form_overflows [OF c] by blast
qed

end
