(* ===== verification/V3_HttpStuck.thy ===== *)
theory V3_HttpStuck
  imports V3_HttpPost
begin

section \<open>version\_03: requests that are never answered\<close>

text \<open>
  \<open>parse_line\<close> moves \<open>m_checked_idx\<close> over a body that is not complete, and the test for the
  end of the body starts from there the next time. A line that ends in a lone CR or LF makes
  \<open>process_read\<close> give the same result as one that is not complete.
\<close>

subsection \<open>A body in pieces\<close>

text \<open>\<open>k\<close> bytes \<open>a\<close> have been read, all of them looked at, and the body is to have \<open>n\<close> bytes.\<close>

definition body_waits :: "string \<Rightarrow> nat \<Rightarrow> http_conn \<Rightarrow> bool" where
  "body_waits a n c =
     (m_check_state c = CHECK_STATE_CONTENT \<and> m_read_buf c = a @ replicate (2048 - length a) NUL
      \<and> m_checked_idx c = int (length a) \<and> m_read_idx c = int (length a) \<and> m_content_length c = int n
      \<and> (\<exists>s. m_start_line c = int s \<and> s \<le> length a \<and> nul_free (drop s a)))"

lemma parse_line_no_eol:
  assumes "m_read_buf c = pre @ s @ rest" and "m_checked_idx c = int (length pre)"
    and "m_read_idx c = int (length pre + length s)" and "CR \<notin> set s" and "LF \<notin> set s"
  shows "parse_line c = Inr (LINE_OPEN, c\<lparr>m_checked_idx := m_read_idx c\<rparr>)"
  using assms
proof (induction s arbitrary: pre c)
  case Nil
  then have "c\<lparr>m_checked_idx := m_read_idx c\<rparr> = c" by (cases c) simp
  with Nil parse_line_open [of c] show ?case by simp
next
  case (Cons x s)
  let ?c = "c\<lparr>m_checked_idx := m_checked_idx c + 1\<rparr>"
  have "parse_line c = parse_line ?c"
    using Cons.prems by (intro parse_line_plain [of c x]) auto
  also have "\<dots> = Inr (LINE_OPEN, ?c\<lparr>m_checked_idx := m_read_idx ?c\<rparr>)"
    using Cons.prems by (intro Cons.IH [of _ "pre @ [x]"]) auto
  finally show ?case by simp
qed

text \<open>The turn of the loop for a body that is not all there, and the scan that follows it.\<close>

lemma open_body_turn:
  assumes "m_check_state d = CHECK_STATE_CONTENT" and "m_read_buf d = (a @ b) @ replicate (2048 - length (a @ b)) NUL"
    and "m_checked_idx d = int (length a)" and "m_read_idx d = int (length (a @ b))"
    and "m_content_length d = int n" and "m_start_line d = int s" and "s \<le> length a" and "nul_free (drop s a)"
    and "length b < n" and "plain_text b" and "length a + length b \<le> 1962" and "int n < 2 ^ 30"
    and "log_ready e w (Suc k)"
  shows "\<exists>c' w'. read_loop e LINE_OK d w = Inr (NO_REQUEST, c', w') \<and> body_waits (a @ b) n c'
    \<and> log_ready e w' k \<and> same_but_log w w'"
proof -
  let ?t = "drop s (a @ b)"
  have t: "nul_free ?t" "length ?t \<le> 1962" using assms(7,8,10,11) by (simp_all add: plain_text_def)
  obtain w' where w': "LOG_INFO_flush e ?t w = Inr w'" "log_ready e w' k" "same_but_log w w'"
    using LOG_INFO_flush_ok [OF assms(13) t] by blast
  have "m_read_buf d = take s (a @ b) @ ?t @ NUL # replicate (2047 - length (a @ b)) NUL"
    using assms(2,11) unfolding append.assoc [symmetric] append_take_drop_id
    by (simp flip: replicate_Suc)
  then have cs: "cstr (m_read_buf d) s = Inr ?t"
    using cstr_held_at [OF t(1), of "take s (a @ b)"] assms(7) by (simp add: min_absorb2)
  let ?d = "d\<lparr>m_start_line := int (length a)\<rparr>"
  have "next_line LINE_OK d = Inr (LINE_OK, d)" "get_line_at d = s"
    using assms(1,6) by (simp_all add: next_line_def get_line_at_def)
  moreover have "parse_content s ?d = Inr (NO_REQUEST, ?d)"
    using assms(3-5,9,11,12) by (simp add: parse_content_def add_int_def)
  ultimately have "read_loop e LINE_OK d w = read_loop e LINE_OPEN ?d w'"
    using cs w'(1) assms(1,3) by (subst read_loop.simps) (simp add: Let_def)
  also have "parse_line ?d = Inr (LINE_OPEN, ?d\<lparr>m_checked_idx := m_read_idx ?d\<rparr>)"
    using assms(2-4,10)
    by (intro parse_line_no_eol [of _ a b "replicate (2048 - length (a @ b)) NUL"]) (simp_all add: plain_text_def)
  then have "read_loop e LINE_OPEN ?d w' = Inr (NO_REQUEST, ?d\<lparr>m_checked_idx := m_read_idx ?d\<rparr>, w')"
    by (subst read_loop.simps) (simp add: next_line_def)
  finally have "read_loop e LINE_OK d w = Inr (NO_REQUEST, ?d\<lparr>m_checked_idx := m_read_idx ?d\<rparr>, w')" .
  moreover have "body_waits (a @ b) n (?d\<lparr>m_checked_idx := m_read_idx ?d\<rparr>)"
    using assms(1,2,4,5,10) unfolding body_waits_def
    by (intro conjI exI [of _ "length a"]) (simp_all add: plain_text_def)
  ultimately show ?thesis using w' by blast
qed

text \<open>One more piece, shorter than the whole body is to be.\<close>

lemma body_piece:
  assumes "body_waits a n c" and "b \<noteq> []" and "length b < n" and "plain_text b"
    and "length a + length b \<le> 1962" and "int n < 2 ^ 30" and "log_ready e w (Suc k)"
  shows "\<exists>c' w'. on_bytes e b c w = Inr (NO_REQUEST, c', w') \<and> body_waits (a @ b) n c'
    \<and> log_ready e w' k \<and> same_but_log w w'"
proof -
  obtain s where c: "m_check_state c = CHECK_STATE_CONTENT" "m_read_buf c = a @ replicate (2048 - length a) NUL"
    "m_checked_idx c = int (length a)" "m_read_idx c = int (length a)" "m_content_length c = int n"
    "m_start_line c = int s" "s \<le> length a" "nul_free (drop s a)"
    using assms(1) by (auto simp: body_waits_def)
  define d where "d = c\<lparr>m_read_buf := (a @ b) @ replicate (2048 - length (a @ b)) NUL,
    m_read_idx := int (length (a @ b))\<rparr>"
  have "read_once (Some b) c = Inr (True, d)"
    using c(2,4) assms(2,5) by (simp add: read_once_def READ_BUFFER_SIZE_def wrs_def d_def)
  then have "on_bytes e b c w = read_loop e LINE_OK d w"
    by (simp add: on_bytes_def process_read_def)
  moreover have "\<exists>c' w'. read_loop e LINE_OK d w = Inr (NO_REQUEST, c', w') \<and> body_waits (a @ b) n c'
    \<and> log_ready e w' k \<and> same_but_log w w'"
    using c assms by (intro open_body_turn [of d a b n s]) (simp_all add: d_def)
  ultimately show ?thesis by simp
qed

lemma body_pieces:
  assumes "body_waits a n c" and "\<forall>b\<in>set bs. b \<noteq> [] \<and> length b < n \<and> plain_text b"
    and "length a + length (concat bs) \<le> 1962" and "int n < 2 ^ 30" and "log_ready e w (length bs)"
  shows "\<exists>c' w'. feed e bs c w = Inr (NO_REQUEST, c', w') \<and> body_waits (a @ concat bs) n c' \<and> same_but_log w w'"
  using assms
proof (induction bs arbitrary: a c w)
  case (Cons b bs)
  obtain c1 w1 where 1: "on_bytes e b c w = Inr (NO_REQUEST, c1, w1)" "body_waits (a @ b) n c1"
    "log_ready e w1 (length bs)" "same_but_log w w1"
    using body_piece [of a n c b e w "length bs"] Cons.prems by auto
  obtain c' w' where "feed e bs c1 w1 = Inr (NO_REQUEST, c', w')" "body_waits ((a @ b) @ concat bs) n c'"
    "same_but_log w1 w'"
    using Cons.IH [OF 1(2) _ _ Cons.prems(4) 1(3)] Cons.prems by auto
  with 1 same_but_log_trans [OF 1(4)] show ?case by simp
qed simp

text \<open>
  C35. A POST whose body does not come in one piece with the last of its header, or at once
  behind it, is never answered: if every piece is shorter than the announced length, then
  after any number of them, also when together they are the whole body, \<open>process_read\<close> asks
  for more, and the connection waits in the state for the body.
\<close>

theorem split_body_is_never_answered:
  assumes "fresh c" and "request_fits line hs b" and "request_line_of line = Inr (Some (POST, t))"
    and "content_length_of 0 hs = int n" and "int n < 2 ^ 30"
    and "length b < n" and "plain_text b" and "\<forall>b\<in>set bs. b \<noteq> [] \<and> length b < n \<and> plain_text b"
    and "length (request_bytes line hs b) + length (concat bs) \<le> 1962"
    and "log_ready e w (2 * length hs + 3 + length bs)"
  shows "\<exists>c' w'. feed e (request_bytes line hs b # bs) c w = Inr (NO_REQUEST, c', w')
    \<and> m_check_state c' = CHECK_STATE_CONTENT \<and> same_but_log w w'"
proof -
  let ?s = "request_bytes line hs b" and ?n = "length line + 2 + length (header_lines hs) + 2"
  have lg: "log_ready e w (2 * length hs + 2 + Suc (length bs))" using assms(10) by (simp add: eval_nat_numeral)
  obtain w1 d where d: "log_ready e w1 (Suc (length bs))" "same_but_log w w1"
    "head_read (with_bytes ?s c) line hs POST t d"
    "process_read e (with_bytes ?s c) w = (if content_length_of 0 hs = 0 then do_request e d w1
         else read_loop e LINE_OK (d\<lparr>m_check_state := CHECK_STATE_CONTENT\<rparr>) w1)"
    by (rule process_read_fresh [OF assms(1-3) lg])
  define a where "a = take ?n (m_read_buf d)"
  let ?d = "d\<lparr>m_check_state := CHECK_STATE_CONTENT\<rparr>"
  have n: "?n + length b = length ?s" "length ?s \<le> 1962" using assms(9) by (simp_all add: request_bytes_def)
  note h = d(3) [unfolded head_read_def Let_def]
  have la: "length a = ?n" using h n by (simp add: a_def with_bytes_def)
  have "drop ?n (m_read_buf d) = b @ replicate (2048 - length ?s) NUL"
    using h by (simp add: with_bytes_def) (simp add: request_bytes_def drop_Cons')
  then have "m_read_buf d = (a @ b) @ replicate (2048 - length ?s) NUL"
    unfolding a_def by (metis append.assoc append_take_drop_id)
  then have buf: "m_read_buf ?d = (a @ b) @ replicate (2048 - length (a @ b)) NUL" using la n(1) by simp
  have "\<exists>c' w'. read_loop e LINE_OK ?d w1 = Inr (NO_REQUEST, c', w') \<and> body_waits (a @ b) n c'
    \<and> log_ready e w' (length bs) \<and> same_but_log w1 w'"
  proof (rule open_body_turn [OF _ buf, where s = ?n])
    show "m_read_idx ?d = int (length (a @ b))" using h la n(1) by (simp add: with_bytes_def)
    show "m_content_length ?d = int n" using h assms(4) fresh_fields(11) [OF assms(1)] by (simp add: with_bytes_def)
    show "length a + length b \<le> 1962" using la n by simp
  qed (use h la assms(5-7) d(1) in simp_all)
  then obtain c1 w2 where 1: "read_loop e LINE_OK ?d w1 = Inr (NO_REQUEST, c1, w2)" "body_waits (a @ b) n c1"
    "log_ready e w2 (length bs)" "same_but_log w1 w2" by blast
  have "length ?s \<le> READ_BUFFER_SIZE" "?s \<noteq> []" using assms(2) by (simp_all add: request_fits_def request_bytes_def)
  then have first: "on_bytes e ?s c w = Inr (NO_REQUEST, c1, w2)"
    using read_once_fresh [OF assms(1)] d(4) 1(1) assms(4,6) by (simp add: on_bytes_def)
  have "length (a @ b) + length (concat bs) \<le> 1962" using la n assms(9) by simp
  from body_pieces [OF 1(2) assms(8) this assms(5) 1(3)] obtain c' w' where
    "feed e bs c1 w2 = Inr (NO_REQUEST, c', w')" "body_waits ((a @ b) @ concat bs) n c'" "same_but_log w2 w'" by blast
  then show ?thesis
    using first same_but_log_trans [OF d(2)] same_but_log_trans [OF 1(4)]
    by (intro exI [of _ c'] exI [of _ w']) (auto simp: body_waits_def)
qed

lemma split_body_is_never_answered_witness:
  "\<exists>c' w'. feed site_env [request_bytes login_line [''Content-length: 21''] ''user=ann'', ''&password='', ''pw'', ''!'']
      site_conn site_web = Inr (NO_REQUEST, c', w')"
proof -
  have c: "fresh site_conn" by (simp add: site_conn_def)
  let ?bs = "[''&password='', ''pw'', ''!'']"
  have "request_fits login_line [''Content-length: 21''] ''user=ann''"
    "request_line_of login_line = Inr (Some (POST, ''/2log''))" "content_length_of 0 [''Content-length: 21''] = int 21"
    "plain_text ''user=ann''" "list_all (\<lambda>b. b \<noteq> [] \<and> length b < 21 \<and> plain_text b) ?bs"
    "length (request_bytes login_line [''Content-length: 21''] ''user=ann'') + length (concat ?bs) \<le> 1962"
    by code_simp+
  moreover have "log_ready site_env site_web (2 * length [''Content-length: 21''] + 3 + length ?bs)"
    by (rule log_ready_site) simp
  ultimately show ?thesis
    using split_body_is_never_answered [OF c, of login_line "[''Content-length: 21'']" "''user=ann''" "''/2log''" 21 ?bs]
    by (simp add: list_all_iff) blast
qed

end
