(* ===== verification/V3_HttpEdge.thy ===== *)
theory V3_HttpEdge
  imports V3_HttpConn
begin

section \<open>version\_03: the edge triggered \<open>read_once\<close>\<close>

text \<open>
  The variant of \<open>read_once\<close> under \<open>connfdET\<close>, which is in the source and not compiled: it calls
  \<open>recv\<close> until nothing is left. The argument is what the calls of \<open>recv\<close> give in turn; no
  result means that they do not finish the loop.
\<close>

datatype recv_ans = R_bytes string | R_again | R_error

fun read_all :: "recv_ans list \<Rightarrow> http_conn \<Rightarrow> (bool option \<times> http_conn) res" where
  "read_all [] c = Inr (None, c)"
| "read_all (a # as) c =
     (case a of
        R_again \<Rightarrow> Inr (Some True, c)
      | R_error \<Rightarrow> Inr (Some False, c)
      | R_bytes bs \<Rightarrow>
          if m_read_idx c < 0 then Inl OutOfBounds
          else
            let bs = take (READ_BUFFER_SIZE - nat (m_read_idx c)) bs in
            if bs = [] then Inr (Some False, c)
            else
              bindr (wrs (m_read_buf c) (nat (m_read_idx c)) bs) (\<lambda>b.
              read_all as (c\<lparr>m_read_buf := b, m_read_idx := m_read_idx c + int (length bs)\<rparr>)))"

definition read_once_et :: "recv_ans list \<Rightarrow> http_conn \<Rightarrow> (bool option \<times> http_conn) res" where
  "read_once_et answers c =
     (if m_read_idx c \<ge> int READ_BUFFER_SIZE then Inr (Some False, c) else read_all answers c)"

text \<open>The connection with more bytes behind those it has.\<close>

definition put_in :: "string \<Rightarrow> http_conn \<Rightarrow> http_conn" where
  "put_in s c =
     c\<lparr>m_read_buf := take (nat (m_read_idx c)) (m_read_buf c) @ s @ drop (nat (m_read_idx c) + length s) (m_read_buf c),
       m_read_idx := m_read_idx c + int (length s)\<rparr>"

definition has_room :: "nat \<Rightarrow> http_conn \<Rightarrow> bool" where
  "has_room n c = (length (m_read_buf c) = READ_BUFFER_SIZE \<and> 0 \<le> m_read_idx c
     \<and> nat (m_read_idx c) + n \<le> READ_BUFFER_SIZE)"

lemma put_in_append: "has_room (length s + length t) c \<Longrightarrow> put_in t (put_in s c) = put_in (s @ t) c"
  by (simp add: put_in_def has_room_def nat_add_distrib) (simp add: ac_simps)

lemma has_room_put_in: "has_room (length s + n) c \<Longrightarrow> has_room n (put_in s c)"
  by (auto simp: put_in_def has_room_def nat_add_distrib)

lemma has_room_wrs:
  assumes "has_room (length s) c"
  shows "take (READ_BUFFER_SIZE - nat (m_read_idx c)) s = s" and "\<not> m_read_idx c < 0"
    and "bindr (wrs (m_read_buf c) (nat (m_read_idx c)) s)
      (\<lambda>b. f (c\<lparr>m_read_buf := b, m_read_idx := m_read_idx c + int (length s)\<rparr>)) = f (put_in s c)"
  using assms by (auto simp: has_room_def put_in_def wrs_def)

lemma read_all_bytes:
  assumes "has_room (length bs) c" and "bs \<noteq> []"
  shows "read_all (R_bytes bs # as) c = read_all as (put_in bs c)"
  using assms(2) by (simp add: has_room_wrs [OF assms(1)] Let_def)

lemma read_once_bytes:
  assumes "has_room (length bs) c" and "bs \<noteq> []"
  shows "read_once (Some bs) c = Inr (True, put_in bs c)"
proof -
  have "0 < length bs" using assms(2) by blast
  then have "m_read_idx c < int READ_BUFFER_SIZE" using assms(1) unfolding has_room_def by linarith
  then show ?thesis
    using assms(2) has_room_wrs(1,2) [OF assms(1)] has_room_wrs(3) [OF assms(1), of "\<lambda>c. Inr (True, c)"]
    by (simp add: read_once_def Let_def)
qed

lemma read_all_pieces:
  "has_room (length (concat ps)) c \<Longrightarrow> [] \<notin> set ps
     \<Longrightarrow> read_all (map R_bytes ps @ as) c = read_all as (put_in (concat ps) c)"
proof (induction ps arbitrary: c)
  case Nil
  then show ?case by (simp add: put_in_def)
next
  case (Cons p ps)
  then have "has_room (length p) c" "has_room (length (concat ps)) (put_in p c)" "p \<noteq> []" "[] \<notin> set ps"
    using has_room_put_in [of p "length (concat ps)" c] by (auto simp: has_room_def)
  then have "read_all (map R_bytes (p # ps) @ as) c = read_all as (put_in (concat ps) (put_in p c))"
    using read_all_bytes [of p c "map R_bytes ps @ as"] Cons.IH by simp
  with Cons.prems(1) show ?case by (simp add: put_in_append)
qed

text \<open>
  As long as the buffer does not become full, the loop reads what one \<open>recv\<close> of the level
  triggered variant reads when all the bytes are there at once.
\<close>

lemma edge_reads_what_level_reads:
  assumes "has_room (Suc (length (concat ps))) c" and "[] \<notin> set ps" and "ps \<noteq> []"
  shows "read_once_et (map R_bytes ps @ [R_again]) c
    = bindr (read_once (Some (concat ps)) c) (\<lambda>(r, c'). Inr (Some r, c'))"
proof -
  have "concat ps \<noteq> []" using assms(2,3) by (cases ps) auto
  moreover have r: "has_room (length (concat ps)) c" "m_read_idx c < int READ_BUFFER_SIZE"
    using assms(1) unfolding has_room_def by linarith+
  ultimately show ?thesis
    by (simp add: read_once_et_def read_all_pieces [OF r(1) assms(2)] read_once_bytes [OF r(1)])
qed

text \<open>
  When the bytes fill the buffer, the next \<open>recv\<close> is asked for no bytes and returns 0, which the
  loop takes for a closed connection: a request the level triggered variant reads is refused.
\<close>

lemma full_buffer_is_refused:
  assumes "has_room (length (concat ps)) c" and "m_read_idx c + int (length (concat ps)) = int READ_BUFFER_SIZE"
    and "[] \<notin> set ps" and "ps \<noteq> []"
  shows "read_once_et (map R_bytes ps @ R_bytes bs # as) c = Inr (Some False, put_in (concat ps) c)"
    and "read_once (Some (concat ps)) c = Inr (True, put_in (concat ps) c)"
proof -
  have n: "concat ps \<noteq> []" using assms(3,4) by (cases ps) auto
  then have "0 < length (concat ps)" by blast
  then have i: "m_read_idx c < int READ_BUFFER_SIZE" using assms(2) by linarith
  have "m_read_idx (put_in (concat ps) c) = int READ_BUFFER_SIZE" using assms(2) by (simp add: put_in_def)
  then show "read_once_et (map R_bytes ps @ R_bytes bs # as) c = Inr (Some False, put_in (concat ps) c)"
    using i by (simp add: read_once_et_def read_all_pieces [OF assms(1,3)] Let_def)
  show "read_once (Some (concat ps)) c = Inr (True, put_in (concat ps) c)"
    by (rule read_once_bytes [OF assms(1) n])
qed

end
