(* ===== verification/V3_Main.thy ===== *)
theory V3_Main
  imports V3_HttpShape V3_ThreadPool V3_Timer
begin

section \<open>version\_03: the main program\<close>

text \<open>
  version\_03/main.cpp: the signal handler, the timers of the connections with their callback,
  the dispatch of events and the loop; \<open>initmysql\_result\<close> of http\_conn.cpp and the
  \<open>connectionRAII\<close> of sql\_connection\_pool.cpp, which \<open>main\<close> and the workers use. The
  synchronous log and the level triggered listening socket are the variants that are compiled.

  A descriptor is an index into \<open>users\<close> (\<open>sv_conns\<close>) and \<open>users_timer\<close> (\<open>sv_clients\<close>). What
  the kernel answers while an event is handled is a record of answers. The loop is a relation
  whose steps are one event handled, one signal delivered, one request taken or processed by a
  worker, and so on; a step that is not possible is \<open>Blocked\<close>, and so is a loop over the
  timers that does not end and a \<open>write\<close> that the answers given do not finish.
\<close>

subsection \<open>State\<close>

definition MAX_FD :: nat where "MAX_FD = 65536"
definition MAX_EVENT_NUMBER :: nat where "MAX_EVENT_NUMBER = 10000"
definition TIMESLOT :: int where "TIMESLOT = 5"

definition SIGPIPE :: int where "SIGPIPE = 13"
definition SIGALRM :: int where "SIGALRM = 14"
definition SIGTERM :: int where "SIGTERM = 15"

definition EV_ERR :: "32 word" where "EV_ERR = 8"
definition EV_HUP :: "32 word" where "EV_HUP = 0x10"

record client_data =
  cd_address :: string
  cd_sockfd :: int
  cd_timer :: "nat option"

datatype handler = SIG_IGN | Sig_handler

record server =
  sv_web :: web
  sv_conns :: "nat \<Rightarrow> http_conn"
  sv_clients :: "nat \<Rightarrow> client_data"
  sv_timers :: sort_timer_lst
  sv_pool :: threadpool
  sv_dbs :: connection_pool
  sv_busy :: "nat list"
  sv_listenfd :: nat
  sv_epollfd :: nat
  sv_pipefd0 :: nat
  sv_pipefd1 :: nat
  sv_port :: "16 word"
  sv_handlers :: "int \<Rightarrow> handler option"
  sv_pipe :: "8 word list"
  sv_alarm :: bool
  sv_now :: int
  sv_timeout :: bool
  sv_stop :: bool
  sv_batch :: "(nat \<times> 32 word) list option"
  sv_over :: bool

subsection \<open>Signals and timers\<close>

definition sig_handler :: "int \<Rightarrow> server \<Rightarrow> server" where
  "sig_handler sig s = s\<lparr>sv_pipe := sv_pipe s @ [word_of_int sig]\<rparr>"

definition addsig :: "(int \<Rightarrow> int) \<Rightarrow> int \<Rightarrow> handler \<Rightarrow> (int \<Rightarrow> handler option) \<Rightarrow> (int \<Rightarrow> handler option) res" where
  "addsig sigaction sig h hs =
     (if sigaction sig = -1 then Inl (Die ''assert'') else Inr (hs(sig \<mapsto> h)))"

text \<open>Deleting a descriptor from the interest list that is not in it has no effect.\<close>

definition cb_func :: "env \<Rightarrow> client_data \<Rightarrow> web \<Rightarrow> web res" where
  "cb_func e user_data w =
     (let fd = cd_sockfd user_data;
          w = w\<lparr>wb_interest := (wb_interest w)(fd := None)\<rparr>;
          w = close_fd3 fd w;
          w = w\<lparr>m_user_count := m_user_count w - 1\<rparr> in
      LOG_INFO_flush e (''close fd '' @ dec_int fd) w)"

fun fire_all :: "env \<Rightarrow> (nat \<Rightarrow> client_data) \<Rightarrow> nat list \<Rightarrow> web \<Rightarrow> web res" where
  "fire_all e clients [] w = Inr w"
| "fire_all e clients (u # us) w = bindr (cb_func e (clients u) w) (fire_all e clients us)"

text \<open>
  \<open>tick\<close> with its log line and its callbacks, then the next alarm. The callback does not
  touch the list, so the calls can follow the walk over it.
\<close>

definition timer_handler :: "env \<Rightarrow> int \<Rightarrow> server \<Rightarrow> server res" where
  "timer_handler e cur s =
     bindr
       (if tl_head (sv_timers s) = None then Inr s
        else
          bindr (LOG_INFO_flush e ''timer tick'' (sv_web s)) (\<lambda>w.
          bindr (returned (tick cur (sv_timers s))) (\<lambda>(fired, tls).
          bindr (fire_all e (sv_clients s) fired w) (\<lambda>w.
          Inr (s\<lparr>sv_web := w, sv_timers := tls\<rparr>))))) (\<lambda>s.
     Inr (s\<lparr>sv_alarm := True\<rparr>))"

definition show_error :: "nat \<Rightarrow> string \<Rightarrow> web \<Rightarrow> web" where
  "show_error connfd info w =
     close_fd3 (int connfd) (w\<lparr>wb_sent := (wb_sent w)(int connfd := wb_sent w (int connfd) @ info)\<rparr>)"

text \<open>The end of a connection: the callback, called through the timer, and \<open>del_timer\<close>.\<close>

definition end_client :: "env \<Rightarrow> nat \<Rightarrow> server \<Rightarrow> server res" where
  "end_client e fd s =
     (let timer = cd_timer (sv_clients s fd) in
      bindr (ut_load (tl_heap (sv_timers s)) timer) (\<lambda>_.
      bindr (cb_func e (sv_clients s fd) (sv_web s)) (\<lambda>w.
      bindr (if timer \<noteq> None then del_timer timer (sv_timers s) else Inr (sv_timers s)) (\<lambda>tls.
      Inr (s\<lparr>sv_web := w, sv_timers := tls\<rparr>)))))"

text \<open>More time for a connection.\<close>

definition extend_timer :: "env \<Rightarrow> nat \<Rightarrow> int \<Rightarrow> server \<Rightarrow> server res" where
  "extend_timer e fd cur s =
     (let timer = cd_timer (sv_clients s fd); tls = sv_timers s in
      case timer of
        None \<Rightarrow> Inr s
      | Some a \<Rightarrow>
          bindr (ut_load (tl_heap tls) timer) (\<lambda>t.
          let tls = tls\<lparr>tl_heap := (tl_heap tls)(a \<mapsto> t\<lparr>ut_expire := cur + 3 * TIMESLOT\<rparr>)\<rparr> in
          bindr (LOG_INFO_flush e ''adjust timer once'' (sv_web s)) (\<lambda>w.
          bindr (returned (adjust_timer timer tls)) (\<lambda>tls.
          Inr (s\<lparr>sv_web := w, sv_timers := tls\<rparr>)))))"

subsection \<open>One event\<close>

datatype accept_ans = Accepted nat string | Accept_failed int

record answers =
  an_accept :: accept_ans
  an_recv :: "string option"
  an_writev :: "writev_ans list"
  an_time :: int
  an_new :: nat

definition new_client :: "nat \<Rightarrow> string \<Rightarrow> int \<Rightarrow> nat \<Rightarrow> server \<Rightarrow> server res" where
  "new_client connfd ip cur timer s =
     (if MAX_FD \<le> connfd then Inl OutOfBounds
      else
        let (c, w) = http_init (int connfd) ip (sv_conns s connfd) (sv_web s);
            client = \<lparr>cd_address = ip, cd_sockfd = int connfd, cd_timer = Some timer\<rparr>;
            t = \<lparr>ut_expire = cur + 3 * TIMESLOT, ut_user = connfd, ut_prev = None, ut_next = None\<rparr>;
            tls = (sv_timers s)\<lparr>tl_heap := (tl_heap (sv_timers s))(timer \<mapsto> t)\<rparr> in
        bindr (returned (add_timer (Some timer) tls)) (\<lambda>tls.
        Inr (s\<lparr>sv_web := w, sv_conns := (sv_conns s)(connfd := c),
               sv_clients := (sv_clients s)(connfd := client), sv_timers := tls\<rparr>)))"

text \<open>The kernel opens the socket before \<open>accept\<close> returns.\<close>

definition accepted :: "nat \<Rightarrow> web \<Rightarrow> web" where
  "accepted connfd w = w\<lparr>wb_flags := (wb_flags w)(int connfd \<mapsto> 2), wb_sent := (wb_sent w)(int connfd := [])\<rparr>"

definition accept_event :: "env \<Rightarrow> answers \<Rightarrow> server \<Rightarrow> server res" where
  "accept_event e an s =
     (case an_accept an of
        Accept_failed err \<Rightarrow>
          bindr (write_log_now e 3 (''accept error:errno is:'' @ dec_int err) (sv_web s)) (\<lambda>w.
          Inr (s\<lparr>sv_web := w\<rparr>))
      | Accepted connfd ip \<Rightarrow>
          let s = s\<lparr>sv_web := accepted connfd (sv_web s)\<rparr> in
          if m_user_count (sv_web s) \<ge> int MAX_FD then
            bindr (write_log_now e 3 ''Internal server busy''
                     (show_error connfd ''Internal server busy'' (sv_web s))) (\<lambda>w.
            Inr (s\<lparr>sv_web := w\<rparr>))
          else new_client connfd ip (an_time an) (an_new an) s)"

definition take_signal :: "8 word \<Rightarrow> server \<Rightarrow> server" where
  "take_signal sig s =
     (if sig = word_of_int SIGALRM then s\<lparr>sv_timeout := True\<rparr>
      else if sig = word_of_int SIGTERM then s\<lparr>sv_stop := True\<rparr> else s)"

definition signal_event :: "server \<Rightarrow> server" where
  "signal_event s = fold take_signal (take 1024 (sv_pipe s)) (s\<lparr>sv_pipe := drop 1024 (sv_pipe s)\<rparr>)"

definition read_event :: "env \<Rightarrow> nat \<Rightarrow> answers \<Rightarrow> server \<Rightarrow> server res" where
  "read_event e fd an s =
     bindr (read_once (an_recv an) (sv_conns s fd)) (\<lambda>(ok, c).
     let s = s\<lparr>sv_conns := (sv_conns s)(fd := c)\<rparr> in
     if ok then
       bindr (LOG_INFO_flush e (''deal with the client('' @ m_address c @ '')'') (sv_web s)) (\<lambda>w.
       bindr (append_request (Some fd) (sv_pool s)) (\<lambda>(_, q).
       extend_timer e fd (an_time an) (s\<lparr>sv_web := w, sv_pool := q\<rparr>)))
     else end_client e fd s)"

definition write_event :: "env \<Rightarrow> nat \<Rightarrow> answers \<Rightarrow> server \<Rightarrow> server res" where
  "write_event e fd an s =
     bindr (http_write (an_writev an) (sv_conns s fd) (sv_web s)) (\<lambda>(r, c, w).
     let s = s\<lparr>sv_conns := (sv_conns s)(fd := c), sv_web := w\<rparr> in
     case r of
       None \<Rightarrow> Inl Blocked
     | Some True \<Rightarrow>
         bindr (LOG_INFO_flush e (''send data to the client('' @ m_address c @ '')'') (sv_web s)) (\<lambda>w.
         extend_timer e fd (an_time an) (s\<lparr>sv_web := w\<rparr>))
     | Some False \<Rightarrow> end_client e fd s)"

definition handle_event3 :: "env \<Rightarrow> nat \<times> 32 word \<Rightarrow> answers \<Rightarrow> server \<Rightarrow> server res" where
  "handle_event3 e ev an s =
     (let (sockfd, events) = ev in
      if sockfd = sv_listenfd s then accept_event e an s
      else if and events (or EV_RDHUP (or EV_HUP EV_ERR)) \<noteq> 0 then
        (if MAX_FD \<le> sockfd then Inl OutOfBounds else end_client e sockfd s)
      else if sockfd = sv_pipefd0 s \<and> and events EV_IN \<noteq> 0 then Inr (signal_event s)
      else if and events EV_IN \<noteq> 0 then
        (if MAX_FD \<le> sockfd then Inl OutOfBounds else read_event e sockfd an s)
      else if and events EV_OUT \<noteq> 0 then
        (if MAX_FD \<le> sockfd then Inl OutOfBounds else write_event e sockfd an s)
      else Inr s)"


subsection \<open>Workers\<close>

definition connectionRAII :: "connection_pool \<Rightarrow> http_conn \<Rightarrow> (http_conn \<times> connection_pool) res" where
  "connectionRAII p c = bindr (GetConnection p) (\<lambda>(con, p). Inr (c\<lparr>mysql := con\<rparr>, p))"

definition connectionRAII_end :: "nat option \<Rightarrow> connection_pool \<Rightarrow> connection_pool res" where
  "connectionRAII_end con p = bindr (ReleaseConnection con p) (\<lambda>(_, p). Inr p)"

text \<open>
  What \<open>run\<close> does with a request, as one step: it takes a database connection, processes the
  request and gives the connection back.
\<close>

definition run_request :: "env \<Rightarrow> nat \<Rightarrow> server \<Rightarrow> server res" where
  "run_request e i s =
     bindr (connectionRAII (sv_dbs s) (sv_conns s i)) (\<lambda>(c, p).
     bindr (process e c (sv_web s)) (\<lambda>(c', w).
     bindr (connectionRAII_end (mysql c) p) (\<lambda>p.
     Inr (s\<lparr>sv_conns := (sv_conns s)(i := c'), sv_web := w, sv_dbs := p\<rparr>))))"

definition take_request :: "server \<Rightarrow> server res" where
  "take_request s =
     bindr (wait_and_take (sv_pool s)) (\<lambda>(r, q).
     let s = s\<lparr>sv_pool := q\<rparr> in
     Inr (case r of Some (Some i) \<Rightarrow> s\<lparr>sv_busy := sv_busy s @ [i]\<rparr> | _ \<Rightarrow> s))"

subsection \<open>Starting\<close>

text \<open>The rows of the table of users; a field may be NULL, which no \<open>string\<close> can be made of.\<close>

fun load_users :: "(string option \<times> string option) list \<Rightarrow> web \<Rightarrow> web res" where
  "load_users [] w = Inr w"
| "load_users ((Some name, Some password) # rows) w = load_users rows (w\<lparr>users := (users w)(name \<mapsto> password)\<rparr>)"
| "load_users (_ # rows) w = Inl NullDeref"

text \<open>\<open>stored\<close> is the result set, NULL after a failed query; \<open>mysql_num_fields\<close> reads through it.\<close>

definition initmysql_result ::
  "env \<Rightarrow> string \<Rightarrow> (string option \<times> string option) list option \<Rightarrow> connection_pool \<Rightarrow> web
     \<Rightarrow> (connection_pool \<times> web) res"
where
  "initmysql_result e mysql_error stored p w =
     bindr (GetConnection p) (\<lambda>(con, p).
     let sql = ''SELECT username,passwd FROM user'' in
     bindr (mysql_query e con sql) (\<lambda>rc.
     let w = w\<lparr>wb_queries := wb_queries w @ [sql]\<rparr> in
     bindr (if rc \<noteq> 0 then write_log_now e 3 (''SELECT error:'' @ mysql_error @ [LF]) w else Inr w) (\<lambda>w.
     case stored of
       None \<Rightarrow> Inl NullDeref
     | Some rows \<Rightarrow>
         bindr (load_users rows w) (\<lambda>w.
         bindr (connectionRAII_end con p) (\<lambda>p. Inr (p, w))))))"

text \<open>What the system answers \<open>main\<close> before its loop, and the memory that \<open>new\<close> gives it.\<close>

record boot =
  bt_argv :: "string list"
  bt_files :: "string \<Rightarrow> string"
  bt_sigaction :: "int \<Rightarrow> int"
  bt_connect :: "nat \<Rightarrow> nat option"
  bt_create :: "nat \<Rightarrow> int"
  bt_detach :: "nat \<Rightarrow> int"
  bt_mysql_error :: string
  bt_rows :: "(string option \<times> string option) list option"
  bt_socket :: int
  bt_bind :: int
  bt_listen :: int
  bt_epoll :: int
  bt_pair :: "(nat \<times> nat) option"
  bt_now :: int
  bt_conns :: "nat \<Rightarrow> http_conn"
  bt_clients :: "nat \<Rightarrow> client_data"

definition check :: "bool \<Rightarrow> unit res" where
  "check b = (if b then Inr () else Inl (Die ''assert''))"

definition open_fd :: "int \<Rightarrow> web \<Rightarrow> web" where
  "open_fd fd w = w\<lparr>wb_flags := (wb_flags w)(fd \<mapsto> 2)\<rparr>"

definition empty_web :: "logger \<Rightarrow> web" where
  "empty_web lg = \<lparr>wb_flags = \<lambda>_. None, wb_interest = \<lambda>_. None, wb_sent = \<lambda>_. [], m_user_count = 0,
     users = \<lambda>_. None, m_lock = False, wb_queries = [], wb_log = lg, wb_clock = 1\<rparr>"

datatype started = Returned int | Serving server

text \<open>From the listening socket to the first \<open>alarm\<close>.\<close>

definition listen_and_poll ::
  "boot \<Rightarrow> int \<Rightarrow> (int \<Rightarrow> handler option) \<Rightarrow> threadpool \<Rightarrow> connection_pool \<Rightarrow> web \<Rightarrow> started res"
where
  "listen_and_poll bt port hs q p w =
     bindr (check (bt_socket bt \<ge> 0)) (\<lambda>_.
     let w = open_fd (bt_socket bt) w in
     bindr (check (bt_bind bt \<ge> 0)) (\<lambda>_.
     bindr (check (bt_listen bt \<ge> 0)) (\<lambda>_.
     bindr (check (bt_epoll bt \<noteq> -1)) (\<lambda>_.
     let w = addfd (bt_socket bt) False (open_fd (bt_epoll bt) w) in
     case bt_pair bt of
       None \<Rightarrow> Inl (Die ''assert'')
     | Some (p0, p1) \<Rightarrow>
         let w = setnonblocking (int p1) (open_fd (int p1) (open_fd (int p0) w));
             w = addfd (int p0) False w in
         bindr (addsig (bt_sigaction bt) SIGALRM Sig_handler hs) (\<lambda>hs.
         bindr (addsig (bt_sigaction bt) SIGTERM Sig_handler hs) (\<lambda>hs.
         Inr (Serving
           \<lparr>sv_web = w, sv_conns = bt_conns bt, sv_clients = bt_clients bt,
            sv_timers = \<lparr>tl_heap = \<lambda>_. None, tl_head = None, tl_tail = None\<rparr>,
            sv_pool = q, sv_dbs = p, sv_busy = [], sv_listenfd = nat (bt_socket bt),
            sv_epollfd = nat (bt_epoll bt), sv_pipefd0 = p0, sv_pipefd1 = p1,
            sv_port = word_of_int port, sv_handlers = hs, sv_pipe = [], sv_alarm = True, sv_now = bt_now bt,
            sv_timeout = False, sv_stop = False, sv_batch = None, sv_over = False\<rparr>)))))))"

definition main3 :: "env \<Rightarrow> boot \<Rightarrow> started res" where
  "main3 e bt =
     bindr (log_start (en_fopen e) (en_now e 0) ''ServerLog'' 2000 800000 0 (Log_new (bt_files bt))) (\<lambda>(_, lg).
     if length (bt_argv bt) \<le> 1 then Inr (Returned 1)
     else
       bindr (atoi (bt_argv bt ! 1)) (\<lambda>port.
       bindr (addsig (bt_sigaction bt) SIGPIPE SIG_IGN (\<lambda>_. None)) (\<lambda>hs.
       bindr (pool_init (bt_connect bt) 8 connection_pool_new) (\<lambda>p.
       case threadpool_new (bt_create bt) (bt_detach bt) 8 10000 of
         Inl _ \<Rightarrow> Inr (Returned 1)
       | Inr q \<Rightarrow>
           bindr (initmysql_result e (bt_mysql_error bt) (bt_rows bt) p (empty_web lg)) (\<lambda>(p, w).
           listen_and_poll bt port hs q p w)))))"

subsection \<open>The loop\<close>

text \<open>
  What \<open>epoll\_wait\<close> can report: descriptors that are open and registered, each once, with what
  they were registered for or a hang-up or an error. A descriptor registered with
  \<open>EPOLLONESHOT\<close> is disabled until the next \<open>EPOLL_CTL_MOD\<close>. The listening socket and the pipe,
  whose other end stays open, only become readable.
\<close>

definition reportable :: "server \<Rightarrow> nat \<times> 32 word \<Rightarrow> bool" where
  "reportable s ev =
     (let (fd, events) = ev in
      wb_flags (sv_web s) (int fd) \<noteq> None
      \<and> (case wb_interest (sv_web s) (int fd) of
           None \<Rightarrow> False
         | Some m \<Rightarrow> and m (or EV_IN EV_OUT) \<noteq> 0 \<and> and events (not (or m (or EV_HUP EV_ERR))) = 0
             \<and> (fd = sv_listenfd s \<or> fd = sv_pipefd0 s \<longrightarrow> events = EV_IN)))"

definition disarm :: "(int \<Rightarrow> 32 word option) \<Rightarrow> nat \<Rightarrow> int \<Rightarrow> 32 word option" where
  "disarm interest fd =
     (case interest (int fd) of
        None \<Rightarrow> interest
      | Some m \<Rightarrow> if and m EV_ONESHOT \<noteq> 0 then interest(int fd \<mapsto> EV_ONESHOT) else interest)"

definition reported :: "(nat \<times> 32 word) list \<Rightarrow> web \<Rightarrow> web" where
  "reported evs w = w\<lparr>wb_interest := foldl disarm (wb_interest w) (map fst evs)\<rparr>"

text \<open>
  What holds of the answers: a new descriptor was not open, a new timer not allocated, and
  the clock does not go back (\<open>sv_now\<close> is the last time that was read).
\<close>

definition answers_ok :: "answers \<Rightarrow> server \<Rightarrow> bool" where
  "answers_ok an s =
     ((case an_accept an of
         Accepted fd _ \<Rightarrow> wb_flags (sv_web s) (int fd) = None \<and> tl_heap (sv_timers s) (an_new an) = None
       | Accept_failed _ \<Rightarrow> True)
      \<and> sv_now s \<le> an_time an)"

definition server_end :: "server \<Rightarrow> server" where
  "server_end s =
     (let w = close_fd3 (int (sv_epollfd s)) (sv_web s);
          w = close_fd3 (int (sv_listenfd s)) w;
          w = close_fd3 (int (sv_pipefd1 s)) w;
          w = close_fd3 (int (sv_pipefd0 s)) w in
      s\<lparr>sv_web := w, sv_pool := threadpool_delete (sv_pool s), sv_over := True\<rparr>)"

datatype main_step = Signal int | Wait "(nat \<times> 32 word) list" | Wait_failed int | Handle answers
  | Round_end int | Take | Work nat | Stop

definition server_step :: "env \<Rightarrow> main_step \<Rightarrow> server \<Rightarrow> server res" where
  "server_step e st s =
     (if sv_over s then Inl Blocked
      else case st of
        Signal sig \<Rightarrow>
          if sv_handlers s sig = Some Sig_handler \<and> (sig = SIGALRM \<longrightarrow> sv_alarm s)
          then Inr (sig_handler sig (s\<lparr>sv_alarm := (if sig = SIGALRM then False else sv_alarm s)\<rparr>))
          else Inl Blocked
      | Wait evs \<Rightarrow>
          if sv_batch s = None \<and> \<not> sv_stop s \<and> length evs \<le> MAX_EVENT_NUMBER
             \<and> distinct (map fst evs) \<and> list_all (reportable s) evs
          then Inr (s\<lparr>sv_batch := Some evs, sv_web := reported evs (sv_web s)\<rparr>)
          else Inl Blocked
      | Wait_failed err \<Rightarrow>
          if sv_batch s = None \<and> \<not> sv_stop s then
            bindr (write_log_now e 3 ''epoll failure'' (sv_web s)) (\<lambda>w.
            Inr (server_end (s\<lparr>sv_web := w\<rparr>)))
          else Inl Blocked
      | Handle an \<Rightarrow>
          (case sv_batch s of
             Some (ev # evs) \<Rightarrow>
               if answers_ok an s then handle_event3 e ev an (s\<lparr>sv_batch := Some evs, sv_now := an_time an\<rparr>) else Inl Blocked
           | _ \<Rightarrow> Inl Blocked)
      | Round_end cur \<Rightarrow>
          if sv_batch s = Some [] \<and> sv_now s \<le> cur then
            let s = s\<lparr>sv_now := cur\<rparr> in
            bindr (if sv_timeout s then timer_handler e cur s else Inr s) (\<lambda>s.
            Inr (s\<lparr>sv_timeout := False, sv_batch := None\<rparr>))
          else Inl Blocked
      | Take \<Rightarrow> take_request s
      | Work k \<Rightarrow>
          if k < length (sv_busy s)
          then run_request e (sv_busy s ! k) (s\<lparr>sv_busy := take k (sv_busy s) @ drop (Suc k) (sv_busy s)\<rparr>)
          else Inl Blocked
      | Stop \<Rightarrow> if sv_batch s = None \<and> sv_stop s then Inr (server_end s) else Inl Blocked)"

end
