(* ===== verification/V3_HttpNet.thy ===== *)
theory V3_HttpNet
  imports V3_HttpShape
begin

section \<open>version\_03: what a worker does to the sockets\<close>

text \<open>
  Of what the connections share, \<open>process\<close> changes the log, the users and the statements given
  to MySQL. The sockets, the interest list and the number of users it changes only by arming its
  own socket and by closing it.
\<close>

definition net :: "web \<Rightarrow> (int \<Rightarrow> 32 word option) \<times> (int \<Rightarrow> 32 word option) \<times> int" where
  "net w = (wb_flags w, wb_interest w, m_user_count w)"

lemma net_upd [simp]:
  "net (w\<lparr>users := u\<rparr>) = net w" "net (w\<lparr>m_lock := m\<rparr>) = net w" "net (w\<lparr>wb_queries := q\<rparr>) = net w"
  "net (w\<lparr>wb_log := lg\<rparr>) = net w" "net (w\<lparr>wb_clock := t\<rparr>) = net w" "net (w\<lparr>wb_sent := f\<rparr>) = net w"
  by (simp_all add: net_def)

lemma write_log_now_net: "write_log_now e l msg w = Inr w' \<Longrightarrow> net w' = net w"
  by (auto simp: write_log_now_def bindr_eq_Inr)

lemma LOG_INFO_flush_net: "LOG_INFO_flush e msg w = Inr w' \<Longrightarrow> net w' = net w"
  by (auto simp: LOG_INFO_flush_def log_flush_now_def bindr_eq_Inr dest: write_log_now_net)

lemma lock_users_net: "lock_users w = Inr w' \<Longrightarrow> net w' = net w"
  by (auto simp: lock_users_def bindr_eq_Inr)

lemma unlock_users_net: "unlock_users w = Inr w' \<Longrightarrow> net w' = net w"
  by (auto simp: unlock_users_def bindr_eq_Inr)

subsection \<open>\<open>process\_read\<close>\<close>

lemma parse_headers_net: "post (parse_headers e t c w) (\<lambda>(r, c', w'). net w' = net w)"
  unfolding parse_headers_def by (intro post_rules) (auto dest: LOG_INFO_flush_net)

lemma register_net: "post (register e name password url c w) (\<lambda>(c', w'). net w' = net w)"
  unfolding register_def by (intro post_rules) (auto dest!: lock_users_net unlock_users_net)

lemma do_form_net: "post (do_form e ch url c w) (\<lambda>(c', w'). net w' = net w)"
  unfolding do_form_def by (intro post_rules post_mono [OF register_net]) simp_all

lemma do_request_net: "post (do_request e c w) (\<lambda>(r, c', w'). net w' = net w)"
  unfolding do_request_def by (intro post_rules) (auto dest!: postD [OF do_form_net] split: if_splits)

lemma net_chain: "post m (\<lambda>(r, c', w'). net w' = net v) \<Longrightarrow> net v = net w
    \<Longrightarrow> post m (\<lambda>(r, c', w'). net w' = net w)"
  by (rule post_mono) auto

lemma read_loop_net: "post (read_loop e st c w) (\<lambda>(r, c', w'). net w' = net w)"
proof (induction e st c w rule: read_loop.induct)
  case (1 e st c w)
  note steps = LOG_INFO_flush_net postD [OF parse_headers_net]
  show ?case
    by (subst read_loop.simps, intro post_rules post_CHECK_STATE net_chain [OF do_request_net]
        net_chain [OF "1.IH"(1)] net_chain [OF "1.IH"(2)] net_chain [OF "1.IH"(3)])
      (auto dest!: steps)
qed

lemma process_read_keeps:
  "post (process_read e c w) (\<lambda>(r, c', w'). m_sockfd c' = m_sockfd c \<and> net w' = net w)"
proof (cases "process_read e c w")
  case (Inr x)
  note r = Inr [unfolded process_read_def]
  show ?thesis
    using postD [OF read_loop_net r] shape_sockfd [of "fst (snd x)" c] postD [OF read_loop_shape r]
    by (cases x) (simp add: Inr)
qed simp

subsection \<open>\<open>process\_write\<close>\<close>

text \<open>The same connection and the same sockets as before.\<close>

definition keeps :: "http_conn \<Rightarrow> web \<Rightarrow> http_conn \<Rightarrow> web \<Rightarrow> bool" where
  "keeps c w c' w' = (m_sockfd c' = m_sockfd c \<and> net w' = net w)"

lemma keeps_trans: "keeps a u b v \<Longrightarrow> keeps b v c w \<Longrightarrow> keeps a u c w"
  by (simp add: keeps_def)

lemma add_response_keeps: "post (add_response e s c w) (\<lambda>(r, c', w'). keeps c w c' w')"
  unfolding add_response_def by (intro post_rules) (auto simp: keeps_def dest: LOG_INFO_flush_net)

lemma add_status_line_keeps: "post (add_status_line e n t c w) (\<lambda>(r, c', w'). keeps c w c' w')"
  unfolding add_status_line_def by (rule add_response_keeps)

lemma add_content_keeps: "post (add_content e s c w) (\<lambda>(r, c', w'). keeps c w c' w')"
  unfolding add_content_def by (rule add_response_keeps)

lemma add_headers_keeps: "post (add_headers e n c w) (\<lambda>(c', w'). keeps c w c' w')"
  unfolding add_headers_def add_content_length_def add_linger_def add_blank_line_def
  by (intro post_rules) (auto dest!: postD [OF add_response_keeps] intro: keeps_trans)

lemma error_answer_keeps: "post (error_answer e n t f c w) (\<lambda>(r, c', w'). keeps c w c' w')"
  unfolding error_answer_def one_iovec_def
  by (intro post_rules)
    (auto dest!: postD [OF add_status_line_keeps] postD [OF add_headers_keeps] postD [OF add_content_keeps]
      simp: keeps_def)

lemma process_write_keeps: "post (process_write e ret c w) (\<lambda>(r, c', w'). keeps c w c' w')"
proof (cases "ret = FILE_REQUEST")
  case True
  show ?thesis unfolding process_write_def True HTTP_CODE.case
    by (intro post_rules)
      (auto dest!: postD [OF add_status_line_keeps] postD [OF add_headers_keeps] postD [OF add_content_keeps]
        simp: keeps_def)
next
  case False
  then show ?thesis by (cases ret) (auto simp: process_write_def keeps_def intro: error_answer_keeps [unfolded keeps_def])
qed

subsection \<open>\<open>process\<close>, \<open>write\<close> and \<open>init\<close>\<close>

text \<open>The interest list changes at one descriptor only.\<close>

definition others_kept :: "int \<Rightarrow> (int \<Rightarrow> 32 word option) \<Rightarrow> (int \<Rightarrow> 32 word option) \<Rightarrow> bool" where
  "others_kept fd i i' = (\<forall>x. 0 \<le> x \<longrightarrow> x \<noteq> fd \<longrightarrow> i' x = i x)"

lemma others_kept_refl [simp]: "others_kept fd i i"
  by (simp add: others_kept_def)

lemma modfd_net [simp]:
  "wb_flags (modfd fd ev w) = wb_flags w" "m_user_count (modfd fd ev w) = m_user_count w"
  by (simp_all add: modfd_def)

lemma modfd_kept [simp]: "others_kept fd i (wb_interest w) \<Longrightarrow> others_kept fd i (wb_interest (modfd fd ev w))"
  by (auto simp: modfd_def others_kept_def)

text \<open>The socket of a connection is still open and still its own, or the worker has closed it.\<close>

definition keeps_socket :: "http_conn \<Rightarrow> web \<Rightarrow> http_conn \<Rightarrow> web \<Rightarrow> bool" where
  "keeps_socket c w c' w' = (m_sockfd c' = m_sockfd c \<and> wb_flags w' = wb_flags w
     \<and> m_user_count w' = m_user_count w \<and> others_kept (m_sockfd c) (wb_interest w) (wb_interest w'))"

definition gives_up :: "http_conn \<Rightarrow> web \<Rightarrow> http_conn \<Rightarrow> web \<Rightarrow> bool" where
  "gives_up c w c' w' = (m_sockfd c \<noteq> -1 \<and> m_sockfd c' = -1 \<and> wb_flags w' = (wb_flags w)(m_sockfd c := None)
     \<and> m_user_count w' = m_user_count w - 1 \<and> others_kept (m_sockfd c) (wb_interest w) (wb_interest w'))"

lemma close_conn_net:
  "(let (c', w') = close_conn True c w in
    if m_sockfd c = -1 then keeps_socket c w c' w' else gives_up c w c' w')"
  by (auto simp: close_conn_def keeps_socket_def gives_up_def removefd_def close_fd3_def others_kept_def)

lemma process_net:
  assumes "process e c w = Inr (c', w')"
  shows "keeps_socket c w c' w' \<or> gives_up c w c' w'"
proof -
  obtain r c1 w1 where r: "process_read e c w = Inr (r, c1, w1)"
    using assms by (auto simp: process_def bindr_eq_Inr)
  have k: "m_sockfd c1 = m_sockfd c" "net w1 = net w" using postD [OF process_read_keeps r] by auto
  show ?thesis
  proof (cases "r = NO_REQUEST")
    case True
    then show ?thesis using assms r k by (auto simp: process_def keeps_socket_def net_def)
  next
    case False
    obtain ok c2 w2 where p: "process_write e r c1 w1 = Inr (ok, c2, w2)"
      using assms r False by (auto simp: process_def bindr_eq_Inr)
    have k2: "m_sockfd c2 = m_sockfd c" "net w2 = net w"
      using postD [OF process_write_keeps p] k by (auto simp: keeps_def)
    obtain c3 w3 where x: "close_conn True c2 w2 = (c3, w3)" by (cases "close_conn True c2 w2")
    show ?thesis
    proof (cases ok)
      case True
      then show ?thesis using assms r False p k2 by (auto simp: process_def keeps_socket_def net_def)
    next
      case no: False
      then have "c' = c3" "w' = modfd (m_sockfd c3) EV_OUT w3"
        using assms r False p x by (auto simp: process_def)
      moreover have "if m_sockfd c2 = -1 then keeps_socket c2 w2 c3 w3 else gives_up c2 w2 c3 w3"
        using close_conn_net [of c2 w2] x by simp
      moreover have "others_kept (m_sockfd c3) (wb_interest w3) (wb_interest w')" using \<open>w' = _\<close> by simp
      ultimately show ?thesis
        using k2 by (auto simp: keeps_socket_def gives_up_def net_def others_kept_def split: if_splits)
    qed
  qed
qed

lemma write_loop_net:
  "write_loop as c w = Inr (r, c', w') \<Longrightarrow> keeps_socket c w c' w'"
proof (induction as arbitrary: c w)
  case (Cons a as)
  have u: "m_sockfd (unmap d) = m_sockfd d" "m_sockfd (http_init0 d) = m_sockfd d"
    "m_sockfd (advance_iov k d) = m_sockfd d" for d k
    by (simp_all add: unmap_def http_init0_def advance_iov_def Let_def split: option.split)
  obtain bs where b: "writev_bytes c = Inr bs" using Cons.prems by (auto simp: bindr_eq_Inr)
  show ?case
  proof (cases a)
    case (W_took k)
    let ?d = "advance_iov (int (min k (length bs))) c"
    let ?v = "w\<lparr>wb_sent := (wb_sent w)(m_sockfd c := wb_sent w (m_sockfd c) @ take (min k (length bs)) bs)\<rparr>"
    show ?thesis
    proof (cases "bytes_to_send ?d \<le> 0")
      case True
      then show ?thesis using Cons.prems b W_took u
        by (auto simp: keeps_socket_def Let_def split: if_splits)
    next
      case False
      then have "write_loop as ?d ?v = Inr (r, c', w')" using Cons.prems b W_took by (simp add: Let_def)
      from Cons.IH [OF this] u(3) show ?thesis by (simp add: keeps_socket_def)
    qed
  qed (use Cons.prems b u in \<open>auto simp: keeps_socket_def\<close>)
qed (simp add: keeps_socket_def)

lemma http_write_net: "http_write as c w = Inr (r, c', w') \<Longrightarrow> keeps_socket c w c' w'"
  by (auto simp: http_write_def keeps_socket_def http_init0_def split: if_splits dest: write_loop_net)

lemma write_loop_log: "write_loop as c w = Inr (r, c', w') \<Longrightarrow> wb_log w' = wb_log w"
proof (induction as arbitrary: c w)
  case (Cons a as)
  have m: "wb_log (modfd fd ev v) = wb_log v" for fd ev v by (simp add: modfd_def)
  obtain bs where "writev_bytes c = Inr bs" using Cons.prems by (auto simp: bindr_eq_Inr)
  with Cons.prems Cons.IH m show ?case by (cases a) (fastforce simp: Let_def split: if_splits)+
qed simp

lemma http_write_log: "http_write as c w = Inr (r, c', w') \<Longrightarrow> wb_log w' = wb_log w"
  by (auto simp: http_write_def modfd_def split: if_splits dest: write_loop_log)

lemma read_once_sockfd: "read_once ans c = Inr (r, c') \<Longrightarrow> m_sockfd c' = m_sockfd c"
  by (auto simp: read_once_def Let_def bindr_eq_Inr split: if_splits option.splits)

lemma http_init_net:
  assumes "http_init fd ip c w = (c', w')"
  shows "m_sockfd c' = fd" "m_user_count w' = m_user_count w + 1"
    "\<And>x. x \<noteq> fd \<Longrightarrow> wb_interest w' x = wb_interest w x"
    "\<And>x. wb_flags w' x = None \<longleftrightarrow> wb_flags w x = None"
  using assms
  by (auto simp: http_init_def Let_def addfd_def setnonblocking_def http_init0_def split: option.splits if_splits)

end
