(* ===== verification/V3_MainInv.thy ===== *)
theory V3_MainInv
  imports V3_Main V3_HttpNet V3_HttpHeader
begin

section \<open>version\_03: timers and connections\<close>

text \<open>
  The invariant of the server: every open client socket has its timer in the list, whatever
  the main thread and the workers do and in whatever order. What the main thread does keeps one
  timer for one count of \<open>m_user_count\<close>; a worker that closes a connection takes from the count
  and leaves the timer.
\<close>

subsection \<open>The invariant\<close>

definition own :: "server \<Rightarrow> nat set" where
  "own s = {sv_listenfd s, sv_epollfd s, sv_pipefd0 s, sv_pipefd1 s}"

definition timer_of :: "server \<Rightarrow> nat \<Rightarrow> nat option" where
  "timer_of s fd = cd_timer (sv_clients s fd)"

text \<open>A connection the server has initialised: its own descriptor, unless a worker closed it.\<close>

definition client_ok :: "server \<Rightarrow> nat \<Rightarrow> bool" where
  "client_ok s u = (u < MAX_FD \<and> u \<notin> own s \<and> m_sockfd (sv_conns s u) \<in> {-1, int u})"

definition timer_ok :: "server \<Rightarrow> timer \<Rightarrow> bool" where
  "timer_ok s x = (client_ok s (user x) \<and> cd_sockfd (sv_clients s (user x)) = int (user x)
     \<and> expire x \<le> sv_now s + 3 * TIMESLOT)"

definition timers_ok :: "nat \<Rightarrow> server \<Rightarrow> timer list \<Rightarrow> bool" where
  "timers_ok n s xs =
     (timers_held (sv_timers s) xs \<and> (\<forall>x\<in>set xs. timer_ok s x)
      \<and> m_user_count (sv_web s) = int (length xs) - int n)"

definition open_guarded :: "server \<Rightarrow> timer list \<Rightarrow> bool" where
  "open_guarded s xs =
     (\<forall>fd. wb_flags (sv_web s) (int fd) \<noteq> None \<longrightarrow> fd \<notin> own s \<longrightarrow> guarded (timer_of s) xs fd)"

text \<open>The descriptors of the server itself, and the events that are left of a report.\<close>

definition own_ok :: "server \<Rightarrow> bool" where
  "own_ok s =
     (distinct [sv_listenfd s, sv_epollfd s, sv_pipefd0 s, sv_pipefd1 s]
      \<and> (\<forall>fd\<in>own s. wb_flags (sv_web s) (int fd) \<noteq> None)
      \<and> wb_interest (sv_web s) (int (sv_listenfd s)) = Some (or EV_IN EV_RDHUP)
      \<and> wb_interest (sv_web s) (int (sv_pipefd0 s)) = Some (or EV_IN EV_RDHUP)
      \<and> wb_interest (sv_web s) (int (sv_epollfd s)) = None \<and> wb_interest (sv_web s) (int (sv_pipefd1 s)) = None)"

definition event_ok :: "server \<Rightarrow> timer list \<Rightarrow> nat \<times> 32 word \<Rightarrow> bool" where
  "event_ok s xs ev = (fst ev \<in> {sv_listenfd s, sv_pipefd0 s} \<and> snd ev = EV_IN
     \<or> fst ev \<notin> own s \<and> guarded (timer_of s) xs (fst ev))"

definition batch_ok :: "server \<Rightarrow> timer list \<Rightarrow> (nat \<times> 32 word) list \<Rightarrow> bool" where
  "batch_ok s xs evs = (distinct (map fst evs) \<and> (\<forall>ev\<in>set evs. event_ok s xs ev))"

lemma batch_ok_mono:
  assumes "batch_ok s xs evs"
    and "sv_listenfd s' = sv_listenfd s" "sv_epollfd s' = sv_epollfd s" "sv_pipefd0 s' = sv_pipefd0 s"
      "sv_pipefd1 s' = sv_pipefd1 s"
    and "\<And>fd. fd \<in> fst ` set evs \<Longrightarrow> guarded (timer_of s) xs fd \<Longrightarrow> guarded (timer_of s') xs' fd"
  shows "batch_ok s' xs' evs"
  using assms unfolding batch_ok_def event_ok_def own_def by auto

definition queue_ok :: "server \<Rightarrow> bool" where
  "queue_ok s = (tp_ok (sv_pool s) \<and> (\<forall>i\<in>set (sv_busy s). client_ok s i)
     \<and> (\<forall>i. Some i \<in> set (m_workqueue (sv_pool s)) \<longrightarrow> client_ok s i))"

definition inv :: "nat \<Rightarrow> server \<Rightarrow> timer list \<Rightarrow> (nat \<times> 32 word) list \<Rightarrow> bool" where
  "inv n s xs evs = (timers_ok n s xs \<and> open_guarded s xs \<and> own_ok s \<and> queue_ok s \<and> batch_ok s xs evs)"

definition server_ok :: "nat \<Rightarrow> server \<Rightarrow> timer list \<Rightarrow> bool" where
  "server_ok n s xs = inv n s xs (case sv_batch s of None \<Rightarrow> [] | Some evs \<Rightarrow> evs)"

lemmas inv_defs = inv_def timers_ok_def timer_ok_def open_guarded_def own_ok_def queue_ok_def batch_ok_def event_ok_def own_def client_ok_def

lemma inv_guarded:
  assumes "inv n s xs evs" and "guarded (timer_of s) xs fd"
  shows "client_ok s fd" "cd_sockfd (sv_clients s fd) = int fd" "fd < MAX_FD"
  using assms unfolding inv_def timers_ok_def timer_ok_def guarded_def client_ok_def by fastforce+

lemma inv_web: "inv n s xs evs \<Longrightarrow> net w = net (sv_web s) \<Longrightarrow> inv n (s\<lparr>sv_web := w\<rparr>) xs evs"
  by (simp add: inv_defs net_def timer_of_def [abs_def])

subsection \<open>The callback\<close>

lemma cb_func_net:
  assumes "cb_func e d w = Inr w'"
  shows "wb_flags w' = (wb_flags w)(cd_sockfd d := None)" "m_user_count w' = m_user_count w - 1"
    "others_kept (cd_sockfd d) (wb_interest w) (wb_interest w')"
proof -
  have "net w' = ((wb_flags w)(cd_sockfd d := None), (wb_interest w)(cd_sockfd d := None), m_user_count w - 1)"
    using assms LOG_INFO_flush_net by (fastforce simp: cb_func_def Let_def close_fd3_def net_def)
  then show "wb_flags w' = (wb_flags w)(cd_sockfd d := None)" "m_user_count w' = m_user_count w - 1"
    "others_kept (cd_sockfd d) (wb_interest w) (wb_interest w')" by (auto simp: net_def others_kept_def)
qed

lemma fire_all_net:
  assumes "fire_all e clients us w = Inr w'" and "\<forall>u\<in>set us. cd_sockfd (clients u) = int u"
  shows "wb_flags w' (int fd) = (if fd \<in> set us then None else wb_flags w (int fd))
    \<and> m_user_count w' = m_user_count w - int (length us) 
    \<and> (fd \<notin> set us \<longrightarrow> wb_interest w' (int fd) = wb_interest w (int fd))"
  using assms
proof (induction us arbitrary: w)
  case (Cons u us)
  obtain w1 where 1: "cb_func e (clients u) w = Inr w1" "fire_all e clients us w1 = Inr w'"
    using Cons.prems(1) by (auto simp: bindr_eq_Inr)
  from Cons.IH [OF 1(2)] cb_func_net [OF 1(1)] Cons.prems(2) show ?case
    by (auto simp: others_kept_def)
qed simp

subsection \<open>What the handlers keep\<close>

text \<open>What is left to show of a step.\<close>

definition same_fds :: "server \<Rightarrow> server \<Rightarrow> bool" where
  "same_fds s s' = (sv_listenfd s' = sv_listenfd s \<and> sv_epollfd s' = sv_epollfd s
     \<and> sv_pipefd0 s' = sv_pipefd0 s \<and> sv_pipefd1 s' = sv_pipefd1 s \<and> sv_batch s' = sv_batch s)"

lemma own_same: "same_fds s s' \<Longrightarrow> own s' = own s"
  by (simp add: same_fds_def own_def)

lemma inv_change:
  assumes i: "inv n s xs evs" and fds: "same_fds s s'"
    and "timers_held (sv_timers s') xs'" and "\<forall>x\<in>set xs'. timer_ok s' x"
    and "m_user_count (sv_web s') = int (length xs') - int m"
    and "\<And>fd. wb_flags (sv_web s') (int fd) \<noteq> None \<Longrightarrow> fd \<notin> own s \<Longrightarrow> guarded (timer_of s') xs' fd"
    and keep: "\<And>fd. fd \<in> own s \<Longrightarrow> wb_flags (sv_web s) (int fd) \<noteq> None \<Longrightarrow> wb_flags (sv_web s') (int fd) \<noteq> None"
      "\<And>fd. fd \<in> own s \<Longrightarrow> wb_interest (sv_web s') (int fd) = wb_interest (sv_web s) (int fd)"
    and "queue_ok s'"
    and b: "\<And>fd. fd \<in> fst ` set evs \<Longrightarrow> guarded (timer_of s) xs fd \<Longrightarrow> guarded (timer_of s') xs' fd"
  shows "inv m s' xs' evs"
proof -
  note o = own_same [OF fds]
  have k: "own_ok s" "batch_ok s xs evs" using i by (simp_all add: inv_def)
  have "own_ok s'"
    using k(1) keep fds unfolding own_ok_def o by (auto simp: same_fds_def own_def)
  moreover have "batch_ok s' xs' evs"
    by (rule batch_ok_mono [OF k(2)]) (use fds b in \<open>simp_all add: same_fds_def\<close>)
  ultimately show ?thesis using assms(3-6,9) o by (simp add: inv_def timers_ok_def open_guarded_def)
qed

lemma end_client_inv:
  assumes i: "inv n s xs evs" and g: "guarded (timer_of s) xs fd" and new: "fd \<notin> fst ` set evs"
    and r: "end_client e fd s = Inr s'"
  shows "\<exists>xs'. inv n s' xs' evs \<and> sv_batch s' = sv_batch s"
proof -
  obtain a ex where a: "timer_of s fd = Some a" "(a, ex, fd) \<in> set xs" using g by (auto simp: guarded_def)
  have h: "timers_held (sv_timers s) xs" "\<forall>x\<in>set xs. timer_ok s x"
    "m_user_count (sv_web s) = int (length xs) - int n" "queue_ok s" "open_guarded s xs"
    using i by (simp_all add: inv_def timers_ok_def)
  obtain q' xs' where q': "del_timer (Some a) (sv_timers s) = Inr q'" "timers_held q' xs'" "set xs' \<subseteq> set xs"
    "length xs = Suc (length xs')" "\<forall>x. x \<noteq> fd \<longrightarrow> guarded (timer_of s) xs x \<longrightarrow> guarded (timer_of s) xs' x"
    using tls.guarded_cancel [OF h(1), of "timer_of s", OF a] by blast
  obtain w where w: "cb_func e (sv_clients s fd) (sv_web s) = Inr w" "s' = s\<lparr>sv_web := w, sv_timers := q'\<rparr>"
    using r a(1) q'(1) by (auto simp: end_client_def timer_of_def Let_def bindr_eq_Inr)
  note c = cb_func_net [OF w(1), unfolded inv_guarded(2) [OF i g]]
  have fd: "fd \<notin> own s" using inv_guarded(1) [OF i g] by (simp add: client_ok_def)
  have s: "timer_of s' = timer_of s" "sv_web s' = w" "client_ok s' = client_ok s" "timer_ok s' = timer_ok s"
    "sv_timers s' = q'" "same_fds s s'" "queue_ok s' = queue_ok s"
    by (auto simp: w(2) own_def client_ok_def timer_ok_def timer_of_def same_fds_def queue_ok_def fun_eq_iff)
  have "inv n s' xs' evs"
  proof (rule inv_change [OF i s(6)])
    show "guarded (timer_of s') xs' x" if "x \<in> fst ` set evs" "guarded (timer_of s) xs x" for x
      using that q'(5) new unfolding s(1) by metis
    show "guarded (timer_of s') xs' x" if "wb_flags (sv_web s') (int x) \<noteq> None" "x \<notin> own s" for x
      using that q'(5) h(5) c(1) s(1,2) by (auto simp: open_guarded_def split: if_splits)
    show "wb_interest (sv_web s') (int x) = wb_interest (sv_web s) (int x)" if "x \<in> own s" for x
    proof -
      have "x \<noteq> fd" using that fd by auto
      then show ?thesis using c(3) s(2) by (simp add: others_kept_def)
    qed
  qed (use q' c h s fd in auto)
  then show ?thesis using w(2) by auto
qed

lemma extend_timer_inv:
  assumes i: "inv n s xs evs" and g: "guarded (timer_of s) xs fd" and cur: "sv_now s = cur"
    and r: "extend_timer e fd cur s = Inr s'"
  shows "\<exists>xs'. inv n s' xs' evs \<and> sv_batch s' = sv_batch s"
proof -
  obtain a ex where a: "timer_of s fd = Some a" "(a, ex, fd) \<in> set xs" using g by (auto simp: guarded_def)
  have h: "timers_held (sv_timers s) xs" "\<forall>x\<in>set xs. timer_ok s x"
    "m_user_count (sv_web s) = int (length xs) - int n" "queue_ok s" "open_guarded s xs"
    using i by (simp_all add: inv_def timers_ok_def)
  have t: "timer_ok s (a, ex, fd)" using h(2) a(2) by blast
  then have "ex \<le> cur + 3 * TIMESLOT" using cur by (simp add: timer_ok_def)
  from tls.guarded_prolong [OF h(1), of "timer_of s", OF a this] obtain q' xs' where
    q': "prolong_timer a (cur + 3 * TIMESLOT) (sv_timers s) = Inr q'" "timers_held q' xs'"
      "set xs' = insert (a, cur + 3 * TIMESLOT, fd) (set xs - {(a, ex, fd)})" "length xs' = length xs"
      "\<forall>x. guarded (timer_of s) xs x \<longrightarrow> guarded (timer_of s) xs' x" by blast
  obtain tn where tn: "ut_load (tl_heap (sv_timers s)) (Some a) = Inr tn"
    using q'(1) by (auto simp: prolong_timer_def bindr_eq_Inr)
  obtain w where w: "LOG_INFO_flush e ''adjust timer once'' (sv_web s) = Inr w" "s' = s\<lparr>sv_web := w, sv_timers := q'\<rparr>"
    using r a(1) q'(1) tn by (auto simp: extend_timer_def timer_of_def Let_def bindr_eq_Inr prolong_timer_def)
  note c = LOG_INFO_flush_net [OF w(1)]
  have s: "timer_of s' = timer_of s" "sv_web s' = w" "client_ok s' = client_ok s" "timer_ok s' = timer_ok s"
    "sv_timers s' = q'" "same_fds s s'" "queue_ok s' = queue_ok s"
    by (auto simp: w(2) own_def client_ok_def timer_ok_def timer_of_def same_fds_def queue_ok_def fun_eq_iff)
  have new: "timer_ok s (a, cur + 3 * TIMESLOT, fd)" using t cur by (simp add: timer_ok_def)
  have "inv n s' xs' evs"
    by (rule inv_change [OF i s(6)]) (use q' c h s new in \<open>auto simp: net_def open_guarded_def\<close>)
  then show ?thesis using w(2) by auto
qed

lemma timer_of_upd [simp]:
  "timer_of (s\<lparr>sv_web := w\<rparr>) = timer_of s" "timer_of (s\<lparr>sv_conns := f\<rparr>) = timer_of s"
  "timer_of (s\<lparr>sv_pool := q\<rparr>) = timer_of s" "timer_of (s\<lparr>sv_busy := b\<rparr>) = timer_of s"
  "timer_of (s\<lparr>sv_dbs := d\<rparr>) = timer_of s" "timer_of (s\<lparr>sv_timers := t\<rparr>) = timer_of s"
  by (simp_all add: timer_of_def fun_eq_iff)

lemma inv_conn:
  assumes "inv n s xs evs" and "m_sockfd c = m_sockfd (sv_conns s fd)"
  shows "inv n (s\<lparr>sv_conns := (sv_conns s)(fd := c)\<rparr>) xs evs"
proof -
  have "client_ok (s\<lparr>sv_conns := (sv_conns s)(fd := c)\<rparr>) = client_ok s"
    using assms(2) by (auto simp: client_ok_def own_def fun_eq_iff)
  moreover from this have "timer_ok (s\<lparr>sv_conns := (sv_conns s)(fd := c)\<rparr>) = timer_ok s"
    by (simp add: timer_ok_def fun_eq_iff)
  ultimately show ?thesis
    using assms(1) unfolding inv_def timers_ok_def open_guarded_def own_ok_def queue_ok_def batch_ok_def event_ok_def
    by (simp add: own_def)
qed

lemma inv_pool:
  assumes i: "inv n s xs evs" and "append_request (Some fd) (sv_pool s) = Inr (b, q)" and "client_ok s fd"
  shows "inv n (s\<lparr>sv_pool := q\<rparr>) xs evs"
proof -
  have t: "tp_ok (sv_pool s)" using i by (simp add: inv_def queue_ok_def)
  have q: "tp_ok q \<and> set (m_workqueue q) \<subseteq> insert (Some fd) (set (m_workqueue (sv_pool s)))"
    using tp.enq_room [OF t, of "Some fd"] tp.enq_full [OF t, of "Some fd"] assms(2)
    by (cases "tp_room (sv_pool s)") auto
  have s: "client_ok (s\<lparr>sv_pool := q\<rparr>) = client_ok s" "timer_ok (s\<lparr>sv_pool := q\<rparr>) = timer_ok s"
    by (auto simp: client_ok_def timer_ok_def own_def fun_eq_iff)
  show ?thesis
    using i q assms(3) unfolding inv_def timers_ok_def open_guarded_def own_ok_def queue_ok_def batch_ok_def event_ok_def s
    by (auto simp: own_def)
qed

lemma read_event_inv:
  assumes i: "inv n s xs evs" and g: "guarded (timer_of s) xs fd" and new: "fd \<notin> fst ` set evs"
    and now: "sv_now s = an_time an" and r: "read_event e fd an s = Inr s'"
  shows "\<exists>xs'. inv n s' xs' evs \<and> sv_batch s' = sv_batch s"
proof -
  obtain ok c where c: "read_once (an_recv an) (sv_conns s fd) = Inr (ok, c)"
    using r by (auto simp: read_event_def bindr_eq_Inr)
  let ?s = "s\<lparr>sv_conns := (sv_conns s)(fd := c)\<rparr>"
  have i1: "inv n ?s xs evs" by (rule inv_conn [OF i read_once_sockfd [OF c]])
  show ?thesis
  proof (cases ok)
    case False
    then have "end_client e fd ?s = Inr s'" using r c by (simp add: read_event_def)
    with end_client_inv [OF i1 _ new] g show ?thesis by fastforce
  next
    case True
    then obtain w b q where w: "LOG_INFO_flush e (''deal with the client('' @ m_address c @ '')'') (sv_web s) = Inr w"
      "append_request (Some fd) (sv_pool s) = Inr (b, q)"
      "extend_timer e fd (an_time an) (?s\<lparr>sv_web := w, sv_pool := q\<rparr>) = Inr s'"
      using r c by (auto simp: read_event_def bindr_eq_Inr Let_def)
    have i2: "inv n (?s\<lparr>sv_web := w\<rparr>) xs evs"
      using inv_web [OF i1, of w] LOG_INFO_flush_net [OF w(1)] by simp
    have "client_ok (?s\<lparr>sv_web := w\<rparr>) fd" using inv_guarded(1) [OF i2] g by simp
    then have "inv n (?s\<lparr>sv_web := w, sv_pool := q\<rparr>) xs evs" using inv_pool [OF i2] w(2) by simp
    from extend_timer_inv [OF this _ _ w(3)] g now show ?thesis by simp
  qed
qed

lemma write_conn_inv:
  assumes i: "inv n s xs evs" and g: "guarded (timer_of s) xs fd"
    and c: "http_write ans (sv_conns s fd) (sv_web s) = Inr (r, c, w)"
  shows "inv n (s\<lparr>sv_conns := (sv_conns s)(fd := c), sv_web := w\<rparr>) xs evs"
proof -
  note k = http_write_net [OF c, unfolded keeps_socket_def]
  let ?s = "s\<lparr>sv_conns := (sv_conns s)(fd := c), sv_web := w\<rparr>"
  have i1: "inv n (s\<lparr>sv_conns := (sv_conns s)(fd := c)\<rparr>) xs evs" using inv_conn [OF i] k by simp
  have s: "timer_ok ?s = timer_ok (s\<lparr>sv_conns := (sv_conns s)(fd := c)\<rparr>)"
    "queue_ok ?s = queue_ok (s\<lparr>sv_conns := (sv_conns s)(fd := c)\<rparr>)"
    by (auto simp: timer_ok_def client_ok_def own_def queue_ok_def fun_eq_iff)
  have o: "own (s\<lparr>sv_conns := (sv_conns s)(fd := c)\<rparr>) = own s" by (simp add: own_def)
  show ?thesis
  proof (rule inv_change [OF i1], unfold o)
    show "wb_interest (sv_web ?s) (int x) = wb_interest (sv_web (s\<lparr>sv_conns := (sv_conns s)(fd := c)\<rparr>)) (int x)"
      if "x \<in> own s" for x
    proof -
      have "int x \<noteq> m_sockfd (sv_conns s fd)" using that inv_guarded(1) [OF i g] by (auto simp: client_ok_def)
      then show ?thesis using k by (simp add: others_kept_def)
    qed
  qed (use i1 s k in \<open>auto simp: same_fds_def inv_def timers_ok_def open_guarded_def own_def\<close>)
qed

lemma write_event_inv:
  assumes i: "inv n s xs evs" and g: "guarded (timer_of s) xs fd" and new: "fd \<notin> fst ` set evs"
    and now: "sv_now s = an_time an" and r: "write_event e fd an s = Inr s'"
  shows "\<exists>xs'. inv n s' xs' evs \<and> sv_batch s' = sv_batch s"
proof -
  obtain ok c w where c: "http_write (an_writev an) (sv_conns s fd) (sv_web s) = Inr (Some ok, c, w)"
    using r by (auto simp: write_event_def Let_def bindr_eq_Inr split: option.splits)
  let ?s = "s\<lparr>sv_conns := (sv_conns s)(fd := c), sv_web := w\<rparr>"
  have i2: "inv n ?s xs evs" by (rule write_conn_inv [OF i g c])
  show ?thesis
  proof (cases ok)
    case False
    then have "end_client e fd ?s = Inr s'" using r c by (simp add: write_event_def Let_def)
    with end_client_inv [OF i2 _ new] g show ?thesis by fastforce
  next
    case True
    then obtain v where v: "LOG_INFO_flush e (''send data to the client('' @ m_address c @ '')'') w = Inr v"
      "extend_timer e fd (an_time an) (?s\<lparr>sv_web := v\<rparr>) = Inr s'"
      using r c by (auto simp: write_event_def bindr_eq_Inr Let_def)
    have "inv n (?s\<lparr>sv_web := v\<rparr>) xs evs"
      using inv_web [OF i2, of v] LOG_INFO_flush_net [OF v(1)] by simp
    from extend_timer_inv [OF this _ _ v(2)] g now show ?thesis by simp
  qed
qed

text \<open>An accepted connection gets the timer that \<open>new\<close> has returned.\<close>

lemma new_client_inv:
  assumes i: "inv n s xs evs" and closed: "wb_flags (sv_web s) (int connfd) = None"
    and fresh: "tl_heap (sv_timers s) a = None" and now: "sv_now s = cur"
    and r: "new_client connfd ip cur a (s\<lparr>sv_web := accepted connfd (sv_web s)\<rparr>) = Inr s'"
  shows "\<exists>xs'. inv n s' xs' evs \<and> sv_batch s' = sv_batch s"
proof -
  have h: "timers_held (sv_timers s) xs" "\<forall>x\<in>set xs. timer_ok s x"
    "m_user_count (sv_web s) = int (length xs) - int n" "queue_ok s" "open_guarded s xs" "own_ok s"
    using i by (simp_all add: inv_def timers_ok_def)
  let ?t = "cur + 3 * TIMESLOT" and ?cl = "\<lparr>cd_address = ip, cd_sockfd = int connfd, cd_timer = Some a\<rparr>"
  obtain q' xs' where q': "start_timer a ?t connfd (sv_timers s) = Inr q'" "timers_held q' xs'"
      "set xs' = insert (a, ?t, connfd) (set xs)" "length xs' = Suc (length xs)"
      "guarded ((timer_of s)(connfd \<mapsto> a)) xs' connfd"
      "\<forall>fd. guarded (timer_of s) xs fd \<longrightarrow> guarded ((timer_of s)(connfd \<mapsto> a)) xs' fd"
    using tls.guarded_add [OF h(1) fresh, of ?t connfd "timer_of s"] by blast
  obtain c w where c: "http_init (int connfd) ip (sv_conns s connfd) (accepted connfd (sv_web s)) = (c, w)"
    by (cases "http_init (int connfd) ip (sv_conns s connfd) (accepted connfd (sv_web s))")
  have s': "s' = s\<lparr>sv_web := w, sv_conns := (sv_conns s)(connfd := c), sv_clients := (sv_clients s)(connfd := ?cl),
      sv_timers := q'\<rparr>" and m: "connfd < MAX_FD"
    using r c q'(1) by (auto simp: new_client_def start_timer_def bindr_eq_Inr Let_def split: if_splits)
  note k = http_init_net [OF c]
  have o: "connfd \<notin> own s" using h(6) closed by (auto simp: own_ok_def)
  have s: "same_fds s s'" "sv_web s' = w" "sv_timers s' = q'" "timer_of s' = (timer_of s)(connfd \<mapsto> a)"
    "\<And>u. client_ok s u \<or> u = connfd \<Longrightarrow> client_ok s' u" "\<And>x. timer_ok s x \<Longrightarrow> timer_ok s' x"
    using m o k(1)
    by (auto simp: s' same_fds_def timer_of_def client_ok_def timer_ok_def own_def fun_eq_iff)
  have new: "timer_ok s' (a, ?t, connfd)" using s(5) now by (simp add: timer_ok_def s')
  have q: "queue_ok s'" using h(4) s(5) by (simp add: queue_ok_def s')
  have fl: "wb_flags w (int x) = None \<longleftrightarrow> wb_flags (sv_web s) (int x) = None" if "x \<noteq> connfd" for x
    using k(4) [of "int x"] that by (simp add: accepted_def)
  have "inv n s' xs' evs"
  proof (rule inv_change [OF i s(1)])
    show "guarded (timer_of s') xs' x" if "wb_flags (sv_web s') (int x) \<noteq> None" "x \<notin> own s" for x
      using that fl [of x] q'(5,6) h(5) s(2,4) by (cases "x = connfd") (auto simp: open_guarded_def)
    show "wb_interest (sv_web s') (int x) = wb_interest (sv_web s) (int x)" if "x \<in> own s" for x
      using that o k(3) [of "int x"] s(2) by (cases "x = connfd") (auto simp: accepted_def)
    show "wb_flags (sv_web s') (int x) \<noteq> None" if "x \<in> own s" "wb_flags (sv_web s) (int x) \<noteq> None" for x
      using that o fl [of x] s(2) by (cases "x = connfd") auto
  qed (use q' k(2) h(2,3) s new q in \<open>auto simp: accepted_def\<close>)
  then show ?thesis by (auto simp: s')
qed

lemma accept_event_inv:
  assumes i: "inv n s xs evs" and ok: "answers_ok an s" and now: "sv_now s = an_time an"
    and r: "accept_event e an s = Inr s'"
  shows "\<exists>xs'. inv n s' xs' evs \<and> sv_batch s' = sv_batch s"
proof (cases "an_accept an")
  case (Accept_failed err)
  then show ?thesis
    using r inv_web [OF i] write_log_now_net by (fastforce simp: accept_event_def bindr_eq_Inr)
next
  case (Accepted connfd ip)
  have c: "wb_flags (sv_web s) (int connfd) = None" "tl_heap (sv_timers s) (an_new an) = None"
    using ok Accepted by (simp_all add: answers_ok_def)
  show ?thesis
  proof (cases "m_user_count (sv_web s) \<ge> int MAX_FD")
    case True
    let ?v = "show_error connfd ''Internal server busy'' (accepted connfd (sv_web s))"
    obtain w where w: "write_log_now e 3 ''Internal server busy'' ?v = Inr w" "s' = s\<lparr>sv_web := w\<rparr>"
      using r True Accepted by (auto simp: accept_event_def bindr_eq_Inr accepted_def)
    have n: "wb_flags w = wb_flags (sv_web s)" "m_user_count w = m_user_count (sv_web s)"
      "wb_interest w = (wb_interest (sv_web s))(int connfd := None)"
      using write_log_now_net [OF w(1)] c(1) by (auto simp: net_def show_error_def accepted_def close_fd3_def)
    have s: "timer_ok s' = timer_ok s" "queue_ok s' = queue_ok s" "same_fds s s'" "timer_of s' = timer_of s"
      "sv_web s' = w" "sv_timers s' = sv_timers s"
      by (auto simp: w(2) timer_ok_def client_ok_def own_def queue_ok_def same_fds_def fun_eq_iff)
    have "inv n s' xs evs"
    proof (rule inv_change [OF i s(3)])
      show "wb_interest (sv_web s') (int x) = wb_interest (sv_web s) (int x)" if "x \<in> own s" for x
      proof -
        have "x \<noteq> connfd" using that i c(1) by (auto simp: inv_def own_ok_def)
        then show ?thesis using n(3) s(5) by simp
      qed
    qed (use i n s in \<open>auto simp: inv_def timers_ok_def open_guarded_def\<close>)
    then show ?thesis using w(2) by auto
  next
    case False
    then show ?thesis
      using new_client_inv [OF i c now] r Accepted by (simp add: accept_event_def accepted_def)
  qed
qed

lemma take_signal_inv: "inv n (take_signal sig s) xs evs = inv n s xs evs" "sv_batch (take_signal sig s) = sv_batch s"
  by (simp_all add: take_signal_def inv_defs timer_of_def [abs_def])

lemma signal_event_inv: "inv n (signal_event s) xs evs = inv n s xs evs \<and> sv_batch (signal_event s) = sv_batch s"
proof -
  have "inv n (fold take_signal l s) xs evs = inv n s xs evs \<and> sv_batch (fold take_signal l s) = sv_batch s" for l s
    by (induction l arbitrary: s) (simp_all add: take_signal_inv)
  then show ?thesis unfolding signal_event_def by (simp add: inv_defs timer_of_def [abs_def])
qed

lemma handle_event3_inv:
  assumes i: "inv n s xs (ev # evs)" and ok: "answers_ok an s" and now: "sv_now s = an_time an"
    and r: "handle_event3 e ev an s = Inr s'"
  shows "\<exists>xs'. inv n s' xs' evs \<and> sv_batch s' = sv_batch s"
proof -
  obtain fd events where ev: "ev = (fd, events)" by (cases ev)
  have i': "inv n s xs evs" and new: "fd \<notin> fst ` set evs" and e: "event_ok s xs (fd, events)"
    using i ev by (auto simp: inv_def batch_ok_def)
  consider "fd = sv_listenfd s" | "fd = sv_pipefd0 s" "events = EV_IN" "fd \<noteq> sv_listenfd s"
    | "guarded (timer_of s) xs fd" "fd \<notin> own s" using e by (auto simp: event_ok_def)
  then show ?thesis
  proof cases
    case 1
    then show ?thesis using accept_event_inv [OF i' ok now] r ev by (simp add: handle_event3_def)
  next
    case 2
    then have "s' = signal_event s" using r ev
      by (simp add: handle_event3_def EV_IN_def EV_RDHUP_def EV_HUP_def EV_ERR_def)
    then show ?thesis using signal_event_inv [of n s xs evs] i' by blast
  next
    case 3
    have o: "fd \<noteq> sv_listenfd s" "fd \<noteq> sv_pipefd0 s" using 3(2) by (auto simp: own_def)
    have "end_client e fd s = Inr s' \<or> read_event e fd an s = Inr s' \<or> write_event e fd an s = Inr s' \<or> s' = s"
      using r ev o by (auto simp: handle_event3_def split: if_splits)
    then show ?thesis
    proof (elim disjE)
      assume "end_client e fd s = Inr s'"
      then show ?thesis by (rule end_client_inv [OF i' 3(1) new])
    next
      assume "read_event e fd an s = Inr s'"
      then show ?thesis by (rule read_event_inv [OF i' 3(1) new now])
    next
      assume "write_event e fd an s = Inr s'"
      then show ?thesis by (rule write_event_inv [OF i' 3(1) new now])
    qed (use i' in auto)
  qed
qed

end
