(* ===== verification/V3_MainRun.thy ===== *)
theory V3_MainRun
  imports V3_MainInv
begin

section \<open>version\_03: the server in any interleaving\<close>

text \<open>
  The rest of the steps keep the invariant of \<open>V3_MainInv\<close>; a run of the server counts how
  often a worker closes a connection. What holds in every state that can be reached.
\<close>

subsection \<open>The other steps\<close>

lemma inv_fields:
  assumes "inv n s xs evs" and "same_fds s s'" and "sv_web s' = sv_web s" "sv_conns s' = sv_conns s"
    "sv_clients s' = sv_clients s" "sv_timers s' = sv_timers s" "sv_pool s' = sv_pool s" "sv_busy s' = sv_busy s"
    and "sv_now s \<le> sv_now s'"
  shows "inv n s' xs evs"
proof -
  note o = own_same [OF assms(2)]
  have "timer_of s' = timer_of s" "client_ok s' = client_ok s"
    using assms o by (simp_all add: timer_of_def client_ok_def fun_eq_iff)
  moreover have "timer_ok s x \<Longrightarrow> timer_ok s' x" for x
    using assms calculation(2) by (simp add: timer_ok_def)
  ultimately show ?thesis
    using assms(1,3-8) by (intro inv_change [OF assms(1,2)]) (auto simp: inv_def timers_ok_def open_guarded_def queue_ok_def)
qed

lemma inv_batch:
  assumes "inv n s xs evs"
  shows "inv n (s\<lparr>sv_batch := b, sv_now := sv_now s\<rparr>) xs evs" "inv n (s\<lparr>sv_batch := b\<rparr>) xs evs"
    "inv n (s\<lparr>sv_timeout := t, sv_batch := b\<rparr>) xs evs"
  using assms by (simp_all add: inv_defs timer_of_def [abs_def])

lemma inv_now: "inv n s xs evs \<Longrightarrow> sv_now s \<le> t \<Longrightarrow> inv n (s\<lparr>sv_now := t\<rparr>) xs evs"
  by (erule inv_fields) (simp_all add: same_fds_def)

lemma inv_no_events: "inv n s xs evs \<Longrightarrow> inv n s xs []"
  by (simp add: inv_def batch_ok_def)

lemma timer_handler_inv:
  assumes i: "inv n s xs []" and r: "timer_handler e cur s = Inr s'"
  shows "\<exists>xs'. inv n s' xs' []"
proof (cases "tl_head (sv_timers s) = None")
  case True
  then have "s' = s\<lparr>sv_alarm := True\<rparr>" using r by (simp add: timer_handler_def)
  with inv_fields [OF i, of s'] show ?thesis by (auto simp: same_fds_def)
next
  case False
  have h: "timers_held (sv_timers s) xs" "\<forall>x\<in>set xs. timer_ok s x"
    "m_user_count (sv_web s) = int (length xs) - int n" "queue_ok s" "open_guarded s xs"
    using i by (simp_all add: inv_def timers_ok_def)
  obtain q' xs' us where q': "returned (tick cur (sv_timers s)) = Inr (us, q')" "timers_held q' xs'"
    "set xs' = {x \<in> set xs. cur < expire x}" "us = map user (filter (\<lambda>x. expire x \<le> cur) xs)"
    "length xs = length us + length xs'"
    "\<forall>x. guarded (timer_of s) xs x \<longrightarrow> x \<notin> set us \<longrightarrow> guarded (timer_of s) xs' x"
    using tls.guarded_expired [OF h(1), of cur "timer_of s"] by blast
  obtain w1 w where w: "LOG_INFO_flush e ''timer tick'' (sv_web s) = Inr w1"
    "fire_all e (sv_clients s) us w1 = Inr w" "s' = s\<lparr>sv_web := w, sv_timers := q', sv_alarm := True\<rparr>"
    using r False q'(1) by (auto simp: timer_handler_def bindr_eq_Inr)
  have u: "\<forall>u\<in>set us. cd_sockfd (sv_clients s u) = int u \<and> u \<notin> own s"
    using h(2) q'(4) by (auto simp: timer_ok_def client_ok_def)
  note k = fire_all_net [OF w(2)] LOG_INFO_flush_net [OF w(1)]
  have f: "wb_flags w (int fd) = (if fd \<in> set us then None else wb_flags (sv_web s) (int fd))" for fd
    using k u by (simp add: net_def)
  have c: "m_user_count w = m_user_count (sv_web s) - int (length us)"
    "\<And>x. x \<in> own s \<Longrightarrow> wb_interest w (int x) = wb_interest (sv_web s) (int x)"
    using k u fire_all_net [OF w(2)] by (auto simp: net_def)
  have s: "timer_of s' = timer_of s" "sv_web s' = w" "timer_ok s' = timer_ok s" "sv_timers s' = q'"
    "same_fds s s'" "queue_ok s' = queue_ok s"
    by (auto simp: w(3) own_def client_ok_def timer_ok_def timer_of_def same_fds_def queue_ok_def fun_eq_iff)
  have "inv n s' xs' []"
  proof (rule inv_change [OF i s(5)])
    show "guarded (timer_of s') xs' x" if "wb_flags (sv_web s') (int x) \<noteq> None" "x \<notin> own s" for x
      using that f [of x] q'(6) h(5) s(1,2) by (auto simp: open_guarded_def split: if_splits)
    show "wb_flags (sv_web s') (int x) \<noteq> None" if "x \<in> own s" "wb_flags (sv_web s) (int x) \<noteq> None" for x
      using that f [of x] u s(2) by auto
  qed (use q' c h s in auto)
  then show ?thesis by blast
qed

lemma disarm_same: "(case i x of None \<Rightarrow> True | Some m \<Rightarrow> and m EV_ONESHOT = 0) \<Longrightarrow> foldl disarm i fds x = i x"
proof (induction fds arbitrary: i)
  case (Cons a fds)
  have "disarm i a x = i x" using Cons.prems by (auto simp: disarm_def split: option.splits)
  with Cons.IH [of "disarm i a"] Cons.prems show ?case by simp
qed simp

lemma own_not_disarmed:
  assumes "own_ok s" and "fd \<in> own s"
  shows "foldl disarm (wb_interest (sv_web s)) fds (int fd) = wb_interest (sv_web s) (int fd)"
  using assms by (intro disarm_same) (auto simp: own_ok_def own_def EV_IN_def EV_RDHUP_def EV_ONESHOT_def)

lemma reported_inv:
  assumes i: "inv n s xs []" and d: "distinct (map fst evs)" and l: "list_all (reportable s) evs"
  shows "inv n (s\<lparr>sv_batch := Some evs, sv_web := reported evs (sv_web s)\<rparr>) xs evs"
proof -
  let ?s = "s\<lparr>sv_web := reported evs (sv_web s)\<rparr>"
  have t: "timer_ok ?s = timer_ok s" "queue_ok ?s = queue_ok s" "own ?s = own s"
    by (auto simp: timer_ok_def client_ok_def own_def queue_ok_def fun_eq_iff)
  have "inv n ?s xs []"
    by (rule inv_change [OF i])
      (use i t own_not_disarmed in \<open>auto simp: same_fds_def reported_def inv_def timers_ok_def open_guarded_def\<close>)
  moreover have "event_ok ?s xs ev" if "ev \<in> set evs" for ev
  proof -
    have r: "reportable s ev" using l that by (simp add: list_all_iff)
    then have "fst ev \<notin> own s \<Longrightarrow> guarded (timer_of s) xs (fst ev)"
      using i by (auto simp: reportable_def inv_def open_guarded_def Let_def split: prod.splits)
    moreover have "fst ev \<in> {sv_listenfd s, sv_pipefd0 s} \<and> snd ev = EV_IN" if "fst ev \<in> own s"
      using i r that by (auto simp: reportable_def inv_def own_ok_def own_def Let_def split: prod.splits option.splits)
    ultimately show ?thesis by (auto simp: event_ok_def own_def)
  qed
  ultimately have "inv n ?s xs evs" using d by (simp add: inv_def batch_ok_def)
  from inv_batch(2) [OF this, of "Some evs"]
  have "inv n (?s\<lparr>sv_batch := Some evs\<rparr>) xs evs" .
  moreover have "?s\<lparr>sv_batch := Some evs\<rparr> = s\<lparr>sv_batch := Some evs, sv_web := reported evs (sv_web s)\<rparr>"
    by (cases s) simp
  ultimately show ?thesis by metis
qed

lemma inv_busy:
  assumes "inv n s xs evs" and "\<forall>i\<in>set b. client_ok s i"
  shows "inv n (s\<lparr>sv_busy := b\<rparr>) xs evs"
  using assms by (simp add: inv_defs timer_of_def [abs_def])

lemma take_request_inv:
  assumes i: "inv n s xs evs" and r: "take_request s = Inr s'"
  shows "inv n s' xs evs"
proof -
  have q: "tp_ok (sv_pool s)" "\<forall>i. Some i \<in> set (m_workqueue (sv_pool s)) \<longrightarrow> client_ok s i"
    "\<forall>i\<in>set (sv_busy s). client_ok s i" using i by (simp_all add: inv_def queue_ok_def)
  obtain x p where p: "wait_and_take (sv_pool s) = Inr (x, p)"
    using r by (auto simp: take_request_def bindr_eq_Inr)
  from p have "tp_ok p \<and> (\<exists>y. x = Some y \<and> m_workqueue (sv_pool s) = y # m_workqueue p)"
    using q(1) by (cases "m_workqueue (sv_pool s)")
      (auto simp: wait_and_take_def take_locked_def tp_ok_def sem_wait_def bindr_eq_Inr)
  then obtain y where y: "tp_ok p" "x = Some y" "m_workqueue (sv_pool s) = y # m_workqueue p" by blast
  have s': "s' = (case y of None \<Rightarrow> s\<lparr>sv_pool := p\<rparr> | Some i \<Rightarrow> s\<lparr>sv_pool := p, sv_busy := sv_busy s @ [i]\<rparr>)"
    using r p y(2) by (cases y) (simp_all add: take_request_def)
  have "inv n (s\<lparr>sv_pool := p\<rparr>) xs evs"
    using i y(1,3) by (simp add: inv_defs timer_of_def [abs_def])
  moreover have "client_ok (s\<lparr>sv_pool := p\<rparr>) = client_ok s" by (simp add: client_ok_def own_def fun_eq_iff)
  ultimately show ?thesis
    using inv_busy [of n "s\<lparr>sv_pool := p\<rparr>" xs evs "sv_busy s @ [the y]"] s' y q(2,3) by (cases y) auto
qed

lemma run_request_inv:
  assumes i: "inv n s xs evs" and c: "client_ok s i" and r: "run_request e i s = Inr s'"
  shows "inv (n + (if m_sockfd (sv_conns s i) \<noteq> -1 \<and> m_sockfd (sv_conns s' i) = -1 then 1 else 0)) s' xs evs"
proof -
  obtain con p c' w p' where p: "process e ((sv_conns s i)\<lparr>mysql := con\<rparr>) (sv_web s) = Inr (c', w)"
    "s' = s\<lparr>sv_conns := (sv_conns s)(i := c'), sv_web := w, sv_dbs := p'\<rparr>"
    using r by (auto simp: run_request_def connectionRAII_def bindr_eq_Inr)
  have h: "timers_held (sv_timers s) xs" "\<forall>x\<in>set xs. timer_ok s x"
    "m_user_count (sv_web s) = int (length xs) - int n" "queue_ok s" "open_guarded s xs"
    using i by (simp_all add: inv_def timers_ok_def)
  let ?c = "(sv_conns s i)\<lparr>mysql := con\<rparr>"
  have sock: "m_sockfd (sv_conns s i) \<in> {-1, int i}" and o: "i \<notin> own s" using c by (simp_all add: client_ok_def)
  from process_net [OF p(1)] have k: "m_sockfd c' \<in> {-1, m_sockfd (sv_conns s i)}"
    by (auto simp: keeps_socket_def gives_up_def)
  have s: "timer_of s' = timer_of s" "sv_web s' = w" "same_fds s s'" "sv_timers s' = sv_timers s"
    by (auto simp: p(2) timer_of_def same_fds_def fun_eq_iff)
  have cl: "client_ok s' j" if "client_ok s j" for j
    using that k sock by (auto simp: client_ok_def p(2) own_def)
  have q: "queue_ok s'" using h(4) cl by (auto simp: queue_ok_def p(2))
  have t: "\<forall>x\<in>set xs. timer_ok s' x" using h(2) cl by (auto simp: timer_ok_def p(2))
  note k2 = process_net [OF p(1), unfolded keeps_socket_def gives_up_def, simplified]
  show ?thesis
  proof (rule inv_change [OF i s(3)])
    show "guarded (timer_of s') xs x" if "wb_flags (sv_web s') (int x) \<noteq> None" "x \<notin> own s" for x
      using that k2 h(5) s(1,2) by (auto simp: open_guarded_def split: if_splits)
    show "wb_flags (sv_web s') (int x) \<noteq> None" if "x \<in> own s" "wb_flags (sv_web s) (int x) \<noteq> None" for x
      using that k2 sock o s(2) by auto
    show "wb_interest (sv_web s') (int x) = wb_interest (sv_web s) (int x)" if "x \<in> own s" for x
    proof -
      have "int x \<noteq> m_sockfd (sv_conns s i)" using that sock o by auto
      then show ?thesis using k2 s(2) by (auto simp: others_kept_def)
    qed
    show "m_user_count (sv_web s') = int (length xs)
        - int (n + (if m_sockfd (sv_conns s i) \<noteq> -1 \<and> m_sockfd (sv_conns s' i) = -1 then 1 else 0))"
      using k2 h(3) by (auto simp: p(2))
  qed (use h s q t in simp_all)
qed

subsection \<open>Every step\<close>

text \<open>How many connections a step makes a worker close: one or none.\<close>

definition closings :: "main_step \<Rightarrow> server \<Rightarrow> server \<Rightarrow> nat" where
  "closings st s s' =
     (case st of
        Work k \<Rightarrow> (let i = sv_busy s ! k in
          if m_sockfd (sv_conns s i) \<noteq> -1 \<and> m_sockfd (sv_conns s' i) = -1 then 1 else 0)
      | _ \<Rightarrow> 0)"

inductive served :: "env \<Rightarrow> server \<Rightarrow> nat \<Rightarrow> server \<Rightarrow> bool" for e where
  started: "served e s 0 s"
| step: "served e s n t \<Longrightarrow> server_step e st t = Inr u \<Longrightarrow> served e s (n + closings st t u) u"

lemma server_step_ok:
  assumes ok: "server_ok n s xs" and r: "server_step e st s = Inr s'" and run: "\<not> sv_over s'"
  shows "\<exists>xs'. server_ok (n + closings st s s') s' xs'"
proof -
  have o: "\<not> sv_over s" using r by (auto simp: server_step_def)
  show ?thesis
  proof (cases st)
    case (Signal sig)
    then have "s' = sig_handler sig (s\<lparr>sv_alarm := (if sig = SIGALRM then False else sv_alarm s)\<rparr>)"
      using r o by (auto simp: server_step_def split: if_splits)
    then have "server_ok n s' xs"
      using ok inv_fields [of n s xs _ s'] by (auto simp: server_ok_def same_fds_def sig_handler_def)
    then show ?thesis using Signal by (auto simp: closings_def)
  next
    case (Wait evs)
    then have "s' = s\<lparr>sv_batch := Some evs, sv_web := reported evs (sv_web s)\<rparr>" "sv_batch s = None"
      "distinct (map fst evs)" "list_all (reportable s) evs"
      using r o by (auto simp: server_step_def split: if_splits)
    then show ?thesis using reported_inv [of n s xs evs] ok Wait by (auto simp: server_ok_def closings_def)
  next
    case (Wait_failed err)
    then show ?thesis using r o run by (auto simp: server_step_def server_end_def Let_def bindr_eq_Inr split: if_splits)
  next
    case (Handle an)
    then obtain ev evs where b: "sv_batch s = Some (ev # evs)" "answers_ok an s"
      "handle_event3 e ev an (s\<lparr>sv_batch := Some evs, sv_now := an_time an\<rparr>) = Inr s'"
      using r o by (auto simp: server_step_def split: option.splits list.splits if_splits)
    let ?s = "s\<lparr>sv_batch := Some evs, sv_now := an_time an\<rparr>"
    have "inv n (s\<lparr>sv_batch := Some evs\<rparr>) xs (ev # evs)" using ok b(1) inv_batch(2) by (simp add: server_ok_def)
    then have i: "inv n ?s xs (ev # evs)" using inv_now [of n "s\<lparr>sv_batch := Some evs\<rparr>"] b(2) by (simp add: answers_ok_def)
    have "answers_ok an ?s" using b(2) by (simp add: answers_ok_def split: accept_ans.splits)
    from handle_event3_inv [OF i this _ b(3)] show ?thesis using Handle by (auto simp: server_ok_def closings_def)
  next
    case (Round_end cur)
    then obtain t where t: "sv_batch s = Some []" "sv_now s \<le> cur"
      "(if sv_timeout s then timer_handler e cur (s\<lparr>sv_now := cur\<rparr>) else Inr (s\<lparr>sv_now := cur\<rparr>)) = Inr t"
      "s' = t\<lparr>sv_timeout := False, sv_batch := None\<rparr>"
      using r o by (auto simp: server_step_def bindr_eq_Inr Let_def split: if_splits)
    have i: "inv n (s\<lparr>sv_now := cur\<rparr>) xs []" using ok t(1,2) inv_now by (simp add: server_ok_def)
    then have "\<exists>xs'. inv n t xs' []" using timer_handler_inv t(3) by (auto split: if_splits)
    then show ?thesis using t(4) inv_batch(3) Round_end by (fastforce simp: server_ok_def closings_def)
  next
    case Take
    then have t: "take_request s = Inr s'" using r o by (simp add: server_step_def)
    obtain x q where "wait_and_take (sv_pool s) = Inr (x, q)"
      using t by (auto simp: take_request_def bindr_eq_Inr)
    then have "sv_batch s' = sv_batch s" using t by (cases x; cases "the x") (auto simp: take_request_def)
    with take_request_inv [OF _ t] ok show ?thesis using Take by (auto simp: server_ok_def closings_def)
  next
    case (Work k)
    let ?i = "sv_busy s ! k" and ?b = "take k (sv_busy s) @ drop (Suc k) (sv_busy s)"
    have k: "k < length (sv_busy s)" "run_request e ?i (s\<lparr>sv_busy := ?b\<rparr>) = Inr s'"
      using r o Work by (auto simp: server_step_def split: if_splits)
    have q: "\<forall>i\<in>set (sv_busy s). client_ok s i" using ok by (simp add: server_ok_def inv_def queue_ok_def)
    then have "\<forall>i\<in>set ?b. client_ok s i" by (auto dest: in_set_takeD in_set_dropD)
    then have i: "inv n (s\<lparr>sv_busy := ?b\<rparr>) xs (case sv_batch s of None \<Rightarrow> [] | Some evs \<Rightarrow> evs)"
      using ok inv_busy by (simp add: server_ok_def)
    have c: "client_ok (s\<lparr>sv_busy := ?b\<rparr>) ?i" using q k(1) by (simp add: client_ok_def own_def)
    have "sv_batch s' = sv_batch s" using k(2) by (auto simp: run_request_def bindr_eq_Inr)
    moreover have "closings st s s' = (if m_sockfd (sv_conns s ?i) \<noteq> -1 \<and> m_sockfd (sv_conns s' ?i) = -1 then 1 else 0)"
      unfolding Work closings_def by (simp add: Let_def)
    ultimately have "server_ok (n + closings st s s') s' xs"
      using run_request_inv [OF i c k(2)] by (simp only: server_ok_def) simp
    then show ?thesis by blast
  next
    case Stop
    then show ?thesis using r o run by (auto simp: server_step_def server_end_def Let_def split: if_splits)
  qed
qed

lemma over_stays: "server_step e st s = Inr s' \<Longrightarrow> \<not> sv_over s"
  by (auto simp: server_step_def)

lemma served_ok:
  assumes "served e s0 n s" and "server_ok 0 s0 xs0" and "\<not> sv_over s"
  shows "\<exists>xs. server_ok n s xs"
  using assms
proof (induction rule: served.induct)
  case (step s n t st u)
  have "\<not> sv_over t" using step.hyps(2) by (rule over_stays)
  with step.IH step.prems(1) obtain xs where "server_ok n t xs" by blast
  from server_step_ok [OF this step.hyps(2) step.prems(2)] show ?case .
qed blast

end
