(* ===== verification/V3_MainStart.thy ===== *)
theory V3_MainStart
  imports V3_MainRun V3_HttpChunk
begin

section \<open>version\_03: from the start\<close>

text \<open>
  The state in which \<open>main\<close> enters its loop satisfies the invariant, and so does every state
  after it.
\<close>

subsection \<open>Up to the loop\<close>

text \<open>The descriptors the kernel gives are new ones.\<close>

definition boot_ok :: "boot \<Rightarrow> bool" where
  "boot_ok bt =
     (bt_epoll bt \<ge> -1
      \<and> (case bt_pair bt of None \<Rightarrow> True
         | Some (p0, p1) \<Rightarrow> distinct [nat (bt_socket bt), nat (bt_epoll bt), p0, p1]))"

lemma load_users_net: "load_users rows w = Inr w' \<Longrightarrow> net w' = net w"
  by (induction rows w rule: load_users.induct) auto

lemma initmysql_result_net: "initmysql_result e err stored p w = Inr (p', w') \<Longrightarrow> net w' = net w"
  by (auto simp: initmysql_result_def Let_def bindr_eq_Inr split: if_splits option.splits
      dest!: load_users_net write_log_now_net)

lemma threadpool_new_ok: "threadpool_new create detach k m = Inr q \<Longrightarrow> tp_ok q \<and> m_workqueue q = []"
  by (auto simp: threadpool_new_def tp_ok_def bindr_eq_Inr split: if_splits)

lemma listen_and_poll_ok:
  assumes "listen_and_poll bt port hs q p w = Inr (Serving s)" and b: "boot_ok bt"
    and n: "net w = net (empty_web lg)" and q: "tp_ok q \<and> m_workqueue q = []"
  shows "server_ok 0 s []" "sv_alarm s" "sv_handlers s SIGALRM = Some Sig_handler"
proof -
  obtain p0 p1 where pr: "bt_pair bt = Some (p0, p1)" and v: "bt_socket bt \<ge> 0" "bt_epoll bt \<noteq> -1"
    using assms(1) by (auto simp: listen_and_poll_def check_def Let_def split: if_splits option.splits)
  have e: "bt_epoll bt \<ge> 0" using b v by (simp add: boot_ok_def)
  obtain l where l: "bt_socket bt = int l" using v(1) nonneg_int_cases by blast
  obtain ep where ep: "bt_epoll bt = int ep" using e nonneg_int_cases by blast
  have d: "l \<noteq> ep" "l \<noteq> p0" "l \<noteq> p1" "ep \<noteq> p0" "ep \<noteq> p1" "p0 \<noteq> p1"
    using b pr l ep by (auto simp: boot_ok_def)
  have w: "wb_flags w = (\<lambda>_. None)" "wb_interest w = (\<lambda>_. None)" "m_user_count w = 0"
    using n by (auto simp: net_def empty_web_def)
  let ?w = "addfd (int p0) False (setnonblocking (int p1) (open_fd (int p1) (open_fd (int p0)
    (addfd (int l) False (open_fd (int ep) (open_fd (int l) w))))))"
  obtain hs' where s: "sv_web s = ?w" "sv_listenfd s = l" "sv_epollfd s = ep" "sv_pipefd0 s = p0" "sv_pipefd1 s = p1"
    "sv_timers s = \<lparr>tl_heap = \<lambda>_. None, tl_head = None, tl_tail = None\<rparr>" "sv_pool s = q" "sv_busy s = []"
    "sv_batch s = None" "sv_alarm s" "sv_handlers s = hs'" "hs' SIGALRM = Some Sig_handler"
    using assms(1) v e pr l ep
    by (auto simp: listen_and_poll_def check_def Let_def addsig_def bindr_eq_Inr SIGALRM_def SIGTERM_def split: if_splits)
  have f: "wb_flags ?w (int x) \<noteq> None \<longleftrightarrow> x \<in> {l, ep, p0, p1}" for x
    using d by (auto simp: addfd_def setnonblocking_def open_fd_def w Let_def split: option.splits)
  have i: "wb_interest ?w (int l) = Some (or EV_IN EV_RDHUP)" "wb_interest ?w (int p0) = Some (or EV_IN EV_RDHUP)"
    "wb_interest ?w (int ep) = None" "wb_interest ?w (int p1) = None" "m_user_count ?w = 0"
    using d by (auto simp: addfd_def setnonblocking_def open_fd_def w Let_def split: option.splits)
  have t: "timers_held (sv_timers s) []" by (simp add: s timers_held_def timers_in_def)
  have o: "own s = {l, ep, p0, p1}" by (simp add: own_def s)
  have "own_ok s"
    unfolding own_ok_def o using d f i by (simp only: s) auto
  moreover have "open_guarded s []" unfolding open_guarded_def o using f by (simp only: s) auto
  moreover have "queue_ok s" using q by (simp add: queue_ok_def s)
  ultimately show "server_ok 0 s []"
    using t i(5) by (simp add: server_ok_def inv_def timers_ok_def batch_ok_def s)
  show "sv_alarm s" "sv_handlers s SIGALRM = Some Sig_handler" using s(10-12) by auto
qed

lemma main3_ok:
  assumes "main3 e bt = Inr (Serving s)" and "boot_ok bt"
  shows "server_ok 0 s []" "sv_alarm s" "sv_handlers s SIGALRM = Some Sig_handler"
proof -
  obtain lg port hs p q p' w where m: "threadpool_new (bt_create bt) (bt_detach bt) 8 10000 = Inr q"
    "initmysql_result e (bt_mysql_error bt) (bt_rows bt) p (empty_web lg) = Inr (p', w)"
    "listen_and_poll bt port hs q p' w = Inr (Serving s)"
    using assms(1)
    by (cases "threadpool_new (bt_create bt) (bt_detach bt) 8 10000")
      (auto simp: main3_def bindr_eq_Inr split: if_splits)
  from listen_and_poll_ok [OF m(3) assms(2) initmysql_result_net [OF m(2)] threadpool_new_ok [OF m(1)]]
  show "server_ok 0 s []" "sv_alarm s" "sv_handlers s SIGALRM = Some Sig_handler" .
qed

subsection \<open>Timers and connections\<close>

text \<open>
  C3. In every state the server of version\_03 can reach, in any interleaving of events,
  signals and workers: the list of timers is well formed and in order; every open socket of a
  client has a timer in it, to which \<open>users_timer\<close> points and which expires at most three slots
  after the last time that was read; every timer belongs to a connection that was accepted;
  and \<open>m_user_count\<close> is the number of timers less the number of connections that workers
  have closed, for these keep their timers.
\<close>

theorem timers_follow_connections:
  assumes "main3 e bt = Inr (Serving s0)" and "boot_ok bt" and "served e s0 n s" and "\<not> sv_over s"
  shows "\<exists>xs. timers_in (sv_timers s) xs \<and> sorted (map expire xs)
    \<and> (\<forall>fd. wb_flags (sv_web s) (int fd) \<noteq> None \<longrightarrow> fd \<notin> own s \<longrightarrow>
         (\<exists>a t. cd_timer (sv_clients s fd) = Some a \<and> (a, t, fd) \<in> set xs \<and> t \<le> sv_now s + 3 * TIMESLOT))
    \<and> (\<forall>(a, t, u)\<in>set xs. u < MAX_FD \<and> u \<notin> own s \<and> cd_sockfd (sv_clients s u) = int u)
    \<and> m_user_count (sv_web s) = int (length xs) - int n"
proof -
  obtain xs where "inv n s xs (case sv_batch s of None \<Rightarrow> [] | Some evs \<Rightarrow> evs)"
    using served_ok [OF assms(3) main3_ok(1) [OF assms(1,2)] assms(4)] by (auto simp: server_ok_def)
  then have "timers_ok n s xs" "open_guarded s xs" by (simp_all add: inv_def)
  then show ?thesis
    by (intro exI [of _ xs])
      (fastforce simp: timers_ok_def timers_held_def timer_ok_def client_ok_def open_guarded_def guarded_def timer_of_def)
qed

subsection \<open>The start in full\<close>

lemma pool_fill_all:
  "\<forall>i\<in>set is. connect i \<noteq> None \<Longrightarrow> pool_fill connect is p = Inr (p\<lparr>
     cp_connList := cp_connList p @ map (the \<circ> connect) is, cp_FreeConn := cp_FreeConn p + of_nat (length is)\<rparr>)"
  by (induction "is" arbitrary: p) (auto simp: add.assoc)

lemma start_workers_all:
  "\<forall>i\<in>set is. create i = 0 \<and> detach i = 0 \<Longrightarrow> start_workers create detach is = Inr ()"
  by (induction "is") auto

lemma load_users_all:
  "load_users (map (\<lambda>(n, p). (Some n, Some p)) us) w = Inr (w\<lparr>users := users w ++ map_of (rev us)\<rparr>)"
proof (induction us arbitrary: w)
  case (Cons x us)
  then show ?case by (cases x) (simp add: map_add_def fun_eq_iff split: option.split)
qed simp

lemma log_of_server: "\<exists>ok lg. log_start f now ''ServerLog'' 2000 800000 0 (Log_new files) = Inr (ok, lg)
    \<and> lg_ok lg \<and> \<not> lg_is_async lg \<and> lg_log_buf_size lg = 2000 \<and> lg_count lg = 0 \<and> lg_max_lines lg = 800000
    \<and> lg_today lg = tm_mday now \<and> lg_fp lg = open_log f (take 254 (date_text now @ ''ServerLog''))"
  by (simp add: log_start_def Log_new_def Let_def lg_ok_def)

lemma addfd_frame [simp]:
  "users (addfd fd b w) = users w" "m_user_count (addfd fd b w) = m_user_count w" "wb_log (addfd fd b w) = wb_log w"
  "wb_flags (addfd fd b w) x = None \<longleftrightarrow> wb_flags w x = None"
  "users (setnonblocking fd w) = users w" "m_user_count (setnonblocking fd w) = m_user_count w"
  "wb_log (setnonblocking fd w) = wb_log w" "wb_flags (setnonblocking fd w) x = None \<longleftrightarrow> wb_flags w x = None"
  "users (open_fd fd w) = users w" "m_user_count (open_fd fd w) = m_user_count w" "wb_log (open_fd fd w) = wb_log w"
  "wb_flags (open_fd fd w) x = None \<longleftrightarrow> x \<noteq> fd \<and> wb_flags w x = None"
  by (simp_all add: addfd_def setnonblocking_def open_fd_def Let_def split: option.split)

lemma listen_and_poll_runs:
  assumes "\<forall>sig. bt_sigaction bt sig \<noteq> -1" and "0 \<le> bt_socket bt" and "0 \<le> bt_bind bt" and "0 \<le> bt_listen bt"
    and "0 \<le> bt_epoll bt" and "bt_pair bt = Some (p0, p1)"
  shows "\<exists>s. listen_and_poll bt n hs q p w = Inr (Serving s) \<and> users (sv_web s) = users w
    \<and> m_user_count (sv_web s) = m_user_count w \<and> sv_port s = word_of_int n \<and> sv_pool s = q \<and> sv_dbs s = p
    \<and> wb_flags (sv_web s) (bt_socket bt) \<noteq> None \<and> wb_log (sv_web s) = wb_log w"
  using assms unfolding listen_and_poll_def check_def Let_def addsig_def by (simp del: not_None_eq)

definition one_day :: "env \<Rightarrow> bool" where
  "one_day e = (\<forall>i. real_time (en_now e i) \<and> tm_mday (en_now e i) = tm_mday (en_now e 0))"

text \<open>
  C37. When the system grants what \<open>main\<close> asks for, the server of version\_03 starts: it listens
  on the port of its first argument (modulo 65536), with eight workers, eight connections to the
  database, no client, the users of the table in memory (the last of two rows with one name
  counts), and a log that takes the next 799999 lines of the day.
\<close>

theorem main_starts:
  assumes "bt_argv bt = prog # port # args" and "atoi port = Inr n" and "\<forall>sig. bt_sigaction bt sig \<noteq> -1"
    and pool: "\<forall>i<8. bt_connect bt i \<noteq> None \<and> bt_create bt i = 0 \<and> bt_detach bt i = 0"
    and "mysql_query e (bt_connect bt 0) ''SELECT username,passwd FROM user'' = Inr 0"
    and "bt_rows bt = Some (map (\<lambda>(n, p). (Some n, Some p)) us)"
    and "0 \<le> bt_socket bt" and "0 \<le> bt_bind bt" and "0 \<le> bt_listen bt" and "0 \<le> bt_epoll bt"
    and "bt_pair bt = Some (p0, p1)"
    and "one_day e" and "en_fopen e (date_text (en_now e 0) @ ''ServerLog'')"
  shows "\<exists>s. main3 e bt = Inr (Serving s) \<and> users (sv_web s) = map_of (rev us) \<and> m_user_count (sv_web s) = 0
    \<and> sv_port s = word_of_int n \<and> m_thread_number (sv_pool s) = 8
    \<and> cp_connList (sv_dbs s) = map (the \<circ> bt_connect bt) ([1..<8] @ [0])
    \<and> wb_flags (sv_web s) (bt_socket bt) \<noteq> None \<and> log_ready e (sv_web s) 799999"
proof -
  obtain ok lg where lg: "log_start (en_fopen e) (en_now e 0) ''ServerLog'' 2000 800000 0 (Log_new (bt_files bt)) = Inr (ok, lg)"
    "lg_ok lg" "\<not> lg_is_async lg" "lg_log_buf_size lg = 2000" "lg_count lg = 0" "lg_max_lines lg = 800000"
    "lg_today lg = tm_mday (en_now e 0)" "lg_fp lg = open_log (en_fopen e) (take 254 (date_text (en_now e 0) @ ''ServerLog''))"
    using log_of_server by blast
  have len: "length (date_text (en_now e 0)) \<le> 11" using length_date_text assms(12) by (simp add: one_day_def)
  have fp: "lg_fp lg \<noteq> None" using lg(8) len assms(13) by (simp add: open_log_def)
  have eight: "[0..<8] = 0 # [1..<8]" by (simp add: upt_conv_Cons)
  define cs where "cs = map (the \<circ> bt_connect bt) [0..<8]"
  define p where "p = \<lparr>cp_MaxConn = 8, cp_CurConn = 0, cp_FreeConn = 8, cp_lock = False, cp_connList = cs, cp_reserve = 8\<rparr>"
  have 1: "pool_init (bt_connect bt) 8 connection_pool_new = Inr p"
    using pool by (simp add: pool_init_def connection_pool_new_def pool_fill_all Let_def p_def cs_def)
  obtain q where 2: "threadpool_new (bt_create bt) (bt_detach bt) 8 10000 = Inr q" "m_thread_number q = 8"
    using pool by (simp add: threadpool_new_def start_workers_all)
  obtain con where con: "bt_connect bt 0 = Some con" using pool by fastforce
  then have cs: "cs = con # map (the \<circ> bt_connect bt) [1..<8]" by (simp add: cs_def eight)
  obtain p' where g: "GetConnection p = Inr (Some con, p')" "cp_connList p' = map (the \<circ> bt_connect bt) [1..<8]"
    "\<not> cp_lock p'"
    by (simp add: GetConnection_def p_def cs pool_take_def sem_wait_def split: nat.split)
  let ?w0 = "(empty_web lg)\<lparr>wb_queries := [''SELECT username,passwd FROM user'']\<rparr>"
  let ?w = "?w0\<lparr>users := users ?w0 ++ map_of (rev us)\<rparr>"
  obtain p'' where 3: "initmysql_result e (bt_mysql_error bt) (bt_rows bt) p (empty_web lg) = Inr (p'', ?w)"
    "cp_connList p'' = map (the \<circ> bt_connect bt) ([1..<8] @ [0])"
    using g assms(5,6) con
    by (simp add: initmysql_result_def Let_def load_users_all connectionRAII_end_def ReleaseConnection_def
        pool_put_def empty_web_def)
  obtain s where 4: "listen_and_poll bt n ((\<lambda>_. None)(SIGPIPE \<mapsto> SIG_IGN)) q p'' ?w = Inr (Serving s)"
    "users (sv_web s) = users ?w" "m_user_count (sv_web s) = m_user_count ?w" "sv_port s = word_of_int n"
    "sv_pool s = q" "sv_dbs s = p''" "wb_flags (sv_web s) (bt_socket bt) \<noteq> None" "wb_log (sv_web s) = wb_log ?w"
    using listen_and_poll_runs [OF assms(3,7-11)] by blast
  have w: "users ?w = map_of (rev us)" "m_user_count ?w = 0" "wb_log ?w = lg" by (simp_all add: empty_web_def)
  have "main3 e bt = Inr (Serving s)"
    using lg(1) assms(1-3) 1 2(1) 3(1) 4(1) by (simp add: main3_def addsig_def)
  moreover have "log_ready e (sv_web s) 799999"
    using lg fp assms(12) 4(8) [unfolded w(3)] by (auto simp: log_ready_def one_day_def Let_def)
  ultimately show ?thesis using 2(2) 3(2) 4(2-7) w(1,2) by metis
qed

subsection \<open>A small server\<close>

definition site_boot :: boot where
  "site_boot = \<lparr>bt_argv = [''server'', ''9006''], bt_files = \<lambda>_. [], bt_sigaction = \<lambda>_. 0, bt_connect = Some,
     bt_create = \<lambda>_. 0, bt_detach = \<lambda>_. 0, bt_mysql_error = [], bt_rows = Some [(Some ''ann'', Some ''pw'')],
     bt_socket = 3, bt_bind = 0, bt_listen = 0, bt_epoll = 4, bt_pair = Some (5, 6), bt_now = 100,
     bt_conns = \<lambda>_. idle_conn, bt_clients = \<lambda>_. \<lparr>cd_address = [], cd_sockfd = 0, cd_timer = None\<rparr>\<rparr>"

lemma port_9006: "atoi ''9006'' = Inr 9006"
  by code_simp

lemma site_one_day: "one_day site_env"
  by (simp add: one_day_def site_env_def real_time_def may_10_def)

lemma site_boot_simps:
  "bt_argv site_boot = [''server'', ''9006'']" "bt_files site_boot = (\<lambda>_. [])" "bt_sigaction site_boot = (\<lambda>_. 0)"
  "bt_connect site_boot = Some" "bt_create site_boot = (\<lambda>_. 0)" "bt_detach site_boot = (\<lambda>_. 0)"
  "bt_mysql_error site_boot = []" "bt_rows site_boot = Some [(Some ''ann'', Some ''pw'')]"
  "bt_socket site_boot = 3" "bt_bind site_boot = 0" "bt_listen site_boot = 0" "bt_epoll site_boot = 4"
  "bt_pair site_boot = Some (5, 6)" "bt_now site_boot = 100" "bt_conns site_boot = (\<lambda>_. idle_conn)"
  "bt_clients site_boot = (\<lambda>_. \<lparr>cd_address = [], cd_sockfd = 0, cd_timer = None\<rparr>)"
  "en_now site_env = (\<lambda>_. may_10)" "en_fopen site_env = (\<lambda>_. True)" "en_query site_env = (\<lambda>_ _. 0)"
  by (simp_all add: site_boot_def site_env_def)

lemma main_starts_witness:
  "\<exists>s. main3 site_env site_boot = Inr (Serving s) \<and> users (sv_web s) = [''ann'' \<mapsto> ''pw'']
    \<and> log_ready site_env (sv_web s) 799999"
proof -
  have "\<exists>s. main3 site_env site_boot = Inr (Serving s) \<and> users (sv_web s) = map_of (rev [(''ann'', ''pw'')])
      \<and> m_user_count (sv_web s) = 0 \<and> sv_port s = word_of_int 9006 \<and> m_thread_number (sv_pool s) = 8
      \<and> cp_connList (sv_dbs s) = map (the \<circ> bt_connect site_boot) ([1..<8] @ [0])
      \<and> wb_flags (sv_web s) (bt_socket site_boot) \<noteq> None \<and> log_ready site_env (sv_web s) 799999"
    by (rule main_starts [of site_boot "''server''" "''9006''" "[]"])
      (simp_all add: site_boot_simps port_9006 site_one_day mysql_query_def)
  then show ?thesis by auto
qed

text \<open>The state in which this server enters its loop.\<close>

definition site_server :: server where
  "site_server =
     \<lparr>sv_web = \<lparr>wb_flags = (\<lambda>_. None)(3 \<mapsto> 2050, 4 \<mapsto> 2, 5 \<mapsto> 2050, 6 \<mapsto> 2050),
        wb_interest = (\<lambda>_. None)(3 \<mapsto> or EV_IN EV_RDHUP, 5 \<mapsto> or EV_IN EV_RDHUP), wb_sent = \<lambda>_. [],
        m_user_count = 0, users = [''ann'' \<mapsto> ''pw''], m_lock = False,
        wb_queries = [''SELECT username,passwd FROM user''], wb_log = log_at_may_10, wb_clock = 1\<rparr>,
      sv_conns = \<lambda>_. idle_conn, sv_clients = \<lambda>_. \<lparr>cd_address = [], cd_sockfd = 0, cd_timer = None\<rparr>,
      sv_timers = \<lparr>tl_heap = \<lambda>_. None, tl_head = None, tl_tail = None\<rparr>,
      sv_pool = \<lparr>m_thread_number = 8, m_max_requests = 10000, m_workqueue = [], m_queuelocker = False,
        m_queuestat = 0, m_stop = False\<rparr>,
      sv_dbs = \<lparr>cp_MaxConn = 8, cp_CurConn = 0, cp_FreeConn = 8, cp_lock = False,
        cp_connList = [1, 2, 3, 4, 5, 6, 7, 0], cp_reserve = 8\<rparr>,
      sv_busy = [], sv_listenfd = 3, sv_epollfd = 4, sv_pipefd0 = 5, sv_pipefd1 = 6, sv_port = 9006,
      sv_handlers = [SIGPIPE \<mapsto> SIG_IGN, SIGALRM \<mapsto> Sig_handler, SIGTERM \<mapsto> Sig_handler], sv_pipe = [],
      sv_alarm = True, sv_now = 100, sv_timeout = False, sv_stop = False, sv_batch = None, sv_over = False\<rparr>"

lemma site_pool:
  "pool_init Some 8 connection_pool_new = Inr \<lparr>cp_MaxConn = 8, cp_CurConn = 0, cp_FreeConn = 8, cp_lock = False,
     cp_connList = [0, 1, 2, 3, 4, 5, 6, 7], cp_reserve = 8\<rparr>"
  by (simp add: pool_init_def connection_pool_new_def pool_fill_all Let_def upt_conv_Cons)

lemma site_users: "initmysql_result site_env [] (Some [(Some ''ann'', Some ''pw'')])
    \<lparr>cp_MaxConn = 8, cp_CurConn = 0, cp_FreeConn = 8, cp_lock = False,
     cp_connList = [0, 1, 2, 3, 4, 5, 6, 7], cp_reserve = 8\<rparr> (empty_web log_at_may_10)
  = Inr (sv_dbs site_server, (empty_web log_at_may_10)
     \<lparr>wb_queries := [''SELECT username,passwd FROM user''], users := [''ann'' \<mapsto> ''pw'']\<rparr>)"
  by (simp add: initmysql_result_def GetConnection_def pool_take_def sem_wait_def Let_def site_boot_simps
      connectionRAII_end_def ReleaseConnection_def pool_put_def sem_post_def site_server_def empty_web_def
      numeral_eq_Suc mysql_query_def)

lemma site_listens: "listen_and_poll site_boot 9006 [SIGPIPE \<mapsto> SIG_IGN] (sv_pool site_server) (sv_dbs site_server)
    ((empty_web log_at_may_10)\<lparr>wb_queries := [''SELECT username,passwd FROM user''], users := [''ann'' \<mapsto> ''pw'']\<rparr>)
  = Inr (Serving site_server)"
  by (simp add: listen_and_poll_def check_def Let_def addsig_def site_boot_simps addfd_def setnonblocking_def open_fd_def
      empty_web_def site_server_def NONBLOCK_def EV_ONESHOT_def fun_eq_iff)

lemma site_main: "main3 site_env site_boot = Inr (Serving site_server)"
proof -
  have "threadpool_new (\<lambda>_. 0) (\<lambda>_. 0) 8 10000 = Inr (sv_pool site_server)"
    by (simp add: threadpool_new_def start_workers_all site_server_def)
  then show ?thesis
    using site_pool site_users site_listens log_at_may_10_start
    by (simp add: main3_def site_boot_simps port_9006 addsig_def)
qed

lemma site_log_ready: "k < 800000 \<Longrightarrow> log_ready site_env (sv_web site_server) k"
  using log_start_sync [OF log_at_may_10_start]
  by (auto simp: log_ready_def site_boot_simps site_server_def real_time_def may_10_def)

lemma site_boot_ok: "boot_ok site_boot"
  by (simp add: boot_ok_def site_boot_simps)

text \<open>A client is accepted as descriptor 7, at time 100, with the timer at address 1.\<close>

definition site_accept :: answers where
  "site_accept = \<lparr>an_accept = Accepted 7 ''10.0.0.1'', an_recv = None, an_writev = [], an_time = 100, an_new = 1\<rparr>"

definition site_conn7 :: http_conn where
  "site_conn7 = http_init0 (idle_conn\<lparr>m_sockfd := 7, m_address := ''10.0.0.1''\<rparr>)"

definition site_accepted :: server where
  "site_accepted = site_server
     \<lparr>sv_web := (sv_web site_server)\<lparr>wb_flags := (wb_flags (sv_web site_server))(7 \<mapsto> 2050),
        wb_interest := (wb_interest (sv_web site_server))(7 \<mapsto> or (or EV_IN EV_RDHUP) EV_ONESHOT),
        m_user_count := 1\<rparr>,
      sv_conns := (\<lambda>_. idle_conn)(7 := site_conn7),
      sv_clients := (sv_clients site_server)(7 := \<lparr>cd_address = ''10.0.0.1'', cd_sockfd = 7, cd_timer = Some 1\<rparr>),
      sv_timers := \<lparr>tl_heap = [1 \<mapsto> \<lparr>ut_expire = 115, ut_user = 7, ut_prev = None, ut_next = None\<rparr>],
        tl_head = Some 1, tl_tail = Some 1\<rparr>,
      sv_batch := Some []\<rparr>"

lemma site_steps:
  "server_step site_env (Wait [(3, EV_IN)]) site_server = Inr (site_server\<lparr>sv_batch := Some [(3, EV_IN)]\<rparr>)"
  "server_step site_env (Handle site_accept) (site_server\<lparr>sv_batch := Some [(3, EV_IN)]\<rparr>) = Inr site_accepted"
  by (simp add: server_step_def site_server_def reportable_def reported_def disarm_def EV_IN_def EV_OUT_def EV_RDHUP_def
      EV_ONESHOT_def EV_HUP_def EV_ERR_def MAX_EVENT_NUMBER_def,
     simp add: server_step_def handle_event3_def accept_event_def new_client_def accepted_def http_init_def addfd_def
      setnonblocking_def site_accept_def site_server_def site_accepted_def site_conn7_def answers_ok_def add_timer_def
      MAX_FD_def TIMESLOT_def NONBLOCK_def Let_def fun_eq_iff)

lemma site_served: "served site_env site_server 0 site_accepted"
proof -
  have "served site_env site_server 0 (site_server\<lparr>sv_batch := Some [(3, EV_IN)]\<rparr>)"
    using served.step [OF served.started site_steps(1)] by (simp add: closings_def)
  from served.step [OF this site_steps(2)] show ?thesis by (simp add: closings_def)
qed

lemma timers_follow_connections_witness:
  "\<exists>a t. timers_in (sv_timers site_accepted) [(a, t, 7)] \<and> cd_timer (sv_clients site_accepted 7) = Some a \<and> t \<le> 115"
proof -
  have o: "\<not> sv_over site_accepted" "own site_accepted = {3, 4, 5, 6}" "sv_now site_accepted = 100"
    "m_user_count (sv_web site_accepted) = 1" "wb_flags (sv_web site_accepted) (int 7) \<noteq> None"
    by (auto simp: site_accepted_def site_server_def own_def)
  obtain xs where xs: "timers_in (sv_timers site_accepted) xs" "length xs = 1"
    "\<forall>fd. wb_flags (sv_web site_accepted) (int fd) \<noteq> None \<longrightarrow> fd \<notin> {3, 4, 5, 6} \<longrightarrow>
       (\<exists>a t. cd_timer (sv_clients site_accepted fd) = Some a \<and> (a, t, fd) \<in> set xs \<and> t \<le> 100 + 3 * TIMESLOT)"
    using timers_follow_connections [OF site_main site_boot_ok site_served o(1)] unfolding o(2-4) by auto
  from spec [OF xs(3), of 7] o(5) obtain a t where "cd_timer (sv_clients site_accepted 7) = Some a" "(a, t, 7) \<in> set xs" "t \<le> 115"
    by (auto simp: TIMESLOT_def)
  with xs(1,2) show ?thesis by (cases xs) auto
qed

end
