(* ===== verification/V3_MainTurn.thy ===== *)
theory V3_MainTurn
  imports V3_MainStart
begin

section \<open>version\_03: what a turn of the loop does\<close>

text \<open>
  Alarms never cease, the handlers of events return when the connection's part in them does,
  and a timeout closes exactly the connections whose timers have expired.
\<close>

subsection \<open>Alarms\<close>

text \<open>An alarm is set, or its signal is in the pipe, or the loop has read it.\<close>

definition alarm_ok :: "server \<Rightarrow> bool" where
  "alarm_ok s = (sv_handlers s SIGALRM = Some Sig_handler
     \<and> (sv_alarm s \<or> word_of_int SIGALRM \<in> set (sv_pipe s) \<or> sv_timeout s))"

definition same_alarm :: "server \<Rightarrow> server \<Rightarrow> bool" where
  "same_alarm s s' = (sv_handlers s' = sv_handlers s \<and> sv_alarm s' = sv_alarm s \<and> sv_pipe s' = sv_pipe s
     \<and> sv_timeout s' = sv_timeout s)"

lemma same_alarm_ok: "same_alarm s s' \<Longrightarrow> alarm_ok s' = alarm_ok s"
  by (simp add: same_alarm_def alarm_ok_def)

lemma end_client_alarm: "end_client e fd s = Inr s' \<Longrightarrow> same_alarm s s'"
  by (auto simp: end_client_def Let_def bindr_eq_Inr same_alarm_def)

lemma extend_timer_alarm: "extend_timer e fd cur s = Inr s' \<Longrightarrow> same_alarm s s'"
  by (cases "cd_timer (sv_clients s fd)") (auto simp: extend_timer_def Let_def bindr_eq_Inr same_alarm_def)

lemma new_client_alarm: "new_client fd ip cur a s = Inr s' \<Longrightarrow> same_alarm s s'"
  by (auto simp: new_client_def Let_def bindr_eq_Inr same_alarm_def split: if_splits prod.splits)

lemma accept_event_alarm: "accept_event e an s = Inr s' \<Longrightarrow> same_alarm s s'"
  by (cases "an_accept an")
    (auto simp: accept_event_def Let_def bindr_eq_Inr split: if_splits dest!: new_client_alarm,
     auto simp: same_alarm_def)

lemma same_alarm_upd [simp]:
  "same_alarm (s\<lparr>sv_web := w\<rparr>) t = same_alarm s t" "same_alarm (s\<lparr>sv_conns := f\<rparr>) t = same_alarm s t"
  "same_alarm (s\<lparr>sv_pool := q\<rparr>) t = same_alarm s t"
  by (simp_all add: same_alarm_def)

lemma read_event_alarm: "read_event e fd an s = Inr s' \<Longrightarrow> same_alarm s s'"
  by (auto simp: read_event_def Let_def bindr_eq_Inr split: if_splits dest!: extend_timer_alarm end_client_alarm)

lemma write_event_alarm:
  assumes "write_event e fd an s = Inr s'"
  shows "same_alarm s s'"
proof -
  obtain ok c w where "http_write (an_writev an) (sv_conns s fd) (sv_web s) = Inr (Some ok, c, w)"
    using assms by (auto simp: write_event_def Let_def bindr_eq_Inr split: option.splits)
  with assms show ?thesis
    by (cases ok) (auto simp: write_event_def bindr_eq_Inr dest!: extend_timer_alarm end_client_alarm)
qed

lemma take_signals:
  "sv_timeout (fold take_signal l s) \<longleftrightarrow> sv_timeout s \<or> word_of_int SIGALRM \<in> set l"
  "sv_handlers (fold take_signal l s) = sv_handlers s" "sv_pipe (fold take_signal l s) = sv_pipe s"
  "sv_alarm (fold take_signal l s) = sv_alarm s"
  by (induction l arbitrary: s) (auto simp: take_signal_def)

lemma signal_event_alarm: "alarm_ok s \<Longrightarrow> alarm_ok (signal_event s)"
proof -
  assume "alarm_ok s"
  moreover have "set (sv_pipe s) = set (take 1024 (sv_pipe s)) \<union> set (drop 1024 (sv_pipe s))"
    by (metis append_take_drop_id set_append)
  ultimately show ?thesis by (auto simp: alarm_ok_def signal_event_def take_signals)
qed

lemma handle_event3_alarm: "handle_event3 e ev an s = Inr s' \<Longrightarrow> alarm_ok s \<Longrightarrow> alarm_ok s'"
  unfolding handle_event3_def
  by (auto split: prod.splits if_splits
      dest: accept_event_alarm end_client_alarm read_event_alarm write_event_alarm same_alarm_ok signal_event_alarm)

lemma server_step_alarm:
  assumes "server_step e st s = Inr s'" and "alarm_ok s" and "\<not> sv_over s'"
  shows "alarm_ok s'"
proof -
  have o: "\<not> sv_over s" using assms(1) by (rule over_stays)
  show ?thesis
  proof (cases st)
    case (Signal sig)
    then show ?thesis using assms o
      by (auto simp: server_step_def alarm_ok_def sig_handler_def split: if_splits)
  next
    case (Wait evs)
    then show ?thesis using assms o by (auto simp: server_step_def alarm_ok_def split: if_splits)
  next
    case (Wait_failed err)
    then show ?thesis using assms o
      by (auto simp: server_step_def server_end_def Let_def bindr_eq_Inr split: if_splits)
  next
    case (Handle an)
    then obtain ev evs where "handle_event3 e ev an (s\<lparr>sv_batch := Some evs, sv_now := an_time an\<rparr>) = Inr s'"
      using assms(1) o by (auto simp: server_step_def split: option.splits list.splits if_splits)
    from handle_event3_alarm [OF this] assms(2) show ?thesis by (simp add: alarm_ok_def)
  next
    case (Round_end cur)
    then show ?thesis using assms o
      by (auto simp: server_step_def alarm_ok_def Let_def timer_handler_def bindr_eq_Inr split: if_splits prod.splits)
  next
    case Take
    then have t: "take_request s = Inr s'" using assms o by (simp add: server_step_def)
    obtain x q where "wait_and_take (sv_pool s) = Inr (x, q)"
      using t by (auto simp: take_request_def bindr_eq_Inr)
    with t assms(2) show ?thesis by (cases x; cases "the x") (auto simp: take_request_def alarm_ok_def)
  next
    case (Work k)
    then show ?thesis using assms o
      by (auto simp: server_step_def alarm_ok_def run_request_def bindr_eq_Inr split: if_splits)
  next
    case Stop
    then show ?thesis using assms o by (auto simp: server_step_def server_end_def Let_def split: if_splits)
  qed
qed

lemma served_alarm: "served e s0 n s \<Longrightarrow> alarm_ok s0 \<Longrightarrow> \<not> sv_over s \<Longrightarrow> alarm_ok s"
proof (induction rule: served.induct)
  case (step s n t st u)
  have "\<not> sv_over t" using step.hyps(2) by (rule over_stays)
  then show ?case using server_step_alarm [OF step.hyps(2)] step.IH step.prems by blast
qed

text \<open>
  C38. The server of version\_03 goes on looking for idle connections: in every state it can
  reach while it runs, an alarm is set, or the signal of one waits in the pipe, or the loop has
  read it and calls \<open>timer_handler\<close> at the end of its turn. A set alarm can go off, and when the
  loop waits, a signal in the pipe and a connection at the listening socket can be reported.
\<close>

theorem alarms_go_on:
  assumes "main3 e bt = Inr (Serving s0)" and "boot_ok bt" and "served e s0 n s" and "\<not> sv_over s"
  shows "(sv_alarm s \<or> word_of_int SIGALRM \<in> set (sv_pipe s) \<or> sv_timeout s)
    \<and> (sv_alarm s \<longrightarrow> (\<exists>s'. server_step e (Signal SIGALRM) s = Inr s' \<and> word_of_int SIGALRM \<in> set (sv_pipe s')))
    \<and> (sv_batch s = None \<and> \<not> sv_stop s \<longrightarrow>
        (\<exists>s'. server_step e (Wait [(sv_pipefd0 s, EV_IN), (sv_listenfd s, EV_IN)]) s = Inr s'))"
proof -
  note m = main3_ok [OF assms(1,2)]
  have a: "alarm_ok s"
    using served_alarm [OF assms(3) _ assms(4)] m(2,3) by (simp add: alarm_ok_def)
  have "own_ok s" using served_ok [OF assms(3) m(1) assms(4)] by (auto simp: server_ok_def inv_def)
  then have "list_all (reportable s) [(sv_pipefd0 s, EV_IN), (sv_listenfd s, EV_IN)]"
    "sv_pipefd0 s \<noteq> sv_listenfd s"
    by (auto simp: own_ok_def own_def reportable_def EV_IN_def EV_OUT_def EV_RDHUP_def EV_HUP_def EV_ERR_def)
  then have "\<exists>s'. server_step e (Wait [(sv_pipefd0 s, EV_IN), (sv_listenfd s, EV_IN)]) s = Inr s'"
    if "sv_batch s = None" "\<not> sv_stop s"
    using that assms(4) by (simp add: server_step_def MAX_EVENT_NUMBER_def)
  moreover have "\<exists>s'. server_step e (Signal SIGALRM) s = Inr s' \<and> word_of_int SIGALRM \<in> set (sv_pipe s')" if "sv_alarm s"
    using that a assms(4) by (simp add: server_step_def alarm_ok_def sig_handler_def)
  ultimately show ?thesis using a by (simp add: alarm_ok_def)
qed

lemma alarms_go_on_witness:
  "\<exists>s'. server_step site_env (Signal SIGALRM) site_accepted = Inr s' \<and> word_of_int SIGALRM \<in> set (sv_pipe s')"
  using alarms_go_on [OF site_main site_boot_ok site_served]
  by (simp add: site_accepted_def site_server_def)

subsection \<open>Handlers return\<close>

lemma log_ready_cong: "wb_log w' = wb_log w \<Longrightarrow> log_ready e w' k = log_ready e w k"
  by (simp add: log_ready_def)

text \<open>What \<open>inet_ntoa\<close> gives.\<close>

definition in_addr :: "string \<Rightarrow> bool" where
  "in_addr a = (nul_free a \<and> length a \<le> 15)"

lemma cb_func_returns:
  assumes "log_ready e w (Suc k)" and "cd_sockfd d = int fd" and "fd < MAX_FD"
  shows "\<exists>w'. cb_func e d w = Inr w' \<and> log_ready e w' k"
proof -
  have n: "nul_free (''close fd '' @ dec_int (int fd))" "length (''close fd '' @ dec_int (int fd)) \<le> 1962"
    using assms(3) length_dec_int_le [of "int fd" 5] by (simp_all add: MAX_FD_def)
  let ?w = "close_fd3 (int fd) (w\<lparr>wb_interest := (wb_interest w)(int fd := None)\<rparr>)"
  have "log_ready e (?w\<lparr>m_user_count := m_user_count w - 1\<rparr>) (Suc k)"
    by (subst log_ready_cong [of _ w]) (simp_all add: close_fd3_def assms(1))
  from LOG_INFO_flush_ok [OF this n] show ?thesis
    by (auto simp: cb_func_def assms(2) Let_def close_fd3_def)
qed

lemma fire_all_returns:
  assumes "log_ready e w (length us + k)" and "\<forall>u\<in>set us. cd_sockfd (clients u) = int u \<and> u < MAX_FD"
  shows "\<exists>w'. fire_all e clients us w = Inr w' \<and> log_ready e w' k"
  using assms
proof (induction us arbitrary: w)
  case (Cons u us)
  obtain w1 where "cb_func e (clients u) w = Inr w1" "log_ready e w1 (length us + k)"
    using cb_func_returns [of e w "length us + k" "clients u" u] Cons.prems by auto
  with Cons.IH Cons.prems(2) show ?case by auto
qed simp

lemma end_client_returns:
  assumes i: "inv n s xs evs" and g: "guarded (timer_of s) xs fd" and l: "log_ready e (sv_web s) (Suc k)"
  shows "\<exists>s'. end_client e fd s = Inr s'"
proof -
  obtain a ex where a: "timer_of s fd = Some a" "(a, ex, fd) \<in> set xs" using g by (auto simp: guarded_def)
  have h: "timers_held (sv_timers s) xs" using i by (simp add: inv_def timers_ok_def)
  obtain q' where q': "del_timer (Some a) (sv_timers s) = Inr q'"
    using tls.guarded_cancel [OF h, of "timer_of s", OF a] by blast
  obtain tn where "ut_load (tl_heap (sv_timers s)) (Some a) = Inr tn"
    using tls.guarded_prolong [OF h, of "timer_of s", OF a order_refl] by (auto simp: prolong_timer_def bindr_eq_Inr)
  moreover obtain w where "cb_func e (sv_clients s fd) (sv_web s) = Inr w"
    using cb_func_returns [OF l inv_guarded(2,3) [OF i g]] by blast
  ultimately show ?thesis using a(1) q' by (auto simp: end_client_def timer_of_def Let_def)
qed

lemma extend_timer_returns:
  assumes i: "inv n s xs evs" and g: "guarded (timer_of s) xs fd" and l: "log_ready e (sv_web s) (Suc k)"
    and cur: "sv_now s = cur"
  shows "\<exists>s'. extend_timer e fd cur s = Inr s'"
proof -
  obtain a ex where a: "timer_of s fd = Some a" "(a, ex, fd) \<in> set xs" using g by (auto simp: guarded_def)
  have h: "timers_held (sv_timers s) xs" "timer_ok s (a, ex, fd)"
    using i a(2) by (auto simp: inv_def timers_ok_def)
  then have "ex \<le> cur + 3 * TIMESLOT" using cur by (simp add: timer_ok_def)
  from tls.guarded_prolong [OF h(1), of "timer_of s", OF a this] obtain q' where
    "prolong_timer a (cur + 3 * TIMESLOT) (sv_timers s) = Inr q'" by blast
  moreover obtain w where "LOG_INFO_flush e ''adjust timer once'' (sv_web s) = Inr w"
    using LOG_INFO_flush_ok [OF l, of "''adjust timer once''"] by auto
  ultimately show ?thesis
    using a(1) by (auto simp: extend_timer_def timer_of_def Let_def prolong_timer_def bindr_eq_Inr)
qed

lemma accept_event_returns:
  assumes i: "inv n s xs evs" and ok: "answers_ok an s" and l: "log_ready e (sv_web s) (Suc k)"
    and m: "\<And>fd ip. an_accept an = Accepted fd ip \<Longrightarrow> fd < MAX_FD"
    and err: "\<And>c. an_accept an = Accept_failed c \<Longrightarrow> 0 \<le> c \<and> c < 10000"
  shows "\<exists>s'. accept_event e an s = Inr s'"
proof (cases "an_accept an")
  case (Accept_failed c)
  have "length (dec_int c) \<le> 4" using err [OF Accept_failed] length_dec_int_le [of c 4] by simp
  then show ?thesis
    using write_log_now_ok [OF l, of "''accept error:errno is:'' @ dec_int c" 3] Accept_failed
    by (auto simp: accept_event_def)
next
  case (Accepted fd ip)
  show ?thesis
  proof (cases "m_user_count (sv_web s) \<ge> int MAX_FD")
    case True
    have "log_ready e (show_error fd ''Internal server busy'' (accepted fd (sv_web s))) (Suc k)"
      by (subst log_ready_cong [of _ "sv_web s"]) (simp_all add: show_error_def close_fd3_def accepted_def l)
    from write_log_now_ok [OF this, of "''Internal server busy''" 3] show ?thesis
      using True Accepted by (auto simp: accept_event_def accepted_def)
  next
    case False
    have "timers_held (sv_timers s) xs" using i by (simp add: inv_def timers_ok_def)
    from tls.add_law [OF this, of "an_new an" "an_time an + 3 * TIMESLOT" fd] ok Accepted
    obtain q' where "start_timer (an_new an) (an_time an + 3 * TIMESLOT) fd (sv_timers s) = Inr q'"
      by (auto simp: answers_ok_def)
    then show ?thesis
      using False Accepted m [OF Accepted]
      by (auto simp: accept_event_def accepted_def new_client_def start_timer_def Let_def split: prod.split)
  qed
qed

lemma read_once_address: "read_once ans c = Inr (r, c') \<Longrightarrow> m_address c' = m_address c"
  by (auto simp: read_once_def Let_def bindr_eq_Inr split: if_splits option.splits)

lemma write_loop_address: "write_loop as c w = Inr (r, c', w') \<Longrightarrow> m_address c' = m_address c"
proof (induction as arbitrary: c w)
  case (Cons a as)
  have u: "m_address (unmap d) = m_address d" "m_address (http_init0 d) = m_address d"
    "m_address (advance_iov k d) = m_address d" for d k
    by (simp_all add: unmap_def http_init0_def advance_iov_def Let_def split: option.split)
  obtain bs where "writev_bytes c = Inr bs" using Cons.prems by (auto simp: bindr_eq_Inr)
  with Cons.prems Cons.IH u show ?case by (cases a) (auto simp: Let_def split: if_splits)
qed simp

lemma http_write_address: "http_write as c w = Inr (r, c', w') \<Longrightarrow> m_address c' = m_address c"
  by (auto simp: http_write_def http_init0_def split: if_splits dest: write_loop_address)

lemma client_line_ok:
  assumes "log_ready e w (Suc k)" and "in_addr a" and "nul_free t" and "length t \<le> 100"
  shows "\<exists>w'. LOG_INFO_flush e (t @ a @ '')'') w = Inr w' \<and> log_ready e w' k \<and> net w' = net w"
  using LOG_INFO_flush_ok [OF assms(1), of "t @ a @ '')''"] LOG_INFO_flush_net assms(2-4) by (fastforce simp: in_addr_def)

lemma read_event_returns:
  assumes i: "inv n s xs evs" and g: "guarded (timer_of s) xs fd" and l: "log_ready e (sv_web s) 2"
    and now: "sv_now s = an_time an" and a: "in_addr (m_address (sv_conns s fd))"
    and r: "read_once (an_recv an) (sv_conns s fd) = Inr (ok, c)"
  shows "\<exists>s'. read_event e fd an s = Inr s'"
proof -
  let ?s = "s\<lparr>sv_conns := (sv_conns s)(fd := c)\<rparr>"
  have i1: "inv n ?s xs evs" by (rule inv_conn [OF i read_once_sockfd [OF r]])
  have l2: "log_ready e (sv_web s) (Suc 1)" using l by (simp add: numeral_2_eq_2)
  show ?thesis
  proof (cases ok)
    case False
    have "\<exists>s'. end_client e fd ?s = Inr s'"
      by (rule end_client_returns [OF i1, where k = 1]) (use g l2 in simp_all)
    then show ?thesis using r False by (simp add: read_event_def)
  next
    case True
    have "in_addr (m_address c)" using a read_once_address [OF r] by simp
    from client_line_ok [OF l2 this, of "''deal with the client(''"] obtain w where
      w: "LOG_INFO_flush e (''deal with the client('' @ m_address c @ '')'') (sv_web s) = Inr w"
        "log_ready e w (Suc 0)" "net w = net (sv_web s)" by auto
    have i2: "inv n (?s\<lparr>sv_web := w\<rparr>) xs evs" using inv_web [OF i1, of w] w(3) by simp
    have t: "tp_ok (sv_pool s)" using i by (simp add: inv_def queue_ok_def)
    obtain b q where q: "append_request (Some fd) (sv_pool s) = Inr (b, q)"
      using tp.enq_room [OF t, of "Some fd"] tp.enq_full [OF t, of "Some fd"] by (cases "tp_room (sv_pool s)") auto
    have "client_ok (?s\<lparr>sv_web := w\<rparr>) fd" using inv_guarded(1) [OF i2] g by simp
    then have i3: "inv n (?s\<lparr>sv_web := w, sv_pool := q\<rparr>) xs evs" using inv_pool [OF i2] q by simp
    have "\<exists>s'. extend_timer e fd (an_time an) (?s\<lparr>sv_web := w, sv_pool := q\<rparr>) = Inr s'"
      by (rule extend_timer_returns [OF i3, where k = 0]) (use g w(2) now in simp_all)
    then show ?thesis using r True w(1) q by (simp add: read_event_def)
  qed
qed

lemma write_event_returns:
  assumes i: "inv n s xs evs" and g: "guarded (timer_of s) xs fd" and l: "log_ready e (sv_web s) 2"
    and now: "sv_now s = an_time an" and a: "in_addr (m_address (sv_conns s fd))"
    and r: "http_write (an_writev an) (sv_conns s fd) (sv_web s) = Inr (Some ok, c, w)"
  shows "\<exists>s'. write_event e fd an s = Inr s'"
proof -
  let ?s = "s\<lparr>sv_conns := (sv_conns s)(fd := c), sv_web := w\<rparr>"
  have i2: "inv n ?s xs evs"
    using write_conn_inv [OF i g r] .
  have "wb_log w = wb_log (sv_web s)" using http_write_log [OF r] .
  then have l2: "log_ready e w (Suc 1)" using l log_ready_cong [of w "sv_web s" e 2] by (simp add: numeral_2_eq_2)
  show ?thesis
  proof (cases ok)
    case False
    have "\<exists>s'. end_client e fd ?s = Inr s'"
      by (rule end_client_returns [OF i2, where k = 1]) (use g l2 in simp_all)
    then show ?thesis using r False by (simp add: write_event_def Let_def)
  next
    case True
    have "in_addr (m_address c)" using a http_write_address [OF r] by simp
    from client_line_ok [OF l2 this, of "''send data to the client(''"] obtain v where
      v: "LOG_INFO_flush e (''send data to the client('' @ m_address c @ '')'') w = Inr v"
        "log_ready e v (Suc 0)" "net v = net w" by auto
    have i3: "inv n (?s\<lparr>sv_web := v\<rparr>) xs evs" using inv_web [OF i2, of v] v(3) by simp
    have "\<exists>s'. extend_timer e fd (an_time an) (?s\<lparr>sv_web := v\<rparr>) = Inr s'"
      by (rule extend_timer_returns [OF i3, where k = 0]) (use g v(2) now in simp_all)
    then show ?thesis using r True v(1) by (simp add: write_event_def Let_def)
  qed
qed

subsection \<open>Timeouts\<close>

lemma dseg_unique: "dseg h pv p xs lst None \<Longrightarrow> dseg h pv p ys lst' None \<Longrightarrow> xs = ys"
proof (induction xs arbitrary: pv p ys)
  case Nil
  then show ?case by (cases ys) auto
next
  case (Cons x xs)
  obtain a t u where x: "x = (a, t, u)" by (cases x)
  with Cons.prems(1) obtain nx where h: "p = Some a" "h a = Some \<lparr>ut_expire = t, ut_user = u, ut_prev = pv, ut_next = nx\<rparr>"
    "dseg h (Some a) nx xs lst None" by auto
  then obtain zs where "ys = x # zs" "dseg h (Some a) nx zs lst' None"
    using Cons.prems(2) x by (cases ys) auto
  with Cons.IH [OF h(3)] show ?case by blast
qed

lemma timers_unique: "timers_in tls xs \<Longrightarrow> timers_in tls ys \<Longrightarrow> xs = ys"
  by (auto simp: timers_in_def dest: dseg_unique)

lemma round_end_run:
  assumes "inv n s xs []" and "\<not> sv_over s" and "sv_batch s = Some []" and "sv_timeout s" and "sv_now s \<le> cur"
    and "log_ready e (sv_web s) (Suc (length xs))"
  shows "\<exists>s'. server_step e (Round_end cur) s = Inr s'
    \<and> timers_in (sv_timers s') (filter (\<lambda>x. cur < expire x) xs)
    \<and> (\<forall>fd. wb_flags (sv_web s') (int fd)
          = (if \<exists>a t. (a, t, fd) \<in> set xs \<and> t \<le> cur then None else wb_flags (sv_web s) (int fd)))
    \<and> m_user_count (sv_web s') = m_user_count (sv_web s) - int (length (filter (\<lambda>x. expire x \<le> cur) xs))
    \<and> sv_alarm s' \<and> \<not> sv_timeout s' \<and> sv_batch s' = None"
proof -
  have h: "timers_held (sv_timers s) xs" "\<forall>x\<in>set xs. timer_ok s x"
    using assms(1) by (auto simp: inv_def timers_ok_def)
  let ?s = "s\<lparr>sv_now := cur\<rparr>" and ?us = "map user (filter (\<lambda>x. expire x \<le> cur) xs)"
  have step: "server_step e (Round_end cur) s = bindr (timer_handler e cur ?s) (\<lambda>s.
      Inr (s\<lparr>sv_timeout := False, sv_batch := None\<rparr>))"
    using assms(2-5) by (simp add: server_step_def Let_def)
  show ?thesis
  proof (cases "tl_head (sv_timers s) = None")
    case True
    then have "xs = []" using h(1) by (cases xs) (auto simp: timers_held_def timers_in_def)
    then show ?thesis using True step h(1) by (simp add: timer_handler_def timers_held_def)
  next
    case False
    obtain q' where q': "returned (tick cur (sv_timers s)) = Inr (?us, q')"
      "timers_held q' (filter (\<lambda>x. cur < expire x) xs)"
      using tls.expired_law [OF h(1)] by blast
    obtain w1 where w1: "LOG_INFO_flush e ''timer tick'' (sv_web s) = Inr w1" "log_ready e w1 (length xs)"
      using LOG_INFO_flush_ok [OF assms(6), of "''timer tick''"] by auto
    have u: "\<forall>u\<in>set ?us. cd_sockfd (sv_clients s u) = int u \<and> u < MAX_FD"
      using h(2) by (auto simp: timer_ok_def client_ok_def)
    have "log_ready e w1 (length ?us + 0)" using w1(2) by (rule log_ready_mono) simp
    from fire_all_returns [OF this u] obtain w where w: "fire_all e (sv_clients s) ?us w1 = Inr w" by blast
    have n: "net w1 = net (sv_web s)" using LOG_INFO_flush_net [OF w1(1)] .
    note k = fire_all_net [OF w]
    have "server_step e (Round_end cur) s = Inr (?s\<lparr>sv_web := w, sv_timers := q', sv_alarm := True,
        sv_timeout := False, sv_batch := None\<rparr>)"
      using step False w1(1) q'(1) w by (simp add: timer_handler_def)
    moreover have "wb_flags w (int fd)
        = (if \<exists>a t. (a, t, fd) \<in> set xs \<and> t \<le> cur then None else wb_flags (sv_web s) (int fd))" for fd
    proof -
      have "fd \<in> set ?us \<longleftrightarrow> (\<exists>a t. (a, t, fd) \<in> set xs \<and> t \<le> cur)" by force
      then show ?thesis using k [of fd] u n by (auto simp: net_def)
    qed
    moreover have "m_user_count w = m_user_count (sv_web s) - int (length (filter (\<lambda>x. expire x \<le> cur) xs))"
      using k u n by (simp add: net_def)
    ultimately show ?thesis using q'(2) by (simp add: timers_held_def)
  qed
qed

lemma served_inv:
  assumes "main3 e bt = Inr (Serving s0)" and "boot_ok bt" and "served e s0 n s" and "\<not> sv_over s"
    and "timers_in (sv_timers s) xs"
  shows "inv n s xs (case sv_batch s of None \<Rightarrow> [] | Some evs \<Rightarrow> evs)"
proof -
  obtain ys where i: "inv n s ys (case sv_batch s of None \<Rightarrow> [] | Some evs \<Rightarrow> evs)"
    using served_ok [OF assms(3) main3_ok(1) [OF assms(1,2)] assms(4)] by (auto simp: server_ok_def)
  then have "ys = xs" using timers_unique [OF _ assms(5)] by (auto simp: inv_def timers_ok_def timers_held_def)
  with i show ?thesis by simp
qed

text \<open>
  C7. The end of a turn in which an alarm was read: \<open>timer_handler\<close> returns, closes exactly the
  connections with a timer that has expired, takes these timers out of the list and keeps the
  others, counts one user less for each of them, and sets the next alarm.
\<close>

theorem timeout_closes_expired:
  assumes "main3 e bt = Inr (Serving s0)" and "boot_ok bt" and "served e s0 n s" and "\<not> sv_over s"
    and "sv_batch s = Some []" and "sv_timeout s" and "sv_now s \<le> cur"
    and "timers_in (sv_timers s) xs" and "log_ready e (sv_web s) (Suc (length xs))"
  shows "\<exists>s'. server_step e (Round_end cur) s = Inr s'
    \<and> timers_in (sv_timers s') (filter (\<lambda>x. cur < expire x) xs)
    \<and> (\<forall>fd. wb_flags (sv_web s') (int fd)
          = (if \<exists>a t. (a, t, fd) \<in> set xs \<and> t \<le> cur then None else wb_flags (sv_web s) (int fd)))
    \<and> m_user_count (sv_web s') = m_user_count (sv_web s) - int (length (filter (\<lambda>x. expire x \<le> cur) xs))
    \<and> sv_alarm s' \<and> \<not> sv_timeout s' \<and> sv_batch s' = None"
  using served_inv [OF assms(1-4,8)] assms(5) round_end_run [OF _ assms(4-7,9)] by simp

text \<open>The client of the small server stays silent until an alarm goes off.\<close>

definition site_silent :: answers where
  "site_silent = \<lparr>an_accept = Accept_failed 11, an_recv = None, an_writev = [], an_time = 114, an_new = 9\<rparr>"

definition site_alarmed :: server where
  "site_alarmed = site_accepted\<lparr>sv_alarm := False, sv_now := 114, sv_timeout := True\<rparr>"

lemma site_alarm_steps:
  "server_step site_env (Round_end 100) site_accepted = Inr (site_accepted\<lparr>sv_batch := None\<rparr>)"
  "server_step site_env (Signal SIGALRM) (site_accepted\<lparr>sv_batch := None\<rparr>)
     = Inr (site_accepted\<lparr>sv_batch := None, sv_alarm := False, sv_pipe := [14]\<rparr>)"
  "server_step site_env (Wait [(5, EV_IN)]) (site_accepted\<lparr>sv_batch := None, sv_alarm := False, sv_pipe := [14]\<rparr>)
     = Inr (site_accepted\<lparr>sv_batch := Some [(5, EV_IN)], sv_alarm := False, sv_pipe := [14]\<rparr>)"
  "server_step site_env (Handle site_silent) (site_accepted\<lparr>sv_batch := Some [(5, EV_IN)], sv_alarm := False, sv_pipe := [14]\<rparr>)
     = Inr site_alarmed"
  by (simp_all add: server_step_def site_accepted_def site_server_def sig_handler_def SIGALRM_def SIGTERM_def SIGPIPE_def
      reportable_def reported_def disarm_def EV_IN_def EV_OUT_def EV_RDHUP_def EV_ONESHOT_def EV_HUP_def EV_ERR_def
      MAX_EVENT_NUMBER_def handle_event3_def signal_event_def take_signal_def site_silent_def answers_ok_def
      site_alarmed_def Let_def)

lemma site_alarmed_served: "served site_env site_server 0 site_alarmed"
proof -
  note st = served.step [of site_env site_server 0]
  have "served site_env site_server 0 (site_accepted\<lparr>sv_batch := None\<rparr>)"
    using st [OF site_served site_alarm_steps(1)] by (simp add: closings_def)
  then have "served site_env site_server 0 (site_accepted\<lparr>sv_batch := None, sv_alarm := False, sv_pipe := [14]\<rparr>)"
    using st [OF _ site_alarm_steps(2)] by (simp add: closings_def)
  then have "served site_env site_server 0 (site_accepted\<lparr>sv_batch := Some [(5, EV_IN)], sv_alarm := False, sv_pipe := [14]\<rparr>)"
    using st [OF _ site_alarm_steps(3)] by (simp add: closings_def)
  then show ?thesis using st [OF _ site_alarm_steps(4)] by (simp add: closings_def)
qed

lemma timeout_closes_expired_witness:
  "\<exists>s'. server_step site_env (Round_end 115) site_alarmed = Inr s' \<and> timers_in (sv_timers s') []
    \<and> wb_flags (sv_web s') 7 = None \<and> m_user_count (sv_web s') = 0"
proof -
  have "log_ready site_env (sv_web site_alarmed) (Suc (length [(1, 115, 7) :: timer]))"
    by (subst log_ready_cong [of _ "sv_web site_server"])
      (simp_all add: site_alarmed_def site_accepted_def site_log_ready)
  moreover have "timers_in (sv_timers site_alarmed) [(1, 115, 7)]"
    by (simp add: site_alarmed_def site_accepted_def timers_in_def)
  moreover have "\<not> sv_over site_alarmed" "sv_batch site_alarmed = Some []" "sv_timeout site_alarmed" "sv_now site_alarmed \<le> 115"
    "m_user_count (sv_web site_alarmed) = 1"
    by (simp_all add: site_alarmed_def site_accepted_def site_server_def)
  ultimately obtain s' where "server_step site_env (Round_end 115) site_alarmed = Inr s'"
    "timers_in (sv_timers s') []" "m_user_count (sv_web s') = 0"
    "\<forall>fd. wb_flags (sv_web s') (int fd)
        = (if \<exists>a t. (a, t, fd) \<in> set [(1, 115, 7)] \<and> t \<le> (115::int) then None else wb_flags (sv_web site_alarmed) (int fd))"
    using timeout_closes_expired [OF site_main site_boot_ok site_alarmed_served, of 115 "[(1, 115, 7)]"] by auto
  from this(1-3) spec [OF this(4), of 7] show ?thesis by auto
qed

end
