(* ===== verification/V3_MainServe.thy ===== *)
theory V3_MainServe
  imports V3_MainTurn V3_HttpServe
begin

section \<open>version\_03: a client from its connection to its page\<close>

text \<open>
  The parts together: the listening socket, the timers, the request queue, a worker with its
  database connection, and the connection itself. From any state in which the loop waits and
  nothing is in work, the turns that a client brings about serve it.
\<close>

subsection \<open>Runs and idle states\<close>

fun server_run :: "env \<Rightarrow> main_step list \<Rightarrow> server \<Rightarrow> server res" where
  "server_run e [] s = Inr s"
| "server_run e (st # sts) s = bindr (server_step e st s) (server_run e sts)"

lemma server_run_append: "server_run e sts s = Inr s1 \<Longrightarrow> server_run e (sts @ sts') s = server_run e sts' s1"
  by (induction sts arbitrary: s) (auto simp: bindr_eq_Inr)

lemma server_run_served: "server_run e sts s = Inr s' \<Longrightarrow> served e s0 n s \<Longrightarrow> \<exists>m. served e s0 m s'"
proof (induction sts arbitrary: s n)
  case (Cons st sts)
  then obtain s1 where 1: "server_step e st s = Inr s1" "server_run e sts s1 = Inr s'" by (auto simp: bindr_eq_Inr)
  from Cons.IH [OF 1(2) served.step [OF Cons.prems(2) 1(1)]] show ?case .
qed auto

text \<open>The database connections that are not in use can be counted on.\<close>

definition dbs_ok :: "connection_pool \<Rightarrow> bool" where
  "dbs_ok p = (\<not> cp_lock p \<and> cp_reserve p = length (cp_connList p))"

lemma pool_borrowed:
  assumes "dbs_ok p"
  obtains con p1 p2 where "GetConnection p = Inr (con, p1)" and "connectionRAII_end con p1 = Inr p2" and "dbs_ok p2"
proof (cases "cp_connList p")
  case Nil
  then show ?thesis using that [of None p p] assms
    by (simp add: GetConnection_def connectionRAII_end_def ReleaseConnection_def)
next
  case (Cons c cs)
  then show ?thesis using that assms
    by (auto simp: GetConnection_def connectionRAII_end_def ReleaseConnection_def dbs_ok_def pool_take_def pool_put_def
        sem_wait_def sem_post_def)
qed

lemma pool_fill_dbs:
  "pool_fill connect is p = Inr p' \<Longrightarrow> cp_reserve p' = cp_reserve p \<and> cp_lock p' = cp_lock p
     \<and> length (cp_connList p') = length (cp_connList p) + length is \<and> cp_FreeConn p' = cp_FreeConn p + of_nat (length is)"
  by (induction "is" arbitrary: p) (auto split: option.splits)

lemma pool_init_dbs:
  assumes "pool_init connect 8 connection_pool_new = Inr p"
  shows "dbs_ok p"
  using assms by (auto simp: pool_init_def connection_pool_new_def bindr_eq_Inr Let_def dbs_ok_def dest!: pool_fill_dbs)

lemma initmysql_dbs:
  assumes "initmysql_result e err stored p w = Inr (p', w')" and "dbs_ok p"
  shows "dbs_ok p'"
proof -
  obtain con p1 where "GetConnection p = Inr (con, p1)" "connectionRAII_end con p1 = Inr p'"
    using assms(1) by (auto simp: initmysql_result_def bindr_eq_Inr Let_def split: option.splits)
  with pool_borrowed [OF assms(2)] show ?thesis by (metis prod.inject sum.inject(2))
qed

lemma listen_dbs: "listen_and_poll bt port hs q p w = Inr (Serving s) \<Longrightarrow> sv_dbs s = p"
  by (auto simp: listen_and_poll_def bindr_eq_Inr Let_def split: option.splits)

lemma main3_dbs:
  assumes "main3 e bt = Inr (Serving s)"
  shows "dbs_ok (sv_dbs s)"
proof -
  have "\<exists>p lg p' w port hs q. pool_init (bt_connect bt) 8 connection_pool_new = Inr p
    \<and> initmysql_result e (bt_mysql_error bt) (bt_rows bt) p (empty_web lg) = Inr (p', w)
    \<and> listen_and_poll bt port hs q p' w = Inr (Serving s)"
    using assms by (cases "threadpool_new (bt_create bt) (bt_detach bt) 8 10000")
      (fastforce simp: main3_def bindr_eq_Inr split: if_splits)+
  then show ?thesis using pool_init_dbs initmysql_dbs listen_dbs by metis
qed

text \<open>Only a worker borrows from the pool.\<close>

lemma handlers_dbs:
  "end_client e fd s = Inr s' \<Longrightarrow> sv_dbs s' = sv_dbs s"
  "extend_timer e fd cur s = Inr s' \<Longrightarrow> sv_dbs s' = sv_dbs s"
  "accept_event e an s = Inr s' \<Longrightarrow> sv_dbs s' = sv_dbs s"
  "timer_handler e cur s = Inr s' \<Longrightarrow> sv_dbs s' = sv_dbs s"
  by (auto simp: end_client_def extend_timer_def accept_event_def new_client_def timer_handler_def
      bindr_eq_Inr Let_def split: option.splits accept_ans.splits if_splits prod.splits)

lemma signal_event_dbs: "sv_dbs (signal_event s) = sv_dbs s"
proof -
  have "sv_dbs (fold take_signal l s) = sv_dbs s" for l s
    by (induction l arbitrary: s) (auto simp: take_signal_def)
  then show ?thesis by (simp add: signal_event_def)
qed

lemma take_request_dbs:
  assumes "take_request s = Inr s'"
  shows "sv_dbs s' = sv_dbs s"
proof -
  obtain r q where "s' = (let s = s\<lparr>sv_pool := q\<rparr> in case r of Some (Some i) \<Rightarrow> s\<lparr>sv_busy := sv_busy s @ [i]\<rparr> | _ \<Rightarrow> s)"
    using assms by (auto simp: take_request_def bindr_eq_Inr Let_def)
  then show ?thesis by (cases r; cases "the r") (simp_all add: Let_def)
qed

lemma read_event_dbs:
  assumes "read_event e fd an s = Inr s'"
  shows "sv_dbs s' = sv_dbs s"
proof -
  obtain ok c where c: "read_once (an_recv an) (sv_conns s fd) = Inr (ok, c)"
    using assms by (auto simp: read_event_def bindr_eq_Inr)
  show ?thesis using assms c
    by (cases ok) (auto simp: read_event_def bindr_eq_Inr dest!: handlers_dbs)
qed

lemma write_event_dbs:
  assumes "write_event e fd an s = Inr s'"
  shows "sv_dbs s' = sv_dbs s"
proof -
  obtain ok c w where c: "http_write (an_writev an) (sv_conns s fd) (sv_web s) = Inr (Some ok, c, w)"
    using assms by (auto simp: write_event_def Let_def bindr_eq_Inr split: option.splits)
  show ?thesis using assms c
    by (cases ok) (auto simp: write_event_def bindr_eq_Inr Let_def dest!: handlers_dbs)
qed

lemma handle_event3_dbs:
  assumes "handle_event3 e ev an s = Inr s'"
  shows "sv_dbs s' = sv_dbs s"
proof -
  obtain fd events where ev: "ev = (fd, events)" by (cases ev)
  have "accept_event e an s = Inr s' \<or> end_client e fd s = Inr s' \<or> signal_event s = s'
      \<or> read_event e fd an s = Inr s' \<or> write_event e fd an s = Inr s' \<or> s' = s"
    using assms ev by (auto simp: handle_event3_def split: if_splits)
  then show ?thesis using handlers_dbs(1,3) read_event_dbs write_event_dbs signal_event_dbs by metis
qed

lemma run_request_dbs:
  assumes "run_request e i s = Inr s'" and "dbs_ok (sv_dbs s)"
  shows "dbs_ok (sv_dbs s')"
proof -
  obtain con p1 p2 where p: "GetConnection (sv_dbs s) = Inr (con, p1)" "connectionRAII_end con p1 = Inr p2" "dbs_ok p2"
    by (rule pool_borrowed [OF assms(2)])
  then show ?thesis using assms(1) by (auto simp: run_request_def connectionRAII_def bindr_eq_Inr)
qed

lemma server_step_dbs: "server_step e st s = Inr s' \<Longrightarrow> dbs_ok (sv_dbs s) \<Longrightarrow> dbs_ok (sv_dbs s')"
  by (cases st) (auto simp: server_step_def sig_handler_def server_end_def bindr_eq_Inr Let_def
      dest!: handle_event3_dbs handlers_dbs take_request_dbs dest: run_request_dbs split: if_splits option.splits list.splits)

lemma served_dbs: "served e s0 n s \<Longrightarrow> dbs_ok (sv_dbs s0) \<Longrightarrow> dbs_ok (sv_dbs s)"
  by (induction rule: served.induct) (auto intro: server_step_dbs)

subsection \<open>One turn\<close>

definition idle :: "server \<Rightarrow> bool" where
  "idle s = (sv_batch s = None \<and> \<not> sv_stop s \<and> \<not> sv_over s \<and> \<not> sv_timeout s
     \<and> sv_busy s = [] \<and> m_workqueue (sv_pool s) = [])"

text \<open>The state in which the event of an idle server is handled.\<close>

definition woken_by :: "nat \<times> 32 word \<Rightarrow> int \<Rightarrow> server \<Rightarrow> server" where
  "woken_by ev t s = s\<lparr>sv_web := reported [ev] (sv_web s), sv_batch := Some [], sv_now := t\<rparr>"

text \<open>A turn of the loop that has one event to handle, and no alarm.\<close>

lemma turn_run:
  assumes "sv_batch s = None" and "\<not> sv_stop s" and "\<not> sv_over s" and "reportable s ev" and "answers_ok an s"
    and "handle_event3 e ev an (woken_by ev (an_time an) s) = Inr s'"
    and "sv_batch s' = Some []" and "\<not> sv_over s'" and "\<not> sv_timeout s'" and "sv_now s' = an_time an"
  shows "server_run e [Wait [ev], Handle an, Round_end (an_time an)] s = Inr (s'\<lparr>sv_batch := None\<rparr>)"
proof -
  let ?s = "s\<lparr>sv_batch := Some [ev], sv_web := reported [ev] (sv_web s)\<rparr>"
  have 1: "server_step e (Wait [ev]) s = Inr ?s"
    using assms(1-4) by (simp add: server_step_def MAX_EVENT_NUMBER_def)
  have "answers_ok an ?s" using assms(5) by (simp add: answers_ok_def reported_def split: accept_ans.splits)
  then have 2: "server_step e (Handle an) ?s = Inr s'"
    using assms(3,6) by (simp add: server_step_def woken_by_def)
  have "server_step e (Round_end (an_time an)) s' = Inr (s'\<lparr>sv_timeout := False, sv_batch := None, sv_now := an_time an\<rparr>)"
    using assms(7-10) by (simp add: server_step_def)
  also have "s'\<lparr>sv_timeout := False, sv_batch := None, sv_now := an_time an\<rparr> = s'\<lparr>sv_batch := None\<rparr>"
    using assms(9,10) by (cases s') simp
  finally show ?thesis using 1 2 by simp
qed

lemma woken_inv:
  assumes "inv n s xs []" and "reportable s ev" and "sv_now s \<le> t"
  shows "inv n (woken_by ev t s) xs []"
proof -
  have "inv n (s\<lparr>sv_batch := Some [ev], sv_web := reported [ev] (sv_web s)\<rparr>) xs [ev]"
    by (rule reported_inv [OF assms(1)]) (simp_all add: assms(2))
  from inv_now [OF inv_batch(2) [OF inv_no_events [OF this], of "Some []"], of t] assms(3)
  show ?thesis by (simp add: woken_by_def)
qed

lemma idle_inv:
  assumes "main3 e bt = Inr (Serving s0)" and "boot_ok bt" and "served e s0 n s" and "idle s"
  obtains m xs where "inv m s xs []" and "dbs_ok (sv_dbs s)"
proof -
  obtain xs where "server_ok n s xs"
    using served_ok [OF assms(3) main3_ok(1) [OF assms(1,2)]] assms(4) by (auto simp: idle_def)
  then show ?thesis
    using that [of n xs] served_dbs [OF assms(3) main3_dbs [OF assms(1)]] assms(4) by (simp add: server_ok_def idle_def)
qed

text \<open>What the two ends of an event do besides moving timers.\<close>

lemma extend_timer_run:
  assumes i: "inv n s xs evs" and g: "guarded (timer_of s) xs fd" and l: "log_ready e (sv_web s) (Suc k)"
    and cur: "sv_now s = cur"
  obtains w tls where "extend_timer e fd cur s = Inr (s\<lparr>sv_web := w, sv_timers := tls\<rparr>)"
    and "same_but_log (sv_web s) w" and "log_ready e w k"
proof -
  obtain s' where s': "extend_timer e fd cur s = Inr s'" using extend_timer_returns [OF assms] by blast
  obtain w where w: "LOG_INFO_flush e ''adjust timer once'' (sv_web s) = Inr w" "log_ready e w k" "same_but_log (sv_web s) w"
    using LOG_INFO_flush_ok [OF l, of "''adjust timer once''"] by auto
  have "cd_timer (sv_clients s fd) \<noteq> None" using g by (auto simp: guarded_def timer_of_def)
  then obtain tls where "s' = s\<lparr>sv_web := w, sv_timers := tls\<rparr>"
    using s' w(1) by (auto simp: extend_timer_def bindr_eq_Inr Let_def)
  then show ?thesis using that s' w by blast
qed

lemma end_client_run:
  assumes i: "inv n s xs evs" and g: "guarded (timer_of s) xs fd" and l: "log_ready e (sv_web s) (Suc k)"
  obtains w tls where "end_client e fd s = Inr (s\<lparr>sv_web := w, sv_timers := tls\<rparr>)"
    and "wb_flags w (int fd) = None" and "wb_sent w = wb_sent (sv_web s)"
    and "m_user_count w = m_user_count (sv_web s) - 1"
proof -
  obtain s' where s': "end_client e fd s = Inr s'" using end_client_returns [OF assms] by blast
  obtain w where w: "cb_func e (sv_clients s fd) (sv_web s) = Inr w"
    using cb_func_returns [OF l inv_guarded(2,3) [OF i g]] by blast
  note c = cb_func_net [OF w, unfolded inv_guarded(2) [OF i g]]
  let ?w = "close_fd3 (int fd) ((sv_web s)\<lparr>wb_interest := (wb_interest (sv_web s))(int fd := None)\<rparr>)"
  have d: "cd_sockfd (sv_clients s fd) = int fd" "fd < MAX_FD" using inv_guarded(2,3) [OF i g] by simp_all
  have n: "nul_free (''close fd '' @ dec_int (int fd))" "length (''close fd '' @ dec_int (int fd)) \<le> 1962"
    using d(2) length_dec_int_le [of "int fd" 5] by (simp_all add: MAX_FD_def)
  have "log_ready e (?w\<lparr>m_user_count := m_user_count (sv_web s) - 1\<rparr>) (Suc k)"
    by (subst log_ready_cong [of _ "sv_web s"]) (simp_all add: close_fd3_def l)
  from LOG_INFO_flush_ok [OF this n] w d(1) have "wb_sent w = wb_sent (sv_web s)"
    by (auto simp: cb_func_def Let_def close_fd3_def same_but_log_simps)
  moreover obtain tls where "s' = s\<lparr>sv_web := w, sv_timers := tls\<rparr>"
    using s' w by (auto simp: end_client_def bindr_eq_Inr Let_def)
  ultimately show ?thesis using that s' c(1,2) by simp
qed

subsection \<open>The turns of a client\<close>

text \<open>A client with an open socket, which waits for one of the events \<open>ev\<close>.\<close>

definition client_at :: "nat \<Rightarrow> 32 word \<Rightarrow> server \<Rightarrow> bool" where
  "client_at fd ev s =
     (fd \<notin> own s \<and> fd < MAX_FD \<and> m_sockfd (sv_conns s fd) = int fd \<and> wb_flags (sv_web s) (int fd) \<noteq> None
      \<and> wb_interest (sv_web s) (int fd) = Some (or ev (or EV_ONESHOT EV_RDHUP)))"

lemma client_guarded: "inv n s xs evs \<Longrightarrow> client_at fd ev s \<Longrightarrow> guarded (timer_of s) xs fd"
  by (simp add: inv_def open_guarded_def client_at_def)

lemma client_reportable:
  assumes "inv n s xs evs" and "client_at fd ev s" and "ev = EV_IN \<or> ev = EV_OUT"
  shows "reportable s (fd, ev)"
  using assms(2,3) by (auto simp: client_at_def reportable_def own_def EV_IN_def EV_OUT_def EV_ONESHOT_def EV_RDHUP_def EV_HUP_def EV_ERR_def)

lemma reported_simps [simp]:
  "wb_flags (reported evs w) = wb_flags w" "wb_sent (reported evs w) = wb_sent w" "wb_log (reported evs w) = wb_log w"
  "m_user_count (reported evs w) = m_user_count w" "registered fd (reported [(x, ev)] w) = registered fd w"
  by (auto simp: reported_def registered_def disarm_def split: option.splits)

lemma accept_turn:
  assumes i: "inv n s xs []" and idle: "idle s" and an: "an_accept an = Accepted fd ip" "an_time an = t" "an_new an = a"
    and free: "wb_flags (sv_web s) (int fd) = None" "wb_interest (sv_web s) (int fd) = None" "fd < MAX_FD"
    and room: "m_user_count (sv_web s) < int MAX_FD" and "tl_heap (sv_timers s) a = None" and "sv_now s \<le> t"
  obtains s' where "server_run e [Wait [(sv_listenfd s, EV_IN)], Handle an, Round_end t] s = Inr s'"
    and "idle s'" and "client_at fd EV_IN s'" and "fresh (sv_conns s' fd)" and "m_address (sv_conns s' fd) = ip"
    and "wb_sent (sv_web s') (int fd) = []" and "wb_log (sv_web s') = wb_log (sv_web s)"
    and "m_user_count (sv_web s') = m_user_count (sv_web s) + 1" and "sv_now s' = t"
proof -
  let ?ev = "(sv_listenfd s, EV_IN)"
  let ?s = "woken_by ?ev t s" and ?t = "t + 3 * TIMESLOT"
  let ?c = "http_init0 ((sv_conns s fd)\<lparr>m_sockfd := int fd, m_address := ip\<rparr>)"
  have o: "own_ok s" using i by (simp add: inv_def)
  then have r: "reportable s ?ev" and fd: "fd \<notin> own s"
    using free(1) by (auto simp: own_ok_def own_def reportable_def EV_IN_def EV_OUT_def EV_RDHUP_def EV_HUP_def EV_ERR_def)
  have ok: "answers_ok an s" using an free(1) assms(10,11) by (simp add: answers_ok_def)
  have h: "timers_held (sv_timers s) xs" using i by (simp add: inv_def timers_ok_def)
  obtain q where q: "start_timer a ?t fd (sv_timers s) = Inr q" using tls.add_law [OF h assms(10), of ?t fd] by blast
  define v where "v = accepted fd (sv_web ?s)"
  define w where "w = (addfd (int fd) True v)\<lparr>m_user_count := m_user_count v + 1\<rparr>"
  have v: "wb_interest v (int fd) = None"
  proof -
    have "int fd \<noteq> int (sv_listenfd s)" using fd by (auto simp: own_def)
    then show ?thesis
      using free(2) by (simp add: v_def accepted_def woken_by_def reported_def disarm_def split: option.split)
  qed
  have w: "wb_flags w (int fd) \<noteq> None" "wb_interest w (int fd) = Some (or EV_IN (or EV_ONESHOT EV_RDHUP))"
    "wb_sent w (int fd) = []" "wb_log w = wb_log (sv_web s)" "m_user_count w = m_user_count (sv_web s) + 1"
    using v by (simp_all add: w_def v_def addfd_def setnonblocking_def accepted_def Let_def woken_by_def or.commute or.left_commute or.assoc)
  define s' where "s' = ?s\<lparr>sv_web := w, sv_conns := (sv_conns s)(fd := ?c),
      sv_clients := (sv_clients s)(fd := \<lparr>cd_address = ip, cd_sockfd = int fd, cd_timer = Some a\<rparr>), sv_timers := q\<rparr>"
  have "\<not> m_user_count (sv_web ?s) \<ge> int MAX_FD" using room by (simp add: woken_by_def)
  then have "handle_event3 e ?ev an ?s = Inr s'"
    using an free(3) q
    by (simp add: handle_event3_def accept_event_def new_client_def http_init_def start_timer_def s'_def w_def v_def Let_def
        accepted_def woken_by_def)
  moreover have f: "sv_batch s' = Some []" "\<not> sv_over s'" "\<not> sv_timeout s'" "sv_now s' = t"
    using idle by (simp_all add: s'_def woken_by_def idle_def)
  ultimately have run: "server_run e [Wait [?ev], Handle an, Round_end t] s = Inr (s'\<lparr>sv_batch := None\<rparr>)"
    using turn_run [of s ?ev an e s'] idle r ok an(2) by (simp add: idle_def)
  have "idle (s'\<lparr>sv_batch := None\<rparr>)" using idle by (simp add: idle_def s'_def woken_by_def)
  moreover have "client_at fd EV_IN (s'\<lparr>sv_batch := None\<rparr>)"
    using fd free(3) w by (simp add: client_at_def own_def s'_def woken_by_def http_init0_def)
  ultimately show ?thesis
    using that [OF run] w(3-5) f(4) by (simp add: s'_def) (simp add: http_init0_def)
qed

text \<open>A request that waits for a worker.\<close>

definition queued :: "nat \<Rightarrow> server \<Rightarrow> bool" where
  "queued fd s = (sv_batch s = None \<and> \<not> sv_stop s \<and> \<not> sv_over s \<and> \<not> sv_timeout s
     \<and> sv_busy s = [] \<and> m_workqueue (sv_pool s) = [Some fd])"

lemma read_turn:
  assumes i: "inv n s xs []" and idle: "idle s" and cl: "client_at fd EV_IN s"
    and an: "answers_ok an s" "an_time an = t" and l: "log_ready e (sv_web s) (k + 2)"
    and a: "in_addr (m_address (sv_conns s fd))" and rd: "read_once (an_recv an) (sv_conns s fd) = Inr (True, c)"
  obtains s' where "server_run e [Wait [(fd, EV_IN)], Handle an, Round_end t] s = Inr s'"
    and "queued fd s'" and "sv_conns s' fd = c" and "fd \<notin> own s'" and "registered (int fd) (sv_web s')"
    and "wb_sent (sv_web s') = wb_sent (sv_web s)" and "log_ready e (sv_web s') k"
    and "m_user_count (sv_web s') = m_user_count (sv_web s)" and "sv_now s' = t"
proof -
  let ?s = "woken_by (fd, EV_IN) t s"
  have now: "sv_now s \<le> t" using an by (simp add: answers_ok_def)
  have r: "reportable s (fd, EV_IN)" by (rule client_reportable [OF i cl]) simp
  have i1: "inv n ?s xs []" by (rule woken_inv [OF i r now])
  have g: "guarded (timer_of ?s) xs fd" using client_guarded [OF i cl] by (simp add: woken_by_def timer_of_def [abs_def])
  have w: "sv_conns ?s = sv_conns s" "sv_now ?s = t" "sv_pool ?s = sv_pool s" by (simp_all add: woken_by_def)
  have lr: "log_ready e (sv_web ?s) (Suc (Suc k))"
    by (subst log_ready_cong [of _ "sv_web s"]) (use l in \<open>simp_all add: woken_by_def\<close>)
  have i2: "inv n (?s\<lparr>sv_conns := (sv_conns s)(fd := c)\<rparr>) xs []"
    using inv_conn [OF i1, of c fd] read_once_sockfd [OF rd] w(1) by simp
  have "in_addr (m_address c)" using a read_once_address [OF rd] by simp
  then have n: "nul_free (''deal with the client('' @ m_address c @ '')'')" "length (''deal with the client('' @ m_address c @ '')'') \<le> 1962"
    by (simp_all add: in_addr_def)
  obtain v where v: "LOG_INFO_flush e (''deal with the client('' @ m_address c @ '')'') (sv_web ?s) = Inr v"
    "log_ready e v (Suc k)" "same_but_log (sv_web ?s) v"
    using LOG_INFO_flush_ok [OF lr n] by blast
  have i3: "inv n (?s\<lparr>sv_conns := (sv_conns s)(fd := c), sv_web := v\<rparr>) xs []"
    using inv_web [OF i2, of v] LOG_INFO_flush_net [OF v(1)] by simp
  have t: "tp_ok (sv_pool s)" "tp_room (sv_pool s)"
    using i idle by (simp_all add: inv_def queue_ok_def idle_def tp_room_def tp_bound_def)
  obtain q where q: "append_request (Some fd) (sv_pool s) = Inr (True, q)" "m_workqueue q = [Some fd]"
    using tp.enq_room [OF t, of "Some fd"] idle by (auto simp: idle_def)
  let ?s3 = "?s\<lparr>sv_conns := (sv_conns s)(fd := c), sv_web := v, sv_pool := q\<rparr>"
  have "client_ok (?s\<lparr>sv_conns := (sv_conns s)(fd := c), sv_web := v\<rparr>) fd"
    using inv_guarded(1) [OF i3] g by simp
  then have i4: "inv n ?s3 xs []"
    using inv_pool [OF i3, of fd True q] q(1) w(3) by simp
  obtain u tls where u: "extend_timer e fd t ?s3 = Inr (?s3\<lparr>sv_web := u, sv_timers := tls\<rparr>)"
    "same_but_log v u" "log_ready e u k"
    by (rule extend_timer_run [OF i4, where cur = t and k = k]) (use g v(2) w(2) in simp_all)
  define s' where "s' = ?s3\<lparr>sv_web := u, sv_timers := tls\<rparr>"
  have o: "fd \<noteq> sv_listenfd s" "fd \<noteq> sv_pipefd0 s" "fd < MAX_FD" using cl by (simp_all add: client_at_def own_def)
  have "read_event e fd an ?s = Inr s'"
    using rd v(1) q(1) u(1) an(2) w by (simp add: read_event_def s'_def)
  then have "handle_event3 e (fd, EV_IN) an ?s = Inr s'"
    using o by (simp add: handle_event3_def woken_by_def EV_IN_def EV_RDHUP_def EV_HUP_def EV_ERR_def)
  moreover have "sv_batch s' = Some []" "\<not> sv_over s'" "\<not> sv_timeout s'" "sv_now s' = t"
    using idle by (simp_all add: s'_def woken_by_def idle_def)
  ultimately have run: "server_run e [Wait [(fd, EV_IN)], Handle an, Round_end t] s = Inr (s'\<lparr>sv_batch := None\<rparr>)"
    using turn_run [of s "(fd, EV_IN)" an e s'] idle r an by (simp add: idle_def)
  have "same_but_log (sv_web ?s) u" using v(3) u(2) by (rule same_but_log_trans)
  moreover have "registered (int fd) (sv_web ?s)" using cl by (simp add: woken_by_def client_at_def registered_def reported_def disarm_def split: option.split)
  ultimately have "registered (int fd) u" "wb_sent u = wb_sent (sv_web s)" "m_user_count u = m_user_count (sv_web s)"
    using same_but_log_registered [of "sv_web ?s" u "int fd"] by (simp_all add: same_but_log_simps woken_by_def)
  then show ?thesis using that [OF run] idle cl u(3) q(2)
    by (simp add: queued_def idle_def s'_def woken_by_def client_at_def own_def)
qed

text \<open>A worker takes the request, borrows a connection to the database and processes it.\<close>

lemma work_run:
  assumes "queued fd s" and "tp_ok (sv_pool s)" and "dbs_ok (sv_dbs s)"
    and pr: "\<And>my. \<exists>c w. process e ((sv_conns s fd)\<lparr>mysql := my\<rparr>) (sv_web s) = Inr (c, w) \<and> P c w"
  obtains s' where "server_run e [Take, Work 0] s = Inr s'" and "idle s'" and "P (sv_conns s' fd) (sv_web s')"
    and "own s' = own s" and "sv_now s' = sv_now s" and "sv_timers s' = sv_timers s"
proof -
  obtain q where q: "wait_and_take (sv_pool s) = Inr (Some (Some fd), q)" "m_workqueue q = []"
    using assms(1,2) by (auto simp: wait_and_take_def take_locked_def tp_ok_def sem_wait_def queued_def)
  obtain con p1 p2 where p: "GetConnection (sv_dbs s) = Inr (con, p1)" "connectionRAII_end con p1 = Inr p2"
    using pool_borrowed [OF assms(3)] by blast
  obtain c w where c: "process e ((sv_conns s fd)\<lparr>mysql := con\<rparr>) (sv_web s) = Inr (c, w)" "P c w" using pr by blast
  let ?s = "s\<lparr>sv_pool := q, sv_busy := [fd]\<rparr>"
  have 1: "server_step e Take s = Inr ?s"
    using assms(1) q(1) by (simp add: server_step_def take_request_def queued_def)
  have 2: "server_step e (Work 0) ?s
      = Inr (s\<lparr>sv_pool := q, sv_busy := [], sv_conns := (sv_conns s)(fd := c), sv_web := w, sv_dbs := p2\<rparr>)"
    using assms(1) p c(1) by (simp add: server_step_def run_request_def connectionRAII_def queued_def)
  show ?thesis
    by (rule that [of "s\<lparr>sv_pool := q, sv_busy := [], sv_conns := (sv_conns s)(fd := c), sv_web := w, sv_dbs := p2\<rparr>"])
      (use 1 2 c(2) q(2) assms(1) in \<open>simp_all add: idle_def queued_def own_def\<close>)
qed

lemma write_turn:
  assumes i: "inv n s xs []" and idle: "idle s" and cl: "client_at fd EV_OUT s"
    and an: "answers_ok an s" "an_time an = t" and l: "log_ready e (sv_web s) (k + 2)"
    and a: "in_addr (m_address (sv_conns s fd))"
    and wr: "\<And>w. http_write (an_writev an) (sv_conns s fd) w
      = Inr (Some keep, c w, modfd (int fd) EV_IN (put_out (int fd) out w))"
  obtains s' v where "server_run e [Wait [(fd, EV_OUT)], Handle an, Round_end t] s = Inr s'" and "idle s'"
    and "wb_sent (sv_web s') (int fd) = wb_sent (sv_web s) (int fd) @ out"
    and "keep \<Longrightarrow> client_at fd EV_IN s' \<and> sv_conns s' fd = c v \<and> m_user_count (sv_web s') = m_user_count (sv_web s)"
    and "\<not> keep \<Longrightarrow> wb_flags (sv_web s') (int fd) = None \<and> m_user_count (sv_web s') = m_user_count (sv_web s) - 1"
proof -
  let ?s = "woken_by (fd, EV_OUT) t s"
  have now: "sv_now s \<le> t" using an by (simp add: answers_ok_def)
  have r: "reportable s (fd, EV_OUT)" by (rule client_reportable [OF i cl]) simp
  have i1: "inv n ?s xs []" by (rule woken_inv [OF i r now])
  have g: "guarded (timer_of ?s) xs fd" using client_guarded [OF i cl] by (simp add: woken_by_def timer_of_def [abs_def])
  have w: "sv_conns ?s = sv_conns s" "sv_now ?s = t" by (simp_all add: woken_by_def)
  let ?c = "c (sv_web ?s)" and ?w = "modfd (int fd) EV_IN (put_out (int fd) out (sv_web ?s))"
  let ?s2 = "?s\<lparr>sv_conns := (sv_conns s)(fd := ?c), sv_web := ?w\<rparr>"
  have wr1: "http_write (an_writev an) (sv_conns ?s fd) (sv_web ?s) = Inr (Some keep, ?c, ?w)"
    using wr by (simp add: w)
  have i2: "inv n ?s2 xs []" using write_conn_inv [OF i1 g wr1] w(1) by simp
  have "wb_log ?w = wb_log (sv_web s)" by (simp add: modfd_def put_out_def woken_by_def)
  then have lr: "log_ready e ?w (Suc (Suc k))" using log_ready_cong [of ?w "sv_web s" e] l by simp
  have adr: "in_addr (m_address ?c)" using a http_write_address [OF wr1] w(1) by simp
  have sock: "m_sockfd ?c = int fd"
    using http_write_net [OF wr1, unfolded keeps_socket_def] cl w(1) by (simp add: client_at_def)
  have "registered (int fd) (sv_web ?s)"
    using cl by (simp add: woken_by_def client_at_def registered_def reported_def disarm_def split: option.split)
  then have reg: "registered (int fd) (put_out (int fd) out (sv_web ?s))" by (simp add: modfd_registered)
  have sent: "wb_sent ?w (int fd) = wb_sent (sv_web s) (int fd) @ out" "m_user_count ?w = m_user_count (sv_web s)"
    by (simp_all add: woken_by_def) (simp_all add: modfd_def put_out_def)
  have o: "fd \<noteq> sv_listenfd s" "fd \<noteq> sv_pipefd0 s" "fd < MAX_FD" using cl by (simp_all add: client_at_def own_def)
  have h: "handle_event3 e (fd, EV_OUT) an ?s = write_event e fd an ?s"
    using o by (simp add: handle_event3_def woken_by_def EV_IN_def EV_OUT_def EV_RDHUP_def EV_HUP_def EV_ERR_def)
  have turn: "server_run e [Wait [(fd, EV_OUT)], Handle an, Round_end t] s = Inr (s'\<lparr>sv_batch := None\<rparr>)"
    if "write_event e fd an ?s = Inr s'" "s' = ?s2\<lparr>sv_web := u, sv_timers := tls\<rparr>" for s' u tls
    using turn_run [of s "(fd, EV_OUT)" an e s'] idle r an that h by (simp add: idle_def woken_by_def)
  have idl: "idle (?s2\<lparr>sv_web := u, sv_timers := tls, sv_batch := None\<rparr>)" for u tls
    using idle by (simp add: idle_def woken_by_def)
  show ?thesis
  proof (cases keep)
    case False
    obtain u tls where u: "end_client e fd ?s2 = Inr (?s2\<lparr>sv_web := u, sv_timers := tls\<rparr>)"
      "wb_flags u (int fd) = None" "wb_sent u = wb_sent ?w" "m_user_count u = m_user_count ?w - 1"
      by (rule end_client_run [OF i2, where k = "Suc k"]) (use g lr in simp_all)
    have "write_event e fd an ?s = Inr (?s2\<lparr>sv_web := u, sv_timers := tls\<rparr>)"
      using wr1 u(1) False w(1) by (simp add: write_event_def Let_def)
    from that [OF turn [OF this refl]] idl show ?thesis using False u(2-4) sent by simp
  next
    case True
    have n: "nul_free (''send data to the client('' @ m_address ?c @ '')'')" "length (''send data to the client('' @ m_address ?c @ '')'') \<le> 1962"
      using adr by (simp_all add: in_addr_def)
    obtain v where v: "LOG_INFO_flush e (''send data to the client('' @ m_address ?c @ '')'') ?w = Inr v"
      "log_ready e v (Suc k)" "same_but_log ?w v" using LOG_INFO_flush_ok [OF lr n] by blast
    have i3: "inv n (?s2\<lparr>sv_web := v\<rparr>) xs []"
      using inv_web [OF i2, of v] LOG_INFO_flush_net [OF v(1)] by simp
    obtain u tls where u: "extend_timer e fd t (?s2\<lparr>sv_web := v\<rparr>) = Inr (?s2\<lparr>sv_web := v, sv_web := u, sv_timers := tls\<rparr>)"
      "same_but_log v u" "log_ready e u k"
      by (rule extend_timer_run [OF i3, where cur = t and k = k]) (use g v(2) w(2) in simp_all)
    have "write_event e fd an ?s = Inr (?s2\<lparr>sv_web := u, sv_timers := tls\<rparr>)"
      using wr1 v(1) u(1) True w(1) an(2) by (simp add: write_event_def Let_def)
    note run = turn [OF this refl]
    have uw: "same_but_log ?w u" using v(3) u(2) by (rule same_but_log_trans)
    have "registered (int fd) ?w" using reg by (simp add: modfd_registered)
    then have "registered (int fd) u" "wb_interest u (int fd) = Some (or EV_IN (or EV_ONESHOT EV_RDHUP))"
      using same_but_log_registered [OF uw, of "int fd"] same_but_log_simps(2) [OF uw] modfd_registered(1) [OF reg, of EV_IN]
      by simp_all
    then have "client_at fd EV_IN (?s2\<lparr>sv_web := u, sv_timers := tls, sv_batch := None\<rparr>)"
      using cl sock by (simp add: client_at_def own_def woken_by_def registered_def)
    then show ?thesis using that [OF run, of "sv_web ?s"] idl True sent same_but_log_simps(4,5) [OF uw] by simp
  qed
qed

subsection \<open>From the connection to the page\<close>

text \<open>The steps a client brings about: it connects, sends its request, and takes the answer.\<close>

definition accepts :: "nat \<Rightarrow> string \<Rightarrow> nat \<Rightarrow> int \<Rightarrow> answers" where
  "accepts fd ip timer t = \<lparr>an_accept = Accepted fd ip, an_recv = None, an_writev = [], an_time = t, an_new = timer\<rparr>"

definition receives :: "string \<Rightarrow> int \<Rightarrow> answers" where
  "receives bytes t = \<lparr>an_accept = Accept_failed 11, an_recv = Some bytes, an_writev = [], an_time = t, an_new = 0\<rparr>"

definition takes :: "nat \<Rightarrow> int \<Rightarrow> answers" where
  "takes n t = \<lparr>an_accept = Accept_failed 11, an_recv = None, an_writev = [W_took n], an_time = t, an_new = 0\<rparr>"

definition client_steps :: "nat \<Rightarrow> nat \<Rightarrow> string \<Rightarrow> nat \<Rightarrow> string \<Rightarrow> nat \<Rightarrow> int \<Rightarrow> int \<Rightarrow> int \<Rightarrow> main_step list" where
  "client_steps listenfd fd ip timer bytes n t1 t2 t3 =
     [Wait [(listenfd, EV_IN)], Handle (accepts fd ip timer t1), Round_end t1]
     @ [Wait [(fd, EV_IN)], Handle (receives bytes t2), Round_end t2]
     @ [Take, Work 0]
     @ [Wait [(fd, EV_OUT)], Handle (takes n t3), Round_end t3]"

lemmas answer_simps = accepts_def receives_def takes_def

text \<open>The connection and what is shared when a worker has prepared the answer to a GET.\<close>

definition prepared :: "env \<Rightarrow> nat \<Rightarrow> string \<Rightarrow> string \<Rightarrow> bool \<Rightarrow> string \<Rightarrow> web \<Rightarrow> http_conn \<Rightarrow> web \<Rightarrow> bool" where
  "prepared e fd h f keep ip v c w =
     (writing h f 0 c \<and> m_sockfd c = int fd \<and> m_linger c = keep \<and> m_address c = ip
      \<and> wb_flags w (int fd) \<noteq> None \<and> wb_interest w (int fd) = Some (or EV_OUT (or EV_ONESHOT EV_RDHUP))
      \<and> wb_sent w = wb_sent v \<and> m_user_count w = m_user_count v \<and> log_ready e w 2)"

lemma request_is_prepared:
  assumes "fresh c"
    and rq: "request_fits line hs body" "request_line_of line = Inr (Some (GET, t))" "content_length_of 0 hs = 0"
    and lg: "log_ready e w (2 * length hs + 8)"
    and page: "file_code e (file_of t) = FILE_REQUEST" "en_stat e (file_of t) = Some st" "small_file st"
      "en_open e (file_of t) = Some f" "int (length f) = st_size st"
    and "m_sockfd c = int fd" and "m_address c = ip" and "registered (int fd) w"
    and "wb_sent w = wb_sent v" and "m_user_count w = m_user_count v"
  shows "\<exists>d w'. process e ((with_bytes (request_bytes line hs body) c)\<lparr>mysql := my\<rparr>) w = Inr (d, w')
    \<and> prepared e fd (ok_header (st_size st) (linger_of hs)) f (linger_of hs) ip v d w'"
proof -
  let ?h = "ok_header (st_size st) (linger_of hs)"
  have l2: "log_ready e w (2 * length hs + 6 + 2)" using lg by (simp add: add.commute)
  obtain d w1 where p: "process e ((with_bytes (request_bytes line hs body) c)\<lparr>mysql := my\<rparr>) w
      = Inr (d, modfd (int fd) EV_OUT w1)" "same_but_log w w1" "log_ready e w1 2" "writing ?h f 0 d"
    "m_sockfd d = int fd" "m_linger d = linger_of hs" "m_address d = ip"
    by (rule get_is_prepared [OF assms(1) rq l2 page, of my, unfolded assms(11,12)]) (rule that)
  have r: "registered (int fd) w1" using assms(13) same_but_log_registered [OF p(2)] by simp
  have u: "wb_log (modfd (int fd) EV_OUT w1) = wb_log w1" "m_user_count (modfd (int fd) EV_OUT w1) = m_user_count w1"
    by (simp_all add: modfd_def)
  have "log_ready e (modfd (int fd) EV_OUT w1) 2" using p(3) log_ready_cong [OF u(1)] by simp
  moreover have "registered (int fd) (modfd (int fd) EV_OUT w1)" using modfd_registered(2) [OF r] .
  ultimately have "prepared e fd ?h f (linger_of hs) ip v d (modfd (int fd) EV_OUT w1)"
    using p(4-7) modfd_registered(1) [OF r] same_but_log_simps(4,5) [OF p(2)] assms(14,15) u(2)
    by (simp add: prepared_def registered_def)
  with p(1) show ?thesis by blast
qed

text \<open>From the connection to the answer that waits for its socket.\<close>

definition asking_steps :: "nat \<Rightarrow> nat \<Rightarrow> string \<Rightarrow> nat \<Rightarrow> string \<Rightarrow> int \<Rightarrow> int \<Rightarrow> main_step list" where
  "asking_steps listenfd fd ip timer bytes t1 t2 =
     [Wait [(listenfd, EV_IN)], Handle (accepts fd ip timer t1), Round_end t1]
     @ [Wait [(fd, EV_IN)], Handle (receives bytes t2), Round_end t2]
     @ [Take, Work 0]"

lemma client_is_prepared:
  assumes "main3 e bt = Inr (Serving s0)" and "boot_ok bt" and "served e s0 k s" and "idle s"
    and free: "wb_flags (sv_web s) (int fd) = None" "wb_interest (sv_web s) (int fd) = None" "fd < MAX_FD"
      "tl_heap (sv_timers s) timer = None" "m_user_count (sv_web s) < int MAX_FD" "in_addr ip"
    and time: "sv_now s \<le> t1" "t1 \<le> t2"
    and rq: "request_fits line hs body" "request_line_of line = Inr (Some (GET, t))" "content_length_of 0 hs = 0"
    and page: "file_code e (file_of t) = FILE_REQUEST" "en_stat e (file_of t) = Some st" "small_file st"
      "en_open e (file_of t) = Some f" "int (length f) = st_size st"
    and lg: "log_ready e (sv_web s) (2 * length hs + 10)"
  obtains s3 v where "server_run e (asking_steps (sv_listenfd s) fd ip timer (request_bytes line hs body) t1 t2) s = Inr s3"
    and "idle s3" and "prepared e fd (ok_header (st_size st) (linger_of hs)) f (linger_of hs) ip v (sv_conns s3 fd) (sv_web s3)"
    and "client_at fd EV_OUT s3" and "sv_now s3 = t2"
    and "wb_sent v (int fd) = []" and "m_user_count v = m_user_count (sv_web s) + 1"
proof -
  let ?h = "ok_header (st_size st) (linger_of hs)" and ?b = "request_bytes line hs body"
  note sv = server_run_served and inv' = idle_inv [OF assms(1,2)]
  obtain m0 xs0 where i0: "inv m0 s xs0 []" using inv' [OF assms(3,4)] by blast
  obtain s1 where s1: "server_run e [Wait [(sv_listenfd s, EV_IN)], Handle (accepts fd ip timer t1), Round_end t1] s = Inr s1"
    "idle s1" "client_at fd EV_IN s1" "fresh (sv_conns s1 fd)" "m_address (sv_conns s1 fd) = ip"
    "wb_sent (sv_web s1) (int fd) = []" "wb_log (sv_web s1) = wb_log (sv_web s)"
    "m_user_count (sv_web s1) = m_user_count (sv_web s) + 1" "sv_now s1 = t1"
    by (rule accept_turn [OF i0 assms(4), of "accepts fd ip timer t1" fd ip t1 timer e])
      (use free time in \<open>simp_all add: answer_simps\<close>)
  obtain k1 where k1: "served e s0 k1 s1" using sv [OF s1(1) assms(3)] by blast
  obtain m1 xs1 where i1: "inv m1 s1 xs1 []" using inv' [OF k1 s1(2)] by blast
  have l1: "log_ready e (sv_web s1) (2 * length hs + 8 + 2)" using lg log_ready_cong [OF s1(7)] by (simp add: add.commute)
  obtain s2 where s2: "server_run e [Wait [(fd, EV_IN)], Handle (receives ?b t2), Round_end t2] s1 = Inr s2" "queued fd s2"
    "sv_conns s2 fd = with_bytes ?b (sv_conns s1 fd)" "fd \<notin> own s2" "registered (int fd) (sv_web s2)"
    "wb_sent (sv_web s2) = wb_sent (sv_web s1)" "log_ready e (sv_web s2) (2 * length hs + 8)"
    "m_user_count (sv_web s2) = m_user_count (sv_web s1)" "sv_now s2 = t2"
    by (rule read_turn [OF i1 s1(2,3), of "receives ?b t2" t2 e _ "with_bytes ?b (sv_conns s1 fd)", OF _ _ l1])
      (use free(6) time s1(5,9) request_read_once [OF s1(4) rq(1)] in \<open>simp_all add: answer_simps answers_ok_def\<close>)
  obtain k2 where k2: "served e s0 k2 s2" using sv [OF s2(1) k1] by blast
  obtain xs2 where "server_ok k2 s2 xs2"
    using served_ok [OF k2 main3_ok(1) [OF assms(1,2)]] s2(2) by (auto simp: queued_def)
  then have q2: "tp_ok (sv_pool s2)" using s2(2) by (simp add: server_ok_def inv_def queue_ok_def queued_def)
  have sock: "m_sockfd (sv_conns s1 fd) = int fd" "fd < MAX_FD" using s1(3) by (simp_all add: client_at_def)
  let ?P = "prepared e fd ?h f (linger_of hs) ip (sv_web s1)"
  have pr: "\<exists>c w. process e ((sv_conns s2 fd)\<lparr>mysql := my\<rparr>) (sv_web s2) = Inr (c, w) \<and> ?P c w" for my
    unfolding s2(3) by (rule request_is_prepared [OF s1(4) rq s2(7) page sock(1) s1(5) s2(5,6,8)])
  obtain s3 where s3: "server_run e [Take, Work 0] s2 = Inr s3" "idle s3" "?P (sv_conns s3 fd) (sv_web s3)"
    "own s3 = own s2" "sv_now s3 = t2"
    by (rule work_run [OF s2(2) q2 served_dbs [OF k2 main3_dbs [OF assms(1)]] pr]) (use s2(9) that in simp_all)
  have "client_at fd EV_OUT s3" using s3(3,4) s2(4) sock(2) by (simp add: client_at_def prepared_def)
  moreover have "server_run e (asking_steps (sv_listenfd s) fd ip timer ?b t1 t2) s = Inr s3"
    unfolding asking_steps_def server_run_append [OF s1(1)] server_run_append [OF s2(1)] by (rule s3(1))
  ultimately show ?thesis using that s3(2,3,5) s1(6,8) by blast
qed

text \<open>
  C2. A client from its connection to its page, through every part of version\_03. In any state
  the server can reach in which the loop waits and nothing is in work, a client that connects
  gets a timer and a fresh connection; its GET is read, queued, taken by a worker that borrows
  a connection to the database, and answered; when the socket takes the answer it has the
  header and the file. The connection is then kept, ready for the next request, exactly when
  the client asked for it; if not, its socket is closed and the user is no longer counted.
\<close>

theorem client_is_served:
  assumes "main3 e bt = Inr (Serving s0)" and "boot_ok bt" and "served e s0 k s" and "idle s"
    and free: "wb_flags (sv_web s) (int fd) = None" "wb_interest (sv_web s) (int fd) = None" "fd < MAX_FD"
      "tl_heap (sv_timers s) timer = None" "m_user_count (sv_web s) < int MAX_FD" "in_addr ip"
    and time: "sv_now s \<le> t1" "t1 \<le> t2" "t2 \<le> t3"
    and rq: "request_fits line hs body" "request_line_of line = Inr (Some (GET, t))" "content_length_of 0 hs = 0"
    and page: "file_code e (file_of t) = FILE_REQUEST" "en_stat e (file_of t) = Some st" "small_file st"
      "en_open e (file_of t) = Some f" "int (length f) = st_size st"
    and n: "length (ok_header (st_size st) (linger_of hs)) + length f \<le> n"
    and lg: "log_ready e (sv_web s) (2 * length hs + 10)"
  shows "\<exists>s'. server_run e (client_steps (sv_listenfd s) fd ip timer (request_bytes line hs body) n t1 t2 t3) s = Inr s'
    \<and> idle s' \<and> wb_sent (sv_web s') (int fd) = ok_header (st_size st) (linger_of hs) @ f
    \<and> (if linger_of hs
       then client_at fd EV_IN s' \<and> fresh (sv_conns s' fd) \<and> m_user_count (sv_web s') = m_user_count (sv_web s) + 1
       else wb_flags (sv_web s') (int fd) = None \<and> m_user_count (sv_web s') = m_user_count (sv_web s))"
proof -
  let ?h = "ok_header (st_size st) (linger_of hs)" and ?b = "request_bytes line hs body"
  obtain s3 v0 where s3: "server_run e (asking_steps (sv_listenfd s) fd ip timer ?b t1 t2) s = Inr s3" "idle s3"
    "prepared e fd ?h f (linger_of hs) ip v0 (sv_conns s3 fd) (sv_web s3)" "client_at fd EV_OUT s3" "sv_now s3 = t2"
    "wb_sent v0 (int fd) = []" "m_user_count v0 = m_user_count (sv_web s) + 1"
    by (rule client_is_prepared [OF assms(1-4) free time(1,2) rq page lg])
  obtain k3 where k3: "served e s0 k3 s3" using server_run_served [OF s3(1) assms(3)] by blast
  obtain m3 xs3 where i3: "inv m3 s3 xs3 []" using idle_inv [OF assms(1,2) k3 s3(2)] by blast
  let ?c = "sv_conns s3 fd"
  have "\<exists>c'. http_write [W_took n] ?c w = Inr (Some (linger_of hs), c', modfd (int fd) EV_IN (put_out (int fd) (?h @ f) w))
      \<and> (linger_of hs \<longrightarrow> fresh c')" for w
    using all_pieces_sent [of ?h f 0 ?c "[n]" w] s3(3) n by (auto simp: prepared_def intro: fresh_if_init)
  then obtain c where c: "\<And>w. http_write [W_took n] ?c w
      = Inr (Some (linger_of hs), c w, modfd (int fd) EV_IN (put_out (int fd) (?h @ f) w))"
    "\<And>w. linger_of hs \<Longrightarrow> fresh (c w)" by metis
  have l3: "log_ready e (sv_web s3) (0 + 2)" using s3(3) by (simp add: prepared_def numeral_2_eq_2)
  obtain s4 v where s4: "server_run e [Wait [(fd, EV_OUT)], Handle (takes n t3), Round_end t3] s3 = Inr s4" "idle s4"
    "wb_sent (sv_web s4) (int fd) = wb_sent (sv_web s3) (int fd) @ ?h @ f"
    "linger_of hs \<Longrightarrow> client_at fd EV_IN s4 \<and> sv_conns s4 fd = c v \<and> m_user_count (sv_web s4) = m_user_count (sv_web s3)"
    "\<not> linger_of hs \<Longrightarrow> wb_flags (sv_web s4) (int fd) = None \<and> m_user_count (sv_web s4) = m_user_count (sv_web s3) - 1"
    by (rule write_turn [OF i3 s3(2,4), of "takes n t3" t3 e _ "linger_of hs" c "?h @ f", OF _ _ l3])
      (use free(6) time s3(3,5) c(1) in \<open>simp_all add: answer_simps answers_ok_def prepared_def\<close>)
  have "client_steps (sv_listenfd s) fd ip timer ?b n t1 t2 t3
      = asking_steps (sv_listenfd s) fd ip timer ?b t1 t2 @ [Wait [(fd, EV_OUT)], Handle (takes n t3), Round_end t3]"
    by (simp add: client_steps_def asking_steps_def)
  then have "server_run e (client_steps (sv_listenfd s) fd ip timer ?b n t1 t2 t3) s = Inr s4"
    using server_run_append [OF s3(1)] s4(1) by simp
  moreover have "wb_sent (sv_web s4) (int fd) = ?h @ f" using s4(3) s3(3,6) by (simp add: prepared_def)
  ultimately show ?thesis
    using s4(2,4,5) c(2) s3(3,7) by (auto simp: prepared_def)
qed

text \<open>The small server and its page.\<close>

lemma client_is_served_witness:
  "\<exists>s'. server_run site_env (client_steps 3 7 ''10.0.0.1'' 1 (request_bytes get_a a_headers []) 100 100 101 102) site_server = Inr s'
    \<and> wb_sent (sv_web s') 7 = ok_header 5 True @ ''hello'' \<and> fresh (sv_conns s' 7)"
proof -
  let ?st = "\<lparr>st_mode = 0x81A4, st_size = 5\<rparr>"
  have f: "en_stat site_env (file_of ''/a.html'') = Some ?st" "en_open site_env (file_of ''/a.html'') = Some ''hello''"
    by (simp_all add: site_env_def get_a_means)
  have "\<exists>s'. server_run site_env (client_steps (sv_listenfd site_server) 7 ''10.0.0.1'' 1 (request_bytes get_a a_headers []) 100 100 101 102) site_server = Inr s'
    \<and> idle s' \<and> wb_sent (sv_web s') (int 7) = ok_header (st_size ?st) (linger_of a_headers) @ ''hello''
    \<and> (if linger_of a_headers
       then client_at 7 EV_IN s' \<and> fresh (sv_conns s' 7) \<and> m_user_count (sv_web s') = m_user_count (sv_web site_server) + 1
       else wb_flags (sv_web s') (int 7) = None \<and> m_user_count (sv_web s') = m_user_count (sv_web site_server))"
  proof (rule client_is_served [OF site_main site_boot_ok served.started])
    show "file_code site_env (file_of ''/a.html'') = FILE_REQUEST"
      using f by (simp add: file_code_def S_IROTH_def S_ISDIR_def)
    show "log_ready site_env (sv_web site_server) (2 * length a_headers + 10)"
      by (rule site_log_ready) (simp add: a_headers_def)
    show "idle site_server" by (simp add: idle_def site_server_def)
    show "small_file ?st" by (simp add: small_file_def)
  qed (use f get_a_fits in \<open>simp_all add: get_a_means site_server_def MAX_FD_def in_addr_def\<close>)
  then show ?thesis by (auto simp: get_a_means site_server_def)
qed

end
