(* ===== verification/V3_HttpRefuse.thy ===== *)
theory V3_HttpRefuse
  imports V3_HttpServe
begin

section \<open>version\_03: requests that get no file\<close>

text \<open>
  The error pages, and the results of \<open>process_read\<close> for which the connection is closed
  without a byte.
\<close>

subsection \<open>Preparing a page, or closing\<close>

definition error_page :: "HTTP_CODE \<Rightarrow> bool \<Rightarrow> string" where
  "error_page code linger =
     (if code = FORBIDDEN_REQUEST then error_text 403 ''Forbidden'' error_403_form linger
      else if code = INTERNAL_ERROR then error_text 500 ''Internal Error'' error_500_form linger
      else error_text 404 ''Not Found'' error_404_form linger)"

lemma error_forms [simp]:
  "nul_free error_404_form" "nul_free error_403_form" "nul_free error_500_form"
  "length error_404_form < 100" "length error_403_form < 100" "length error_500_form < 100"
  by (simp_all add: error_404_form_def error_403_form_def error_500_form_def)

lemma process_write_error:
  assumes "code \<in> {BAD_REQUEST, FORBIDDEN_REQUEST, INTERNAL_ERROR}" and "with_answer [] d = d"
    and "log_ready e w (k + 5)"
  shows "\<exists>w'. process_write e code d w
      = Inr (True, one_iovec (with_answer (error_page code (m_linger d)) d), w')
    \<and> log_ready e w' k \<and> same_but_log w w'"
proof -
  note run = error_answer_run [OF _ _ _ _ _ _ assms(3), of _ _ _ d, unfolded assms(2)]
  show ?thesis using assms(1)
    run [of "''Not Found''" error_404_form 404] run [of "''Forbidden''" error_403_form 403]
    run [of "''Internal Error''" error_500_form 500]
    by (auto simp: process_write_def error_page_def)
qed

text \<open>\<open>process\<close> has prepared the page \<open>s\<close> and waits until the socket \<open>fd\<close> can be written.\<close>

definition gets_page :: "env \<Rightarrow> http_conn \<Rightarrow> web \<Rightarrow> int \<Rightarrow> string \<Rightarrow> bool" where
  "gets_page e c w fd s = (\<exists>c2 w1. process e c w = Inr (c2, modfd fd EV_OUT w1) \<and> same_but_log w w1
     \<and> page_waits s c2)"

lemma process_error:
  assumes "process_read e c w = Inr (code, d, w')" and "code \<in> {BAD_REQUEST, FORBIDDEN_REQUEST, INTERNAL_ERROR}"
    and "with_answer [] d = d" and "log_ready e w' 5" and "same_but_log w w'" and "bytes_have_send d = 0"
    and "m_sockfd d = fd"
  shows "gets_page e c w fd (error_page code (m_linger d))"
proof -
  let ?c = "one_iovec (with_answer (error_page code (m_linger d)) d)"
  obtain w1 where w1: "process_write e code d w' = Inr (True, ?c, w1)" "same_but_log w' w1"
    using process_write_error [OF assms(2,3), of e w' 0] assms(4) by auto
  have f: "m_sockfd ?c = fd" using assms(7) by (simp add: one_iovec_def)
  have "process e c w = Inr (?c, modfd fd EV_OUT w1)"
    using assms(1,2) w1(1) f by (auto simp: process_def)
  moreover have "page_waits (error_page code (m_linger d)) ?c" using assms(6) by (simp add: error_page_waits)
  ultimately show ?thesis
    using same_but_log_trans [OF assms(5) w1(2)] unfolding gets_page_def by blast
qed

text \<open>The connection is closed and nobody waits for its socket.\<close>

definition closed_without_answer :: "int \<Rightarrow> web \<Rightarrow> http_conn \<Rightarrow> web \<Rightarrow> bool" where
  "closed_without_answer fd w c2 w2 =
     (m_sockfd c2 = -1 \<and> wb_flags w2 = (wb_flags w)(fd := None) \<and> wb_interest w2 = (wb_interest w)(fd := None)
      \<and> wb_sent w2 = wb_sent w \<and> m_user_count w2 = m_user_count w - 1)"

lemma close_and_modfd:
  assumes "m_sockfd c = fd" and "fd \<noteq> -1" and "same_but_log w w'" and "wb_flags w (-1) = None"
  shows "closed_without_answer fd w (fst (close_conn True c w'))
    (modfd (m_sockfd (fst (close_conn True c w'))) EV_OUT (snd (close_conn True c w')))"
  using assms same_but_log_simps [OF assms(3)]
  by (simp add: closed_without_answer_def close_conn_def removefd_def close_fd3_def modfd_def Let_def)

lemma process_close:
  assumes "process_read e c w = Inr (code, d, w')" and "code \<noteq> NO_REQUEST"
    and "process_write e code d w' = Inr (False, d', w1)"
    and "m_sockfd d' = fd" and "fd \<noteq> -1" and "same_but_log w w1" and "wb_flags w (-1) = None"
  shows "\<exists>c2 w2. process e c w = Inr (c2, w2) \<and> closed_without_answer fd w c2 w2"
  using close_and_modfd [OF assms(4-7)] assms(1-3)
  by (cases "close_conn True d' w1") (auto simp: process_def)

lemma process_write_empty_file:
  assumes "st_size (m_file_stat d) = 0" and "with_answer [] d = d" and "log_ready e w (k + 5)"
  shows "\<exists>d' w'. process_write e FILE_REQUEST d w = Inr (False, d', w') \<and> m_sockfd d' = m_sockfd d
    \<and> same_but_log w w'"
proof -
  have ok: "nul_free ok_string" "length ok_string < 100" by (simp_all add: ok_string_def)
  have lo: "int (length ok_string) = 26" by (simp add: ok_string_def)
  have d: "with_answer [] d = d" "st_size (m_file_stat d) = 0" using assms by simp_all
  show ?thesis
    by (rule answer_parts_run [OF _ ok(1) _ ok(2) _ _ assms(3), of "''OK''" 200 d])
      (auto simp: process_write_def d)
qed

lemma process_read_bad_line:
  assumes "fresh c" and "request_fits line hs body" and "request_line_of line = Inr None"
    and "log_ready e w (Suc k)"
  shows "\<exists>d w'. process_read e (with_bytes (request_bytes line hs body) c) w = Inr (BAD_REQUEST, d, w')
    \<and> log_ready e w' k \<and> same_but_log w w' \<and> with_answer [] d = d \<and> m_linger d = False
    \<and> bytes_have_send d = 0 \<and> m_sockfd d = m_sockfd c"
proof -
  let ?c = "with_bytes (request_bytes line hs body) c"
  let ?rest = "header_lines hs @ crlf @ body @ replicate (2048 - length (request_bytes line hs body)) NUL"
  have h: "head_in_buffer line hs (body @ replicate (2048 - length (request_bytes line hs body)) NUL) ?c"
    using assms(1,2) by (rule request_in_buffer)
  then have at: "at_line [] line ?rest ?c" and st: "m_check_state ?c \<noteq> CHECK_STATE_CONTENT"
    and n: "nul_free line" "length line \<le> 1962" and req: "m_check_state ?c = CHECK_STATE_REQUESTLINE"
    by (simp_all add: head_in_buffer_def at_line_def plain_text_def)
  obtain w1 where w1: "LOG_INFO_flush e line w = Inr w1" "log_ready e w1 k" "same_but_log w w1"
    using LOG_INFO_flush_ok [OF assms(4) n] by blast
  let ?d = "took_line [] line ?rest ?c"
  have "holds (m_read_buf ?d) 0 line" using holdsI [OF n(1), of "[]" NUL ?rest] by (simp add: took_line_def)
  from parse_request_line_answered [OF this] assms(3) obtain d where
    d: "parse_request_line 0 ?d = Inr (BAD_REQUEST, d)" "line_parsed ?d d" by (auto simp: line_answered_def)
  have "process_read e ?c w = Inr (BAD_REQUEST, d, w1)"
    using read_loop_at_line [OF at st w1(1)] d(1) req
    by (simp add: process_read_def header_turn_def took_line_def)
  moreover have "with_answer [] d = d"
    using line_parsed_fields(8,9) [OF d(2)] fresh_fields(6,7) [OF assms(1)]
    by (intro with_answer_Nil) (simp_all add: took_line_def with_bytes_def)
  moreover have "m_linger d = False" "bytes_have_send d = 0" "m_sockfd d = m_sockfd c"
    using line_parsed_fields(4,7,11) [OF d(2)] fresh_fields(10,12) [OF assms(1)]
    by (simp_all add: took_line_def with_bytes_def)
  ultimately show ?thesis using w1 by blast
qed

subsection \<open>What a client gets\<close>

lemma file_code_cases:
  obtains (refused) "file_code e f = BAD_REQUEST \<or> file_code e f = FORBIDDEN_REQUEST"
    | (missing) "file_code e f = NO_RESOURCE"
    | (found) st where "file_code e f = FILE_REQUEST" "en_stat e f = Some st"
proof (cases "en_stat e f")
  case None
  then show thesis using missing by (simp add: file_code_def)
next
  case (Some st)
  then have "file_code e f \<in> {FORBIDDEN_REQUEST, BAD_REQUEST, FILE_REQUEST}" by (simp add: file_code_def)
  then show thesis using refused found Some by auto
qed

text \<open>
  C32. A request line that is none gets the 404 page, and so does a directory: the 400 page is
  never used. A file that others may not read gets the 403 page. A file that does not exist
  gets no page at all, and neither does an empty one, whose prepared answer is thrown away:
  the socket is closed without a byte.
\<close>

theorem requests_without_file:
  assumes "fresh c" and "request_fits line hs body" and "log_ready e w (2 * length hs + 7)"
    and "m_sockfd c \<noteq> -1" and "wb_flags w (-1) = None"
  shows "(request_line_of line = Inr None \<longrightarrow>
      gets_page e (with_bytes (request_bytes line hs body) c) w (m_sockfd c)
        (error_text 404 ''Not Found'' error_404_form False))
    \<and> (\<forall>t. request_line_of line = Inr (Some (GET, t)) \<and> content_length_of 0 hs = 0 \<longrightarrow>
      (case file_code e (file_of t) of
        BAD_REQUEST \<Rightarrow>
          gets_page e (with_bytes (request_bytes line hs body) c) w (m_sockfd c)
            (error_text 404 ''Not Found'' error_404_form (linger_of hs))
      | FORBIDDEN_REQUEST \<Rightarrow>
          gets_page e (with_bytes (request_bytes line hs body) c) w (m_sockfd c)
            (error_text 403 ''Forbidden'' error_403_form (linger_of hs))
      | _ \<Rightarrow> (\<exists>st. en_stat e (file_of t) = Some st \<and> st_size st \<noteq> 0)
          \<or> (\<exists>c2 w2. process e (with_bytes (request_bytes line hs body) c) w = Inr (c2, w2)
              \<and> closed_without_answer (m_sockfd c) w c2 w2)))"
proof (intro conjI impI allI, goal_cases)
  case 1
  have "log_ready e w (Suc 5)" using assms(3) by (rule log_ready_mono) simp
  from process_read_bad_line [OF assms(1,2) 1 this] obtain d w' where
    d: "process_read e (with_bytes (request_bytes line hs body) c) w = Inr (BAD_REQUEST, d, w')"
    "log_ready e w' 5" "same_but_log w w'" "with_answer [] d = d" "m_linger d = False" "bytes_have_send d = 0"
    "m_sockfd d = m_sockfd c" by blast
  show ?case using process_error [OF d(1) _ d(4,2,3,6,7)] d(5) by (auto simp: error_page_def)
next
  case (2 t)
  let ?f = "file_of t" and ?c = "with_bytes (request_bytes line hs body) c"
  have lg: "log_ready e w (2 * length hs + 2 + 5)" using assms(3) by (simp add: eval_nat_numeral)
  obtain w' d0 where d0: "log_ready e w' 5" "same_but_log w w'"
    "process_read e ?c w = Inr (file_code e ?f, opened e ?f d0, w')"
    "with_answer [] (opened e ?f d0) = opened e ?f d0"
    "m_linger d0 = linger_of hs" "m_sockfd d0 = m_sockfd c" "bytes_have_send d0 = 0"
    by (rule process_read_plain [OF assms(1,2) conjunct1 [OF 2] lg conjunct2 [OF 2]]) simp_all
  define d where "d = opened e ?f d0"
  have d: "process_read e ?c w = Inr (file_code e ?f, d, w')" "with_answer [] d = d" "m_linger d = linger_of hs"
    "m_sockfd d = m_sockfd c" "bytes_have_send d = 0" using d0 by (simp_all add: d_def)
  note page = process_error [OF d(1) _ d(2) d0(1,2) d(5,4)]
  show ?case
  proof (cases rule: file_code_cases [of e ?f])
    case refused
    then show ?thesis using page d(3) by (auto simp: error_page_def)
  next
    case missing
    then have "process_write e (file_code e ?f) d w' = Inr (False, d, w')" by (simp add: process_write_def)
    from process_close [OF d(1) _ this d(4) assms(4) d0(2) assms(5)] missing show ?thesis by simp
  next
    case (found st)
    show ?thesis
    proof (cases "st_size st = 0")
      case True
      have "st_size (m_file_stat d) = 0" using opened_file(1) [OF found] True by (simp add: d_def)
      from process_write_empty_file [OF this d(2), of e w' 0] d0(1) obtain d' w1 where
        "process_write e (file_code e ?f) d w' = Inr (False, d', w1)" "m_sockfd d' = m_sockfd c" "same_but_log w' w1"
        using found(1) d(4) by auto
      with process_close [OF d(1) _ this(1,2) assms(4) same_but_log_trans [OF d0(2)] assms(5)] found
      show ?thesis by simp
    qed (use found in simp)
  qed
qed

definition get_b :: string where "get_b = ''GET /b.html HTTP/1.1''"

lemma requests_without_file_witness:
  "\<exists>c2 w2. process site_env (with_bytes (request_bytes get_b a_headers []) site_conn) site_web = Inr (c2, w2)
    \<and> closed_without_answer 7 site_web c2 w2"
proof -
  have c: "fresh site_conn" "m_sockfd site_conn = 7" by (simp_all add: site_conn_def idle_conn_def)
  have "request_line_of get_b = Inr (Some (GET, ''/b.html''))" "content_length_of 0 a_headers = 0"
    "request_fits get_b a_headers []" "file_of ''/b.html'' \<noteq> hello_page" by code_simp+
  moreover have "log_ready site_env site_web (2 * length a_headers + 7)"
    by (rule log_ready_site) (simp add: a_headers_def)
  moreover have "wb_flags site_web (-1) = None" by (simp add: site_web_def)
  moreover have "en_stat site_env f = None" if "f \<noteq> hello_page" for f using that by (simp add: site_env_def)
  ultimately show ?thesis
    using requests_without_file [OF c(1), of get_b a_headers "[]" site_env site_web] c(2)
    by (simp add: file_code_def)
qed

end
