(* ===== verification/V3_MainStale.thy ===== *)
theory V3_MainStale
  imports V3_MainTurn V3_HttpRefuse
begin

section \<open>version\_03: a timer that outlives its connection\<close>

text \<open>
  A worker that gives a connection up closes its socket and leaves its timer. The kernel hands
  the descriptor to the next client, which the old timer then closes.
\<close>

lemma give_up_frame:
  assumes "run_request e i s = Inr s'" and "client_ok s i"
    and "m_sockfd (sv_conns s i) \<noteq> -1" and "m_sockfd (sv_conns s' i) = -1"
  shows "wb_flags (sv_web s') = (wb_flags (sv_web s))(int i := None)"
    "m_user_count (sv_web s') = m_user_count (sv_web s) - 1" "sv_timers s' = sv_timers s"
    "sv_pipe s' = sv_pipe s" "sv_batch s' = sv_batch s" "sv_stop s' = sv_stop s" "sv_over s' = sv_over s"
    "sv_now s' = sv_now s" "sv_pipefd0 s' = sv_pipefd0 s" "sv_listenfd s' = sv_listenfd s"
proof -
  obtain con c' w p' where p: "process e ((sv_conns s i)\<lparr>mysql := con\<rparr>) (sv_web s) = Inr (c', w)"
    "s' = s\<lparr>sv_conns := (sv_conns s)(i := c'), sv_web := w, sv_dbs := p'\<rparr>"
    using assms(1) by (auto simp: run_request_def connectionRAII_def bindr_eq_Inr)
  have sock: "m_sockfd (sv_conns s i) = int i" using assms(2,3) by (auto simp: client_ok_def)
  have "gives_up ((sv_conns s i)\<lparr>mysql := con\<rparr>) (sv_web s) c' w"
    using process_net [OF p(1)] assms(3,4) p(2) by (auto simp: keeps_socket_def)
  then show "wb_flags (sv_web s') = (wb_flags (sv_web s))(int i := None)"
    "m_user_count (sv_web s') = m_user_count (sv_web s) - 1"
    using sock by (simp_all add: gives_up_def p(2))
  show "sv_timers s' = sv_timers s"
    "sv_pipe s' = sv_pipe s" "sv_batch s' = sv_batch s" "sv_stop s' = sv_stop s" "sv_over s' = sv_over s"
    "sv_now s' = sv_now s" "sv_pipefd0 s' = sv_pipefd0 s" "sv_listenfd s' = sv_listenfd s"
    by (simp_all add: p(2))
qed

lemma take_signals_frame:
  "sv_web (fold take_signal l s) = sv_web s" "sv_timers (fold take_signal l s) = sv_timers s"
  "sv_batch (fold take_signal l s) = sv_batch s" "sv_now (fold take_signal l s) = sv_now s"
  "sv_listenfd (fold take_signal l s) = sv_listenfd s" "sv_over (fold take_signal l s) = sv_over s"
  by (induction l arbitrary: s) (auto simp: take_signal_def)

text \<open>A turn that reads a signal and accepts a client.\<close>

lemma signal_and_accept:
  assumes i: "inv n s xs []" and run: "sv_batch s = None" "\<not> sv_stop s" "\<not> sv_over s"
    and sig: "word_of_int SIGALRM \<in> set (take 1024 (sv_pipe s))"
    and an: "an_accept an = Accepted fd ip" "wb_flags (sv_web s) (int fd) = None" "fd < MAX_FD"
      "tl_heap (sv_timers s) (an_new an) = None" "sv_now s \<le> an_time an"
    and cnt: "m_user_count (sv_web s) < int MAX_FD"
  shows "\<exists>s2 s3 s4. server_step e (Wait [(sv_pipefd0 s, EV_IN), (sv_listenfd s, EV_IN)]) s = Inr s2
    \<and> server_step e (Handle an) s2 = Inr s3 \<and> server_step e (Handle an) s3 = Inr s4
    \<and> timers_in (sv_timers s4) (ins_timer (an_new an, an_time an + 3 * TIMESLOT, fd) xs)
    \<and> wb_flags (sv_web s4) (int fd) \<noteq> None \<and> m_user_count (sv_web s4) = m_user_count (sv_web s) + 1
    \<and> sv_batch s4 = Some [] \<and> sv_timeout s4 \<and> sv_now s4 = an_time an \<and> \<not> sv_over s4
    \<and> wb_log (sv_web s4) = wb_log (sv_web s)"
proof -
  let ?evs = "[(sv_pipefd0 s, EV_IN), (sv_listenfd s, EV_IN)]"
  have o: "own_ok s" using i by (simp add: inv_def)
  then have "list_all (reportable s) ?evs" and ne: "sv_pipefd0 s \<noteq> sv_listenfd s"
    by (auto simp: own_ok_def own_def reportable_def EV_IN_def EV_OUT_def EV_RDHUP_def EV_HUP_def EV_ERR_def)
  define s2 where "s2 = s\<lparr>sv_batch := Some ?evs, sv_web := reported ?evs (sv_web s)\<rparr>"
  have 2: "server_step e (Wait ?evs) s = Inr s2"
    using run \<open>list_all (reportable s) ?evs\<close> ne by (simp add: server_step_def MAX_EVENT_NUMBER_def s2_def)
  define s3 where "s3 = signal_event (s2\<lparr>sv_batch := Some [(sv_listenfd s, EV_IN)], sv_now := an_time an\<rparr>)"
  have "answers_ok an s2" using an by (simp add: answers_ok_def s2_def reported_def)
  then have 3: "server_step e (Handle an) s2 = Inr s3"
    using run(3) ne by (simp add: server_step_def s2_def s3_def handle_event3_def EV_IN_def EV_RDHUP_def EV_HUP_def EV_ERR_def)
  have f: "sv_web s3 = reported ?evs (sv_web s)" "sv_timers s3 = sv_timers s" "sv_now s3 = an_time an"
    "sv_batch s3 = Some [(sv_listenfd s, EV_IN)]" "sv_listenfd s3 = sv_listenfd s" "sv_over s3 = sv_over s" "sv_timeout s3"
    using sig by (simp_all add: s3_def s2_def signal_event_def take_signals take_signals_frame)
  have h: "timers_held (sv_timers s3) xs" using i by (simp add: inv_def timers_ok_def f(2))
  let ?t = "an_time an + 3 * TIMESLOT"
  obtain q' where q': "start_timer (an_new an) ?t fd (sv_timers s3) = Inr q'"
    "timers_held q' (ins_timer (an_new an, ?t, fd) xs)"
    using tls.add_law [OF h, of "an_new an" ?t fd] an(4) f(2) by auto
  obtain c w where c: "http_init (int fd) ip (sv_conns s3 fd) (accepted fd (sv_web s3)) = (c, w)"
    by (cases "http_init (int fd) ip (sv_conns s3 fd) (accepted fd (sv_web s3))")
  define s4 where "s4 = (s3\<lparr>sv_batch := Some [], sv_now := an_time an\<rparr>)\<lparr>sv_web := w, sv_conns := (sv_conns s3)(fd := c),
      sv_clients := (sv_clients s3)(fd := \<lparr>cd_address = ip, cd_sockfd = int fd, cd_timer = Some (an_new an)\<rparr>),
      sv_timers := q'\<rparr>"
  have "\<not> m_user_count (sv_web s3) \<ge> int MAX_FD" using cnt by (simp add: f(1) reported_def)
  moreover have "answers_ok an s3" using an by (simp add: answers_ok_def f reported_def)
  ultimately have 4: "server_step e (Handle an) s3 = Inr s4"
    using run(3) f an(1,3) q'(1) c
    by (simp add: server_step_def handle_event3_def accept_event_def new_client_def accepted_def start_timer_def s4_def)
  note k = http_init_net [OF c]
  have l: "wb_log w = wb_log (sv_web s)"
    using c by (auto simp: http_init_def Let_def accepted_def f(1) reported_def)
  have "wb_flags w (int fd) \<noteq> None" using k(4) [of "int fd"] by (simp add: accepted_def)
  moreover have "m_user_count w = m_user_count (sv_web s) + 1" using k(2) by (simp add: accepted_def f(1) reported_def)
  ultimately show ?thesis
    using 2 3 4 q'(2) l f run(3)
    by (intro exI [of _ s2] exI [of _ s3] exI [of _ s4]) (simp add: s4_def timers_held_def)
qed

text \<open>
  C40. A connection that a worker closes by itself (for a file that does not exist, an empty file)
  keeps its timer. When the next client gets the same descriptor before that timer expires,
  the tick that finds it expired closes the socket of the new client, although its own timer
  has time left, and its own timer stays in the list for a socket that is closed.
  \<open>m_user_count\<close> is reduced by the worker and again by the old timer.
\<close>

theorem stale_timer_closes_next_client:
  assumes "main3 e bt = Inr (Serving s0)" and "boot_ok bt" and "served e s0 n s" and "\<not> sv_over s"
    and "sv_batch s = None" and "\<not> sv_stop s"
    and work: "k < length (sv_busy s)" "sv_busy s ! k = fd" "server_step e (Work k) s = Inr s1"
    and "m_sockfd (sv_conns s fd) \<noteq> -1" and "m_sockfd (sv_conns s1 fd) = -1"
    and "timers_in (sv_timers s) xs" and "(a, t, fd) \<in> set xs" and "t \<le> cur"
    and "word_of_int SIGALRM \<in> set (take 1024 (sv_pipe s))"
    and "an_accept an = Accepted fd ip" and "tl_heap (sv_timers s) (an_new an) = None"
    and "sv_now s \<le> an_time an" and "an_time an \<le> cur" and "cur < an_time an + 3 * TIMESLOT"
    and "m_user_count (sv_web s) \<le> int MAX_FD" and "log_ready e (sv_web s1) (length xs + 2)"
  shows "\<exists>s2 s3 s4 s5 ys. server_step e (Wait [(sv_pipefd0 s, EV_IN), (sv_listenfd s, EV_IN)]) s1 = Inr s2
    \<and> server_step e (Handle an) s2 = Inr s3 \<and> server_step e (Handle an) s3 = Inr s4
    \<and> wb_flags (sv_web s4) (int fd) \<noteq> None \<and> m_user_count (sv_web s4) = m_user_count (sv_web s)
    \<and> server_step e (Round_end cur) s4 = Inr s5 \<and> wb_flags (sv_web s5) (int fd) = None
    \<and> timers_in (sv_timers s5) ys \<and> (an_new an, an_time an + 3 * TIMESLOT, fd) \<in> set ys
    \<and> m_user_count (sv_web s5) = m_user_count (sv_web s) - int (length (filter (\<lambda>x. expire x \<le> cur) xs))"
proof -
  let ?b = "take k (sv_busy s) @ drop (Suc k) (sv_busy s)" and ?new = "(an_new an, an_time an + 3 * TIMESLOT, fd)"
  have i: "inv n s xs []" using served_inv [OF assms(1-4,12)] assms(5) by simp
  then have q: "client_ok s fd" using work(1,2) by (auto simp: inv_def queue_ok_def)
  have r: "run_request e fd (s\<lparr>sv_busy := ?b\<rparr>) = Inr s1"
    using work assms(4) by (simp add: server_step_def)
  have q': "client_ok (s\<lparr>sv_busy := ?b\<rparr>) fd" using q by (simp add: client_ok_def own_def)
  note f = give_up_frame [OF r q', simplified, OF assms(10,11)]
  obtain n1 where sv: "served e s0 n1 s1" using served.step [OF assms(3) work(3)] by blast
  have i1: "inv n1 s1 xs []"
    using served_inv [OF assms(1,2) sv _ ] assms(4,5,12) f by fastforce
  have "wb_flags (sv_web s1) (int fd) = None" by (simp add: f(1))
  moreover have "fd < MAX_FD" using q by (simp add: client_ok_def)
  ultimately have sa: "\<exists>s2 s3 s4. server_step e (Wait [(sv_pipefd0 s1, EV_IN), (sv_listenfd s1, EV_IN)]) s1 = Inr s2
    \<and> server_step e (Handle an) s2 = Inr s3 \<and> server_step e (Handle an) s3 = Inr s4
    \<and> timers_in (sv_timers s4) (ins_timer ?new xs)
    \<and> wb_flags (sv_web s4) (int fd) \<noteq> None \<and> m_user_count (sv_web s4) = m_user_count (sv_web s1) + 1
    \<and> sv_batch s4 = Some [] \<and> sv_timeout s4 \<and> sv_now s4 = an_time an \<and> \<not> sv_over s4
    \<and> wb_log (sv_web s4) = wb_log (sv_web s1)"
    using assms(4-6,15-18,21) f by (intro signal_and_accept [OF i1]) simp_all
  then obtain s2 s3 s4 where s: "server_step e (Wait [(sv_pipefd0 s1, EV_IN), (sv_listenfd s1, EV_IN)]) s1 = Inr s2"
    "server_step e (Handle an) s2 = Inr s3" "server_step e (Handle an) s3 = Inr s4"
    "timers_in (sv_timers s4) (ins_timer ?new xs)"
    "wb_flags (sv_web s4) (int fd) \<noteq> None" "m_user_count (sv_web s4) = m_user_count (sv_web s1) + 1"
    "sv_batch s4 = Some []" "sv_timeout s4" "sv_now s4 = an_time an" "\<not> sv_over s4"
    "wb_log (sv_web s4) = wb_log (sv_web s1)" by blast
  obtain n4 where "served e s0 n4 s4"
    using served.step [OF served.step [OF served.step [OF sv s(1)] s(2)] s(3)] by blast
  from served_inv [OF assms(1,2) this s(10,4)] have i4: "inv n4 s4 (ins_timer ?new xs) []" using s(7) by simp
  have "log_ready e (sv_web s4) (Suc (length (ins_timer ?new xs)))"
    using assms(22) log_ready_cong [OF s(11), of e] by simp
  from round_end_run [OF i4 s(10,7,8) _ this, of cur] s(9) assms(19) obtain s5 where s5:
    "server_step e (Round_end cur) s4 = Inr s5"
    "timers_in (sv_timers s5) (filter (\<lambda>x. cur < expire x) (ins_timer ?new xs))"
    "\<forall>fd'. wb_flags (sv_web s5) (int fd') = (if \<exists>a t. (a, t, fd') \<in> set (ins_timer ?new xs) \<and> t \<le> cur
        then None else wb_flags (sv_web s4) (int fd'))"
    "m_user_count (sv_web s5) = m_user_count (sv_web s4) - int (length (filter (\<lambda>x. expire x \<le> cur) (ins_timer ?new xs)))"
    by auto
  have "wb_flags (sv_web s5) (int fd) = None" using spec [OF s5(3), of fd] assms(13,14) by auto
  moreover have "?new \<in> set (filter (\<lambda>x. cur < expire x) (ins_timer ?new xs))" using assms(20) by simp
  moreover have "filter (\<lambda>x. expire x \<le> cur) (ins_timer ?new ys) = filter (\<lambda>x. expire x \<le> cur) ys" for ys
    using assms(20) by (induction ys) auto
  ultimately show ?thesis
    using s(1-6) s5(1,2,4) f(2,9,10)
    by (intro exI [of _ s2] exI [of _ s3] exI [of _ s4] exI [of _ s5]
        exI [of _ "filter (\<lambda>x. cur < expire x) (ins_timer ?new xs)"]) simp
qed

subsection \<open>It happens\<close>

text \<open>
  The client of the small server asks for a file that does not exist; an alarm goes off before
  the worker looks at the request.
\<close>

definition site_reads :: answers where
  "site_reads = \<lparr>an_accept = Accept_failed 11, an_recv = Some (request_bytes get_b [] []), an_writev = [],
     an_time = 100, an_new = 9\<rparr>"

definition site_asked :: http_conn where
  "site_asked = with_bytes (request_bytes get_b [] []) site_conn7"

definition site_asks :: "web \<Rightarrow> server" where
  "site_asks w = site_accepted\<lparr>sv_batch := Some [], sv_conns := (\<lambda>_. idle_conn)(7 := site_asked), sv_web := w,
     sv_pool := (sv_pool site_server)\<lparr>m_workqueue := [Some 7], m_queuestat := 1\<rparr>\<rparr>"

definition site_busy :: "web \<Rightarrow> server" where
  "site_busy w = site_accepted\<lparr>sv_batch := None, sv_conns := (\<lambda>_. idle_conn)(7 := site_asked), sv_web := w,
     sv_busy := [7], sv_alarm := False, sv_pipe := [14]\<rparr>"

definition site_waits :: server where
  "site_waits = site_accepted\<lparr>sv_batch := Some [(7, EV_IN)],
     sv_web := (sv_web site_accepted)\<lparr>wb_interest := (wb_interest (sv_web site_accepted))(7 \<mapsto> EV_ONESHOT)\<rparr>\<rparr>"

lemma site_waits_step:
  "server_step site_env (Wait [(7, EV_IN)]) (site_accepted\<lparr>sv_batch := None\<rparr>) = Inr site_waits"
  by (simp add: server_step_def site_waits_def site_accepted_def site_server_def reportable_def reported_def disarm_def
      EV_IN_def EV_OUT_def EV_RDHUP_def EV_ONESHOT_def EV_HUP_def EV_ERR_def MAX_EVENT_NUMBER_def)

lemma site_conn7_fresh: "fresh site_conn7" "m_sockfd site_conn7 = 7" "m_address site_conn7 = ''10.0.0.1''"
  by (simp_all add: site_conn7_def) (simp_all add: http_init0_def)

lemma get_b_fits: "request_fits get_b [] []" "request_line_of get_b = Inr (Some (GET, ''/b.html''))"
    "content_length_of 0 [] = 0" "file_of ''/b.html'' \<noteq> hello_page"
  by code_simp+

lemma site_read_step:
  "\<exists>w. server_step site_env (Handle site_reads) site_waits = Inr (site_asks w) \<and> log_ready site_env w 700000
    \<and> net w = net (sv_web site_waits)"
proof -
  have r: "read_once (an_recv site_reads) (sv_conns site_waits 7) = Inr (True, site_asked)"
    using read_once_fresh [OF site_conn7_fresh(1), of "request_bytes get_b [] []"] get_b_fits(1)
    by (simp add: site_waits_def site_accepted_def site_reads_def site_asked_def request_fits_def request_bytes_def)
  have l: "log_ready site_env (sv_web site_waits) (Suc (Suc 700000))"
    by (subst log_ready_cong [of _ "sv_web site_server"]) (simp_all add: site_waits_def site_accepted_def site_log_ready)
  have a: "m_address site_asked = ''10.0.0.1''" by (simp add: site_asked_def with_bytes_def site_conn7_fresh)
  have "in_addr ''10.0.0.1''" by (simp add: in_addr_def)
  from client_line_ok [OF l this, of "''deal with the client(''"] obtain w1 where w1:
    "LOG_INFO_flush site_env ''deal with the client(10.0.0.1)'' (sv_web site_waits) = Inr w1"
    "log_ready site_env w1 (Suc 700000)" "net w1 = net (sv_web site_waits)" by auto
  obtain w where w: "LOG_INFO_flush site_env ''adjust timer once'' w1 = Inr w" "log_ready site_env w 700000"
    using LOG_INFO_flush_ok [OF w1(2), of "''adjust timer once''"] by auto
  have "net w = net (sv_web site_waits)" using LOG_INFO_flush_net [OF w(1)] w1(3) by simp
  moreover have "server_step site_env (Handle site_reads) site_waits = Inr (site_asks w)"
    using r w1(1) w(1) a
    by (simp add: server_step_def handle_event3_def read_event_def append_request_def append_locked_def sem_post_def
        extend_timer_def adjust_timer_def ut_load_def site_asks_def answers_ok_def
        site_waits_def site_accepted_def site_server_def site_reads_def EV_IN_def EV_RDHUP_def EV_HUP_def EV_ERR_def
        MAX_FD_def TIMESLOT_def Let_def)
  ultimately show ?thesis using w(2) by blast
qed

lemma site_busy_steps:
  "server_step site_env Take (site_asks w) = Inr ((site_busy w)\<lparr>sv_batch := Some [], sv_alarm := True, sv_pipe := []\<rparr>)"
  "server_step site_env (Round_end 100) ((site_busy w)\<lparr>sv_batch := Some [], sv_alarm := True, sv_pipe := []\<rparr>)
     = Inr ((site_busy w)\<lparr>sv_alarm := True, sv_pipe := []\<rparr>)"
  "server_step site_env (Signal SIGALRM) ((site_busy w)\<lparr>sv_alarm := True, sv_pipe := []\<rparr>) = Inr (site_busy w)"
  by (simp_all add: server_step_def site_asks_def site_busy_def site_accepted_def site_server_def take_request_def
      wait_and_take_def take_locked_def sem_wait_def sig_handler_def SIGALRM_def SIGTERM_def SIGPIPE_def)

lemma site_busy_served:
  obtains w n where "served site_env site_server n (site_busy w)" "log_ready site_env w 700000"
    "net w = net (sv_web site_waits)"
proof -
  obtain w where w: "server_step site_env (Handle site_reads) site_waits = Inr (site_asks w)"
    "log_ready site_env w 700000" "net w = net (sv_web site_waits)" using site_read_step by blast
  note chain = served.step [OF served.step [OF served.step [OF served.step [OF served.step [OF served.step
    [OF site_served site_alarm_steps(1)] site_waits_step] w(1)] site_busy_steps(1)] site_busy_steps(2)] site_busy_steps(3)]
  from that [OF chain w(2,3)] show thesis .
qed

text \<open>The worker finds no such file and closes the connection.\<close>

lemma site_work:
  assumes "log_ready site_env w 700000" and "net w = net (sv_web site_waits)"
  shows "\<exists>s1. server_step site_env (Work 0) (site_busy w) = Inr s1 \<and> m_sockfd (sv_conns s1 7) = -1
    \<and> log_ready site_env (sv_web s1) 3"
proof -
  let ?c = "site_conn7\<lparr>mysql := Some 1\<rparr>" and ?s = "request_bytes get_b [] []"
  have c: "fresh ?c" "m_sockfd ?c = 7" using site_conn7_fresh by simp_all
  have lg: "log_ready site_env w (2 * length [] + 2 + 3)" using assms(1) by (rule log_ready_mono) simp
  obtain w' d where d: "log_ready site_env w' 3" "same_but_log w w'"
    "process_read site_env (with_bytes ?s ?c) w = Inr (file_code site_env (file_of ''/b.html''),
       opened site_env (file_of ''/b.html'') d, w')" "m_sockfd d = 7"
    by (rule process_read_plain [OF c(1) get_b_fits(1,2) lg get_b_fits(3)]) (simp, metis c(2))
  have "file_code site_env (file_of ''/b.html'') = NO_RESOURCE"
    using get_b_fits(4) by (simp add: file_code_def site_env_def)
  then have p: "process site_env (site_asked\<lparr>mysql := Some 1\<rparr>) w
      = (let (c, w) = close_conn True (opened site_env (file_of ''/b.html'') d) w' in Inr (c, modfd (m_sockfd c) EV_OUT w))"
    using d(3) by (simp add: process_def process_write_def site_asked_def with_bytes_mysql split: prod.split)
  define c2 where "c2 = (opened site_env (file_of ''/b.html'') d)\<lparr>m_sockfd := -1\<rparr>"
  define w2 where "w2 = modfd (-1) EV_OUT ((removefd 7 w')\<lparr>m_user_count := m_user_count w' - 1\<rparr>)"
  have "process site_env (site_asked\<lparr>mysql := Some 1\<rparr>) w = Inr (c2, w2)"
    unfolding p using d(4) by (simp add: close_conn_def c2_def w2_def removefd_def close_fd3_def Let_def)
  moreover have "log_ready site_env w2 3"
    by (subst log_ready_cong [of _ w']) (simp_all add: w2_def modfd_def removefd_def close_fd3_def d(1))
  moreover have "mysql (site_asked\<lparr>mysql := Some 1\<rparr>) = Some 1" by simp
  ultimately show ?thesis
    by (simp add: server_step_def site_busy_def site_accepted_def site_server_def run_request_def connectionRAII_def
        GetConnection_def sem_wait_def pool_take_def connectionRAII_end_def ReleaseConnection_def pool_put_def
        numeral_eq_Suc c2_def)
qed

lemma stale_timer_closes_next_client_witness:
  "\<exists>s n s1 s2 s3 s4 s5 an. served site_env site_server n s \<and> server_step site_env (Work 0) s = Inr s1
    \<and> server_step site_env (Wait [(5, EV_IN), (3, EV_IN)]) s1 = Inr s2
    \<and> server_step site_env (Handle an) s2 = Inr s3 \<and> server_step site_env (Handle an) s3 = Inr s4
    \<and> wb_flags (sv_web s4) 7 \<noteq> None \<and> an_time an = 114
    \<and> server_step site_env (Round_end 115) s4 = Inr s5 \<and> wb_flags (sv_web s5) 7 = None"
proof -
  let ?an = "\<lparr>an_accept = Accepted 7 ''10.0.0.2'', an_recv = None, an_writev = [], an_time = 114, an_new = 2\<rparr>"
  obtain w n where w: "served site_env site_server n (site_busy w)" "log_ready site_env w 700000"
    "net w = net (sv_web site_waits)" using site_busy_served by blast
  obtain s1 where s1: "server_step site_env (Work 0) (site_busy w) = Inr s1" "m_sockfd (sv_conns s1 7) = -1"
    "log_ready site_env (sv_web s1) 3" using site_work [OF w(2,3)] by blast
  have b: "\<not> sv_over (site_busy w)" "sv_batch (site_busy w) = None" "\<not> sv_stop (site_busy w)"
    "0 < length (sv_busy (site_busy w))" "sv_busy (site_busy w) ! 0 = 7" "m_sockfd (sv_conns (site_busy w) 7) \<noteq> -1"
    "timers_in (sv_timers (site_busy w)) [(1, 115, 7)]" "(1, 115, 7) \<in> set [(1, 115, 7)]"
    "word_of_int SIGALRM \<in> set (take 1024 (sv_pipe (site_busy w)))" "sv_now (site_busy w) = 100"
    "tl_heap (sv_timers (site_busy w)) 2 = None" "sv_pipefd0 (site_busy w) = 5" "sv_listenfd (site_busy w) = 3"
    "m_user_count (sv_web (site_busy w)) = 1"
    using w(3)
    by (simp_all add: site_busy_def site_accepted_def site_server_def timers_in_def SIGALRM_def net_def site_waits_def
        site_asked_def with_bytes_def site_conn7_fresh)
  have "log_ready site_env (sv_web s1) (length [(1 :: nat, 115 :: int, 7 :: nat)] + 2)" using s1(3) by (simp add: numeral_3_eq_3)
  from stale_timer_closes_next_client [OF site_main site_boot_ok w(1) b(1-5) s1(1) b(6) s1(2) b(7,8) _ b(9), of 115 ?an,
      OF _ _ _ _ _ _ _ this]
  show ?thesis using w(1) s1(1) b(10-14) by (fastforce simp: TIMESLOT_def MAX_FD_def)
qed

end
