(* ===== verification/V3_MainEvents.thy ===== *)
theory V3_MainEvents
  imports V3_MainServe V3_MainStale
begin

section \<open>version\_03: every event is handled\<close>

text \<open>
  In every state the server can reach, the connections with an open socket or with an event
  that is still to be handled are well shaped, so \<open>read_once\<close> cannot leave its buffer. With what
  holds of the timers, each reported event is handled to its end.
\<close>

subsection \<open>Connections stay well shaped\<close>

text \<open>The connections but those in \<open>X\<close>; \<open>evs\<close> are the events that are left.\<close>

definition shaped :: "nat set \<Rightarrow> server \<Rightarrow> (nat \<times> 32 word) list \<Rightarrow> bool" where
  "shaped X s evs =
     (\<forall>fd. fd \<notin> own s \<longrightarrow> fd \<notin> X \<longrightarrow> wb_flags (sv_web s) (int fd) \<noteq> None \<or> fd \<in> fst ` set evs \<longrightarrow>
        well_shaped (sv_conns s fd))"

text \<open>A step that opens no socket and leaves the connections as they are.\<close>

definition opens_none :: "server \<Rightarrow> server \<Rightarrow> bool" where
  "opens_none s s' = (own s' = own s \<and> sv_conns s' = sv_conns s
     \<and> (\<forall>fd. wb_flags (sv_web s') (int fd) \<noteq> None \<longrightarrow> wb_flags (sv_web s) (int fd) \<noteq> None))"

lemma opens_none_shaped: "opens_none s s' \<Longrightarrow> shaped X s evs \<Longrightarrow> shaped X s' evs"
  by (auto simp: opens_none_def shaped_def)

lemma opens_noneI:
  "own s' = own s \<Longrightarrow> sv_conns s' = sv_conns s \<Longrightarrow> net (sv_web s') = net (sv_web s) \<Longrightarrow> opens_none s s'"
  by (simp add: opens_none_def net_def)

lemma opens_none_trans: "opens_none s t \<Longrightarrow> opens_none t u \<Longrightarrow> opens_none s u"
  by (auto simp: opens_none_def)

lemma well_shaped_mysql [simp]: "well_shaped (c\<lparr>mysql := d\<rparr>) = well_shaped c"
  by (simp add: well_shaped_def indices_ok_def)

lemma shaped_conn:
  assumes "shaped {} s evs" and "\<And>fd'. wb_flags w (int fd') \<noteq> None \<Longrightarrow> wb_flags (sv_web s) (int fd') \<noteq> None"
    and "well_shaped (sv_conns s fd) \<Longrightarrow> well_shaped c"
  shows "shaped {} (s\<lparr>sv_conns := (sv_conns s)(fd := c), sv_web := w\<rparr>) evs"
  using assms by (fastforce simp: shaped_def own_def)

lemma end_client_shaped:
  assumes "end_client e fd s = Inr s'" and "cd_sockfd (sv_clients s fd) = int fd"
    and "fd \<notin> fst ` set evs" and "shaped {fd} s evs"
  shows "shaped {} s' evs"
proof -
  obtain w tls where w: "cb_func e (sv_clients s fd) (sv_web s) = Inr w" "s' = s\<lparr>sv_web := w, sv_timers := tls\<rparr>"
    using assms(1) by (auto simp: end_client_def Let_def bindr_eq_Inr)
  have "wb_flags w = (wb_flags (sv_web s))(int fd := None)" using cb_func_net(1) [OF w(1)] assms(2) by simp
  with assms(3,4) w(2) show ?thesis by (auto simp: shaped_def own_def split: if_splits)
qed

lemma extend_timer_opens_none: "extend_timer e fd cur s = Inr s' \<Longrightarrow> opens_none s s'"
  by (cases "cd_timer (sv_clients s fd)")
    (auto simp: extend_timer_def Let_def bindr_eq_Inr own_def opens_none_def net_def dest!: LOG_INFO_flush_net)

lemma new_client_shaped:
  assumes r: "new_client connfd ip cur a (s\<lparr>sv_web := accepted connfd (sv_web s)\<rparr>) = Inr s'" and "shaped {} s evs"
  shows "shaped {} s' evs"
proof -
  let ?w = "accepted connfd (sv_web s)"
  obtain c w where c: "http_init (int connfd) ip (sv_conns s connfd) ?w = (c, w)"
    by (cases "http_init (int connfd) ip (sv_conns s connfd) ?w")
  obtain tls where s': "s' = s\<lparr>sv_web := w, sv_conns := (sv_conns s)(connfd := c),
      sv_clients := (sv_clients s)(connfd := \<lparr>cd_address = ip, cd_sockfd = int connfd, cd_timer = Some a\<rparr>),
      sv_timers := tls\<rparr>"
    using r c by (auto simp: new_client_def bindr_eq_Inr Let_def split: if_splits)
  have "well_shaped c" using http_init_ok [of "int connfd" ip "sv_conns s connfd" ?w] c by simp
  moreover have "\<exists>z. wb_flags (sv_web s) (int x) = Some z" if "x \<noteq> connfd" "wb_flags w (int x) = Some y" for x y
    using http_init_net(4) [OF c, of "int x"] that by (auto simp: accepted_def)
  ultimately show ?thesis using assms(2) by (fastforce simp: shaped_def own_def s')
qed

lemma accept_event_shaped:
  assumes "accept_event e an s = Inr s'" and "answers_ok an s" and "shaped {} s evs"
  shows "shaped {} s' evs"
proof (cases "an_accept an")
  case (Accept_failed err)
  then have "opens_none s s'"
    using assms(1) by (auto simp: accept_event_def bindr_eq_Inr own_def opens_none_def net_def dest!: write_log_now_net)
  then show ?thesis using assms(3) by (rule opens_none_shaped)
next
  case (Accepted connfd ip)
  show ?thesis
  proof (cases "m_user_count (sv_web s) \<ge> int MAX_FD")
    case True
    then obtain w where w: "write_log_now e 3 ''Internal server busy''
        (show_error connfd ''Internal server busy'' (accepted connfd (sv_web s))) = Inr w" "s' = s\<lparr>sv_web := w\<rparr>"
      using assms(1) Accepted by (auto simp: accept_event_def bindr_eq_Inr accepted_def)
    have "opens_none s s'"
      using write_log_now_net [OF w(1)] w(2)
      by (auto simp: opens_none_def own_def net_def show_error_def accepted_def close_fd3_def split: if_splits)
    then show ?thesis using assms(3) by (rule opens_none_shaped)
  next
    case False
    then show ?thesis
      using new_client_shaped [OF _ assms(3)] assms(1) Accepted by (simp add: accept_event_def accepted_def)
  qed
qed

lemma signal_event_opens_none: "opens_none s (signal_event s)"
proof -
  have "sv_web (fold take_signal l s) = sv_web s \<and> sv_conns (fold take_signal l s) = sv_conns s
      \<and> own (fold take_signal l s) = own s" for l s
    by (induction l arbitrary: s) (auto simp: take_signal_def own_def)
  then show ?thesis by (simp add: signal_event_def opens_none_def own_def)
qed

lemma read_event_shaped:
  assumes i: "inv n s xs evs" and g: "guarded (timer_of s) xs fd" and new: "fd \<notin> fst ` set evs"
    and r: "read_event e fd an s = Inr s'" and w: "well_shaped (sv_conns s fd)" and sh: "shaped {} s evs"
  shows "shaped {} s' evs"
proof -
  obtain ok c where c: "read_once (an_recv an) (sv_conns s fd) = Inr (ok, c)" "read_left (sv_conns s fd) ok c"
    using read_once_shaped [OF w] by blast
  let ?s = "s\<lparr>sv_conns := (sv_conns s)(fd := c)\<rparr>"
  show ?thesis
  proof (cases ok)
    case False
    have "shaped {fd} ?s evs" using sh by (auto simp: shaped_def own_def)
    moreover have "end_client e fd ?s = Inr s'" using r c(1) False by (simp add: read_event_def)
    ultimately show ?thesis using end_client_shaped [of e fd ?s s' evs] inv_guarded(2) [OF i g] new by simp
  next
    case True
    then have "shaped {} ?s evs" using sh c(2) by (auto simp: shaped_def own_def read_left_def)
    moreover obtain v b q where v: "LOG_INFO_flush e (''deal with the client('' @ m_address c @ '')'') (sv_web s) = Inr v"
      "append_request (Some fd) (sv_pool s) = Inr (b, q)"
      "extend_timer e fd (an_time an) (?s\<lparr>sv_web := v, sv_pool := q\<rparr>) = Inr s'"
      using r c True by (auto simp: read_event_def bindr_eq_Inr Let_def)
    moreover have "opens_none ?s (?s\<lparr>sv_web := v, sv_pool := q\<rparr>)"
      using LOG_INFO_flush_net [OF v(1)] by (intro opens_noneI) (simp_all add: own_def)
    ultimately show ?thesis
      using opens_none_trans [OF _ extend_timer_opens_none [OF v(3)]] opens_none_shaped by blast
  qed
qed

lemma write_event_shaped:
  assumes i: "inv n s xs evs" and g: "guarded (timer_of s) xs fd" and new: "fd \<notin> fst ` set evs"
    and r: "write_event e fd an s = Inr s'" and w: "well_shaped (sv_conns s fd)" and sh: "shaped {} s evs"
  shows "shaped {} s' evs"
proof -
  obtain ok c v where c: "http_write (an_writev an) (sv_conns s fd) (sv_web s) = Inr (Some ok, c, v)"
    using r by (auto simp: write_event_def Let_def bindr_eq_Inr split: option.splits)
  let ?s = "s\<lparr>sv_conns := (sv_conns s)(fd := c), sv_web := v\<rparr>"
  have f: "wb_flags v = wb_flags (sv_web s)" using http_write_net [OF c] by (simp add: keeps_socket_def)
  have "well_shaped c" using postD [OF http_write_ok [OF w] c] by simp
  then have s: "shaped {} ?s evs" using f by (intro shaped_conn [OF sh]) simp_all
  show ?thesis
  proof (cases ok)
    case False
    then have "end_client e fd ?s = Inr s'" using r c by (simp add: write_event_def Let_def)
    moreover have "shaped {fd} ?s evs" using s by (auto simp: shaped_def)
    ultimately show ?thesis using end_client_shaped [of e fd ?s s' evs] inv_guarded(2) [OF i g] new by simp
  next
    case True
    then obtain u where u: "LOG_INFO_flush e (''send data to the client('' @ m_address c @ '')'') v = Inr u"
      "extend_timer e fd (an_time an) (?s\<lparr>sv_web := u\<rparr>) = Inr s'"
      using r c by (auto simp: write_event_def bindr_eq_Inr Let_def)
    have "opens_none ?s (?s\<lparr>sv_web := u\<rparr>)"
      using LOG_INFO_flush_net [OF u(1)] by (intro opens_noneI) (simp_all add: own_def)
    from opens_none_trans [OF this extend_timer_opens_none [OF u(2)]] s show ?thesis by (rule opens_none_shaped)
  qed
qed

lemma handle_event3_shaped:
  assumes i: "inv n s xs (ev # evs)" and ok: "answers_ok an s" and r: "handle_event3 e ev an s = Inr s'"
    and sh: "shaped {} s (ev # evs)"
  shows "shaped {} s' evs"
proof -
  obtain fd events where ev: "ev = (fd, events)" by (cases ev)
  have i': "inv n s xs evs" and new: "fd \<notin> fst ` set evs" and e: "event_ok s xs (fd, events)"
    using i ev by (auto simp: inv_def batch_ok_def)
  have s': "shaped {} s evs" using sh by (auto simp: shaped_def)
  consider "fd = sv_listenfd s" | "fd = sv_pipefd0 s" "events = EV_IN" "fd \<noteq> sv_listenfd s"
    | "guarded (timer_of s) xs fd" "fd \<notin> own s" using e by (auto simp: event_ok_def)
  then show ?thesis
  proof cases
    case 1
    then show ?thesis using accept_event_shaped [OF _ ok s'] r ev by (simp add: handle_event3_def)
  next
    case 2
    then have "s' = signal_event s" using r ev
      by (simp add: handle_event3_def EV_IN_def EV_RDHUP_def EV_HUP_def EV_ERR_def)
    then show ?thesis using opens_none_shaped [OF signal_event_opens_none s'] by simp
  next
    case 3
    have o: "fd \<noteq> sv_listenfd s" "fd \<noteq> sv_pipefd0 s" using 3(2) by (auto simp: own_def)
    have w: "well_shaped (sv_conns s fd)" using sh 3(2) ev by (auto simp: shaped_def)
    have "end_client e fd s = Inr s' \<or> read_event e fd an s = Inr s' \<or> write_event e fd an s = Inr s' \<or> s' = s"
      using r ev o by (auto simp: handle_event3_def split: if_splits)
    then show ?thesis
    proof (elim disjE)
      assume "end_client e fd s = Inr s'"
      moreover have "shaped {fd} s evs" using s' by (auto simp: shaped_def)
      ultimately show ?thesis using end_client_shaped inv_guarded(2) [OF i' 3(1)] new by blast
    next
      assume "read_event e fd an s = Inr s'"
      then show ?thesis by (rule read_event_shaped [OF i' 3(1) new _ w s'])
    next
      assume "write_event e fd an s = Inr s'"
      then show ?thesis by (rule write_event_shaped [OF i' 3(1) new _ w s'])
    qed (use s' in simp)
  qed
qed

lemma timer_handler_shaped:
  assumes i: "inv n s xs evs" and r: "timer_handler e cur s = Inr s'" and sh: "shaped {} s []"
  shows "shaped {} s' []"
proof (cases "tl_head (sv_timers s) = None")
  case True
  then have "s' = s\<lparr>sv_alarm := True\<rparr>" using r by (simp add: timer_handler_def)
  with sh show ?thesis by (simp add: shaped_def own_def)
next
  case False
  have h: "timers_held (sv_timers s) xs" "\<forall>x\<in>set xs. timer_ok s x" using i by (simp_all add: inv_def timers_ok_def)
  obtain q' us where q': "returned (tick cur (sv_timers s)) = Inr (us, q')"
    "us = map user (filter (\<lambda>x. expire x \<le> cur) xs)"
    using tls.guarded_expired [OF h(1), of cur "timer_of s"] by blast
  obtain w1 w where w: "LOG_INFO_flush e ''timer tick'' (sv_web s) = Inr w1"
    "fire_all e (sv_clients s) us w1 = Inr w" "s' = s\<lparr>sv_web := w, sv_timers := q', sv_alarm := True\<rparr>"
    using r False q'(1) by (auto simp: timer_handler_def bindr_eq_Inr)
  have "\<forall>u\<in>set us. cd_sockfd (sv_clients s u) = int u" using h(2) q'(2) by (auto simp: timer_ok_def)
  then have "wb_flags w (int fd) = (if fd \<in> set us then None else wb_flags (sv_web s) (int fd))" for fd
    using fire_all_net [OF w(2)] LOG_INFO_flush_net [OF w(1)] by (simp add: net_def)
  then have "opens_none s s'" by (simp add: opens_none_def own_def w(3))
  then show ?thesis using sh by (rule opens_none_shaped)
qed

lemma run_request_shaped:
  assumes "run_request e i s = Inr s'" and "shaped {} s evs"
  shows "shaped {} s' evs"
proof -
  obtain con c w p where p: "process e ((sv_conns s i)\<lparr>mysql := con\<rparr>) (sv_web s) = Inr (c, w)"
    "s' = (s\<lparr>sv_conns := (sv_conns s)(i := c), sv_web := w\<rparr>)\<lparr>sv_dbs := p\<rparr>"
    using assms(1) by (auto simp: run_request_def connectionRAII_def bindr_eq_Inr)
  have f: "wb_flags (sv_web s) x \<noteq> None" if "wb_flags w x \<noteq> None" for x
    using process_net [OF p(1)] that by (auto simp: keeps_socket_def gives_up_def split: if_splits)
  have "well_shaped (sv_conns s i) \<Longrightarrow> well_shaped c" using postD [OF process_ok p(1)] by simp
  with f have "shaped {} (s\<lparr>sv_conns := (sv_conns s)(i := c), sv_web := w\<rparr>) evs"
    by (intro shaped_conn [OF assms(2)]) blast+
  then show ?thesis by (simp add: p(2) shaped_def own_def)
qed

abbreviation events_left :: "server \<Rightarrow> (nat \<times> 32 word) list" where
  "events_left s \<equiv> (case sv_batch s of None \<Rightarrow> [] | Some evs \<Rightarrow> evs)"

lemma server_step_shaped:
  assumes ok: "server_ok n s xs" and r: "server_step e st s = Inr s'" and run: "\<not> sv_over s'"
    and sh: "shaped {} s (events_left s)"
  shows "shaped {} s' (events_left s')"
proof -
  have o: "\<not> sv_over s" using r by (rule over_stays)
  show ?thesis
  proof (cases st)
    case (Signal sig)
    then have "s' = sig_handler sig (s\<lparr>sv_alarm := (if sig = SIGALRM then False else sv_alarm s)\<rparr>)"
      using r o by (auto simp: server_step_def split: if_splits)
    then have "opens_none s s'" "sv_batch s' = sv_batch s" by (simp_all add: sig_handler_def opens_none_def own_def)
    then show ?thesis using opens_none_shaped [of s s' "{}"] sh by simp
  next
    case (Wait evs)
    then have w: "s' = s\<lparr>sv_batch := Some evs, sv_web := reported evs (sv_web s)\<rparr>" "list_all (reportable s) evs"
      using r o by (auto simp: server_step_def split: if_splits)
    then have "wb_flags (sv_web s) (int fd) \<noteq> None" if "fd \<in> fst ` set evs" for fd
      using that by (auto simp: list_all_iff reportable_def)
    then show ?thesis using sh w(1) by (auto simp: shaped_def own_def)
  next
    case (Wait_failed err)
    then show ?thesis using r o run by (auto simp: server_step_def server_end_def Let_def bindr_eq_Inr split: if_splits)
  next
    case (Handle an)
    then obtain ev evs where b: "sv_batch s = Some (ev # evs)" "answers_ok an s"
      "handle_event3 e ev an (s\<lparr>sv_batch := Some evs, sv_now := an_time an\<rparr>) = Inr s'"
      using r o by (auto simp: server_step_def split: option.splits list.splits if_splits)
    let ?s = "s\<lparr>sv_batch := Some evs, sv_now := an_time an\<rparr>"
    have "inv n (s\<lparr>sv_batch := Some evs\<rparr>) xs (ev # evs)" using ok b(1) inv_batch(2) by (simp add: server_ok_def)
    then have i: "inv n ?s xs (ev # evs)" using inv_now [of n "s\<lparr>sv_batch := Some evs\<rparr>"] b(2) by (simp add: answers_ok_def)
    have an: "answers_ok an ?s" using b(2) by (simp add: answers_ok_def split: accept_ans.splits)
    have "shaped {} ?s (ev # evs)" using sh b(1) by (simp add: shaped_def own_def)
    from handle_event3_shaped [OF i an b(3) this] show ?thesis
      using handle_event3_inv [OF i an _ b(3)] by auto
  next
    case (Round_end cur)
    then obtain t where t: "sv_batch s = Some []" "sv_now s \<le> cur"
      "(if sv_timeout s then timer_handler e cur (s\<lparr>sv_now := cur\<rparr>) else Inr (s\<lparr>sv_now := cur\<rparr>)) = Inr t"
      "s' = t\<lparr>sv_timeout := False, sv_batch := None\<rparr>"
      using r o by (auto simp: server_step_def bindr_eq_Inr Let_def split: if_splits)
    have i: "inv n (s\<lparr>sv_now := cur\<rparr>) xs []" using ok t(1,2) inv_now by (simp add: server_ok_def)
    have "shaped {} (s\<lparr>sv_now := cur\<rparr>) []" using sh t(1) by (simp add: shaped_def own_def)
    then have "shaped {} t []" using timer_handler_shaped [OF i] t(3) by (auto split: if_splits)
    then show ?thesis by (simp add: t(4) shaped_def own_def)
  next
    case Take
    then have t: "take_request s = Inr s'" using r o by (simp add: server_step_def)
    obtain x q where "wait_and_take (sv_pool s) = Inr (x, q)"
      using t by (auto simp: take_request_def bindr_eq_Inr)
    then have "s' = s\<lparr>sv_pool := q\<rparr> \<or> (\<exists>i. s' = s\<lparr>sv_pool := q, sv_busy := sv_busy s @ [i]\<rparr>)"
      using t by (cases x; cases "the x") (auto simp: take_request_def)
    then have "opens_none s s'" "sv_batch s' = sv_batch s" by (auto simp: opens_none_def own_def)
    then show ?thesis using opens_none_shaped [of s s' "{}"] sh by simp
  next
    case (Work k)
    let ?s = "s\<lparr>sv_busy := take k (sv_busy s) @ drop (Suc k) (sv_busy s)\<rparr>"
    have k: "run_request e (sv_busy s ! k) ?s = Inr s'"
      using r o Work by (auto simp: server_step_def split: if_splits)
    then have "sv_batch s' = sv_batch s" by (auto simp: run_request_def bindr_eq_Inr)
    moreover have "shaped {} ?s (events_left s)" using sh by (simp add: shaped_def own_def)
    ultimately show ?thesis using run_request_shaped [OF k] by simp
  next
    case Stop
    then show ?thesis using r o run by (auto simp: server_step_def server_end_def Let_def split: if_splits)
  qed
qed

lemma served_shaped:
  assumes "served e s0 n s" and "server_ok 0 s0 []" and "\<not> sv_over s"
  shows "shaped {} s (events_left s)"
  using assms
proof (induction rule: served.induct)
  case (started s)
  then have "open_guarded s []" "batch_ok s [] (events_left s)" by (simp_all add: server_ok_def inv_def)
  then show ?case by (fastforce simp: shaped_def open_guarded_def batch_ok_def event_ok_def guarded_def own_def)
next
  case (step s n t st u)
  have "\<not> sv_over t" using step.hyps(2) by (rule over_stays)
  with step show ?case using served_ok [OF step.hyps(1) step.prems(1)] server_step_shaped [OF _ step.hyps(2)] by blast
qed

subsection \<open>Calls of \<open>write\<close> that end\<close>

text \<open>
  What the kernel answers a call of \<open>write\<close> so that it ends, given how far the answer has got:
  there is nothing to send; of an answer with a file the header goes out at once, and then
  everything is taken or \<open>writev\<close> would block or fails; a page goes out at once, or \<open>writev\<close>
  would block or fails.
\<close>

definition kernel_stops :: "writev_ans list \<Rightarrow> bool" where
  "kernel_stops as = (case as of a # _ \<Rightarrow> a \<in> {W_again, W_error} | [] \<Rightarrow> False)"

definition write_ends :: "writev_ans list \<Rightarrow> http_conn \<Rightarrow> bool" where
  "write_ends as c =
     (bytes_to_send c = 0
      \<or> (\<exists>h f j ks rest. writing h f j c \<and> as = map W_took ks @ rest \<and> (ks \<noteq> [] \<longrightarrow> j = 0 \<longrightarrow> length h \<le> hd ks)
          \<and> (length h + length f \<le> j + sum_list ks \<or> kernel_stops rest))
      \<or> (\<exists>p. page_waits p c \<and> (kernel_stops as \<or> (\<exists>n rest. as = W_took n # rest \<and> length p \<le> n))))"

lemma write_loop_stops:
  assumes "kernel_stops as" and "writev_bytes c = Inr bs"
  shows "\<exists>ok c' w'. write_loop as c w = Inr (Some ok, c', w')"
  using assms by (cases as) (auto simp: kernel_stops_def)

lemma page_bytes: "page_waits p c \<Longrightarrow> writev_bytes c = Inr p"
  by (auto simp: page_waits_def writev_bytes_def iov_bytes_def slice_def)

lemma write_returns:
  assumes "write_ends as c"
  shows "\<exists>ok c' w'. http_write as c w = Inr (Some ok, c', w')"
proof (cases "bytes_to_send c = 0")
  case True
  then show ?thesis by (auto simp: http_write_def)
next
  case False
  have "\<exists>ok c' w'. write_loop as c w = Inr (Some ok, c', w')"
  proof -
    from assms False consider
      (answer) h f j ks rest where "writing h f j c" "as = map W_took ks @ rest" "ks \<noteq> [] \<longrightarrow> j = 0 \<longrightarrow> length h \<le> hd ks"
        "length h + length f \<le> j + sum_list ks \<or> kernel_stops rest"
    | (page) p where "page_waits p c" "kernel_stops as \<or> (\<exists>n rest. as = W_took n # rest \<and> length p \<le> n)"
      unfolding write_ends_def by blast
    then show ?thesis
    proof cases
      case answer
      show ?thesis
      proof (cases "j + sum_list ks < length h + length f")
        case True
        then obtain c1 w1 where c1: "write_loop as c w = write_loop rest c1 w1" "writing h f (j + sum_list ks) c1"
          using write_pieces [OF answer(1,3), of rest w] answer(2) by auto
        then show ?thesis using write_loop_stops [OF _ writing_bytes [OF c1(2)]] answer(4) True by auto
      next
        case False
        then show ?thesis using write_pieces [OF answer(1,3), of rest w] answer(2) by (auto simp: answer_out_def)
      qed
    next
      case page
      note b = page_bytes [OF page(1)]
      show ?thesis
      proof (cases "kernel_stops as")
        case True
        then show ?thesis by (rule write_loop_stops [OF _ b])
      next
        case False
        then obtain n rest where n: "as = W_took n # rest" "length p \<le> n" using page(2) by blast
        have "bytes_to_send (advance_iov (int (length p)) c) \<le> 0" using page(1) by (simp add: advance_iov_def page_waits_def Let_def)
        then show ?thesis using b n by (cases "m_linger (unmap (advance_iov (int (length p)) c))") (auto simp: Let_def min_absorb2)
      qed
    qed
  qed
  with False show ?thesis by (simp add: http_write_def)
qed

subsection \<open>Every event\<close>

text \<open>The events on which the loop calls \<open>write\<close>.\<close>

definition calls_write :: "32 word \<Rightarrow> bool" where
  "calls_write events =
     (and events (or EV_RDHUP (or EV_HUP EV_ERR)) = 0 \<and> and events EV_IN = 0 \<and> and events EV_OUT \<noteq> 0)"

text \<open>
  C39. Every event that is reported is handled to its end. In any state the server of
  version\_03 can reach, with room in the log of the day, handling the first event that is left
  returns and leaves the others: no pointer to a timer is null or dangling when it is followed,
  no loop over the timers runs on, and \<open>read_once\<close> stays within its buffer, whatever arrives.
  What it needs is what is not in its hands: a descriptor within \<open>MAX_FD\<close> and an \<open>errno\<close> from
  \<open>accept\<close>, the text of an address from \<open>inet_ntoa\<close>, and, where it calls \<open>write\<close>, that the
  mapped file has the length \<open>stat\<close> gave and that the kernel does not cut the header or the page
  (\<open>write_ends\<close>); a page that is cut can make \<open>write\<close> go on for ever (\<open>V3_HttpSend\<close>).
\<close>

theorem events_are_handled:
  assumes "main3 e bt = Inr (Serving s0)" and "boot_ok bt" and "served e s0 n s" and "\<not> sv_over s"
    and "sv_batch s = Some ((fd, events) # evs)" and "answers_ok an s" and "log_ready e (sv_web s) 2"
    and "\<forall>c ip. an_accept an = Accepted c ip \<longrightarrow> c < MAX_FD"
    and "\<forall>c. an_accept an = Accept_failed c \<longrightarrow> 0 \<le> c \<and> c < 10000"
    and "fd \<notin> own s \<longrightarrow> in_addr (m_address (sv_conns s fd))"
    and "fd \<notin> own s \<and> calls_write events \<longrightarrow> write_ends (an_writev an) (sv_conns s fd)"
  shows "\<exists>s'. server_step e (Handle an) s = Inr s' \<and> sv_batch s' = Some evs"
proof -
  note ok0 = main3_ok(1) [OF assms(1,2)]
  obtain xs where "inv n s xs ((fd, events) # evs)"
    using served_ok [OF assms(3) ok0 assms(4)] assms(5) by (auto simp: server_ok_def)
  then have b: "inv n (s\<lparr>sv_batch := Some evs\<rparr>) xs ((fd, events) # evs)" by (rule inv_batch)
  let ?s = "s\<lparr>sv_batch := Some evs, sv_now := an_time an\<rparr>"
  from b have i: "inv n ?s xs ((fd, events) # evs)"
    using inv_now [of n "s\<lparr>sv_batch := Some evs\<rparr>"] assms(6) by (simp add: answers_ok_def)
  then have i': "inv n ?s xs evs" and e: "event_ok ?s xs (fd, events)" by (auto simp: inv_def batch_ok_def)
  have an: "answers_ok an ?s" using assms(6) by (simp add: answers_ok_def split: accept_ans.splits)
  have l: "log_ready e (sv_web ?s) (Suc 1)" using assms(7) by (simp add: numeral_2_eq_2)
  have own: "own ?s = own s" by (simp add: own_def)
  have "\<exists>s'. handle_event3 e (fd, events) an ?s = Inr s'"
  proof (cases "fd \<in> own s")
    case True
    then have "fd = sv_listenfd s \<or> fd = sv_pipefd0 s \<and> events = EV_IN" using e own by (auto simp: event_ok_def)
    then show ?thesis
      using accept_event_returns [OF i' an l] assms(8,9)
      by (cases "fd = sv_listenfd s") (auto simp: handle_event3_def EV_IN_def EV_RDHUP_def EV_HUP_def EV_ERR_def)
  next
    case False
    then have g: "guarded (timer_of ?s) xs fd" using e own by (auto simp: event_ok_def own_def)
    have m: "fd < MAX_FD" using inv_guarded(3) [OF i g] .
    have o: "fd \<noteq> sv_listenfd s" "fd \<noteq> sv_pipefd0 s" using False by (auto simp: own_def)
    have io: "in_addr (m_address (sv_conns ?s fd))" using assms(10) False by simp
    have "well_shaped (sv_conns s fd)"
      using served_shaped [OF assms(3) ok0 assms(4)] assms(5) False by (simp add: shaped_def)
    then obtain ok c where "read_once (an_recv an) (sv_conns ?s fd) = Inr (ok, c)"
      using read_once_shaped [of "sv_conns s fd" "an_recv an"] by auto
    then have "\<exists>s'. read_event e fd an ?s = Inr s'"
      by (intro read_event_returns [OF i' g _ _ io]) (use assms(7) in simp_all)
    moreover have "\<exists>s'. end_client e fd ?s = Inr s'" by (rule end_client_returns [OF i' g l])
    moreover have "\<exists>s'. write_event e fd an ?s = Inr s'" if cw: "calls_write events"
    proof -
      obtain ok c w where "http_write (an_writev an) (sv_conns ?s fd) (sv_web ?s) = Inr (Some ok, c, w)"
        using write_returns [of "an_writev an" "sv_conns s fd" "sv_web s"] assms(11) False cw by auto
      then show ?thesis by (intro write_event_returns [OF i' g _ _ io]) (use assms(7) in simp_all)
    qed
    ultimately show ?thesis using m o by (simp add: handle_event3_def calls_write_def)
  qed
  then obtain s' where s': "handle_event3 e (fd, events) an ?s = Inr s'" by blast
  moreover have "sv_batch s' = Some evs" using handle_event3_inv [OF i an _ s'] by auto
  ultimately show ?thesis using assms(4-6) by (simp add: server_step_def)
qed

subsection \<open>The small server\<close>

text \<open>The state in which the answer to a client of the small server waits for its socket.\<close>

lemma site_prepared:
  obtains s n where "served site_env site_server n s" and "idle s" and "client_at 7 EV_OUT s" and "sv_now s = 101"
    and "writing (ok_header 5 True) ''hello'' 0 (sv_conns s 7)" and "m_address (sv_conns s 7) = ''10.0.0.1''"
    and "log_ready site_env (sv_web s) 2"
proof -
  let ?st = "\<lparr>st_mode = 0x81A4, st_size = 5\<rparr>"
  have f: "en_stat site_env (file_of ''/a.html'') = Some ?st" "en_open site_env (file_of ''/a.html'') = Some ''hello''"
    by (simp_all add: site_env_def get_a_means)
  have 1: "idle site_server" by (simp add: idle_def site_server_def)
  have 2: "file_code site_env (file_of ''/a.html'') = FILE_REQUEST"
    using f by (simp add: file_code_def S_IROTH_def S_ISDIR_def)
  have 3: "log_ready site_env (sv_web site_server) (2 * length a_headers + 10)"
    by (rule site_log_ready) (simp add: a_headers_def)
  have 4: "small_file ?st" by (simp add: small_file_def)
  obtain s v where s: "server_run site_env (asking_steps (sv_listenfd site_server) 7 ''10.0.0.1'' 1
      (request_bytes get_a a_headers []) 100 101) site_server = Inr s" "idle s"
    "prepared site_env 7 (ok_header (st_size ?st) (linger_of a_headers)) ''hello'' (linger_of a_headers) ''10.0.0.1'' v
      (sv_conns s 7) (sv_web s)" "client_at 7 EV_OUT s" "sv_now s = 101"
    by (rule client_is_prepared [OF site_main site_boot_ok served.started 1, where timer = 1 and ip = "''10.0.0.1''"
          and fd = 7 and ?t1.0 = 100 and ?t2.0 = 101 and line = get_a and hs = a_headers and body = "[]" and t = "''/a.html''"
          and st = ?st and f = "''hello''"])
      (use f get_a_fits 2 3 4 in \<open>simp_all add: get_a_means site_server_def MAX_FD_def in_addr_def\<close>)
  obtain n where "served site_env site_server n s" using server_run_served [OF s(1) served.started] by blast
  then show ?thesis using that s(2-5) by (simp add: prepared_def get_a_means)
qed

text \<open>
  A request arrives at the connection of the small server, its client hangs up, and the answer
  to a client is taken by its socket; each has its timer in the list.
\<close>

lemma events_are_handled_witness:
  "(\<exists>s'. server_step site_env (Handle site_reads) site_waits = Inr s' \<and> sv_batch s' = Some [])
    \<and> (\<exists>s'. server_step site_env (Handle (site_reads\<lparr>an_recv := None\<rparr>)) site_waits = Inr s' \<and> sv_batch s' = Some [])
    \<and> (\<exists>s n s'. served site_env site_server n s \<and> sv_batch s = Some [(7, EV_OUT)]
        \<and> server_step site_env (Handle (takes 1000 102)) s = Inr s' \<and> sv_batch s' = Some [])"
proof -
  note handled = events_are_handled [OF site_main site_boot_ok]
  have ev: "\<not> calls_write EV_IN" by (simp add: calls_write_def EV_IN_def)
  have w: "served site_env site_server 0 site_waits"
    using served.step [OF served.step [OF site_served site_alarm_steps(1)] site_waits_step] by (simp add: closings_def)
  have wl: "log_ready site_env (sv_web site_waits) 2"
    by (subst log_ready_cong [of _ "sv_web site_server"]) (simp_all add: site_waits_def site_accepted_def site_log_ready)
  have f: "\<not> sv_over site_waits" "sv_batch site_waits = Some [(7, EV_IN)]" "sv_now site_waits = 100"
    "in_addr (m_address (sv_conns site_waits 7))"
    by (simp_all add: site_waits_def site_accepted_def site_server_def site_conn7_fresh in_addr_def)
  have an: "answers_ok site_reads site_waits" "answers_ok (site_reads\<lparr>an_recv := None\<rparr>) site_waits"
    using f(3) by (simp_all add: answers_ok_def site_reads_def)
  have 1: "\<exists>s'. server_step site_env (Handle site_reads) site_waits = Inr s' \<and> sv_batch s' = Some []"
    by (rule handled [OF w f(1,2) an(1) wl]) (use f(4) ev in \<open>simp_all add: site_reads_def\<close>)
  have 2: "\<exists>s'. server_step site_env (Handle (site_reads\<lparr>an_recv := None\<rparr>)) site_waits = Inr s' \<and> sv_batch s' = Some []"
    by (rule handled [OF w f(1,2) an(2) wl]) (use f(4) ev in \<open>simp_all add: site_reads_def\<close>)
  obtain s n where s: "served site_env site_server n s" "idle s" "client_at 7 EV_OUT s" "sv_now s = 101"
    "writing (ok_header 5 True) ''hello'' 0 (sv_conns s 7)" "m_address (sv_conns s 7) = ''10.0.0.1''"
    "log_ready site_env (sv_web s) 2" by (rule site_prepared)
  obtain m xs where i: "inv m s xs []" using idle_inv [OF site_main site_boot_ok s(1,2)] by blast
  let ?s = "s\<lparr>sv_batch := Some [(7, EV_OUT)], sv_web := reported [(7, EV_OUT)] (sv_web s)\<rparr>"
  have "server_step site_env (Wait [(7, EV_OUT)]) s = Inr ?s"
    using s(2) client_reportable [OF i s(3)] by (simp add: server_step_def idle_def MAX_EVENT_NUMBER_def)
  from served.step [OF s(1) this] have sv: "served site_env site_server n ?s" by (simp add: closings_def)
  have "log_ready site_env (sv_web ?s) 2" by (subst log_ready_cong [of _ "sv_web s"]) (simp_all add: s(7))
  moreover have "write_ends (an_writev (takes 1000 102)) (sv_conns s 7)"
  proof -
    have "length (ok_header 5 True) + length ''hello'' \<le> 1000" by code_simp
    then show ?thesis using s(5) unfolding write_ends_def takes_def
      by (intro disjI2 disjI1 exI [of _ "ok_header 5 True"] exI [of _ "''hello''"] exI [of _ 0] exI [of _ "[1000]"] exI [of _ "[]"])
        simp
  qed
  moreover have "answers_ok (takes 1000 102) ?s" using s(4) by (simp add: answers_ok_def takes_def)
  moreover have "in_addr (m_address (sv_conns s 7))" unfolding s(6) by (simp add: in_addr_def)
  moreover have "\<not> sv_over ?s" "\<exists>c. an_accept (takes 1000 102) = Accept_failed c \<and> c = 11"
    using s(2) by (simp_all add: idle_def takes_def)
  ultimately have "\<exists>s'. server_step site_env (Handle (takes 1000 102)) ?s = Inr s' \<and> sv_batch s' = Some []"
    by (intro handled [OF sv]) auto
  moreover have "sv_batch ?s = Some [(7, EV_OUT)]" by simp
  ultimately show ?thesis using 1 2 sv by blast
qed

end
