(* ===== verification/Spec2Isabelle.thy ===== *)
theory Spec2Isabelle
  imports V1_Server V2_Server V3_BlockQueue V3_ThreadPool V3_Timer V3_LogThread V3_HttpStuck
    V3_HttpEdge V3_MainEvents
begin

text \<open>
  TinyHTTP is three web servers, each a rewrite of the one before. This development models
  their C and C++ code and proves what each part guarantees, and where it does not.

  \<^bold>\<open>The programs.\<close> version\_01/httpd.c accepts a connection, starts a thread for it and
  answers one request with a file or with the output of a CGI program. version\_02/bin is a
  pool of worker threads, each with its own epoll descriptor: the main thread hands accepted
  sockets to the workers in turn, a worker parses a request when its socket is readable and
  answers it when it is writable, and a log thread writes the messages the others append to
  a list. version\_03 is one thread that dispatches events, signals and timers, a pool of
  workers that process HTTP connections with a pool of database connections, and a logger that
  writes to its file at once or through a blocking queue and a thread of its own.

  \<^bold>\<open>How the code is modelled.\<close> A function that can leave the defined behaviour of C, wait for
  ever or end the process is a function into \<open>'a res\<close> (theory \<open>Prelude\<close>): \<open>Inl\<close> of a fault
  or \<open>Inr\<close> of its results and of the state it leaves. Arrays are lists of fixed length and
  every access checks its index; the contents of a local array before its first write are a
  parameter (\<open>stack\<close> in \<open>Cstring\<close>), because several functions read what earlier calls left.
  Writing one element past a member array of a struct counts as a fault although the next
  member may absorb it. A pointer into a buffer is an index, \<open>NULL\<close> is \<open>None\<close>, a pointer to a
  node is an address in a heap. Integers are \<open>int\<close> where the code does not depend on their width,
  words where it does (the \<open>size_t\<close> result of \<open>recv\<close>, event masks, \<open>unsigned int\<close> counters, file modes).
  System calls and third-party programs are parameters: what a call returns is a field of a
  record the handlers take (\<open>answers\<close>, \<open>boot\<close>, \<open>env\<close> in version\_03), a CGI program is a
  function, the contents of files are maps. The interest lists of epoll and the state of
  mutexes, semaphores and condition variables are modelled as their manual
  pages describe them. Concurrency is a step relation whose steps are what a thread does
  between two points where another can run; a critical section is one step.

  \<^bold>\<open>Shared theories.\<close>
  \<^item> \<open>Prelude\<close>, \<open>Cstring\<close>: results and faults, lists; arrays, C strings and the library
    functions the sources call, with the decimal round trip.
  \<^item> \<open>Fifo\<close>: the contract of a queue (\<open>fifo\<close>) and of one with a bound (\<open>bounded_fifo\<close>), with
    the first-in first-out law for any sequence of operations. Interpreted on the log list of
    version\_02, on \<open>block_queue\<close> and on the queue of the thread pool.

  \<^bold>\<open>Theories of version\_01.\<close>
  \<^item> \<open>V1_Line\<close>: \<open>get_line\<close>, which makes the CR LF at the end of a line one LF, and the loops that drop headers.
    \<open>V1_Pages\<close>: the fixed pages, \<open>headers\<close>, \<open>cat\<close>, \<open>server_file\<close>. \<open>V1_Cgi\<close>: \<open>execute_cgi\<close>, both processes.
    \<open>V1_Request\<close>: \<open>accept_request\<close>.
  \<^item> \<open>V1_Spec\<close>: an abstract request server and the proof that
    \<open>accept_request\<close> implements it, with the answers spelled out. \<open>V1_Server\<close>: \<open>startup\<close> and
    the accept loop with its threads, which share one variable.

  \<^bold>\<open>Theories of version\_02.\<close>
  \<^item> \<open>V2_Config\<close>: \<open>init_conf\<close>. \<open>V2_Log\<close>: the message list in a heap and \<open>push_log\<close>.
    \<open>V2_LogWork\<close>: workers and log thread interleaved; what the log thread writes.
  \<^item> \<open>V2_Epoll\<close>: epoll.c, and the contract of a registry of sockets (\<open>event_registry\<close>).
    \<open>V2_Request\<close>: handle\_request.c. \<open>V2_Serve\<close>: the invariant of the connections and the
    parser. \<open>V2_Answer\<close>: the answers, and a request from its first byte to its answer.
    \<open>V2_Server\<close>: http.c and the whole server as a relation.

  \<^bold>\<open>Theories of version\_03.\<close>
  \<^item> \<open>V3_Lock\<close>: lock.h. \<open>V3_BlockQueue\<close>: log/block\_queue.h. \<open>V3_Pools\<close>:
    CGImysql, the database connection pool. \<open>V3_ThreadPool\<close>: threadpool.h. \<open>V3_Timer\<close>:
    timer/lst\_timer.h, a doubly linked list in a heap against a sorted list, and what main.cpp
    relies on of it (\<open>timer_queue\<close>).
  \<^item> The logger, log/log.h and log.cpp. \<open>V3_Log\<close>: the code. \<open>V3_LogSpec\<close>: runs of calls, with
    and without the log thread. \<open>V3_LogThread\<close>: any number of writers and the log thread
    interleaved, asleep and woken through the condition variable of the queue.
  \<^item> The connection, http/http\_conn.h and http\_conn.cpp. The code: \<open>V3_HttpConn\<close> (members, epoll
    wrappers, \<open>init\<close>, \<open>read_once\<close>, \<open>parse_line\<close>), \<open>V3_HttpParse\<close> (the three parsers), \<open>V3_HttpFile\<close>
    (\<open>do_request\<close>), \<open>V3_HttpRead\<close> (\<open>process_read\<close>), \<open>V3_HttpWrite\<close> (\<open>process_write\<close>, \<open>write\<close>,
    \<open>process\<close>). The reader: \<open>V3_HttpSafe\<close> (request line), \<open>V3_HttpHeader\<close>, \<open>V3_HttpGet\<close> (whole
    requests), \<open>V3_HttpLine\<close> and \<open>V3_HttpChunk\<close> (requests that come in pieces), \<open>V3_HttpTarget\<close>
    (which file a target means), \<open>V3_HttpForm\<close> and \<open>V3_HttpPost\<close> (registration and login). The
    answer: \<open>V3_HttpAnswer\<close>, \<open>V3_HttpSend\<close> (\<open>write\<close> over partial \<open>writev\<close>s), \<open>V3_HttpServe\<close> (a GET
    from bytes to bytes), \<open>V3_HttpRefuse\<close> (error pages and silence), \<open>V3_HttpStuck\<close> (bodies never
    recognised). \<open>V3_HttpEdge\<close>: the edge triggered \<open>read_once\<close>. \<open>V3_HttpShape\<close> and \<open>V3_HttpNet\<close>: what every operation keeps.
  \<^item> The server, main.cpp. \<open>V3_Main\<close>: the code. \<open>V3_MainInv\<close>, \<open>V3_MainRun\<close>: the invariant, for the
    handlers and for every step. \<open>V3_MainStart\<close>: what \<open>main\<close> sets up. \<open>V3_MainTurn\<close>: alarms, handlers
    that return, and timeouts. \<open>V3_MainServe\<close>: a client from its connection to its page.
    \<open>V3_MainStale\<close>: a timer that outlives its connection. \<open>V3_MainEvents\<close>: the connections of
    every reachable state are well shaped, and each reported event is handled.

  \<^bold>\<open>State and operations.\<close> The structs are records with the fields of the source
  (\<open>http_request\<close>, \<open>conf_http_t\<close>, \<open>msglog\<close>, \<open>log_thread\<close>, \<open>block_queue\<close>,
  \<open>connection_pool\<close>, \<open>threadpool\<close>, \<open>util_timer\<close>, \<open>sort_timer_lst\<close>, \<open>client_data\<close>, \<open>http_conn\<close>,
  \<open>logger\<close>). \<open>srv\<close> gathers what the handlers of version\_02 share (allocated requests, open
  sockets, interest lists, what was sent, the log). In version\_03 \<open>web\<close> is what the connections
  share (descriptors and interest list, what was sent, \<open>users\<close> and its mutex, the statements given
  to MySQL, the log), and \<open>server\<close> adds the arrays \<open>users\<close> and \<open>users_timer\<close> of main.cpp
  (\<open>sv_conns\<close>, \<open>sv_clients\<close>), the timer list, the two pools, the requests in the hands of workers,
  the pipe of the signal handler and the events of the turn. \<open>server_step\<close> is one step of any of
  its threads and of the kernel; \<open>served\<close> is a run of such steps and counts the connections that
  workers closed; \<open>server_run\<close> is a given one. \<open>log_system\<close> is the logger with its threads.
  Operations have the names of the functions; those with a second version
  carry a suffix or prefix (\<open>startup2\<close>, \<open>append_request\<close>, \<open>http_init\<close>, \<open>main3\<close>), as do the methods
  of \<open>block_queue\<close>. The body of the event loop of main.cpp is cut into one handler for each branch
  (\<open>accept_event\<close>, \<open>signal_event\<close>, \<open>read_event\<close>, \<open>write_event\<close>).

  \<^bold>\<open>What is shown.\<close> For version\_01: line reading on every branch, the refinement of the
  abstract server by \<open>accept_request\<close>, the answers to each kind of request, which paths leave
  the socket open, where the fixed arrays overflow, and the accept loop with a prompt
  scheduler and with any: which connection a thread can get, and how one is lost for ever. For version\_02: the configuration round trip and its failures, the
  log list as a queue under concurrency and what really reaches the log file, the invariant
  of the registrations for every reachable state of the server, the parser, the answers, and
  the cases a client can use to leave defined behaviour. For version\_03: the queue, the pools
  and the timer list, each against its specification and under interleaving; the log file as the
  list of the lines written, and where a line is lost or overtaken; the request line
  parser against a function on strings; that it does not matter how the bytes up to the empty
  line that ends a header are cut into pieces; a GET and a form from their bytes to the answer; the answer sent over any cuts, and
  the cut at which \<open>write\<close> goes wrong; that reading, cutting
  lines and writing the answer never leave the arrays of a connection; that in every reachable
  state each open client has its timer in a sorted list, every event is handled to its end if
  the kernel does not cut a header or a page, alarms go on and a timeout closes exactly the expired
  connections; and a client served through all parts at once.

  \<^bold>\<open>Bounds and termination.\<close> No fuel is used. Loops over a buffer end because the index grows
  towards the length of the array (a measure), loops over an input because it shrinks; the
  loops over linked lists are partial functions whose results are proved to exist on
  well-formed lists. Repeated handlers run over the list of what the system calls return.
  The properties of whole requests take as a hypothesis that the logger has its file and room for
  the lines (\<open>log_ready\<close>), in number and in length; the lengths that fit the fixed buffers are in
  \<open>request_fits\<close> and \<open>in_addr\<close>. \<open>boot_ok\<close> is that the system grants what \<open>main\<close> asks for.

  \<^bold>\<open>Not modelled.\<close> Code that is not compiled: the edge triggered branches other than that of
  \<open>read_once\<close>, and the ASYNLOG line of main.cpp (the asynchronous logger itself is). Failing mutex and
  condition variable calls of version\_02; a failing wait or post in version\_03. What a worker does with a
  connection between taking it and being done is one step, so the unlocked accesses of two
  workers, or of a worker and the main thread, to \<open>users\<close>, \<open>m_user_count\<close> and \<open>m_sockfd\<close> do not
  interleave. The signal handler's \<open>send\<close> always finds room
  in the pipe, and the clock does not go back. The freeing of memory, except where later code
  depends on it (nodes of the log list and of the timer list); destructors that only give
  memory or pthread objects back. MySQL, but for the NULL connection that
  \<open>mysql_query\<close> cannot follow, the CGI programs and the kernel beyond the calls above. Pages, build files and kept log files hold no program logic.
\<close>

end
